(* ===== verification/Prelude.thy ===== *)
theory Prelude
  imports Main "HOL-Library.Word" "HOL-Library.Sublist" "HOL-Library.List_Lexorder"
begin

text \<open>
  Shared vocabulary of the development: machine integers and byte strings, the
  big-endian integer encodings every on-disk and on-wire format of the
  repository uses (\<open>to_be_bytes\<close>/\<open>from_be_bytes\<close> of the standard library),
  fallible reads over a remaining input, and the interface of a
  self-delimiting code, with the facts that follow from it once for every
  field, list of fields and record of the formats.
\<close>

section \<open>Types\<close>

type_synonym byte = "8 word"
type_synonym bytes = "byte list"
type_synonym u16 = "16 word"
type_synonym u32 = "32 word"
type_synonym u64 = "64 word"

text \<open>The largest values of the unsigned types, all bits set.\<close>

abbreviation U32_MAX :: u32 where "U32_MAX \<equiv> - 1"
abbreviation U64_MAX :: u64 where "U64_MAX \<equiv> - 1"

text \<open>A key-value binding of an ordered map, in key order.\<close>

type_synonym 'v rows = "(bytes \<times> 'v) list"

named_theorems codec_simps \<open>how the readers act on encoded input\<close>
named_theorems codec_dests \<open>what a successful read says about its input\<close>

section \<open>Lists\<close>

lemma sorted_wrt_last: "sorted_wrt P xs \<Longrightarrow> x \<in> set xs \<Longrightarrow> x = last xs \<or> P x (last xs)"
  by (induction xs) auto

text \<open>\<open>Iterator::rposition\<close>.\<close>

fun rposition :: "('a \<Rightarrow> bool) \<Rightarrow> 'a list \<Rightarrow> nat option" where
  "rposition P [] = None"
| "rposition P (x # xs) =
     (case rposition P xs of Some i \<Rightarrow> Some (Suc i) | None \<Rightarrow> if P x then Some 0 else None)"

lemma rposition_Some: "rposition P xs = Some i \<Longrightarrow> i < length xs \<and> P (xs ! i)"
  by (induction xs arbitrary: i) (auto split: option.splits if_splits)

lemma rposition_None: "rposition P xs = None \<longleftrightarrow> (\<forall>x \<in> set xs. \<not> P x)"
  by (induction xs) (auto split: option.splits)

lemma rposition_append:
  "rposition P (xs @ ys) =
     (case rposition P ys of Some i \<Rightarrow> Some (length xs + i) | None \<Rightarrow> rposition P xs)"
  by (induction xs) (auto split: option.splits)

section \<open>Big-endian integers\<close>

fun be_bytes :: "nat \<Rightarrow> nat \<Rightarrow> bytes" where
  "be_bytes 0 n = []"
| "be_bytes (Suc k) n = be_bytes k (n div 256) @ [word_of_nat n]"

definition of_be :: "bytes \<Rightarrow> nat" where
  "of_be bs = foldl (\<lambda>acc b. acc * 256 + unat b) 0 bs"

lemma be_bytes_numeral:
  "be_bytes (numeral k) n = be_bytes (pred_numeral k) (n div 256) @ [word_of_nat n]"
  by (metis be_bytes.simps(2) numeral_eq_Suc)

lemma length_be_bytes [simp]: "length (be_bytes k n) = k"
  by (induction k arbitrary: n) auto

lemma of_be_Nil [simp]: "of_be [] = 0"
  by (simp add: of_be_def)

lemma of_be_snoc [simp]: "of_be (bs @ [b]) = of_be bs * 256 + unat b"
  by (simp add: of_be_def)

lemma unat_byte_less [simp]: "unat (b :: byte) < 256"
  using unsigned_less[of b, where ?'a = nat] by simp

lemma unat_word_of_nat_byte [simp]: "unat (word_of_nat n :: byte) = n mod 256"
  by (simp add: unat_of_nat)

lemma of_be_be_bytes_mod: "of_be (be_bytes k n) = n mod 256 ^ k"
proof (induction k arbitrary: n)
  case (Suc k)
  have "n mod (256 * 256 ^ k) = 256 * (n div 256 mod 256 ^ k) + n mod 256"
    by (rule mod_mult2_eq)
  then show ?case by (simp add: Suc)
qed simp

lemma of_be_be_bytes [simp]: "n < 256 ^ k \<Longrightarrow> of_be (be_bytes k n) = n"
  by (simp add: of_be_be_bytes_mod)

lemma of_be_less: "of_be bs < 256 ^ length bs"
proof (induction bs rule: rev_induct)
  case (snoc b bs)
  have "of_be bs * 256 + unat b < (of_be bs + 1) * 256"
    by (simp add: algebra_simps)
  also have "\<dots> \<le> 256 ^ length bs * 256"
    using snoc by (intro mult_right_mono) auto
  finally show ?case by simp
qed simp

lemma be_bytes_of_be [simp]: "be_bytes (length bs) (of_be bs) = bs"
proof (induction bs rule: rev_induct)
  case (snoc b bs)
  have "unat (word_of_nat (of_be bs * 256 + unat b) :: byte) = unat b"
    by (simp only: unat_word_of_nat_byte) simp
  then have "word_of_nat (of_be bs * 256 + unat b) = b"
    by (simp only: unsigned_word_eqI)
  then show ?case using snoc by simp
qed simp

lemma be_bytes_of_be_length: "length bs = k \<Longrightarrow> be_bytes k (of_be bs) = bs"
  by (metis be_bytes_of_be)

lemma of_be_inject: "length bs = length cs \<Longrightarrow> of_be bs = of_be cs \<longleftrightarrow> bs = cs"
  by (metis be_bytes_of_be)

lemma be_bytes_inject:
  "m < 256 ^ k \<Longrightarrow> n < 256 ^ k \<Longrightarrow> be_bytes k m = be_bytes k n \<longleftrightarrow> m = n"
  by (metis of_be_be_bytes)

text \<open>The byte order of the encodings is the numeric order of what they encode.\<close>

lemma of_be_Cons: "of_be (b # bs) = unat b * 256 ^ length bs + of_be bs"
proof (induction bs rule: rev_induct)
  case (snoc c bs)
  then show ?case
    using of_be_snoc[of "b # bs" c] by (simp add: algebra_simps)
qed (simp add: of_be_def)

lemma of_be_less_iff:
  "length bs = length cs \<Longrightarrow> of_be bs < of_be cs \<longleftrightarrow> bs < cs"
proof (induction bs cs rule: list_induct2)
  case (Cons b bs c cs)
  have lt: "of_be bs < 256 ^ length cs" "of_be cs < 256 ^ length cs"
    using of_be_less[of bs] of_be_less[of cs] Cons.hyps by simp_all
  have step: "x * 256 ^ length cs + s < y * 256 ^ length cs + t"
    if "x < y" "s < 256 ^ length cs" for x y s t :: nat
  proof -
    have "x * 256 ^ length cs + s < (x + 1) * 256 ^ length cs"
      using that by (simp add: algebra_simps)
    also have "\<dots> \<le> y * 256 ^ length cs"
      using that by (intro mult_right_mono) auto
    finally show ?thesis by simp
  qed
  consider "b < c" | "b = c" | "c < b" by force
  then show ?case
  proof cases
    case 1
    then have "unat b < unat c" by (simp add: word_less_nat_alt)
    with 1 lt Cons.hyps show ?thesis by (auto simp: of_be_Cons intro!: step)
  next
    case 2
    with Cons show ?thesis by (simp add: of_be_Cons)
  next
    case 3
    then have "unat c < unat b" by (simp add: word_less_nat_alt)
    then have "of_be (c # cs) < of_be (b # bs)"
      using lt Cons.hyps by (auto simp: of_be_Cons intro!: step)
    with 3 show ?thesis by auto
  qed
qed simp

section \<open>Encoded machine integers\<close>

definition u16_to_be :: "u16 \<Rightarrow> bytes" where "u16_to_be w = be_bytes 2 (unat w)"
definition u32_to_be :: "u32 \<Rightarrow> bytes" where "u32_to_be w = be_bytes 4 (unat w)"
definition u64_to_be :: "u64 \<Rightarrow> bytes" where "u64_to_be w = be_bytes 8 (unat w)"

definition u16_of_be :: "bytes \<Rightarrow> u16" where "u16_of_be bs = word_of_nat (of_be bs)"
definition u32_of_be :: "bytes \<Rightarrow> u32" where "u32_of_be bs = word_of_nat (of_be bs)"
definition u64_of_be :: "bytes \<Rightarrow> u64" where "u64_of_be bs = word_of_nat (of_be bs)"

lemmas to_be_defs = u16_to_be_def u32_to_be_def u64_to_be_def
lemmas of_be_defs = u16_of_be_def u32_of_be_def u64_of_be_def

lemma length_to_be [simp]:
  "length (u16_to_be a) = 2" "length (u32_to_be b) = 4" "length (u64_to_be c) = 8"
  by (simp_all add: to_be_defs)

lemma unat_word_bounds:
  "unat (a :: u16) < 256 ^ 2" "unat (b :: u32) < 256 ^ 4" "unat (c :: u64) < 256 ^ 8"
  using unsigned_less[of a, where ?'a = nat] unsigned_less[of b, where ?'a = nat]
    unsigned_less[of c, where ?'a = nat] by simp_all

lemma of_be_to_be [simp]:
  "u16_of_be (u16_to_be a) = a" "u32_of_be (u32_to_be b) = b" "u64_of_be (u64_to_be c) = c"
  using unat_word_bounds(1)[of a] unat_word_bounds(2)[of b] unat_word_bounds(3)[of c]
  by (simp_all add: to_be_defs of_be_defs)

lemma to_be_of_be:
  "length bs = 2 \<Longrightarrow> u16_to_be (u16_of_be bs) = bs"
  "length bs = 4 \<Longrightarrow> u32_to_be (u32_of_be bs) = bs"
  "length bs = 8 \<Longrightarrow> u64_to_be (u64_of_be bs) = bs"
  using of_be_less[of bs] be_bytes_of_be_length[of bs]
  by (auto simp: to_be_defs of_be_defs unat_of_nat)

lemma to_be_inject [simp]:
  "u16_to_be a = u16_to_be a' \<longleftrightarrow> a = a'"
  "u32_to_be b = u32_to_be b' \<longleftrightarrow> b = b'"
  "u64_to_be c = u64_to_be c' \<longleftrightarrow> c = c'"
  by (metis of_be_to_be)+

lemma u64_to_be_less: "u64_to_be a < u64_to_be b \<longleftrightarrow> a < b"
  using of_be_less_iff[of "u64_to_be a" "u64_to_be b"] unat_word_bounds(3)[of a]
    unat_word_bounds(3)[of b]
  by (simp add: to_be_defs word_less_nat_alt)

lemma u32_to_be_less: "u32_to_be a < u32_to_be b \<longleftrightarrow> a < b"
  using of_be_less_iff[of "u32_to_be a" "u32_to_be b"] unat_word_bounds(2)[of a]
    unat_word_bounds(2)[of b]
  by (simp add: to_be_defs word_less_nat_alt)

lemma unat_word_of_nat_u32: "n < 2 ^ 32 \<Longrightarrow> unat (word_of_nat n :: u32) = n"
  by (simp add: unat_of_nat)

lemma unat_word_of_nat_u16: "n < 2 ^ 16 \<Longrightarrow> unat (word_of_nat n :: u16) = n"
  by (simp add: unat_of_nat)

lemma unat_u32_less [simp]: "unat (n :: u32) < 4294967296"
  using unsigned_less[of n, where ?'a = nat] by simp

text \<open>The fixed-offset accessors \<open>read_u16\<close>, \<open>read_u32\<close> and \<open>read_u64\<close> of the storage files.\<close>

definition bslice :: "bytes \<Rightarrow> nat \<Rightarrow> nat \<Rightarrow> bytes" where
  "bslice bs offset len = take len (drop offset bs)"

lemma length_bslice [simp]: "length (bslice bs off n) = min n (length bs - off)"
  by (simp add: bslice_def)

lemma bslice_append_left: "off + n \<le> length xs \<Longrightarrow> bslice (xs @ ys) off n = bslice xs off n"
  by (simp add: bslice_def)

lemma bslice_within: "b + m \<le> n \<Longrightarrow> bslice (bslice p a n) b m = bslice p (a + b) m"
  by (simp add: bslice_def drop_take min_def add.commute)

lemma bslice_append_right: "length xs \<le> off \<Longrightarrow> bslice (xs @ ys) off n = bslice ys (off - length xs) n"
  by (simp add: bslice_def)

lemma bslice_exact: "off = 0 \<Longrightarrow> n = length xs \<Longrightarrow> bslice (xs @ ys) off n = xs"
  by (simp add: bslice_def)

lemma bslice_whole: "off = 0 \<Longrightarrow> n = length xs \<Longrightarrow> bslice xs off n = xs"
  by (simp add: bslice_def)

lemma bslice_0 [simp]: "bslice s 0 n = take n s"
  by (simp add: bslice_def)

lemma bslice_Cons [simp]:
  "bslice (x # s) (Suc off) n = bslice s off n"
  "bslice (x # s) (numeral m) n = bslice s (pred_numeral m) n"
  by (simp_all add: bslice_def)

lemma drop_bslice: "drop off s = bslice s off n @ drop (off + n) s"
  by (metis add.commute append_take_drop_id bslice_def drop_drop)

lemmas bslice_simps = bslice_append_right bslice_exact bslice_whole

section \<open>UTF-8\<close>

text \<open>
  A Rust \<open>String\<close> is its UTF-8 bytes; \<open>utf8_valid\<close> is the acceptance test of
  \<open>String::from_utf8\<close> (the well-formed byte sequences of the Unicode standard).
\<close>

type_synonym rstring = bytes

definition between :: "byte \<Rightarrow> byte \<Rightarrow> byte \<Rightarrow> bool" where
  "between lo hi b \<longleftrightarrow> lo \<le> b \<and> b \<le> hi"

fun utf8_valid :: "bytes \<Rightarrow> bool" where
  "utf8_valid [] = True"
| "utf8_valid (a # s) =
     (if a < 0x80 then utf8_valid s
      else if between 0xC2 0xDF a then
        (case s of b # t \<Rightarrow> between 0x80 0xBF b \<and> utf8_valid t | _ \<Rightarrow> False)
      else if between 0xE0 0xEF a then
        (case s of b # c # t \<Rightarrow>
           between (if a = 0xE0 then 0xA0 else 0x80) (if a = 0xED then 0x9F else 0xBF) b \<and>
           between 0x80 0xBF c \<and> utf8_valid t | _ \<Rightarrow> False)
      else if between 0xF0 0xF4 a then
        (case s of b # c # d # t \<Rightarrow>
           between (if a = 0xF0 then 0x90 else 0x80) (if a = 0xF4 then 0x8F else 0xBF) b \<and>
           between 0x80 0xBF c \<and> between 0x80 0xBF d \<and> utf8_valid t | _ \<Rightarrow> False)
      else False)"

declare utf8_valid.simps(2) [simp del]

lemma utf8_valid_ascii: "list_all (\<lambda>b. b < 0x80) s \<Longrightarrow> utf8_valid s"
  by (induction s) (auto simp: utf8_valid.simps(2))

section \<open>Decimal numbers in messages\<close>

text \<open>\<open>{}\<close> of an unsigned integer in a format string.\<close>

fun show_nat :: "nat \<Rightarrow> string" where
  "show_nat n = (if n < 10 then [char_of (48 + n)] else show_nat (n div 10) @ [char_of (48 + n mod 10)])"

declare show_nat.simps [simp del]

section \<open>Reading from a remaining input\<close>

text \<open>
  A reader consumes a prefix of its input and returns the value with what is
  left, or fails.  \<open>pbind\<close> is the \<open>?\<close> of the source between two reads.
\<close>

type_synonym ('e, 'a) reader = "bytes \<Rightarrow> 'e + ('a \<times> bytes)"

definition preturn :: "'a \<Rightarrow> ('e, 'a) reader" where
  "preturn x s = Inr (x, s)"

definition pfail :: "'e \<Rightarrow> ('e, 'a) reader" where
  "pfail e s = Inl e"

definition pbind :: "('e, 'a) reader \<Rightarrow> ('a \<Rightarrow> ('e, 'b) reader) \<Rightarrow> ('e, 'b) reader" where
  "pbind p f s = (case p s of Inl e \<Rightarrow> Inl e | Inr (x, r) \<Rightarrow> f x r)"

lemma pbind_Inr [codec_simps]: "p s = Inr (x, r) \<Longrightarrow> pbind p f s = f x r"
  by (simp add: pbind_def)

lemma pbind_Inl [codec_simps]: "p s = Inl e \<Longrightarrow> pbind p f s = Inl e"
  by (simp add: pbind_def)

declare preturn_def [codec_simps] pfail_def [codec_simps]

lemma pbindE:
  assumes "pbind p f s = Inr (y, t)"
  obtains x r where "p s = Inr (x, r)" "f x r = Inr (y, t)"
  using assms by (auto simp: pbind_def split: sum.splits)

lemma preturnE:
  assumes "preturn x s = Inr (y, t)"
  obtains "y = x" "t = s"
  using assms by (auto simp: preturn_def)

text \<open>The \<open>?\<close> of the source between two fallible steps without an input.\<close>

definition ebind :: "'e + 'a \<Rightarrow> ('a \<Rightarrow> 'e + 'b) \<Rightarrow> 'e + 'b" where
  "ebind r f = (case r of Inl e \<Rightarrow> Inl e | Inr x \<Rightarrow> f x)"

lemma ebind_simps [simp]: "ebind (Inl e) f = Inl e" "ebind (Inr x) f = f x"
  by (simp_all add: ebind_def)

lemma ebind_Inr_iff: "ebind r f = Inr y \<longleftrightarrow> (\<exists>x. r = Inr x \<and> f x = Inr y)"
  by (cases r) auto

text \<open>A check that fails with the given error.\<close>

definition ensure :: "bool \<Rightarrow> 'e \<Rightarrow> 'e + unit" where
  "ensure c e = (if c then Inr () else Inl e)"

lemma ensure_simps [simp]: "ensure True e = Inr ()" "ensure False e = Inl e"
  "ensure c e = Inr u \<longleftrightarrow> c"
  by (simp_all add: ensure_def)

text \<open>A counted loop of reads, as in \<open>for _ in 0..count\<close>.\<close>

fun get_many :: "nat \<Rightarrow> ('e, 'a) reader \<Rightarrow> ('e, 'a list) reader" where
  "get_many 0 p s = Inr ([], s)"
| "get_many (Suc n) p s =
     (case p s of
        Inl e \<Rightarrow> Inl e
      | Inr (x, r) \<Rightarrow>
         (case get_many n p r of
            Inl e \<Rightarrow> Inl e
          | Inr (xs, t) \<Rightarrow> Inr (x # xs, t)))"

section \<open>The interface of a self-delimiting code\<close>

text \<open>
  What a field of a format promises: the reader undoes the writer in front of
  any further input.  From it follow, once, that no encoding is a prefix of
  another, and that counted sequences are read back.
\<close>

locale prefix_code =
  fixes enc :: "'a \<Rightarrow> bytes"
    and dec :: "('e, 'a) reader"
    and ok :: "'a \<Rightarrow> bool"
  assumes dec_enc: "ok x \<Longrightarrow> dec (enc x @ r) = Inr (x, r)"
begin

lemma dec_enc_Nil: "ok x \<Longrightarrow> dec (enc x) = Inr (x, [])"
  using dec_enc[of x "[]"] by simp

lemma enc_append_inject:
  assumes "ok x" "ok y" "enc x @ r = enc y @ s"
  shows "x = y \<and> r = s"
  by (metis Pair_inject assms dec_enc sum.inject(2))

lemma enc_inject: "ok x \<Longrightarrow> ok y \<Longrightarrow> enc x = enc y \<Longrightarrow> x = y"
  using enc_append_inject[of x y "[]" "[]"] by simp

lemma enc_prefix_free: "ok x \<Longrightarrow> ok y \<Longrightarrow> prefix (enc x) (enc y) \<Longrightarrow> x = y"
  using enc_append_inject[of y x "[]"] by (auto simp: prefix_def)

lemma get_many_enc:
  "list_all ok xs \<Longrightarrow> get_many (length xs) dec (concat (map enc xs) @ r) = Inr (xs, r)"
  by (induction xs) (auto simp: dec_enc)

end

text \<open>
  A canonical code also accepts nothing but encodings, so a successful read
  determines the bytes it consumed.
\<close>

locale canonical_code = prefix_code enc dec ok
  for enc :: "'a \<Rightarrow> bytes" and dec :: "('e, 'a) reader" and ok :: "'a \<Rightarrow> bool" +
  assumes dec_sound: "dec s = Inr (x, r) \<Longrightarrow> ok x \<and> s = enc x @ r"
begin

lemma dec_iff: "dec s = Inr (x, r) \<longleftrightarrow> ok x \<and> s = enc x @ r"
  by (metis dec_sound dec_enc)

lemma get_many_sound:
  "get_many n dec s = Inr (xs, r) \<Longrightarrow>
     length xs = n \<and> list_all ok xs \<and> s = concat (map enc xs) @ r"
proof (induction n arbitrary: s xs r)
  case (Suc n)
  then obtain x s' ys where "dec s = Inr (x, s')" "get_many n dec s' = Inr (ys, r)" "xs = x # ys"
    by (auto split: sum.splits)
  moreover from this(1) have "ok x \<and> s = enc x @ s'" by (rule dec_sound)
  moreover from calculation(2) have "length ys = n \<and> list_all ok ys \<and> s' = concat (map enc ys) @ r"
    by (rule Suc.IH)
  ultimately show ?case by simp
qed simp

end

text \<open>Two fields in a row form a field again.\<close>

locale pair_code =
  a: canonical_code enc1 dec1 ok1 + b: canonical_code enc2 dec2 ok2
  for enc1 :: "'a \<Rightarrow> bytes" and dec1 :: "('e, 'a) reader" and ok1
    and enc2 :: "'b \<Rightarrow> bytes" and dec2 :: "('e, 'b) reader" and ok2
begin

lemma pair_canonical:
  "canonical_code (\<lambda>(x, y). enc1 x @ enc2 y)
     (pbind dec1 (\<lambda>x. pbind dec2 (\<lambda>y. preturn (x, y))))
     (\<lambda>(x, y). ok1 x \<and> ok2 y)"
proof
  fix z :: "'a \<times> 'b" and r
  assume "case z of (x, y) \<Rightarrow> ok1 x \<and> ok2 y"
  then show "pbind dec1 (\<lambda>x. pbind dec2 (\<lambda>y. preturn (x, y)))
      ((case z of (x, y) \<Rightarrow> enc1 x @ enc2 y) @ r) = Inr (z, r)"
    by (auto simp: pbind_def preturn_def a.dec_enc b.dec_enc)
next
  fix z :: "'a \<times> 'b" and s r
  assume "pbind dec1 (\<lambda>x. pbind dec2 (\<lambda>y. preturn (x, y))) s = Inr (z, r)"
  then show "(case z of (x, y) \<Rightarrow> ok1 x \<and> ok2 y) \<and> s = (case z of (x, y) \<Rightarrow> enc1 x @ enc2 y) @ r"
    by (auto elim!: pbindE preturnE dest!: a.dec_sound b.dec_sound)
qed

end

end
