(* ===== verification/Protocol.thy ===== *)
theory Protocol
  imports Prelude
begin

text \<open>
  The binary wire protocol, \<open>crates/vyrn-protocol/src/lib.rs\<close>: the \<open>Message\<close> enum,
  its encoder and decoder with every field limit and every error, the envelope
  and the frame codec around the third-party length-delimited framing (a
  parameter).  The lemmas show that every field is a canonical code, that a
  message within the decoder's counts is read back exactly, and that the
  decoder accepts nothing but encodings of such messages.
\<close>

section \<open>Limits, messages and errors\<close>

definition PROTOCOL_VERSION :: u16 where "PROTOCOL_VERSION = 6"
definition MAX_FRAME_SIZE :: nat where "MAX_FRAME_SIZE = 64 * 1024 * 1024"
definition MAX_SCAN_LIMIT :: nat where "MAX_SCAN_LIMIT = 10000"
definition MAX_DOCUMENT_INDEXES :: nat where "MAX_DOCUMENT_INDEXES = 256"
definition MAX_AUTH_FIELD :: nat where "MAX_AUTH_FIELD = 4 * 1024"
definition MAX_DOCUMENT_NAME :: nat where "MAX_DOCUMENT_NAME = 4 * 1024"
definition MAX_CURSOR :: nat where "MAX_CURSOR = 64"
definition MAX_ERROR_MESSAGE :: nat where "MAX_ERROR_MESSAGE = 64 * 1024"
definition MAX_REPLICA_ID :: nat where "MAX_REPLICA_ID = 256"
definition MAX_REPLICA_RECORDS :: nat where "MAX_REPLICA_RECORDS = 4096"
definition MAX_REPLICA_RECORD :: nat where "MAX_REPLICA_RECORD = 32 * 1024 * 1024"

lemmas limit_defs = MAX_FRAME_SIZE_def MAX_SCAN_LIMIT_def MAX_DOCUMENT_INDEXES_def
  MAX_AUTH_FIELD_def MAX_DOCUMENT_NAME_def MAX_CURSOR_def MAX_ERROR_MESSAGE_def
  MAX_REPLICA_ID_def MAX_REPLICA_RECORDS_def MAX_REPLICA_RECORD_def

datatype field_limit =
  AuthField | DocumentName | Cursor | ErrorMessage | ReplicaId | ReplicaRecord | Opaque

fun maximum :: "field_limit \<Rightarrow> nat" where
  "maximum AuthField = MAX_AUTH_FIELD"
| "maximum DocumentName = MAX_DOCUMENT_NAME"
| "maximum Cursor = MAX_CURSOR"
| "maximum ErrorMessage = MAX_ERROR_MESSAGE"
| "maximum ReplicaId = MAX_REPLICA_ID"
| "maximum ReplicaRecord = MAX_REPLICA_RECORD"
| "maximum Opaque = MAX_FRAME_SIZE"

fun label :: "field_limit \<Rightarrow> string" where
  "label AuthField = ''authentication field''"
| "label DocumentName = ''document name''"
| "label Cursor = ''cursor''"
| "label ErrorMessage = ''error message''"
| "label ReplicaId = ''replica identifier''"
| "label ReplicaRecord = ''replication record''"
| "label Opaque = ''byte field''"

record document_index =
  di_field :: rstring
  di_unique :: bool

datatype error_code =
  AuthenticationFailed | InvalidRequest | UnsupportedVersion | Conflict | Storage | Internal

datatype codec_error =
    CodecIo string
  | Malformed string
  | FieldTooLong (ftl_field: string) (ftl_found: nat) (ftl_maximum: nat)
  | VersionMismatch u16

datatype (plugins only: size) message =
    Authenticate rstring rstring rstring
  | Get bytes
  | MultiGet "bytes list"
  | Put bytes bytes
  | Delete bytes
  | Scan "bytes option" "bytes option" u32
  | Subscribe bytes
  | SubscribeFrom bytes "rstring option"
  | SubscribeCollectionFrom rstring "rstring option"
  | Begin | Commit | Rollback
  | CreateIndex bytes bool
  | DropIndex bytes
  | IndexUpdate bytes bytes "bytes option" "bytes option"
  | IndexLookup bytes bytes u32
  | CreateCollection rstring "document_index list"
  | GetDocument rstring rstring
  | PutDocument rstring rstring bytes
  | DeleteDocument rstring rstring
  | ListDocuments rstring u32
  | QueryDocuments rstring rstring bytes u32
  | SubscribeCollection rstring
  | Authenticated
  | Value "bytes option"
  | Values "bytes option list"
  | Written
  | Deleted bool
  | Rows "(bytes \<times> bytes) list"
  | Subscribed | Begun | Committed | RolledBack | IndexCreated | IndexDropped | IndexUpdated
  | Keys "bytes list"
  | CollectionCreated
  | DocumentValue "bytes option"
  | DocumentWritten
  | DocumentDeleted bool
  | Documents "(rstring \<times> bytes) list"
  | CollectionSubscribed
  | DocumentChange u64 rstring "bytes option"
  | Change u64 bytes "bytes option"
  | CursorChange rstring bytes "bytes option"
  | CursorDocumentChange rstring rstring rstring "bytes option"
  | Caught rstring
  | ReplicaHello rstring u64 rstring
  | ReplicaStream u64
  | ReplicaRecords "bytes list"
  | ReplicaAck u64
  | ReplicaDiverged rstring
  | PrimaryEpoch u64
  | VoteRequest u64 u64
  | VoteResponse bool u64
  | Error error_code rstring

record envelope =
  env_version :: u16
  env_request_id :: u64
  env_message :: message

definition envelope_new :: "u64 \<Rightarrow> message \<Rightarrow> envelope" where
  "envelope_new request_id m =
     \<lparr>env_version = PROTOCOL_VERSION, env_request_id = request_id, env_message = m\<rparr>"

section \<open>Writing fields\<close>

text \<open>
  A writer returns the bytes it appends to the output buffer; \<open>cat\<close> runs
  writers in order and stops at the first error, as \<open>?\<close> does.
\<close>

fun cat :: "(codec_error + bytes) list \<Rightarrow> codec_error + bytes" where
  "cat [] = Inr []"
| "cat (Inl e # ws) = Inl e"
| "cat (Inr b # ws) = (case cat ws of Inl e \<Rightarrow> Inl e | Inr bs \<Rightarrow> Inr (b @ bs))"

definition put_u8 :: "byte \<Rightarrow> codec_error + bytes" where "put_u8 b = Inr [b]"
definition put_u32 :: "u32 \<Rightarrow> codec_error + bytes" where "put_u32 w = Inr (u32_to_be w)"
definition put_u64 :: "u64 \<Rightarrow> codec_error + bytes" where "put_u64 w = Inr (u64_to_be w)"

definition u8_of_bool :: "bool \<Rightarrow> byte" where "u8_of_bool b = (if b then 1 else 0)"

text \<open>The checked conversion of a length to \<open>u32\<close>, with the error it names.\<close>

definition put_count :: "nat \<Rightarrow> string \<Rightarrow> codec_error + bytes" where
  "put_count n msg = (if n < 2 ^ 32 then put_u32 (word_of_nat n) else Inl (Malformed msg))"

definition put_bytes :: "bytes \<Rightarrow> field_limit \<Rightarrow> codec_error + bytes" where
  "put_bytes val limit =
     (if maximum limit < length val
      then Inl (FieldTooLong (label limit) (length val) (maximum limit))
      else cat [put_count (length val) ''byte field is too large'', Inr val])"

definition put_string :: "rstring \<Rightarrow> field_limit \<Rightarrow> codec_error + bytes" where
  "put_string val limit = put_bytes val limit"

definition put_optional_bytes :: "bytes option \<Rightarrow> field_limit \<Rightarrow> codec_error + bytes" where
  "put_optional_bytes val limit =
     (case val of
        Some v \<Rightarrow> cat [put_u8 1, put_bytes v limit]
      | None \<Rightarrow> put_u8 0)"

definition put_optional_string :: "rstring option \<Rightarrow> field_limit \<Rightarrow> codec_error + bytes" where
  "put_optional_string val limit = put_optional_bytes val limit"

fun error_code_byte :: "error_code \<Rightarrow> byte" where
  "error_code_byte AuthenticationFailed = 1"
| "error_code_byte InvalidRequest = 2"
| "error_code_byte UnsupportedVersion = 3"
| "error_code_byte Conflict = 6"
| "error_code_byte Storage = 4"
| "error_code_byte Internal = 5"

section \<open>Writing messages\<close>

fun encode_message :: "message \<Rightarrow> codec_error + bytes" where
  "encode_message (Authenticate username password database) =
     cat [put_u8 1, put_string username AuthField, put_string password AuthField,
          put_string database AuthField]"
| "encode_message (Get key) = cat [put_u8 2, put_bytes key Opaque]"
| "encode_message (MultiGet keys) =
     cat ([put_u8 29, put_count (length keys) ''too many keys'']
          @ map (\<lambda>key. put_bytes key Opaque) keys)"
| "encode_message (Put key val) = cat [put_u8 3, put_bytes key Opaque, put_bytes val Opaque]"
| "encode_message (Delete key) = cat [put_u8 4, put_bytes key Opaque]"
| "encode_message (Scan start until limit) =
     cat [put_u8 5, put_optional_bytes start Opaque, put_optional_bytes until Opaque, put_u32 limit]"
| "encode_message (Subscribe prfx) = cat [put_u8 12, put_bytes prfx Opaque]"
| "encode_message (SubscribeFrom prfx cursor) =
     cat [put_u8 45, put_bytes prfx Opaque, put_optional_string cursor Cursor]"
| "encode_message (SubscribeCollectionFrom collection cursor) =
     cat [put_u8 46, put_string collection DocumentName, put_optional_string cursor Cursor]"
| "encode_message (CursorChange cursor key val) =
     cat [put_u8 47, put_string cursor Cursor, put_bytes key Opaque, put_optional_bytes val Opaque]"
| "encode_message (CursorDocumentChange cursor collection doc_id document) =
     cat [put_u8 48, put_string cursor Cursor, put_string collection DocumentName,
          put_string doc_id DocumentName, put_optional_bytes document Opaque]"
| "encode_message (Caught cursor) = cat [put_u8 49, put_string cursor Cursor]"
| "encode_message (ReplicaHello database last_lsn replica_id) =
     cat [put_u8 50, put_string database AuthField, put_u64 last_lsn,
          put_string replica_id ReplicaId]"
| "encode_message (ReplicaStream first_lsn) = cat [put_u8 51, put_u64 first_lsn]"
| "encode_message (ReplicaRecords records) =
     cat ([put_u8 52, put_count (length records) ''too many replication records'']
          @ map (\<lambda>record. put_bytes record ReplicaRecord) records)"
| "encode_message (ReplicaAck durable_lsn) = cat [put_u8 53, put_u64 durable_lsn]"
| "encode_message (ReplicaDiverged reason) = cat [put_u8 54, put_string reason ErrorMessage]"
| "encode_message (PrimaryEpoch epoch) = cat [put_u8 55, put_u64 epoch]"
| "encode_message (VoteRequest epoch durable_lsn) =
     cat [put_u8 56, put_u64 epoch, put_u64 durable_lsn]"
| "encode_message (VoteResponse granted epoch) =
     cat [put_u8 57, put_u8 (u8_of_bool granted), put_u64 epoch]"
| "encode_message Begin = put_u8 15"
| "encode_message Commit = put_u8 16"
| "encode_message Rollback = put_u8 17"
| "encode_message (CreateIndex name unique) =
     cat [put_u8 21, put_bytes name Opaque, put_u8 (u8_of_bool unique)]"
| "encode_message (DropIndex name) = cat [put_u8 22, put_bytes name Opaque]"
| "encode_message (IndexUpdate index primary_key old_value new_value) =
     cat [put_u8 23, put_bytes index Opaque, put_bytes primary_key Opaque,
          put_optional_bytes old_value Opaque, put_optional_bytes new_value Opaque]"
| "encode_message (IndexLookup index val limit) =
     cat [put_u8 24, put_bytes index Opaque, put_bytes val Opaque, put_u32 limit]"
| "encode_message (CreateCollection collection indexes) =
     cat ([put_u8 31, put_string collection DocumentName,
           put_count (length indexes) ''too many document indexes'']
          @ map (\<lambda>index. cat [put_string (di_field index) DocumentName,
                              put_u8 (u8_of_bool (di_unique index))]) indexes)"
| "encode_message (GetDocument collection doc_id) =
     cat [put_u8 32, put_string collection DocumentName, put_string doc_id DocumentName]"
| "encode_message (PutDocument collection doc_id document) =
     cat [put_u8 33, put_string collection DocumentName, put_string doc_id DocumentName,
          put_bytes document Opaque]"
| "encode_message (DeleteDocument collection doc_id) =
     cat [put_u8 34, put_string collection DocumentName, put_string doc_id DocumentName]"
| "encode_message (ListDocuments collection limit) =
     cat [put_u8 35, put_string collection DocumentName, put_u32 limit]"
| "encode_message (QueryDocuments collection field val limit) =
     cat [put_u8 36, put_string collection DocumentName, put_string field DocumentName,
          put_bytes val Opaque, put_u32 limit]"
| "encode_message (SubscribeCollection collection) =
     cat [put_u8 37, put_string collection DocumentName]"
| "encode_message CollectionCreated = put_u8 38"
| "encode_message (DocumentValue document) = cat [put_u8 39, put_optional_bytes document Opaque]"
| "encode_message DocumentWritten = put_u8 40"
| "encode_message (DocumentDeleted existed) = cat [put_u8 41, put_u8 (u8_of_bool existed)]"
| "encode_message (Documents documents) =
     cat ([put_u8 42, put_count (length documents) ''too many documents'']
          @ map (\<lambda>(doc_id, document). cat [put_string doc_id DocumentName, put_bytes document Opaque])
              documents)"
| "encode_message CollectionSubscribed = put_u8 43"
| "encode_message (DocumentChange sequence doc_id document) =
     cat [put_u8 44, put_u64 sequence, put_string doc_id DocumentName,
          put_optional_bytes document Opaque]"
| "encode_message Authenticated = put_u8 6"
| "encode_message (Value val) = cat [put_u8 7, put_optional_bytes val Opaque]"
| "encode_message (Values vals) =
     cat ([put_u8 30, put_count (length vals) ''too many values'']
          @ map (\<lambda>val. put_optional_bytes val Opaque) vals)"
| "encode_message Written = put_u8 8"
| "encode_message (Deleted existed) = cat [put_u8 9, put_u8 (u8_of_bool existed)]"
| "encode_message (Rows rows) =
     cat ([put_u8 10, put_count (length rows) ''too many rows'']
          @ map (\<lambda>(key, val). cat [put_bytes key Opaque, put_bytes val Opaque]) rows)"
| "encode_message Subscribed = put_u8 13"
| "encode_message Begun = put_u8 18"
| "encode_message Committed = put_u8 19"
| "encode_message RolledBack = put_u8 20"
| "encode_message IndexCreated = put_u8 25"
| "encode_message IndexDropped = put_u8 26"
| "encode_message IndexUpdated = put_u8 27"
| "encode_message (Keys keys) =
     cat ([put_u8 28, put_count (length keys) ''too many keys'']
          @ map (\<lambda>key. put_bytes key Opaque) keys)"
| "encode_message (Change sequence key val) =
     cat [put_u8 14, put_u64 sequence, put_bytes key Opaque, put_optional_bytes val Opaque]"
| "encode_message (Error code msg) =
     cat [put_u8 11, put_u8 (error_code_byte code), put_string msg ErrorMessage]"

definition encode_envelope :: "envelope \<Rightarrow> codec_error + bytes" where
  "encode_envelope e =
     cat [Inr (u16_to_be (env_version e)), put_u64 (env_request_id e),
          encode_message (env_message e)]"

section \<open>Reading fields\<close>

definition require :: "nat \<Rightarrow> (codec_error, unit) reader" where
  "require n s =
     (if length s < n then Inl (Malformed ''truncated message'') else Inr ((), s))"

definition get_u8 :: "(codec_error, byte) reader" where
  "get_u8 = pbind (require 1) (\<lambda>_ s. Inr (hd s, tl s))"

definition get_u32 :: "(codec_error, u32) reader" where
  "get_u32 = pbind (require 4) (\<lambda>_ s. Inr (u32_of_be (take 4 s), drop 4 s))"

definition get_u64 :: "(codec_error, u64) reader" where
  "get_u64 = pbind (require 8) (\<lambda>_ s. Inr (u64_of_be (take 8 s), drop 8 s))"

definition get_bool :: "(codec_error, bool) reader" where
  "get_bool = pbind get_u8 (\<lambda>b.
     if b = 0 then preturn False
     else if b = 1 then preturn True
     else pfail (Malformed ''invalid boolean''))"

definition get_bytes :: "nat \<Rightarrow> (codec_error, bytes) reader" where
  "get_bytes maxi = pbind get_u32 (\<lambda>w.
     if maxi < unat w then pfail (Malformed ''byte field exceeds limit'')
     else pbind (require (unat w)) (\<lambda>_ s. Inr (take (unat w) s, drop (unat w) s)))"

definition get_string :: "nat \<Rightarrow> (codec_error, rstring) reader" where
  "get_string maxi = pbind (get_bytes maxi) (\<lambda>b.
     if utf8_valid b then preturn b else pfail (Malformed ''string is not UTF-8''))"

definition get_optional_bytes :: "nat \<Rightarrow> (codec_error, bytes option) reader" where
  "get_optional_bytes maxi = pbind get_u8 (\<lambda>b.
     if b = 0 then preturn None
     else if b = 1 then pbind (get_bytes maxi) (\<lambda>v. preturn (Some v))
     else pfail (Malformed ''invalid optional value''))"

definition get_optional_string :: "nat \<Rightarrow> (codec_error, rstring option) reader" where
  "get_optional_string maxi = pbind (get_optional_bytes maxi) (\<lambda>v.
     case v of
       None \<Rightarrow> preturn None
     | Some b \<Rightarrow> if utf8_valid b then preturn (Some b)
                 else pfail (Malformed ''string is not UTF-8''))"

definition decode_error_code :: "byte \<Rightarrow> codec_error + error_code" where
  "decode_error_code code =
     (if code = 1 then Inr AuthenticationFailed
      else if code = 2 then Inr InvalidRequest
      else if code = 3 then Inr UnsupportedVersion
      else if code = 4 then Inr Storage
      else if code = 6 then Inr Conflict
      else if code = 5 then Inr Internal
      else Inl (Malformed ''unknown error code''))"

section \<open>Reading messages\<close>

definition get_error_code :: "(codec_error, error_code) reader" where
  "get_error_code = pbind get_u8 (\<lambda>b s.
     case decode_error_code b of Inl e \<Rightarrow> Inl e | Inr c \<Rightarrow> Inr (c, s))"

text \<open>A \<open>u32\<close> count, refused above its ceiling before any element is read.\<close>

definition get_counted :: "nat \<Rightarrow> string \<Rightarrow> (codec_error, 'a) reader \<Rightarrow> (codec_error, 'a list) reader" where
  "get_counted maxi msg p = pbind get_u32 (\<lambda>w.
     if maxi < unat w then pfail (Malformed msg) else get_many (unat w) p)"

definition get_row :: "(codec_error, bytes \<times> bytes) reader" where
  "get_row = pbind (get_bytes MAX_FRAME_SIZE) (\<lambda>k.
     pbind (get_bytes MAX_FRAME_SIZE) (\<lambda>v. preturn (k, v)))"

definition get_document_row :: "(codec_error, rstring \<times> bytes) reader" where
  "get_document_row = pbind (get_string MAX_DOCUMENT_NAME) (\<lambda>k.
     pbind (get_bytes MAX_FRAME_SIZE) (\<lambda>v. preturn (k, v)))"

definition get_document_index :: "(codec_error, document_index) reader" where
  "get_document_index = pbind (get_string MAX_DOCUMENT_NAME) (\<lambda>field.
     pbind get_bool (\<lambda>unique. preturn \<lparr>di_field = field, di_unique = unique\<rparr>))"

definition get_record :: "(codec_error, bytes) reader" where
  "get_record = pbind (get_bytes MAX_REPLICA_RECORD) (\<lambda>r.
     if r = [] then pfail (Malformed ''empty replication record'') else preturn r)"

definition get_records :: "(codec_error, bytes list) reader" where
  "get_records = pbind get_u32 (\<lambda>w.
     if unat w = 0 \<or> MAX_REPLICA_RECORDS < unat w
     then pfail (Malformed ''replication record count is out of range'')
     else get_many (unat w) get_record)"

definition decode_message_1_20 :: "nat \<Rightarrow> (codec_error, message) reader" where
  "decode_message_1_20 kind =
     (if kind = 1 then
        pbind (get_string MAX_AUTH_FIELD) (\<lambda>u. pbind (get_string MAX_AUTH_FIELD) (\<lambda>p.
        pbind (get_string MAX_AUTH_FIELD) (\<lambda>d. preturn (Authenticate u p d))))
      else if kind = 2 then pbind (get_bytes MAX_FRAME_SIZE) (\<lambda>k. preturn (Get k))
      else if kind = 3 then
        pbind (get_bytes MAX_FRAME_SIZE) (\<lambda>k. pbind (get_bytes MAX_FRAME_SIZE) (\<lambda>v.
        preturn (Put k v)))
      else if kind = 4 then pbind (get_bytes MAX_FRAME_SIZE) (\<lambda>k. preturn (Delete k))
      else if kind = 5 then
        pbind (get_optional_bytes MAX_FRAME_SIZE) (\<lambda>a.
        pbind (get_optional_bytes MAX_FRAME_SIZE) (\<lambda>b. pbind get_u32 (\<lambda>l.
        preturn (Scan a b l))))
      else if kind = 6 then preturn Authenticated
      else if kind = 7 then pbind (get_optional_bytes MAX_FRAME_SIZE) (\<lambda>v. preturn (Value v))
      else if kind = 8 then preturn Written
      else if kind = 9 then pbind get_bool (\<lambda>b. preturn (Deleted b))
      else if kind = 10 then
        pbind (get_counted MAX_SCAN_LIMIT ''too many rows'' get_row) (\<lambda>r. preturn (Rows r))
      else if kind = 11 then
        pbind get_error_code (\<lambda>c. pbind (get_string MAX_ERROR_MESSAGE) (\<lambda>m. preturn (Error c m)))
      else if kind = 12 then pbind (get_bytes MAX_FRAME_SIZE) (\<lambda>p. preturn (Subscribe p))
      else if kind = 13 then preturn Subscribed
      else if kind = 14 then
        pbind get_u64 (\<lambda>q. pbind (get_bytes MAX_FRAME_SIZE) (\<lambda>k.
        pbind (get_optional_bytes MAX_FRAME_SIZE) (\<lambda>v. preturn (Change q k v))))
      else if kind = 15 then preturn Begin
      else if kind = 16 then preturn Commit
      else if kind = 17 then preturn Rollback
      else if kind = 18 then preturn Begun
      else if kind = 19 then preturn Committed
      else if kind = 20 then preturn RolledBack
      else pfail (Malformed ''unknown message type''))"

definition decode_message_21_30 :: "nat \<Rightarrow> (codec_error, message) reader" where
  "decode_message_21_30 kind =
     (if kind = 21 then
        pbind (get_bytes MAX_FRAME_SIZE) (\<lambda>n. pbind get_bool (\<lambda>u. preturn (CreateIndex n u)))
      else if kind = 22 then pbind (get_bytes MAX_FRAME_SIZE) (\<lambda>n. preturn (DropIndex n))
      else if kind = 23 then
        pbind (get_bytes MAX_FRAME_SIZE) (\<lambda>i. pbind (get_bytes MAX_FRAME_SIZE) (\<lambda>k.
        pbind (get_optional_bytes MAX_FRAME_SIZE) (\<lambda>old.
        pbind (get_optional_bytes MAX_FRAME_SIZE) (\<lambda>new. preturn (IndexUpdate i k old new)))))
      else if kind = 24 then
        pbind (get_bytes MAX_FRAME_SIZE) (\<lambda>i. pbind (get_bytes MAX_FRAME_SIZE) (\<lambda>v.
        pbind get_u32 (\<lambda>l. preturn (IndexLookup i v l))))
      else if kind = 25 then preturn IndexCreated
      else if kind = 26 then preturn IndexDropped
      else if kind = 27 then preturn IndexUpdated
      else if kind = 28 then
        pbind (get_counted MAX_SCAN_LIMIT ''too many keys'' (get_bytes MAX_FRAME_SIZE))
          (\<lambda>ks. preturn (Keys ks))
      else if kind = 29 then
        pbind (get_counted MAX_SCAN_LIMIT ''multi-get key count is out of range''
                 (get_bytes MAX_FRAME_SIZE)) (\<lambda>ks. preturn (MultiGet ks))
      else if kind = 30 then
        pbind (get_counted MAX_SCAN_LIMIT ''too many values'' (get_optional_bytes MAX_FRAME_SIZE))
          (\<lambda>vs. preturn (Values vs))
      else pfail (Malformed ''unknown message type''))"

definition decode_message_31_44 :: "nat \<Rightarrow> (codec_error, message) reader" where
  "decode_message_31_44 kind =
     (if kind = 31 then
        pbind (get_string MAX_DOCUMENT_NAME) (\<lambda>c.
        pbind (get_counted MAX_DOCUMENT_INDEXES ''too many document indexes'' get_document_index)
          (\<lambda>is. preturn (CreateCollection c is)))
      else if kind = 32 then
        pbind (get_string MAX_DOCUMENT_NAME) (\<lambda>c. pbind (get_string MAX_DOCUMENT_NAME) (\<lambda>i.
        preturn (GetDocument c i)))
      else if kind = 33 then
        pbind (get_string MAX_DOCUMENT_NAME) (\<lambda>c. pbind (get_string MAX_DOCUMENT_NAME) (\<lambda>i.
        pbind (get_bytes MAX_FRAME_SIZE) (\<lambda>d. preturn (PutDocument c i d))))
      else if kind = 34 then
        pbind (get_string MAX_DOCUMENT_NAME) (\<lambda>c. pbind (get_string MAX_DOCUMENT_NAME) (\<lambda>i.
        preturn (DeleteDocument c i)))
      else if kind = 35 then
        pbind (get_string MAX_DOCUMENT_NAME) (\<lambda>c. pbind get_u32 (\<lambda>l. preturn (ListDocuments c l)))
      else if kind = 36 then
        pbind (get_string MAX_DOCUMENT_NAME) (\<lambda>c. pbind (get_string MAX_DOCUMENT_NAME) (\<lambda>f.
        pbind (get_bytes MAX_FRAME_SIZE) (\<lambda>v. pbind get_u32 (\<lambda>l.
        preturn (QueryDocuments c f v l)))))
      else if kind = 37 then
        pbind (get_string MAX_DOCUMENT_NAME) (\<lambda>c. preturn (SubscribeCollection c))
      else if kind = 38 then preturn CollectionCreated
      else if kind = 39 then
        pbind (get_optional_bytes MAX_FRAME_SIZE) (\<lambda>d. preturn (DocumentValue d))
      else if kind = 40 then preturn DocumentWritten
      else if kind = 41 then pbind get_bool (\<lambda>b. preturn (DocumentDeleted b))
      else if kind = 42 then
        pbind (get_counted MAX_SCAN_LIMIT ''too many documents'' get_document_row)
          (\<lambda>ds. preturn (Documents ds))
      else if kind = 43 then preturn CollectionSubscribed
      else if kind = 44 then
        pbind get_u64 (\<lambda>q. pbind (get_string MAX_DOCUMENT_NAME) (\<lambda>i.
        pbind (get_optional_bytes MAX_FRAME_SIZE) (\<lambda>d. preturn (DocumentChange q i d))))
      else pfail (Malformed ''unknown message type''))"

definition decode_message_45_57 :: "nat \<Rightarrow> (codec_error, message) reader" where
  "decode_message_45_57 kind =
     (if kind = 45 then
        pbind (get_bytes MAX_FRAME_SIZE) (\<lambda>p. pbind (get_optional_string MAX_CURSOR) (\<lambda>c.
        preturn (SubscribeFrom p c)))
      else if kind = 46 then
        pbind (get_string MAX_DOCUMENT_NAME) (\<lambda>n. pbind (get_optional_string MAX_CURSOR) (\<lambda>c.
        preturn (SubscribeCollectionFrom n c)))
      else if kind = 47 then
        pbind (get_string MAX_CURSOR) (\<lambda>c. pbind (get_bytes MAX_FRAME_SIZE) (\<lambda>k.
        pbind (get_optional_bytes MAX_FRAME_SIZE) (\<lambda>v. preturn (CursorChange c k v))))
      else if kind = 48 then
        pbind (get_string MAX_CURSOR) (\<lambda>c. pbind (get_string MAX_DOCUMENT_NAME) (\<lambda>n.
        pbind (get_string MAX_DOCUMENT_NAME) (\<lambda>i.
        pbind (get_optional_bytes MAX_FRAME_SIZE) (\<lambda>d. preturn (CursorDocumentChange c n i d)))))
      else if kind = 49 then pbind (get_string MAX_CURSOR) (\<lambda>c. preturn (Caught c))
      else if kind = 50 then
        pbind (get_string MAX_AUTH_FIELD) (\<lambda>d. pbind get_u64 (\<lambda>l.
        pbind (get_string MAX_REPLICA_ID) (\<lambda>r. preturn (ReplicaHello d l r))))
      else if kind = 51 then pbind get_u64 (\<lambda>l. preturn (ReplicaStream l))
      else if kind = 52 then pbind get_records (\<lambda>rs. preturn (ReplicaRecords rs))
      else if kind = 53 then pbind get_u64 (\<lambda>l. preturn (ReplicaAck l))
      else if kind = 54 then pbind (get_string MAX_ERROR_MESSAGE) (\<lambda>m. preturn (ReplicaDiverged m))
      else if kind = 55 then pbind get_u64 (\<lambda>e. preturn (PrimaryEpoch e))
      else if kind = 56 then pbind get_u64 (\<lambda>e. pbind get_u64 (\<lambda>l. preturn (VoteRequest e l)))
      else if kind = 57 then
        pbind get_u8 (\<lambda>g. pbind get_u64 (\<lambda>e. preturn (VoteResponse (g \<noteq> 0) e)))
      else pfail (Malformed ''unknown message type''))"

definition decode_message :: "nat \<Rightarrow> (codec_error, message) reader" where
  "decode_message kind =
     (if kind \<le> 20 then decode_message_1_20 kind
      else if kind \<le> 30 then decode_message_21_30 kind
      else if kind \<le> 44 then decode_message_31_44 kind
      else decode_message_45_57 kind)"

definition decode_envelope :: "(codec_error, envelope) reader" where
  "decode_envelope = pbind (require 11) (\<lambda>_ s.
     let version = u16_of_be (take 2 s) in
     if version \<noteq> PROTOCOL_VERSION then Inl (VersionMismatch version)
     else
       (let request_id = u64_of_be (take 8 (drop 2 s)); kind = s ! 10 in
        pbind (decode_message (unat kind)) (\<lambda>m.
          preturn \<lparr>env_version = version, env_request_id = request_id, env_message = m\<rparr>)
          (drop 11 s)))"

section \<open>The frame codec\<close>

text \<open>
  \<open>frames_decode ceiling source\<close> and \<open>frames_encode ceiling payload\<close> stand for
  the third-party \<open>LengthDelimitedCodec\<close>: the first yields a frame (or none yet)
  and the unread source, the second the bytes of one frame.
\<close>

record vyrn_codec =
  max_frame_length :: nat

text \<open>The constructor panics on a zero ceiling, which is the value \<open>None\<close>.\<close>

definition with_frame_ceiling :: "nat \<Rightarrow> vyrn_codec option" where
  "with_frame_ceiling ceiling =
     (if 0 < ceiling then Some \<lparr>max_frame_length = ceiling\<rparr> else None)"

definition codec_decode ::
  "(nat \<Rightarrow> bytes \<Rightarrow> codec_error + (bytes option \<times> bytes)) \<Rightarrow> vyrn_codec \<Rightarrow> bytes
     \<Rightarrow> codec_error + (envelope option \<times> bytes)" where
  "codec_decode frames_decode codec source =
     (case frames_decode (max_frame_length codec) source of
        Inl e \<Rightarrow> Inl e
      | Inr (None, rest) \<Rightarrow> Inr (None, rest)
      | Inr (Some frame, rest) \<Rightarrow>
         (case decode_envelope frame of
            Inl e \<Rightarrow> Inl e
          | Inr (envelope, remaining) \<Rightarrow>
              if remaining \<noteq> [] then Inl (Malformed ''trailing bytes'')
              else Inr (Some envelope, rest)))"

definition codec_encode ::
  "(nat \<Rightarrow> bytes \<Rightarrow> codec_error + bytes) \<Rightarrow> vyrn_codec \<Rightarrow> envelope \<Rightarrow> codec_error + bytes" where
  "codec_encode frames_encode codec e =
     (case encode_envelope e of
        Inl err \<Rightarrow> Inl err
      | Inr encoded \<Rightarrow>
          if max_frame_length codec < length encoded
          then Inl (CodecIo ''message exceeds frame limit'')
          else frames_encode (max_frame_length codec) encoded)"

section \<open>Field codes\<close>

definition frame :: "bytes \<Rightarrow> bytes" where
  "frame b = u32_to_be (word_of_nat (length b)) @ b"

definition opt_frame :: "bytes option \<Rightarrow> bytes" where
  "opt_frame v = (case v of None \<Rightarrow> [0] | Some b \<Rightarrow> 1 # frame b)"

definition fits :: "nat \<Rightarrow> bytes \<Rightarrow> bool" where
  "fits n b \<longleftrightarrow> length b \<le> n \<and> length b < 2 ^ 32"

interpretation u8_code: canonical_code "\<lambda>b. [b]" get_u8 "\<lambda>_. True"
proof
  fix s x r assume "get_u8 s = Inr (x, r)"
  then show "True \<and> s = [x] @ r"
    by (cases s) (auto simp: get_u8_def require_def elim!: pbindE)
qed (simp add: get_u8_def pbind_def require_def)

interpretation u32_code: canonical_code u32_to_be get_u32 "\<lambda>_. True"
proof
  fix s x r assume "get_u32 s = Inr (x, r)"
  then show "True \<and> s = u32_to_be x @ r"
    by (auto simp: get_u32_def require_def to_be_of_be elim!: pbindE split: if_splits)
qed (simp add: get_u32_def pbind_def require_def)

interpretation u64_code: canonical_code u64_to_be get_u64 "\<lambda>_. True"
proof
  fix s x r assume "get_u64 s = Inr (x, r)"
  then show "True \<and> s = u64_to_be x @ r"
    by (auto simp: get_u64_def require_def to_be_of_be elim!: pbindE split: if_splits)
qed (simp add: get_u64_def pbind_def require_def)

lemma Suc_append_code: "[b] @ r = b # r" by simp

lemmas byte_dec [codec_simps] = u8_code.dec_enc[OF TrueI, unfolded Suc_append_code]
lemmas word_dec [codec_simps] = u32_code.dec_enc[OF TrueI] u64_code.dec_enc[OF TrueI]
lemmas word_sound [codec_dests] = u8_code.dec_sound u32_code.dec_sound u64_code.dec_sound

interpretation bool_code: canonical_code "\<lambda>b. [u8_of_bool b]" get_bool "\<lambda>_. True"
proof
  fix s x r assume "get_bool s = Inr (x, r)"
  then show "True \<and> s = [u8_of_bool x] @ r"
    by (auto simp: get_bool_def u8_of_bool_def pfail_def elim!: pbindE preturnE
        dest!: u8_code.dec_sound split: if_splits)
qed (simp add: get_bool_def u8_of_bool_def codec_simps)

interpretation error_code: canonical_code "\<lambda>c. [error_code_byte c]" get_error_code "\<lambda>_. True"
proof
  fix c r show "get_error_code ([error_code_byte c] @ r) = Inr (c, r)"
    by (cases c) (simp_all add: get_error_code_def codec_simps decode_error_code_def)
next
  fix s x r assume "get_error_code s = Inr (x, r)"
  then show "True \<and> s = [error_code_byte x] @ r"
    by (auto simp: get_error_code_def decode_error_code_def elim!: pbindE
        dest!: u8_code.dec_sound split: if_splits)
qed

interpretation bytes_code: canonical_code frame "get_bytes n" "fits n" for n
proof
  fix b r assume "fits n b"
  then show "get_bytes n (frame b @ r) = Inr (b, r)"
    by (simp add: get_bytes_def frame_def fits_def codec_simps require_def unat_word_of_nat_u32)
next
  fix s x r assume "get_bytes n s = Inr (x, r)"
  then show "fits n x \<and> s = frame x @ r"
    by (auto simp: get_bytes_def frame_def fits_def pfail_def require_def elim!: pbindE
        dest!: u32_code.dec_sound split: if_splits)
qed

interpretation string_code: canonical_code frame "get_string n" "\<lambda>b. fits n b \<and> utf8_valid b" for n
proof
  fix b r assume "fits n b \<and> utf8_valid b"
  then show "get_string n (frame b @ r) = Inr (b, r)"
    by (simp add: get_string_def bytes_code.dec_enc codec_simps)
next
  fix s x r assume "get_string n s = Inr (x, r)"
  then show "(fits n x \<and> utf8_valid x) \<and> s = frame x @ r"
    by (auto simp: get_string_def pfail_def elim!: pbindE preturnE
        dest!: bytes_code.dec_sound split: if_splits)
qed

interpretation optional_bytes_code:
  canonical_code opt_frame "get_optional_bytes n" "pred_option (fits n)" for n
proof
  fix v r assume "pred_option (fits n) v"
  then show "get_optional_bytes n (opt_frame v @ r) = Inr (v, r)"
    by (cases v) (simp_all add: get_optional_bytes_def opt_frame_def bytes_code.dec_enc codec_simps)
next
  fix s x r assume "get_optional_bytes n s = Inr (x, r)"
  then show "pred_option (fits n) x \<and> s = opt_frame x @ r"
    by (auto simp: get_optional_bytes_def opt_frame_def pfail_def elim!: pbindE preturnE
        dest!: bytes_code.dec_sound u8_code.dec_sound split: if_splits)
qed

interpretation optional_string_code:
  canonical_code opt_frame "get_optional_string n" "pred_option (\<lambda>b. fits n b \<and> utf8_valid b)" for n
proof
  fix v r assume "pred_option (\<lambda>b. fits n b \<and> utf8_valid b) v"
  then show "get_optional_string n (opt_frame v @ r) = Inr (v, r)"
    using optional_bytes_code.dec_enc[of n v r]
    by (cases v) (simp_all add: get_optional_string_def codec_simps)
next
  fix s x r assume "get_optional_string n s = Inr (x, r)"
  then show "pred_option (\<lambda>b. fits n b \<and> utf8_valid b) x \<and> s = opt_frame x @ r"
    by (auto simp: get_optional_string_def pfail_def elim!: pbindE preturnE
        dest!: optional_bytes_code.dec_sound split: if_splits option.splits)
qed

interpretation row_pair: pair_code frame "get_bytes m" "fits m" frame "get_bytes n" "fits n" for m n
  by unfold_locales

interpretation row_code: canonical_code "\<lambda>(k, v). frame k @ frame v" get_row
  "\<lambda>(k, v). fits MAX_FRAME_SIZE k \<and> fits MAX_FRAME_SIZE v"
  unfolding get_row_def by (rule row_pair.pair_canonical)

interpretation document_pair: pair_code frame "get_string m" "\<lambda>b. fits m b \<and> utf8_valid b"
  frame "get_bytes n" "fits n" for m n
  by unfold_locales

interpretation document_row_code: canonical_code "\<lambda>(k, v). frame k @ frame v" get_document_row
  "\<lambda>(k, v). (fits MAX_DOCUMENT_NAME k \<and> utf8_valid k) \<and> fits MAX_FRAME_SIZE v"
  unfolding get_document_row_def by (rule document_pair.pair_canonical)

interpretation document_index_code:
  canonical_code "\<lambda>i. frame (di_field i) @ [u8_of_bool (di_unique i)]" get_document_index
    "\<lambda>i. fits MAX_DOCUMENT_NAME (di_field i) \<and> utf8_valid (di_field i)"
proof
  fix i :: document_index and r assume "fits MAX_DOCUMENT_NAME (di_field i) \<and> utf8_valid (di_field i)"
  then show "get_document_index ((frame (di_field i) @ [u8_of_bool (di_unique i)]) @ r) = Inr (i, r)"
    using bool_code.dec_enc[of "di_unique i" r]
    by (simp add: get_document_index_def string_code.dec_enc codec_simps)
next
  fix s and i :: document_index and r assume "get_document_index s = Inr (i, r)"
  then show "(fits MAX_DOCUMENT_NAME (di_field i) \<and> utf8_valid (di_field i)) \<and>
      s = (frame (di_field i) @ [u8_of_bool (di_unique i)]) @ r"
    by (auto simp: get_document_index_def elim!: pbindE preturnE
        dest!: string_code.dec_sound bool_code.dec_sound)
qed

interpretation record_code: canonical_code frame get_record "\<lambda>b. fits MAX_REPLICA_RECORD b \<and> b \<noteq> []"
proof
  fix b r assume "fits MAX_REPLICA_RECORD b \<and> b \<noteq> []"
  then show "get_record (frame b @ r) = Inr (b, r)"
    by (simp add: get_record_def bytes_code.dec_enc codec_simps)
next
  fix s x r assume "get_record s = Inr (x, r)"
  then show "(fits MAX_REPLICA_RECORD x \<and> x \<noteq> []) \<and> s = frame x @ r"
    by (auto simp: get_record_def pfail_def elim!: pbindE preturnE
        dest!: bytes_code.dec_sound split: if_splits)
qed

definition counted :: "('a \<Rightarrow> bytes) \<Rightarrow> 'a list \<Rightarrow> bytes" where
  "counted enc xs = u32_to_be (word_of_nat (length xs)) @ concat (map enc xs)"

lemma counted_code:
  assumes "canonical_code enc dec ok" "n < 2 ^ 32"
  shows "canonical_code (counted enc) (get_counted n msg dec) (\<lambda>xs. length xs \<le> n \<and> list_all ok xs)"
proof
  fix xs r assume "length xs \<le> n \<and> list_all ok xs"
  then show "get_counted n msg dec (counted enc xs @ r) = Inr (xs, r)"
    using prefix_code.get_many_enc[OF canonical_code.axioms(1)[OF assms(1)], of xs r] assms(2)
    by (simp add: get_counted_def counted_def codec_simps unat_word_of_nat_u32)
next
  fix s xs r assume "get_counted n msg dec s = Inr (xs, r)"
  then show "(length xs \<le> n \<and> list_all ok xs) \<and> s = counted enc xs @ r"
    by (auto simp: get_counted_def counted_def pfail_def elim!: pbindE
        dest!: u32_code.dec_sound canonical_code.get_many_sound[OF assms(1)] split: if_splits)
qed

interpretation rows_code: canonical_code "counted (\<lambda>(k, v). frame k @ frame v)"
  "get_counted MAX_SCAN_LIMIT msg get_row"
  "\<lambda>xs. length xs \<le> MAX_SCAN_LIMIT \<and>
     list_all (\<lambda>(k, v). fits MAX_FRAME_SIZE k \<and> fits MAX_FRAME_SIZE v) xs" for msg
  by (rule counted_code[OF row_code.canonical_code_axioms]) (simp add: limit_defs)

interpretation keys_code: canonical_code "counted frame"
  "get_counted MAX_SCAN_LIMIT msg (get_bytes MAX_FRAME_SIZE)"
  "\<lambda>xs. length xs \<le> MAX_SCAN_LIMIT \<and> list_all (fits MAX_FRAME_SIZE) xs" for msg
  by (rule counted_code[OF bytes_code.canonical_code_axioms]) (simp add: limit_defs)

interpretation values_code: canonical_code "counted opt_frame"
  "get_counted MAX_SCAN_LIMIT msg (get_optional_bytes MAX_FRAME_SIZE)"
  "\<lambda>xs. length xs \<le> MAX_SCAN_LIMIT \<and> list_all (pred_option (fits MAX_FRAME_SIZE)) xs" for msg
  by (rule counted_code[OF optional_bytes_code.canonical_code_axioms]) (simp add: limit_defs)

interpretation documents_code: canonical_code "counted (\<lambda>(k, v). frame k @ frame v)"
  "get_counted MAX_SCAN_LIMIT msg get_document_row"
  "\<lambda>xs. length xs \<le> MAX_SCAN_LIMIT \<and>
     list_all (\<lambda>(k, v). (fits MAX_DOCUMENT_NAME k \<and> utf8_valid k) \<and> fits MAX_FRAME_SIZE v) xs" for msg
  by (rule counted_code[OF document_row_code.canonical_code_axioms]) (simp add: limit_defs)

interpretation indexes_code:
  canonical_code "counted (\<lambda>i. frame (di_field i) @ [u8_of_bool (di_unique i)])"
  "get_counted MAX_DOCUMENT_INDEXES msg get_document_index"
  "\<lambda>xs. length xs \<le> MAX_DOCUMENT_INDEXES \<and>
     list_all (\<lambda>i. fits MAX_DOCUMENT_NAME (di_field i) \<and> utf8_valid (di_field i)) xs" for msg
  by (rule counted_code[OF document_index_code.canonical_code_axioms]) (simp add: limit_defs)

interpretation records_code: canonical_code "counted frame" get_records
  "\<lambda>xs. xs \<noteq> [] \<and> length xs \<le> MAX_REPLICA_RECORDS \<and>
     list_all (\<lambda>b. fits MAX_REPLICA_RECORD b \<and> b \<noteq> []) xs"
proof
  fix xs r
  assume "xs \<noteq> [] \<and> length xs \<le> MAX_REPLICA_RECORDS \<and>
    list_all (\<lambda>b. fits MAX_REPLICA_RECORD b \<and> b \<noteq> []) xs"
  then show "get_records (counted frame xs @ r) = Inr (xs, r)"
    using record_code.get_many_enc[of xs r]
    by (simp add: get_records_def counted_def codec_simps unat_word_of_nat_u32 limit_defs)
next
  fix s xs r assume "get_records s = Inr (xs, r)"
  then show "(xs \<noteq> [] \<and> length xs \<le> MAX_REPLICA_RECORDS \<and>
      list_all (\<lambda>b. fits MAX_REPLICA_RECORD b \<and> b \<noteq> []) xs) \<and> s = counted frame xs @ r"
    by (auto simp: get_records_def counted_def pfail_def elim!: pbindE
        dest!: u32_code.dec_sound record_code.get_many_sound split: if_splits)
qed

section \<open>Writers\<close>

lemma cat_Cons_Inr:
  "cat (w # ws) = Inr b \<longleftrightarrow> (\<exists>x y. w = Inr x \<and> cat ws = Inr y \<and> b = x @ y)"
  by (cases w) (auto split: sum.splits)

declare cat.simps(2,3) [simp del]

lemma cat_append_Inr:
  "cat (vs @ ws) = Inr b \<longleftrightarrow> (\<exists>x y. cat vs = Inr x \<and> cat ws = Inr y \<and> b = x @ y)"
  by (induction vs arbitrary: b) (auto simp: cat_Cons_Inr)

lemma cat_map_Inr:
  assumes "\<And>x b. f x = Inr b \<longleftrightarrow> ok x \<and> b = enc x"
  shows "cat (map f xs) = Inr b \<longleftrightarrow> list_all ok xs \<and> b = concat (map enc xs)"
  by (induction xs arbitrary: b) (auto simp: cat_Cons_Inr assms)

lemma maximum_less: "maximum l < 2 ^ 32"
  by (cases l) (simp_all add: limit_defs)

lemma put_bytes_Inr: "put_bytes v l = Inr b \<longleftrightarrow> fits (maximum l) v \<and> b = frame v"
  using maximum_less[of l]
  by (auto simp: put_bytes_def put_count_def put_u32_def fits_def frame_def cat.simps)

lemma put_optional_bytes_Inr:
  "put_optional_bytes v l = Inr b \<longleftrightarrow> pred_option (fits (maximum l)) v \<and> b = opt_frame v"
  by (cases v) (auto simp: put_optional_bytes_def opt_frame_def put_u8_def cat_Cons_Inr put_bytes_Inr)

lemma put_count_Inr: "put_count n msg = Inr b \<longleftrightarrow> n < 2 ^ 32 \<and> b = u32_to_be (word_of_nat n)"
  by (auto simp: put_count_def put_u32_def)

lemma put_word_Inr:
  "put_u8 w = Inr b \<longleftrightarrow> b = [w]"
  "put_u32 x = Inr b \<longleftrightarrow> b = u32_to_be x"
  "put_u64 y = Inr b \<longleftrightarrow> b = u64_to_be y"
  by (auto simp: put_u8_def put_u32_def put_u64_def)

lemmas put_Inr = cat_Cons_Inr put_bytes_Inr put_optional_bytes_Inr put_count_Inr
  put_string_def put_optional_string_def put_word_Inr

lemma put_list_Inr:
  "cat (map (\<lambda>k. put_bytes k l) ks) = Inr b \<longleftrightarrow>
     list_all (fits (maximum l)) ks \<and> b = concat (map frame ks)"
  "cat (map (\<lambda>v. put_optional_bytes v l) vs) = Inr b \<longleftrightarrow>
     list_all (pred_option (fits (maximum l))) vs \<and> b = concat (map opt_frame vs)"
  "cat (map (\<lambda>(k, v). cat [put_bytes k l, put_bytes v m]) rs) = Inr b \<longleftrightarrow>
     list_all (\<lambda>(k, v). fits (maximum l) k \<and> fits (maximum m) v) rs \<and>
     b = concat (map (\<lambda>(k, v). frame k @ frame v) rs)"
  "cat (map (\<lambda>i. cat [put_bytes (di_field i) l, put_u8 (u8_of_bool (di_unique i))]) is) = Inr b \<longleftrightarrow>
     list_all (\<lambda>i. fits (maximum l) (di_field i)) is \<and>
     b = concat (map (\<lambda>i. frame (di_field i) @ [u8_of_bool (di_unique i)]) is)"
  by (rule cat_map_Inr; auto simp: put_Inr)+

text \<open>
  Two conditions on a message: its strings are UTF-8 (the type invariant of
  \<open>String\<close>), and its element counts are ones the decoder accepts.
\<close>

fun strings_ok :: "message \<Rightarrow> bool" where
  "strings_ok (Authenticate u p d) \<longleftrightarrow> utf8_valid u \<and> utf8_valid p \<and> utf8_valid d"
| "strings_ok (SubscribeFrom p c) \<longleftrightarrow> pred_option utf8_valid c"
| "strings_ok (SubscribeCollectionFrom n c) \<longleftrightarrow> utf8_valid n \<and> pred_option utf8_valid c"
| "strings_ok (CreateCollection n is) \<longleftrightarrow> utf8_valid n \<and> list_all (\<lambda>i. utf8_valid (di_field i)) is"
| "strings_ok (GetDocument c i) \<longleftrightarrow> utf8_valid c \<and> utf8_valid i"
| "strings_ok (PutDocument c i d) \<longleftrightarrow> utf8_valid c \<and> utf8_valid i"
| "strings_ok (DeleteDocument c i) \<longleftrightarrow> utf8_valid c \<and> utf8_valid i"
| "strings_ok (ListDocuments c l) \<longleftrightarrow> utf8_valid c"
| "strings_ok (QueryDocuments c f v l) \<longleftrightarrow> utf8_valid c \<and> utf8_valid f"
| "strings_ok (SubscribeCollection c) \<longleftrightarrow> utf8_valid c"
| "strings_ok (Documents ds) \<longleftrightarrow> list_all (\<lambda>(i, d). utf8_valid i) ds"
| "strings_ok (DocumentChange q i d) \<longleftrightarrow> utf8_valid i"
| "strings_ok (CursorChange c k v) \<longleftrightarrow> utf8_valid c"
| "strings_ok (CursorDocumentChange c n i d) \<longleftrightarrow> utf8_valid c \<and> utf8_valid n \<and> utf8_valid i"
| "strings_ok (Caught c) \<longleftrightarrow> utf8_valid c"
| "strings_ok (ReplicaHello d l r) \<longleftrightarrow> utf8_valid d \<and> utf8_valid r"
| "strings_ok (ReplicaDiverged m) \<longleftrightarrow> utf8_valid m"
| "strings_ok (Error c m) \<longleftrightarrow> utf8_valid m"
| "strings_ok _ \<longleftrightarrow> True"

fun counts_ok :: "message \<Rightarrow> bool" where
  "counts_ok (MultiGet ks) \<longleftrightarrow> length ks \<le> MAX_SCAN_LIMIT"
| "counts_ok (CreateCollection n is) \<longleftrightarrow> length is \<le> MAX_DOCUMENT_INDEXES"
| "counts_ok (Values vs) \<longleftrightarrow> length vs \<le> MAX_SCAN_LIMIT"
| "counts_ok (Rows rs) \<longleftrightarrow> length rs \<le> MAX_SCAN_LIMIT"
| "counts_ok (Keys ks) \<longleftrightarrow> length ks \<le> MAX_SCAN_LIMIT"
| "counts_ok (Documents ds) \<longleftrightarrow> length ds \<le> MAX_SCAN_LIMIT"
| "counts_ok (ReplicaRecords rs) \<longleftrightarrow>
     rs \<noteq> [] \<and> length rs \<le> MAX_REPLICA_RECORDS \<and> list_all (\<lambda>r. r \<noteq> []) rs"
| "counts_ok _ \<longleftrightarrow> True"

lemmas field_dec = bytes_code.dec_enc string_code.dec_enc optional_bytes_code.dec_enc
  optional_string_code.dec_enc rows_code.dec_enc keys_code.dec_enc values_code.dec_enc
  documents_code.dec_enc indexes_code.dec_enc records_code.dec_enc
  bool_code.dec_enc[simplified] error_code.dec_enc[simplified]

lemmas decode_defs = decode_message_def decode_message_1_20_def decode_message_21_30_def
  decode_message_31_44_def decode_message_45_57_def

lemma pred_option_conj:
  "pred_option (\<lambda>x. P x \<and> Q x) v \<longleftrightarrow> pred_option P v \<and> pred_option Q v"
  by (cases v) auto

lemma list_all_conj: "list_all (\<lambda>x. P x \<and> Q x) xs \<longleftrightarrow> list_all P xs \<and> list_all Q xs"
  by (induction xs) auto

lemma list_all_pair_conj:
  "list_all (\<lambda>(k, v). P k \<and> Q k \<and> R v) xs \<longleftrightarrow>
     list_all (\<lambda>(k, v). P k \<and> R v) xs \<and> list_all (\<lambda>(k, v). Q k) xs"
  by (induction xs) auto

lemma u8_of_bool_neq_0 [simp]: "u8_of_bool b \<noteq> 0 \<longleftrightarrow> b" "u8_of_bool b = 0 \<longleftrightarrow> \<not> b"
  by (simp_all add: u8_of_bool_def)

lemma counted_fold:
  "u32_to_be (word_of_nat (length xs)) @ concat (map enc xs) = counted enc xs"
  "u32_to_be (word_of_nat (length xs)) @ concat (map enc xs) @ r = counted enc xs @ r"
  by (simp_all add: counted_def)

lemma decode_encode_message:
  assumes "encode_message m = Inr b" "strings_ok m" "counts_ok m"
  shows "b \<noteq> [] \<and> decode_message (unat (hd b)) (tl b @ r) = Inr (m, r)"
  using assms
  by (cases m, simp_all add: put_Inr put_list_Inr,
      simp_all add: decode_defs field_dec codec_simps counted_fold
        pred_option_conj list_all_conj list_all_pair_conj)


lemmas field_sound = u8_code.dec_sound u32_code.dec_sound u64_code.dec_sound bytes_code.dec_sound
  string_code.dec_sound optional_bytes_code.dec_sound optional_string_code.dec_sound
  rows_code.dec_sound keys_code.dec_sound values_code.dec_sound documents_code.dec_sound
  indexes_code.dec_sound records_code.dec_sound bool_code.dec_sound error_code.dec_sound

definition is_vote_response :: "message \<Rightarrow> bool" where
  "is_vote_response m \<longleftrightarrow> (\<exists>g e. m = VoteResponse g e)"

lemma limits_u32: "length xs \<le> MAX_SCAN_LIMIT \<Longrightarrow> length xs < 4294967296"
  "length xs \<le> MAX_DOCUMENT_INDEXES \<Longrightarrow> length xs < 4294967296"
  "length xs \<le> MAX_REPLICA_RECORDS \<Longrightarrow> length xs < 4294967296"
  by (simp_all add: limit_defs)

lemma decode_sound_1_20:
  "decode_message_1_20 k s = Inr (m, r) \<Longrightarrow>
     strings_ok m \<and> counts_ok m \<and> \<not> is_vote_response m \<and>
     (\<exists>p. encode_message m = Inr (word_of_nat k # p) \<and> s = p @ r)"
  unfolding decode_message_1_20_def
  by (simp split: if_splits)
    (auto elim!: pbindE preturnE dest!: field_sound simp: put_Inr put_list_Inr is_vote_response_def
      pfail_def counted_def limits_u32 pred_option_conj list_all_conj list_all_pair_conj)

lemma decode_sound_21_30:
  "decode_message_21_30 k s = Inr (m, r) \<Longrightarrow>
     strings_ok m \<and> counts_ok m \<and> \<not> is_vote_response m \<and>
     (\<exists>p. encode_message m = Inr (word_of_nat k # p) \<and> s = p @ r)"
  unfolding decode_message_21_30_def
  by (simp split: if_splits)
    (auto elim!: pbindE preturnE dest!: field_sound simp: put_Inr put_list_Inr is_vote_response_def
      pfail_def counted_def limits_u32 pred_option_conj list_all_conj list_all_pair_conj)

lemma decode_sound_31_44:
  "decode_message_31_44 k s = Inr (m, r) \<Longrightarrow>
     strings_ok m \<and> counts_ok m \<and> \<not> is_vote_response m \<and>
     (\<exists>p. encode_message m = Inr (word_of_nat k # p) \<and> s = p @ r)"
  unfolding decode_message_31_44_def
  by (simp split: if_splits)
    (auto elim!: pbindE preturnE dest!: field_sound simp: put_Inr put_list_Inr is_vote_response_def
      pfail_def counted_def limits_u32 pred_option_conj list_all_conj list_all_pair_conj)

lemma decode_sound_45_57:
  "decode_message_45_57 k s = Inr (m, r) \<Longrightarrow>
     strings_ok m \<and> counts_ok m \<and>
     (\<not> is_vote_response m \<longrightarrow> (\<exists>p. encode_message m = Inr (word_of_nat k # p) \<and> s = p @ r))"
  unfolding decode_message_45_57_def
  by (simp split: if_splits)
    (auto elim!: pbindE preturnE dest!: field_sound simp: put_Inr put_list_Inr is_vote_response_def
      pfail_def counted_def limits_u32 pred_option_conj list_all_conj list_all_pair_conj)

lemma decode_message_sound:
  assumes "decode_message k s = Inr (m, r)"
  shows "strings_ok m \<and> counts_ok m \<and>
     (\<not> is_vote_response m \<longrightarrow> (\<exists>p. encode_message m = Inr (word_of_nat k # p) \<and> s = p @ r))"
  using assms unfolding decode_message_def
  by (simp split: if_splits)
    (use decode_sound_1_20 decode_sound_21_30 decode_sound_31_44 decode_sound_45_57 in blast)+

lemma encode_envelope_Inr:
  "encode_envelope e = Inr b \<longleftrightarrow>
     (\<exists>p. encode_message (env_message e) = Inr p \<and>
          b = u16_to_be (env_version e) @ u64_to_be (env_request_id e) @ p)"
  by (auto simp: encode_envelope_def put_Inr)

lemma decode_envelope_header:
  assumes "p \<noteq> []"
  shows "decode_envelope ((u16_to_be v @ u64_to_be i @ p) @ r) =
    (if v \<noteq> PROTOCOL_VERSION then Inl (VersionMismatch v)
     else pbind (decode_message (unat (hd p)))
       (\<lambda>m. preturn \<lparr>env_version = v, env_request_id = i, env_message = m\<rparr>) (tl p @ r))"
proof -
  obtain t q where "p = t # q" using assms by (cases p) auto
  then show ?thesis
    by (simp add: decode_envelope_def pbind_def require_def Let_def nth_append)
qed

lemma decode_envelope_split:
  assumes "decode_envelope s = Inr (e, r)"
  shows "env_version e = PROTOCOL_VERSION \<and>
    (\<exists>t p. s = u16_to_be (env_version e) @ u64_to_be (env_request_id e) @ t # p \<and>
         decode_message (unat t) p = Inr (env_message e, r))"
proof -
  have len: "11 \<le> length s"
    using assms by (auto simp: decode_envelope_def require_def elim!: pbindE split: if_splits)
  define h where "h = take 2 s"
  define i where "i = take 8 (drop 2 s)"
  have s: "s = h @ i @ s ! 10 # drop 11 s"
  proof -
    have "drop 10 s = s ! 10 # drop 11 s" using len Cons_nth_drop_Suc[of 10 s] by simp
    moreover have "i @ drop 10 s = drop 2 s"
      using append_take_drop_id[of 8 "drop 2 s"] by (simp add: i_def)
    then have "s = h @ i @ drop 10 s" by (simp add: h_def)
    ultimately show ?thesis by simp
  qed
  have "length h = 2" "length i = 8" using len by (auto simp: h_def i_def)
  then have hi: "u16_to_be (u16_of_be h) = h" "u64_to_be (u64_of_be i) = i"
    by (simp_all add: to_be_of_be)
  have "u16_of_be h = PROTOCOL_VERSION" "env_version e = u16_of_be h"
    "env_request_id e = u64_of_be i" "decode_message (unat (s ! 10)) (drop 11 s) = Inr (env_message e, r)"
    using assms by (auto simp: decode_envelope_def require_def Let_def h_def i_def
        elim!: pbindE preturnE split: if_splits)
  with s hi show ?thesis by metis
qed

lemma decode_envelope_roundtrip:
  assumes "encode_envelope e = Inr b" "env_version e = PROTOCOL_VERSION"
    and "strings_ok (env_message e)" "counts_ok (env_message e)"
  shows "decode_envelope (b @ r) = Inr (e, r)"
proof -
  obtain p where p: "encode_message (env_message e) = Inr p"
    "b = u16_to_be (env_version e) @ u64_to_be (env_request_id e) @ p"
    using assms(1) by (auto simp: encode_envelope_Inr)
  with decode_encode_message[OF p(1) assms(3,4)] show ?thesis
    by (simp add: assms(2) decode_envelope_header[simplified] codec_simps)
qed

lemma get_counted_refuses:
  "n < length xs \<Longrightarrow> length xs < 4294967296 \<Longrightarrow>
     get_counted n msg p (counted enc xs @ r) = Inl (Malformed msg)"
  by (simp add: get_counted_def counted_def codec_simps unat_word_of_nat_u32)

lemma get_many_empty_record:
  "list_all (fits MAX_REPLICA_RECORD) rs \<Longrightarrow> [] \<in> set rs \<Longrightarrow>
     get_many (length rs) get_record (concat (map frame rs) @ r)
       = Inl (Malformed ''empty replication record'')"
proof (induction rs)
  case (Cons a rs)
  then show ?case
    by (cases "a = []") (auto simp: get_record_def bytes_code.dec_enc codec_simps pbind_def)
qed simp

lemma get_records_refuses:
  assumes "list_all (fits MAX_REPLICA_RECORD) rs" "length rs < 4294967296"
    and "\<not> counts_ok (ReplicaRecords rs)"
  shows "\<exists>msg. get_records (counted frame rs @ r) = Inl (Malformed msg)"
proof -
  consider "rs = [] \<or> MAX_REPLICA_RECORDS < length rs"
    | "rs \<noteq> []" "length rs \<le> MAX_REPLICA_RECORDS" "[] \<in> set rs"
    using assms(3) by (simp add: list_all_iff) (metis not_le)
  then show ?thesis
  proof cases
    case 1
    then show ?thesis
      using assms(2) by (auto simp: get_records_def counted_def codec_simps unat_word_of_nat_u32)
  next
    case 2
    then show ?thesis
      using assms(2) get_many_empty_record[OF assms(1) 2(3), of r]
      by (simp add: get_records_def counted_def codec_simps unat_word_of_nat_u32)
  qed
qed

lemma decode_message_refuses:
  assumes "encode_message m = Inr b" "\<not> counts_ok m" "strings_ok m"
  shows "b \<noteq> [] \<and> (\<exists>msg. decode_message (unat (hd b)) (tl b @ r) = Inl (Malformed msg))"
proof (cases "\<exists>rs. m = ReplicaRecords rs")
  case True
  then obtain rs where m: "m = ReplicaRecords rs" by blast
  with assms(1) have "list_all (fits MAX_REPLICA_RECORD) rs" "length rs < 4294967296"
    "b = 52 # counted frame rs"
    by (auto simp: put_Inr put_list_Inr counted_def)
  moreover from this obtain msg where "get_records (counted frame rs @ r) = Inl (Malformed msg)"
    using get_records_refuses assms(2) m by blast
  ultimately show ?thesis by (simp add: decode_defs codec_simps)
next
  case False
  with assms show ?thesis
    by (cases m, simp_all add: put_Inr put_list_Inr not_le,
        simp_all add: decode_defs field_dec codec_simps counted_fold get_counted_refuses)
qed

section \<open>Properties\<close>

text \<open>
  C15: a message this side can encode, with UTF-8 strings and element counts the
  decoder admits, is decoded to exactly the same envelope, leaving whatever
  follows it untouched.
\<close>

theorem envelope_roundtrip:
  assumes "encode_envelope e = Inr b" "env_version e = PROTOCOL_VERSION"
    and "strings_ok (env_message e)" "counts_ok (env_message e)"
  shows "decode_envelope (b @ r) = Inr (e, r)"
  using assms by (rule decode_envelope_roundtrip)

theorem envelope_roundtrip_witness:
  "decode_envelope (projr (encode_envelope (envelope_new 7 (Put [1, 2] [3]))) @ [9])
     = Inr (envelope_new 7 (Put [1, 2] [3]), [9])"
proof -
  have "encode_envelope (envelope_new 7 (Put [1, 2] [3])) =
      Inr (projr (encode_envelope (envelope_new 7 (Put [1, 2] [3]))))"
    by (simp add: envelope_new_def encode_envelope_def cat.simps put_u8_def put_u64_def put_bytes_def
        put_count_def put_u32_def limit_defs)
  from envelope_roundtrip[OF this] show ?thesis by (simp add: envelope_new_def)
qed

text \<open>
  C16: whatever the decoder accepts is a well-formed message of this version and,
  \<open>VoteResponse\<close> apart (whose flag byte is read as non-zero), the consumed bytes
  are the very bytes the encoder produces for it: no two byte strings decode to
  the same message.
\<close>

theorem decode_envelope_canonical:
  assumes "decode_envelope s = Inr (e, r)"
  shows "env_version e = PROTOCOL_VERSION \<and> strings_ok (env_message e) \<and> counts_ok (env_message e) \<and>
    (is_vote_response (env_message e) \<or> (\<exists>b. encode_envelope e = Inr b \<and> s = b @ r))"
proof -
  obtain t p where s: "s = u16_to_be (env_version e) @ u64_to_be (env_request_id e) @ t # p"
    and v: "env_version e = PROTOCOL_VERSION"
    and d: "decode_message (unat t) p = Inr (env_message e, r)"
    using decode_envelope_split[OF assms] by blast
  from decode_message_sound[OF d] s v show ?thesis
    by (auto simp: encode_envelope_Inr)
qed

theorem decode_envelope_canonical_witness:
  "\<exists>b. encode_envelope \<lparr>env_version = 6, env_request_id = 0, env_message = Begin\<rparr> = Inr b
     \<and> [0, 6, 0, 0, 0, 0, 0, 0, 0, 0, 15] = b @ []"
proof -
  have "decode_envelope [0, 6, 0, 0, 0, 0, 0, 0, 0, 0, 15]
      = Inr (\<lparr>env_version = 6, env_request_id = 0, env_message = Begin\<rparr>, [])"
    by (simp add: decode_envelope_def pbind_def require_def preturn_def PROTOCOL_VERSION_def
        of_be_defs of_be_def decode_message_def decode_message_1_20_def)
  from decode_envelope_canonical[OF this] show ?thesis
    by (simp add: is_vote_response_def PROTOCOL_VERSION_def)
qed

text \<open>
  C40: the encoder does not enforce the decoder's element counts.  Every message
  that encodes but breaks them (more than 10,000 rows, keys, values or documents,
  more than 256 indexes, no replication record, more than 4,096 of them or an
  empty one) is refused by the peer as malformed, so for these the two
  directions do not fail on the same input.
\<close>

theorem encoder_exceeds_decoder_counts:
  assumes "encode_envelope e = Inr b" "env_version e = PROTOCOL_VERSION"
    and "strings_ok (env_message e)" "\<not> counts_ok (env_message e)"
  shows "\<exists>msg. decode_envelope b = Inl (Malformed msg)"
proof -
  obtain p where p: "encode_message (env_message e) = Inr p"
    "b = u16_to_be (env_version e) @ u64_to_be (env_request_id e) @ p"
    using assms(1) by (auto simp: encode_envelope_Inr)
  from decode_message_refuses[OF p(1) assms(4,3), of "[]"] p(2) assms(2) show ?thesis
    using decode_envelope_header[of p PROTOCOL_VERSION "env_request_id e" "[]"]
    by (auto simp: codec_simps)
qed

theorem encoder_exceeds_decoder_counts_witness:
  "\<exists>msg. decode_envelope (projr (encode_envelope (envelope_new 1 (ReplicaRecords []))))
     = Inl (Malformed msg)"
proof -
  have "encode_envelope (envelope_new 1 (ReplicaRecords [])) =
      Inr (projr (encode_envelope (envelope_new 1 (ReplicaRecords []))))"
    by (simp add: envelope_new_def encode_envelope_def cat.simps put_u8_def put_u64_def
        put_count_def put_u32_def)
  from encoder_exceeds_decoder_counts[OF this] show ?thesis by (simp add: envelope_new_def)
qed

text \<open>
  through a framing layer that returns each payload it framed, a codec hands
  the receiver the envelope the sender encoded, and leaves the bytes after the
  frame in the buffer.
\<close>

lemma codec_roundtrip:
  assumes frames: "\<And>p f rest. frames_encode (max_frame_length c) p = Inr f \<Longrightarrow>
      frames_decode (max_frame_length c) (f @ rest) = Inr (Some p, rest)"
    and enc: "codec_encode frames_encode c e = Inr w"
    and ok: "env_version e = PROTOCOL_VERSION" "strings_ok (env_message e)" "counts_ok (env_message e)"
  shows "codec_decode frames_decode c (w @ rest) = Inr (Some e, rest)"
proof -
  obtain b where b: "encode_envelope e = Inr b" "frames_encode (max_frame_length c) b = Inr w"
    using enc by (auto simp: codec_encode_def split: sum.splits if_splits)
  show ?thesis
    using frames[OF b(2)] decode_envelope_roundtrip[OF b(1) ok, of "[]"]
    by (simp add: codec_decode_def)
qed

definition len_frames_encode :: "nat \<Rightarrow> bytes \<Rightarrow> codec_error + bytes" where
  "len_frames_encode ceiling p =
     (if ceiling < length p \<or> 2 ^ 32 \<le> length p then Inl (CodecIo ''frame size too big'')
      else Inr (u32_to_be (word_of_nat (length p)) @ p))"

definition len_frames_decode :: "nat \<Rightarrow> bytes \<Rightarrow> codec_error + (bytes option \<times> bytes)" where
  "len_frames_decode ceiling s =
     (if length s < 4 then Inr (None, s)
      else (let n = unat (u32_of_be (take 4 s)) in
        if ceiling < n then Inl (CodecIo ''frame size too big'')
        else if length s < 4 + n then Inr (None, s)
        else Inr (Some (take n (drop 4 s)), drop (4 + n) s)))"

theorem codec_roundtrip_witness:
  "codec_decode len_frames_decode \<lparr>max_frame_length = 1024\<rparr>
     (projr (codec_encode len_frames_encode \<lparr>max_frame_length = 1024\<rparr> (envelope_new 7 Begin)) @ [5])
   = Inr (Some (envelope_new 7 Begin), [5])"
proof -
  have f: "len_frames_decode 1024 (f @ rest) = Inr (Some p, rest)"
    if "len_frames_encode 1024 p = Inr f" for p f rest
    using that
    by (auto simp: len_frames_encode_def len_frames_decode_def Let_def unat_word_of_nat_u32
        split: if_splits)
  have e: "codec_encode len_frames_encode \<lparr>max_frame_length = 1024\<rparr> (envelope_new 7 Begin)
      = Inr (projr (codec_encode len_frames_encode \<lparr>max_frame_length = 1024\<rparr> (envelope_new 7 Begin)))"
    by (simp add: codec_encode_def envelope_new_def encode_envelope_def cat.simps put_u8_def put_u64_def
        len_frames_encode_def)
  show ?thesis
    using codec_roundtrip[where c = "\<lparr>max_frame_length = 1024\<rparr>" and frames_encode = len_frames_encode
        and frames_decode = len_frames_decode, OF _ e] f
    by (simp add: envelope_new_def)
qed

end
