(* ===== verification/Keyspace.thy ===== *)
theory Keyspace
  imports Prelude
begin

text \<open>
  The engine's error values and its key space (\<open>crates/vyrn-core/src/lib.rs\<close>):
  size limits, the reserved \<open>\0vyrn:\<close> prefix and the internal key codes under it
  (tombstones, change-log records, index definitions and index entries), the
  validators, and \<open>prefix_end\<close>, the upper bound of every prefix scan.  The
  lemmas show that the codes are injective and kept apart, that a change-log key
  sorts by its sequence, and that a prefix scan covers exactly its prefix.
\<close>

section \<open>Errors and batch operations\<close>

datatype (plugins only: size) vyrn_error =
    EmptyKey | ReservedKey | KeyTooLarge | ValueTooLarge
  | InvalidDocument string
  | InvalidCursor string
  | CursorTooOld (requested_cursor: string) (oldest_cursor: string)
  | InvalidRange
  | Conflict
  | SnapshotTooOld (requested_revision: u64) (oldest_revision: u64)
  | UniqueViolation (violated_index: bytes) (violated_value: bytes)
  | IndexExists | IndexNotFound | AlreadyOpen | LegacyFormat
  | FormatVersion (fv_structure: string) (fv_found: byte) (fv_expected: byte)
  | Poisoned
  | CommittedThenPoisoned u64
  | CorruptWal (cw_segment: u64) (cw_offset: u64) (cw_reason: string)
  | InvalidReplicatedRecord string
  | CorruptPage (cp_page_id: u64) (cp_reason: string)
  | CorruptValue (cv_offset: u64) (cv_reason: string)
  | CorruptManifest string
  | CorruptBackup string
  | RestoreTargetNotEmpty
  | WriteBackMismatch string
  | Io

datatype batch_operation = Put bytes bytes | Delete bytes

fun operation_key :: "batch_operation \<Rightarrow> bytes" where
  "operation_key (Put k v) = k"
| "operation_key (Delete k) = k"

datatype batch_result = PutResult | DeleteResult (existed: bool)

record index_update =
  iu_index :: bytes
  iu_primary_key :: bytes
  iu_old_value :: "bytes option"
  iu_new_value :: "bytes option"

section \<open>Prefixes and limits\<close>

definition ascii :: "string \<Rightarrow> bytes" where
  "ascii s = map (\<lambda>c. word_of_nat (of_char c)) s"

lemma ascii_simps [simp]:
  "ascii [] = []" "ascii (c # s) = word_of_nat (of_char c) # ascii s"
  by (simp_all add: ascii_def)

definition INTERNAL_PREFIX :: bytes where "INTERNAL_PREFIX = 0 # ascii ''vyrn:''"
definition TOMBSTONE_PREFIX :: bytes where "TOMBSTONE_PREFIX = 0 # ascii ''vyrn:tombstone:''"
definition CHANGE_LOG_PREFIX :: bytes where "CHANGE_LOG_PREFIX = 0 # ascii ''vyrn:changelog:''"
definition CHANGE_LOG_START_KEY :: bytes where
  "CHANGE_LOG_START_KEY = 0 # ascii ''vyrn:changelog-start''"
definition DOCUMENT_KEY_PREFIX :: bytes where "DOCUMENT_KEY_PREFIX = 0 # ascii ''vyrn:doc:''"
definition DOCUMENT_INDEX_PREFIX :: bytes where
  "DOCUMENT_INDEX_PREFIX = 0 # ascii ''vyrn:doc-index:''"

lemmas prefix_defs = INTERNAL_PREFIX_def TOMBSTONE_PREFIX_def CHANGE_LOG_PREFIX_def
  CHANGE_LOG_START_KEY_def DOCUMENT_KEY_PREFIX_def DOCUMENT_INDEX_PREFIX_def

definition MAX_KEY_SIZE :: nat where "MAX_KEY_SIZE = 64 * 1024"
definition MAX_STORED_KEY_SIZE :: nat where
  "MAX_STORED_KEY_SIZE = MAX_KEY_SIZE + length TOMBSTONE_PREFIX"
definition MAX_VALUE_SIZE :: nat where "MAX_VALUE_SIZE = 16 * 1024 * 1024"

section \<open>Validators\<close>

abbreviation starts_with :: "bytes \<Rightarrow> bytes \<Rightarrow> bool" where
  "starts_with key p \<equiv> prefix p key"

definition validate_key :: "bytes \<Rightarrow> vyrn_error + unit" where
  "validate_key key =
     (if key = [] then Inl EmptyKey
      else if MAX_KEY_SIZE < length key then Inl KeyTooLarge
      else Inr ())"

definition validate_user_key :: "bytes \<Rightarrow> vyrn_error + unit" where
  "validate_user_key key =
     (case validate_key key of
        Inl e \<Rightarrow> Inl e
      | Inr _ \<Rightarrow> if starts_with key INTERNAL_PREFIX then Inl ReservedKey else Inr ())"

definition validate_user_operation :: "batch_operation \<Rightarrow> vyrn_error + unit" where
  "validate_user_operation op =
     (if starts_with (operation_key op) INTERNAL_PREFIX then Inl ReservedKey else Inr ())"

definition validate_index_name :: "bytes \<Rightarrow> vyrn_error + unit" where
  "validate_index_name name =
     (if name = [] then Inl EmptyKey
      else if 65535 < length name then Inl KeyTooLarge
      else if starts_with name INTERNAL_PREFIX \<and> \<not> starts_with name DOCUMENT_INDEX_PREFIX
        then Inl ReservedKey
      else Inr ())"

definition validate_index_value :: "bytes option \<Rightarrow> vyrn_error + unit" where
  "validate_index_value value =
     (case value of
        Some v \<Rightarrow> if 4294967295 < length v then Inl ValueTooLarge else Inr ()
      | None \<Rightarrow> Inr ())"

definition validate_value :: "bytes \<Rightarrow> vyrn_error + unit" where
  "validate_value value = (if MAX_VALUE_SIZE < length value then Inl ValueTooLarge else Inr ())"

definition is_versioned_key :: "bytes \<Rightarrow> bool" where
  "is_versioned_key key \<longleftrightarrow> \<not> starts_with key CHANGE_LOG_PREFIX \<and> key \<noteq> CHANGE_LOG_START_KEY"

definition is_published_key :: "bytes \<Rightarrow> bool" where
  "is_published_key key \<longleftrightarrow>
     \<not> starts_with key INTERNAL_PREFIX \<or> starts_with key DOCUMENT_KEY_PREFIX"

section \<open>Internal key codes\<close>

definition change_log_key :: "u64 \<Rightarrow> bytes" where
  "change_log_key sequence = CHANGE_LOG_PREFIX @ u64_to_be sequence"

definition change_log_sequence :: "bytes \<Rightarrow> vyrn_error + u64" where
  "change_log_sequence key =
     (let suffix = drop (length CHANGE_LOG_PREFIX) key
      in if length suffix \<noteq> 8
         then Inl (CorruptManifest ''change log key has an invalid sequence'')
         else Inr (u64_of_be suffix))"

definition tombstone_key :: "bytes \<Rightarrow> bytes" where
  "tombstone_key key = TOMBSTONE_PREFIX @ key"

definition index_definition_key :: "bytes \<Rightarrow> bytes" where
  "index_definition_key name =
     INTERNAL_PREFIX @ ascii ''index:def:'' @ u16_to_be (word_of_nat (length name)) @ name"

definition index_entry_prefix :: "bytes \<Rightarrow> bytes" where
  "index_entry_prefix name =
     INTERNAL_PREFIX @ ascii ''index:entry:'' @ u16_to_be (word_of_nat (length name)) @ name"

definition index_value_prefix :: "bytes \<Rightarrow> bytes \<Rightarrow> bytes" where
  "index_value_prefix name val =
     index_entry_prefix name @ u32_to_be (word_of_nat (length val)) @ val"

definition index_entry_key :: "bytes \<Rightarrow> bytes \<Rightarrow> bytes \<Rightarrow> bytes" where
  "index_entry_key name val primary_key = index_value_prefix name val @ primary_key"

definition strip_prefix :: "bytes \<Rightarrow> bytes \<Rightarrow> bytes option" where
  "strip_prefix p key = (if prefix p key then Some (drop (length p) key) else None)"

definition decode_index_primary :: "bytes \<Rightarrow> bytes \<Rightarrow> vyrn_error + bytes" where
  "decode_index_primary key p =
     (case strip_prefix p key of
        None \<Rightarrow> Inl (CorruptManifest ''invalid index entry key'')
      | Some primary \<Rightarrow>
         (case validate_key primary of
            Inl e \<Rightarrow> Inl e
          | Inr _ \<Rightarrow> Inr primary))"

text \<open>The downward loop over byte positions of \<open>prefix_end\<close>.\<close>

fun prefix_end_from :: "bytes \<Rightarrow> nat \<Rightarrow> bytes option" where
  "prefix_end_from e 0 = None"
| "prefix_end_from e (Suc i) =
     (if e ! i \<noteq> 255 then Some (take (Suc i) (e[i := e ! i + 1])) else prefix_end_from e i)"

definition prefix_end :: "bytes \<Rightarrow> bytes option" where
  "prefix_end p = prefix_end_from p (length p)"

section \<open>The range of a prefix scan\<close>

lemma byte_le_255 [simp]: "(b :: byte) \<le> 255"
proof -
  have "unat b \<le> 255" using unat_byte_less[of b] by linarith
  then show ?thesis by (simp add: word_le_nat_alt)
qed

lemma byte_255_le_iff [simp]: "(255 :: byte) \<le> b \<longleftrightarrow> b = 255"
  using byte_le_255[of b] by (metis order_antisym order_refl)

lemma byte_less_Suc: "(b :: byte) \<noteq> 255 \<Longrightarrow> c < b + 1 \<longleftrightarrow> c \<le> b"
  by unat_arith auto

lemma prefix_end_from_None: "prefix_end_from e i = None \<longleftrightarrow> (\<forall>m < i. e ! m = 255)"
  by (induction i) (auto simp: less_Suc_eq)

lemma prefix_end_from_Some:
  "prefix_end_from e i = Some x \<Longrightarrow> i \<le> length e \<Longrightarrow>
     \<exists>j < i. e ! j \<noteq> 255 \<and> (\<forall>m. j < m \<and> m < i \<longrightarrow> e ! m = 255) \<and> x = take j e @ [e ! j + 1]"
proof (induction i)
  case (Suc i)
  show ?case
  proof (cases "e ! i = 255")
    case True
    with Suc show ?thesis by (auto simp: less_Suc_eq)
  next
    case False
    with Suc.prems have "x = take i e @ [e ! i + 1]"
      by (auto simp: take_Suc_conv_app_nth)
    with False show ?thesis by (intro exI[of _ i]) auto
  qed
qed simp

lemma prefix_end_None: "prefix_end p = None \<longleftrightarrow> p = replicate (length p) 255"
  by (auto simp: prefix_end_def prefix_end_from_None list_eq_iff_nth_eq)

lemma prefix_end_Some:
  assumes "prefix_end p = Some e"
  obtains q b n where "p = q @ b # replicate n 255" "b \<noteq> 255" "e = q @ [b + 1]"
proof -
  from prefix_end_from_Some[of p "length p" e] assms
  obtain j where j: "j < length p" "p ! j \<noteq> 255" "e = take j p @ [p ! j + 1]"
    "\<forall>m. j < m \<and> m < length p \<longrightarrow> p ! m = 255"
    by (auto simp: prefix_end_def)
  then have "drop (Suc j) p = replicate (length p - Suc j) 255"
    by (auto simp: list_eq_iff_nth_eq)
  then have "p = take j p @ p ! j # replicate (length p - Suc j) 255"
    using id_take_nth_drop[OF j(1)] by simp
  with j that show thesis by blast
qed

lemma replicate_255_le_iff: "replicate n 255 \<le> (k :: bytes) \<longleftrightarrow> prefix (replicate n 255) k"
proof (induction n arbitrary: k)
  case (Suc n)
  then show ?case by (cases k) (auto simp: order.strict_iff_order)
qed simp

lemma append_le_cancel [simp]: "q @ x \<le> q @ y \<longleftrightarrow> x \<le> (y :: 'a :: linorder list)"
  by (induction q) auto

lemma append_less_cancel [simp]: "q @ x < q @ y \<longleftrightarrow> x < (y :: 'a :: linorder list)"
  by (induction q) auto

lemma between_common_prefix:
  fixes k :: "'a :: linorder list"
  shows "q @ x \<le> k \<Longrightarrow> k < q @ y \<Longrightarrow> \<exists>t. k = q @ t"
proof (induction q arbitrary: k)
  case (Cons a q)
  then show ?case by (cases k) (auto simp: order.strict_iff_order)
qed simp

lemma prefix_imp_le: "prefix p k \<Longrightarrow> p \<le> (k :: bytes)"
  by (auto simp: prefix_def) (metis append_Nil2 append_le_cancel Nil_le_Cons list.exhaust)

lemma prefix_end_bound:
  assumes "prefix_end p = Some e"
  shows "p \<le> k \<and> k < e \<longleftrightarrow> prefix p k"
proof -
  obtain q b n where p: "p = q @ b # replicate n 255" and b: "b \<noteq> 255" and e: "e = q @ [b + 1]"
    using assms by (rule prefix_end_Some)
  have core: "b # replicate n 255 \<le> t \<and> t < [b + 1] \<longleftrightarrow> prefix (b # replicate n 255) t" for t
    using b replicate_255_le_iff by (cases t) (auto simp: byte_less_Suc)
  show ?thesis
  proof
    assume "p \<le> k \<and> k < e"
    moreover from this obtain t where "k = q @ t" using between_common_prefix p e by blast
    ultimately show "prefix p k" using core p e by auto
  next
    assume "prefix p k"
    then obtain t where "k = q @ t" "prefix (b # replicate n 255) t"
      by (auto simp: p prefix_def)
    with core[of t] show "p \<le> k \<and> k < e" by (simp add: p e)
  qed
qed

lemma prefix_end_unbounded: "prefix_end p = None \<Longrightarrow> p \<le> k \<longleftrightarrow> prefix p k"
  using replicate_255_le_iff[of "length p" k] by (simp add: prefix_end_None)

section \<open>Separation of the key codes\<close>

lemma u16_length_inject:
  assumes "m \<le> 65535" "n \<le> 65535" "(word_of_nat m :: u16) = word_of_nat n"
  shows "m = n"
  using arg_cong[where f = unat, OF assms(3)] assms(1,2) by (simp add: unat_of_nat)

lemma u32_length_inject:
  assumes "m \<le> 4294967295" "n \<le> 4294967295" "(word_of_nat m :: u32) = word_of_nat n"
  shows "m = n"
  using arg_cong[where f = unat, OF assms(3)] assms(1,2) by (simp add: unat_of_nat)

lemma framed16_inject:
  assumes "length a \<le> 65535" "length b \<le> 65535"
    and eq: "u16_to_be (word_of_nat (length a)) @ a @ r = u16_to_be (word_of_nat (length b)) @ b @ s"
  shows "a = b \<and> r = s"
proof -
  have "(word_of_nat (length a) :: u16) = word_of_nat (length b)" using eq by simp
  then have "length a = length b" using assms(1,2) by (blast intro: u16_length_inject)
  with eq show ?thesis by simp
qed

lemma framed32_inject:
  assumes "length a \<le> 4294967295" "length b \<le> 4294967295"
    and eq: "u32_to_be (word_of_nat (length a)) @ a @ r = u32_to_be (word_of_nat (length b)) @ b @ s"
  shows "a = b \<and> r = s"
proof -
  have "(word_of_nat (length a) :: u32) = word_of_nat (length b)" using eq by simp
  then have "length a = length b" using assms(1,2) by (blast intro: u32_length_inject)
  with eq show ?thesis by simp
qed

lemma index_value_prefix_inject:
  assumes "length n \<le> 65535" "length n' \<le> 65535" "length v \<le> 4294967295" "length v' \<le> 4294967295"
    and "index_value_prefix n v @ r = index_value_prefix n' v' @ r'"
  shows "n = n' \<and> v = v' \<and> r = r'"
proof -
  have "u16_to_be (word_of_nat (length n)) @ n @ (u32_to_be (word_of_nat (length v)) @ v @ r)
      = u16_to_be (word_of_nat (length n')) @ n' @ (u32_to_be (word_of_nat (length v')) @ v' @ r')"
    using assms(5) by (simp add: index_value_prefix_def index_entry_prefix_def)
  from framed16_inject[OF assms(1,2) this] framed32_inject[OF assms(3,4)] show ?thesis by blast
qed

lemma index_entry_key_prefix_iff:
  assumes "length n \<le> 65535" "length n' \<le> 65535" "length v \<le> 4294967295" "length v' \<le> 4294967295"
  shows "prefix (index_value_prefix n v) (index_entry_key n' v' k) \<longleftrightarrow> n = n' \<and> v = v'"
proof
  assume "prefix (index_value_prefix n v) (index_entry_key n' v' k)"
  then obtain r where "index_value_prefix n v @ r = index_value_prefix n' v' @ k"
    by (auto simp: index_entry_key_def prefix_def)
  from index_value_prefix_inject[OF assms this] show "n = n' \<and> v = v'" by simp
qed (simp add: index_entry_key_def)

lemma index_entry_key_inject:
  assumes "length n \<le> 65535" "length n' \<le> 65535" "length v \<le> 4294967295" "length v' \<le> 4294967295"
  shows "index_entry_key n v k = index_entry_key n' v' k' \<longleftrightarrow> n = n' \<and> v = v' \<and> k = k'"
  using index_value_prefix_inject[OF assms] by (auto simp: index_entry_key_def)

lemma strip_prefix_append [simp]: "strip_prefix p (p @ k) = Some k"
  by (simp add: strip_prefix_def)

lemma decode_index_primary_entry:
  "validate_key k = Inr () \<Longrightarrow> decode_index_primary (index_entry_key n v k) (index_value_prefix n v) = Inr k"
  by (simp add: decode_index_primary_def index_entry_key_def)

lemma change_log_sequence_key [simp]: "change_log_sequence (change_log_key s) = Inr s"
  by (simp add: change_log_sequence_def change_log_key_def)

lemma change_log_key_less [simp]: "change_log_key s < change_log_key t \<longleftrightarrow> s < t"
  by (simp add: change_log_key_def u64_to_be_less)

lemma change_log_key_inject [simp]: "change_log_key s = change_log_key t \<longleftrightarrow> s = t"
  by (simp add: change_log_key_def)

lemma tombstone_key_inject [simp]: "tombstone_key a = tombstone_key b \<longleftrightarrow> a = b"
  by (simp add: tombstone_key_def)

lemma tombstone_key_starts [simp]: "starts_with (tombstone_key k) TOMBSTONE_PREFIX"
  by (simp add: tombstone_key_def)

lemma change_log_key_starts [simp]: "starts_with (change_log_key s) CHANGE_LOG_PREFIX"
  by (simp add: change_log_key_def)

lemma internal_prefixes [simp]:
  "starts_with (tombstone_key k) INTERNAL_PREFIX"
  "starts_with (change_log_key s) INTERNAL_PREFIX"
  "starts_with CHANGE_LOG_START_KEY INTERNAL_PREFIX"
  "starts_with (index_definition_key n) INTERNAL_PREFIX"
  "starts_with (index_entry_key n v p) INTERNAL_PREFIX"
  by (simp_all add: tombstone_key_def change_log_key_def index_definition_key_def
      index_entry_key_def index_value_prefix_def index_entry_prefix_def prefix_defs)

lemmas key_code_defs = tombstone_key_def change_log_key_def index_definition_key_def
  index_entry_key_def index_value_prefix_def index_entry_prefix_def

lemma internal_disjoint:
  "tombstone_key k \<noteq> change_log_key s" "tombstone_key k \<noteq> CHANGE_LOG_START_KEY"
  "tombstone_key k \<noteq> index_definition_key n" "tombstone_key k \<noteq> index_entry_key n v p"
  "change_log_key s \<noteq> CHANGE_LOG_START_KEY" "change_log_key s \<noteq> index_definition_key n"
  "change_log_key s \<noteq> index_entry_key n v p" "CHANGE_LOG_START_KEY \<noteq> index_definition_key n"
  "CHANGE_LOG_START_KEY \<noteq> index_entry_key n v p" "index_definition_key m \<noteq> index_entry_key n v p"
  by (simp_all add: key_code_defs prefix_defs)

lemma user_key_not_internal:
  "validate_user_key k = Inr () \<longleftrightarrow>
     k \<noteq> [] \<and> length k \<le> MAX_KEY_SIZE \<and> \<not> starts_with k INTERNAL_PREFIX"
  by (auto simp: validate_user_key_def validate_key_def)

lemma is_versioned_tombstone [simp]: "is_versioned_key (tombstone_key k)"
  by (simp add: is_versioned_key_def tombstone_key_def prefix_defs)

lemma not_versioned_change_log [simp]:
  "\<not> is_versioned_key (change_log_key s)" "\<not> is_versioned_key CHANGE_LOG_START_KEY"
  by (simp_all add: is_versioned_key_def)

lemma not_published_internal [simp]:
  "\<not> is_published_key (tombstone_key k)" "\<not> is_published_key (change_log_key s)"
  "\<not> is_published_key CHANGE_LOG_START_KEY" "\<not> is_published_key (index_definition_key n)"
  "\<not> is_published_key (index_entry_key n v p)"
  by (simp_all add: is_published_key_def key_code_defs prefix_defs)

section \<open>Properties\<close>

text \<open>
  for every prefix, the keys between the prefix and \<open>prefix_end\<close> (unbounded
  when there is none) are exactly the keys that start with it, so every prefix
  scan of the engine covers its prefix and nothing else.
\<close>

lemma prefix_end_range:
  "p \<le> k \<and> (case prefix_end p of None \<Rightarrow> True | Some e \<Rightarrow> k < e) \<longleftrightarrow> prefix p k"
  using prefix_end_bound prefix_end_unbounded by (cases "prefix_end p") auto

text \<open>
  C39: an index entry lies in the scan range of an index value exactly when it
  was filed under that index name and that value, and its key then gives back
  the primary key: neither another index nor a longer or shorter value can
  leak into a lookup.
\<close>

theorem index_lookup_range_exact:
  assumes "validate_index_name n = Inr ()" "validate_index_name n' = Inr ()"
    and "validate_index_value (Some v) = Inr ()" "validate_index_value (Some v') = Inr ()"
    and "validate_key k = Inr ()"
  shows "(index_value_prefix n v \<le> index_entry_key n' v' k \<and>
          (case prefix_end (index_value_prefix n v) of
             None \<Rightarrow> True | Some e \<Rightarrow> index_entry_key n' v' k < e))
         \<longleftrightarrow> (n = n' \<and> v = v' \<and>
              decode_index_primary (index_entry_key n' v' k) (index_value_prefix n v) = Inr k)"
proof -
  have len: "length n \<le> 65535" "length n' \<le> 65535" "length v \<le> 4294967295" "length v' \<le> 4294967295"
    using assms(1-4)
    by (auto simp: validate_index_name_def validate_index_value_def split: if_splits)
  have "(index_value_prefix n v \<le> index_entry_key n' v' k \<and>
          (case prefix_end (index_value_prefix n v) of
             None \<Rightarrow> True | Some e \<Rightarrow> index_entry_key n' v' k < e))
     \<longleftrightarrow> prefix (index_value_prefix n v) (index_entry_key n' v' k)"
    using prefix_end_bound prefix_end_unbounded
    by (cases "prefix_end (index_value_prefix n v)") auto
  then show ?thesis
    using index_entry_key_prefix_iff[OF len] decode_index_primary_entry[OF assms(5)] by auto
qed

theorem index_lookup_range_exact_witness:
  "\<not> (index_value_prefix [105] [1] \<le> index_entry_key [105] [1, 2] [7] \<and>
      (case prefix_end (index_value_prefix [105] [1]) of
         None \<Rightarrow> True | Some e \<Rightarrow> index_entry_key [105] [1, 2] [7] < e))"
  using index_lookup_range_exact[of "[105]" "[105]" "[1]" "[1, 2]" "[7]"]
  by (simp add: validate_index_name_def validate_index_value_def validate_key_def
      MAX_KEY_SIZE_def prefix_defs)

end
