(* ===== verification/DocumentKeys.thy ===== *)
theory DocumentKeys
  imports Keyspace
begin

text \<open>
  The key codes of the document layer, \<open>crates/vyrn-core/src/document.rs\<close>: length
  prefixed segments, document keys and index names, and the readers that recover
  a collection, a document id or an index entry's owner from a stored key.  The
  lemmas show that reading undoes writing, that only well-formed keys are read,
  that the key range of a collection holds that collection's documents only, and
  that document keys meet neither user keys nor another internal family.
\<close>

record document_target =
  dt_collection :: rstring
  dt_id :: rstring

section \<open>Writing keys\<close>

definition validate_segment :: "string \<Rightarrow> rstring \<Rightarrow> vyrn_error + unit" where
  "validate_segment kind val =
     (if val = [] then Inl (InvalidDocument (kind @ '' cannot be empty''))
      else if 65535 < length val then Inl KeyTooLarge
      else Inr ())"

definition append_segment :: "bytes \<Rightarrow> rstring \<Rightarrow> vyrn_error + bytes" where
  "append_segment output val =
     (if 65535 < length val then Inl KeyTooLarge
      else Inr (output @ u16_to_be (word_of_nat (length val)) @ val))"

definition collection_prefix :: "rstring \<Rightarrow> vyrn_error + bytes" where
  "collection_prefix collection =
     (case validate_segment ''collection'' collection of
        Inl e \<Rightarrow> Inl e
      | Inr _ \<Rightarrow> append_segment DOCUMENT_KEY_PREFIX collection)"

definition document_key :: "rstring \<Rightarrow> rstring \<Rightarrow> vyrn_error + bytes" where
  "document_key collection doc_id =
     (case validate_segment ''document ID'' doc_id of
        Inl e \<Rightarrow> Inl e
      | Inr _ \<Rightarrow>
         (case collection_prefix collection of
            Inl e \<Rightarrow> Inl e
          | Inr key \<Rightarrow>
             (case append_segment key doc_id of
                Inl e \<Rightarrow> Inl e
              | Inr key \<Rightarrow> if MAX_KEY_SIZE < length key then Inl KeyTooLarge else Inr key)))"

definition index_prefix :: "rstring \<Rightarrow> vyrn_error + bytes" where
  "index_prefix collection =
     (case validate_segment ''collection'' collection of
        Inl e \<Rightarrow> Inl e
      | Inr _ \<Rightarrow> append_segment DOCUMENT_INDEX_PREFIX collection)"

definition index_name :: "rstring \<Rightarrow> rstring \<Rightarrow> vyrn_error + bytes" where
  "index_name collection field =
     (case validate_segment ''collection'' collection of
        Inl e \<Rightarrow> Inl e
      | Inr _ \<Rightarrow>
         (case validate_segment ''field'' field of
            Inl e \<Rightarrow> Inl e
          | Inr _ \<Rightarrow>
             (case index_prefix collection of
                Inl e \<Rightarrow> Inl e
              | Inr name \<Rightarrow> append_segment name field)))"

section \<open>Reading keys\<close>

definition read_segment :: "bytes \<Rightarrow> (rstring \<times> bytes) option" where
  "read_segment encoded =
     (if length encoded < 2 then None
      else
        (let len = unat (u16_of_be (take 2 encoded)) in
         if len = 0 \<or> length encoded < 2 + len then None
         else if \<not> utf8_valid (take len (drop 2 encoded)) then None
         else Some (take len (drop 2 encoded), drop (2 + len) encoded)))"

definition target_from_key :: "bytes \<Rightarrow> document_target option" where
  "target_from_key key =
     (case strip_prefix DOCUMENT_KEY_PREFIX key of
        None \<Rightarrow> None
      | Some encoded \<Rightarrow>
         (case read_segment encoded of
            None \<Rightarrow> None
          | Some (collection, rest) \<Rightarrow>
             (case read_segment rest of
                None \<Rightarrow> None
              | Some (doc_id, rest) \<Rightarrow>
                  if rest \<noteq> [] then None
                  else Some \<lparr>dt_collection = collection, dt_id = doc_id\<rparr>)))"

definition decode_document_id :: "rstring \<Rightarrow> bytes \<Rightarrow> vyrn_error + rstring" where
  "decode_document_id collection key =
     (case collection_prefix collection of
        Inl e \<Rightarrow> Inl e
      | Inr p \<Rightarrow>
         (case strip_prefix p key of
            None \<Rightarrow> Inl (InvalidDocument ''document key is outside its collection'')
          | Some encoded \<Rightarrow>
             if length encoded < 2 then Inl (InvalidDocument ''document key has no ID'')
             else
               (let len = unat (u16_of_be (take 2 encoded)) in
                if len = 0 \<or> length encoded \<noteq> len + 2
                then Inl (InvalidDocument ''document key has an invalid ID'')
                else if \<not> utf8_valid (drop 2 encoded)
                then Inl (InvalidDocument ''document ID is not UTF-8'')
                else Inr (drop 2 encoded))))"

definition index_entry_points_at :: "bytes \<Rightarrow> bytes \<Rightarrow> bytes \<Rightarrow> bool" where
  "index_entry_points_at entry prfx primary_key =
     (case strip_prefix prfx entry of
        None \<Rightarrow> False
      | Some rest \<Rightarrow>
          if length rest < 4 then False
          else
            (let value_len = unat (u32_of_be (take 4 rest)) in
             if length rest < 4 + value_len then False
             else drop (4 + value_len) rest = primary_key))"

section \<open>Segments as a code\<close>

definition segment :: "rstring \<Rightarrow> bytes" where
  "segment val = u16_to_be (word_of_nat (length val)) @ val"

definition segment_ok :: "rstring \<Rightarrow> bool" where
  "segment_ok val \<longleftrightarrow> val \<noteq> [] \<and> length val \<le> 65535"

lemma validate_segment_Inr [simp]: "validate_segment kind v = Inr () \<longleftrightarrow> segment_ok v"
  by (auto simp: validate_segment_def segment_ok_def)

lemma validate_segment_cases:
  "(case validate_segment kind v of Inl e \<Rightarrow> Inl e | Inr _ \<Rightarrow> f) = Inr x \<longleftrightarrow> segment_ok v \<and> f = Inr x"
  by (auto simp: validate_segment_def segment_ok_def)

lemma append_segment_Inr: "append_segment p v = Inr k \<longleftrightarrow> length v \<le> 65535 \<and> k = p @ segment v"
  by (auto simp: append_segment_def segment_def)

lemma collection_prefix_Inr:
  "collection_prefix c = Inr k \<longleftrightarrow> segment_ok c \<and> k = DOCUMENT_KEY_PREFIX @ segment c"
  by (auto simp: collection_prefix_def validate_segment_cases append_segment_Inr segment_ok_def)

lemma document_key_Inr:
  "document_key c i = Inr k \<longleftrightarrow>
     segment_ok c \<and> segment_ok i \<and> k = DOCUMENT_KEY_PREFIX @ segment c @ segment i \<and>
     length k \<le> MAX_KEY_SIZE"
  by (auto simp: document_key_def collection_prefix_def validate_segment_def append_segment_def
      segment_def segment_ok_def)

lemma index_name_Inr:
  "index_name c f = Inr n \<longleftrightarrow>
     segment_ok c \<and> segment_ok f \<and> n = DOCUMENT_INDEX_PREFIX @ segment c @ segment f"
  by (auto simp: index_name_def index_prefix_def validate_segment_def append_segment_def
      segment_def segment_ok_def)

lemma segment_inject:
  "segment_ok a \<Longrightarrow> segment_ok b \<Longrightarrow> segment a @ r = segment b @ s \<Longrightarrow> a = b \<and> r = s"
  using framed16_inject[of a b r s] by (simp add: segment_def segment_ok_def)

lemma read_segment_segment:
  "segment_ok v \<Longrightarrow> utf8_valid v \<Longrightarrow> read_segment (segment v @ r) = Some (v, r)"
  by (auto simp: read_segment_def segment_def segment_ok_def unat_word_of_nat_u16 Let_def)

lemma read_segment_sound:
  assumes "read_segment s = Some (v, r)"
  shows "segment_ok v \<and> utf8_valid v \<and> s = segment v @ r"
proof -
  define n where "n = unat (u16_of_be (take 2 s))"
  have n: "2 \<le> length s" "n \<noteq> 0" "2 + n \<le> length s" "v = take n (drop 2 s)"
    "r = drop (2 + n) s" "utf8_valid v"
    using assms by (auto simp: read_segment_def Let_def n_def split: if_splits)
  have "n < 65536" using unsigned_less[of "u16_of_be (take 2 s)", where ?'a = nat]
    by (simp add: n_def)
  moreover have "length v = n" using n by simp
  moreover have "u16_to_be (word_of_nat n) = take 2 s"
    using n(1) by (simp add: n_def to_be_of_be)
  moreover have "s = take 2 s @ v @ r"
    using append_take_drop_id[of n "drop 2 s"] n by simp
  ultimately show ?thesis
    using n by (auto simp: segment_def segment_ok_def)
qed

text \<open>The reader as a code over the remaining input, so the shared facts apply.\<close>

definition segment_reader :: "(unit, rstring) reader" where
  "segment_reader s = (case read_segment s of None \<Rightarrow> Inl () | Some x \<Rightarrow> Inr x)"

interpretation segment_code:
  canonical_code segment segment_reader "\<lambda>v. segment_ok v \<and> utf8_valid v"
proof
  fix v r assume "segment_ok v \<and> utf8_valid v"
  then show "segment_reader (segment v @ r) = Inr (v, r)"
    by (simp add: segment_reader_def read_segment_segment)
next
  fix s v r assume "segment_reader s = Inr (v, r)"
  then show "(segment_ok v \<and> utf8_valid v) \<and> s = segment v @ r"
    using read_segment_sound by (auto simp: segment_reader_def split: option.splits)
qed

lemma target_from_key_Some:
  "target_from_key k = Some t \<longleftrightarrow>
     segment_ok (dt_collection t) \<and> utf8_valid (dt_collection t) \<and>
     segment_ok (dt_id t) \<and> utf8_valid (dt_id t) \<and>
     k = DOCUMENT_KEY_PREFIX @ segment (dt_collection t) @ segment (dt_id t)"
  (is "_ \<longleftrightarrow> ?R")
proof
  assume "target_from_key k = Some t"
  then show ?R
    by (auto simp: target_from_key_def strip_prefix_def prefix_def
        dest!: read_segment_sound split: option.splits if_splits prod.splits)
next
  assume r: ?R
  then show "target_from_key k = Some t"
    using read_segment_segment[of "dt_id t" "[]"]
    by (simp add: target_from_key_def read_segment_segment)
qed

lemma decode_document_id_key:
  "document_key c i = Inr k \<Longrightarrow> utf8_valid i \<Longrightarrow> decode_document_id c k = Inr i"
  by (auto simp: decode_document_id_def document_key_Inr collection_prefix_def validate_segment_cases
      append_segment_def segment_def segment_ok_def validate_segment_def strip_prefix_def
      unat_word_of_nat_u16 Let_def)

section \<open>Properties\<close>

text \<open>
  a document key names its collection and id exactly.  Every key written for
  a document is read back as that document, and a key that is read as a document
  of some collection and id is the key those two would be written under.
\<close>

lemma document_key_identity:
  assumes "utf8_valid c" "utf8_valid i"
  shows "document_key c i = Inr k \<longleftrightarrow>
    target_from_key k = Some \<lparr>dt_collection = c, dt_id = i\<rparr> \<and> length k \<le> MAX_KEY_SIZE"
  using assms by (auto simp: document_key_Inr target_from_key_Some)

theorem document_key_identity_witness:
  "target_from_key (projr (document_key [117] [49])) = Some \<lparr>dt_collection = [117], dt_id = [49]\<rparr>"
proof -
  have "document_key [117] [49] = Inr (projr (document_key [117] [49]))"
    by (simp add: document_key_def collection_prefix_def append_segment_def validate_segment_def
        MAX_KEY_SIZE_def prefix_defs to_be_defs)
  then show ?thesis
    using document_key_identity[of "[117]" "[49]" "projr (document_key [117] [49])"]
    by (simp add: utf8_valid_ascii)
qed

text \<open>
  scanning a collection's prefix yields that collection's documents and no
  other's, whatever the names, and each key found gives back the document id.
\<close>

lemma collection_scan_isolated:
  assumes "collection_prefix c = Inr p" "document_key c' i = Inr k" "utf8_valid i"
  shows "(p \<le> k \<and> (case prefix_end p of None \<Rightarrow> True | Some e \<Rightarrow> k < e)) = (c = c') \<and>
    (if c = c' then decode_document_id c k = Inr i
     else decode_document_id c k = Inl (InvalidDocument ''document key is outside its collection''))"
proof -
  have iff: "prefix p k \<longleftrightarrow> c = c'"
    using assms(1,2) segment_inject[of c' c]
    by (auto simp: collection_prefix_Inr document_key_Inr prefix_def)
  then have "(p \<le> k \<and> (case prefix_end p of None \<Rightarrow> True | Some e \<Rightarrow> k < e)) = (c = c')"
    using prefix_end_bound prefix_end_unbounded by (cases "prefix_end p") auto
  moreover have "decode_document_id c k = Inr i" if "c = c'"
    using that assms decode_document_id_key by simp
  moreover have "decode_document_id c k = Inl (InvalidDocument ''document key is outside its collection'')"
    if "c \<noteq> c'"
    using that iff assms(1) by (simp add: decode_document_id_def strip_prefix_def)
  ultimately show ?thesis by simp
qed

theorem collection_scan_isolated_witness:
  "decode_document_id [97] (projr (document_key [97, 98] [49]))
     = Inl (InvalidDocument ''document key is outside its collection'')"
proof -
  have "collection_prefix [97] = Inr (projr (collection_prefix [97]))"
    "document_key [97, 98] [49] = Inr (projr (document_key [97, 98] [49]))"
    by (simp_all add: document_key_def collection_prefix_def append_segment_def validate_segment_def
        MAX_KEY_SIZE_def prefix_defs to_be_defs)
  from collection_scan_isolated[OF this] show ?thesis by (simp add: utf8_valid_ascii)
qed

text \<open>
  an index entry is recognised as pointing at exactly the document it was
  filed for, so the repair of an undecodable document removes that document's
  entries and no other's.
\<close>

lemma index_entry_points_at_owner:
  assumes "length val \<le> 4294967295"
  shows "index_entry_points_at (index_entry_key name val owner) (index_entry_prefix name) key
    \<longleftrightarrow> key = owner"
  using assms
  by (auto simp: index_entry_points_at_def index_entry_key_def index_value_prefix_def
      unat_word_of_nat_u32 Let_def)

theorem index_entry_points_at_owner_witness:
  "index_entry_points_at (index_entry_key [1] [2, 3] [4]) (index_entry_prefix [1]) [4] \<and>
   \<not> index_entry_points_at (index_entry_key [1] [2, 3] [4]) (index_entry_prefix [1]) [3, 4]"
  using index_entry_points_at_owner[of "[2, 3]" "[1]" "[4]"] by simp

text \<open>
  C38: a key accepted from a user never equals an internal key, and the internal
  families (documents, tombstones, change-log records, the change-log start
  marker, index definitions, index entries) are pairwise disjoint.
\<close>

theorem key_families_disjoint:
  assumes "document_key c i = Inr d"
  shows "(validate_user_key u = Inr () \<longrightarrow>
      u \<notin> {d, tombstone_key k, change_log_key s, CHANGE_LOG_START_KEY,
            index_definition_key m, index_entry_key n v p}) \<and>
   distinct [d, tombstone_key k, change_log_key s, CHANGE_LOG_START_KEY,
             index_definition_key m, index_entry_key n v p]"
proof -
  have "starts_with d INTERNAL_PREFIX" "d \<noteq> tombstone_key k" "d \<noteq> change_log_key s"
    "d \<noteq> CHANGE_LOG_START_KEY" "d \<noteq> index_definition_key m" "d \<noteq> index_entry_key n v p"
    using assms by (auto simp: document_key_Inr key_code_defs prefix_defs)
  then show ?thesis by (auto simp: user_key_not_internal internal_disjoint)
qed

theorem key_families_disjoint_witness:
  "validate_user_key [97] = Inr () \<and> document_key [117] [49] = Inr (projr (document_key [117] [49])) \<and>
   [97] \<noteq> tombstone_key [97] \<and> projr (document_key [117] [49]) \<noteq> change_log_key 7"
proof -
  have d: "document_key [117] [49] = Inr (projr (document_key [117] [49]))"
    by (simp add: document_key_def collection_prefix_def append_segment_def validate_segment_def
        MAX_KEY_SIZE_def prefix_defs to_be_defs)
  have "validate_user_key [97] = Inr ()"
    by (simp add: validate_user_key_def validate_key_def MAX_KEY_SIZE_def prefix_defs)
  with d key_families_disjoint[OF d, of "[97]" "[97]" 7] show ?thesis by simp
qed

end
