(* ===== verification/ChangeLog.thy ===== *)
theory ChangeLog
  imports DocumentKeys
begin

text \<open>
  Change-log records and cursors, \<open>crates/vyrn-core/src/change_log.rs\<close>: the
  order of cursors, their ASCII tokens and their 12-byte key suffix, and the
  batch record that carries every change of one commit.  The lemmas show that
  tokens, suffixes and batches are read back as written, that the decoder refuses
  everything else, and that suffix order is cursor order.
\<close>

section \<open>Records and cursors\<close>

record change_record =
  cr_sequence :: u64
  cr_index :: u32
  cr_key :: bytes
  cr_value :: "bytes option"
  cr_document :: "document_target option"

record cursor =
  c_sequence :: u64
  c_index :: u32

definition record_cursor :: "change_record \<Rightarrow> cursor" where
  "record_cursor r = \<lparr>c_sequence = cr_sequence r, c_index = cr_index r\<rparr>"

text \<open>The derived lexicographic order of \<open>Cursor\<close>.\<close>

definition cursor_less :: "cursor \<Rightarrow> cursor \<Rightarrow> bool" where
  "cursor_less a b \<longleftrightarrow>
     c_sequence a < c_sequence b \<or> c_sequence a = c_sequence b \<and> c_index a < c_index b"

definition cursor_le :: "cursor \<Rightarrow> cursor \<Rightarrow> bool" where
  "cursor_le a b \<longleftrightarrow> cursor_less a b \<or> a = b"

definition cursor_start :: cursor where
  "cursor_start = \<lparr>c_sequence = 0, c_index = 0\<rparr>"

definition cursor_new :: "u64 \<Rightarrow> u32 \<Rightarrow> cursor" where
  "cursor_new s i = \<lparr>c_sequence = s, c_index = i\<rparr>"

section \<open>Tokens\<close>

text \<open>Lower-case hexadecimal, left-padded with zeros to a width, as \<open>{:016x}\<close> prints it.\<close>

definition hex_digit :: "nat \<Rightarrow> byte" where
  "hex_digit d = word_of_nat (if d < 10 then 48 + d else 87 + d)"

fun to_hex :: "nat \<Rightarrow> bytes" where
  "to_hex n = (if n < 16 then [hex_digit n] else to_hex (n div 16) @ [hex_digit (n mod 16)])"

declare to_hex.simps [simp del]

definition hex_padded :: "nat \<Rightarrow> nat \<Rightarrow> bytes" where
  "hex_padded width n = replicate (width - length (to_hex n)) 48 @ to_hex n"

definition to_token :: "cursor \<Rightarrow> rstring" where
  "to_token c = hex_padded 16 (unat (c_sequence c)) @ [45] @ hex_padded 8 (unat (c_index c))"

text \<open>
  \<open>from_str_radix(_, 16)\<close> of an unsigned type with the given maximum: an optional
  plus sign, at least one digit of either case, and no overflow.
\<close>

definition hex_value :: "byte \<Rightarrow> nat option" where
  "hex_value c =
     (let n = unat c in
      if 48 \<le> n \<and> n \<le> 57 then Some (n - 48)
      else if 97 \<le> n \<and> n \<le> 102 then Some (n - 87)
      else if 65 \<le> n \<and> n \<le> 70 then Some (n - 55)
      else None)"

fun radix16_from :: "nat \<Rightarrow> nat \<Rightarrow> bytes \<Rightarrow> nat option" where
  "radix16_from maxi acc [] = Some acc"
| "radix16_from maxi acc (c # s) =
     (case hex_value c of
        None \<Rightarrow> None
      | Some d \<Rightarrow> if maxi < acc * 16 + d then None else radix16_from maxi (acc * 16 + d) s)"

definition from_str_radix16 :: "nat \<Rightarrow> bytes \<Rightarrow> nat option" where
  "from_str_radix16 maxi s =
     (if s = [] \<or> s = [43] \<or> s = [45] then None
      else radix16_from maxi 0 (if hd s = 43 then tl s else s))"

definition split_once :: "byte \<Rightarrow> bytes \<Rightarrow> (bytes \<times> bytes) option" where
  "split_once sep s =
     (if sep \<in> set s
      then Some (takeWhile (\<lambda>b. b \<noteq> sep) s, tl (dropWhile (\<lambda>b. b \<noteq> sep) s))
      else None)"

definition parse_token :: "rstring \<Rightarrow> vyrn_error + cursor" where
  "parse_token token =
     (case split_once 45 token of
        None \<Rightarrow> Inl (InvalidCursor ''cursor must be <sequence>-<index>'')
      | Some (sequence, index) \<Rightarrow>
         (case from_str_radix16 (2 ^ 64 - 1) sequence of
            None \<Rightarrow> Inl (InvalidCursor ''cursor sequence is not hexadecimal'')
          | Some q \<Rightarrow>
             (case from_str_radix16 (2 ^ 32 - 1) index of
                None \<Rightarrow> Inl (InvalidCursor ''cursor index is not hexadecimal'')
              | Some i \<Rightarrow> Inr \<lparr>c_sequence = word_of_nat q, c_index = word_of_nat i\<rparr>)))"

section \<open>Key suffixes\<close>

definition SUFFIX_LEN :: nat where "SUFFIX_LEN = 12"

definition cursor_suffix :: "cursor \<Rightarrow> bytes" where
  "cursor_suffix c = u64_to_be (c_sequence c) @ u32_to_be (c_index c)"

definition from_suffix :: "bytes \<Rightarrow> vyrn_error + cursor" where
  "from_suffix sfx =
     (if length sfx \<noteq> SUFFIX_LEN
      then Inl (CorruptManifest ''change log key has an invalid cursor'')
      else Inr \<lparr>c_sequence = u64_of_be (bslice sfx 0 8), c_index = u32_of_be (bslice sfx 8 4)\<rparr>)"

section \<open>Batch records\<close>

type_synonym change_entry = "bytes \<times> bytes option"

definition encode_entry :: "change_entry \<Rightarrow> bytes" where
  "encode_entry e =
     (case e of (key, val) \<Rightarrow>
        (if val \<noteq> None then 1 else 0) #
        u32_to_be (word_of_nat (length key)) @
        u32_to_be (word_of_nat (case val of None \<Rightarrow> 0 | Some v \<Rightarrow> length v)) @
        key @ (case val of None \<Rightarrow> [] | Some v \<Rightarrow> v))"

definition encode_batch :: "change_entry list \<Rightarrow> bytes" where
  "encode_batch entries =
     u32_to_be (word_of_nat (length entries)) @ concat (map encode_entry entries)"

text \<open>One round of the decoding loop over what remains from the offset on.\<close>

definition decode_entry :: "(vyrn_error, change_entry) reader" where
  "decode_entry s =
     (if length s < 9 then Inl (CorruptManifest ''change log entry header is truncated'')
      else if s ! 0 \<noteq> 0 \<and> s ! 0 \<noteq> 1
      then Inl (CorruptManifest ''change log entry has an invalid presence flag'')
      else
        (let present = (s ! 0 = 1);
             key_len = unat (u32_of_be (bslice s 1 4));
             value_len = unat (u32_of_be (bslice s 5 4));
             rest = drop 9 s in
         if key_len = 0 \<or> MAX_KEY_SIZE < key_len \<or> (\<not> present \<and> value_len \<noteq> 0)
         then Inl (CorruptManifest ''change log entry has invalid lengths'')
         else if length rest < key_len + value_len
         then Inl (CorruptManifest ''change log entry is truncated'')
         else
           Inr ((take key_len rest,
                 if present then Some (take value_len (drop key_len rest)) else None),
                drop (key_len + value_len) rest)))"

definition change_record_of :: "u64 \<Rightarrow> nat \<Rightarrow> change_entry \<Rightarrow> change_record" where
  "change_record_of sequence index e =
     \<lparr>cr_sequence = sequence, cr_index = word_of_nat index, cr_key = fst e, cr_value = snd e,
      cr_document = target_from_key (fst e)\<rparr>"

definition number_records :: "u64 \<Rightarrow> change_entry list \<Rightarrow> change_record list" where
  "number_records sequence es = map (\<lambda>(i, e). change_record_of sequence i e) (enumerate 0 es)"

definition decode_batch :: "u64 \<Rightarrow> bytes \<Rightarrow> vyrn_error + change_record list" where
  "decode_batch sequence encoded =
     (if length encoded < 4 then Inl (CorruptManifest ''change log record is truncated'')
      else
        (case get_many (unat (u32_of_be (bslice encoded 0 4))) decode_entry (drop 4 encoded) of
           Inl e \<Rightarrow> Inl e
         | Inr (es, rest) \<Rightarrow>
             if rest \<noteq> [] then Inl (CorruptManifest ''change log record has trailing data'')
             else Inr (number_records sequence es)))"

section \<open>Cursor order\<close>

lemma cursor_less_irrefl [simp]: "\<not> cursor_less c c"
  by (simp add: cursor_less_def)

lemma cursor_less_trans: "cursor_less a b \<Longrightarrow> cursor_less b c \<Longrightarrow> cursor_less a c"
  by (auto simp: cursor_less_def)

lemma cursor_less_linear: "cursor_less a b \<or> a = b \<or> cursor_less b a"
  by (auto simp: cursor_less_def) (metis cursor.equality linorder_neqE old.unit.exhaust)

lemma not_cursor_less: "\<not> cursor_less a b \<longleftrightarrow> cursor_le b a"
  using cursor_less_linear cursor_less_trans cursor_less_irrefl unfolding cursor_le_def by blast

lemma append_less_same_length:
  fixes a b :: "'a :: linorder list"
  shows "length a = length b \<Longrightarrow> a @ x < b @ y \<longleftrightarrow> a < b \<or> a = b \<and> x < y"
  by (induction a b rule: list_induct2) auto

lemma cursor_suffix_less: "cursor_suffix a < cursor_suffix b \<longleftrightarrow> cursor_less a b"
  by (simp add: cursor_suffix_def cursor_less_def append_less_same_length u64_to_be_less u32_to_be_less)

lemma from_suffix_suffix [simp]: "from_suffix (cursor_suffix c) = Inr c"
  by (simp add: from_suffix_def cursor_suffix_def SUFFIX_LEN_def bslice_def)

lemma suffix_from_suffix: "from_suffix s = Inr c \<Longrightarrow> s = cursor_suffix c"
  by (auto simp: from_suffix_def cursor_suffix_def SUFFIX_LEN_def bslice_def to_be_of_be split: if_splits)

section \<open>Hexadecimal\<close>

lemma unat_hex_digit: "d < 16 \<Longrightarrow> unat (hex_digit d) = (if d < 10 then 48 + d else 87 + d)"
  by (simp add: hex_digit_def)

lemma hex_value_digit [simp]: "d < 16 \<Longrightarrow> hex_value (hex_digit d) = Some d"
  by (auto simp: hex_value_def unat_hex_digit Let_def)

lemma hex_value_zero [simp]: "hex_value 48 = Some 0"
  by (simp add: hex_value_def)

lemma hex_digit_not_sign: "d < 16 \<Longrightarrow> hex_digit d \<noteq> 45 \<and> hex_digit d \<noteq> 43"
  using unat_hex_digit[of d] by (auto split: if_splits)

lemma to_hex_signs: "c \<in> set (to_hex n) \<Longrightarrow> c \<noteq> 45 \<and> c \<noteq> 43"
proof (induction n rule: to_hex.induct)
  case (1 n)
  then show ?case by (subst (asm) to_hex.simps) (auto simp: hex_digit_not_sign split: if_splits)
qed

lemma to_hex_nonempty [simp]: "to_hex n \<noteq> []"
  by (subst to_hex.simps) simp

lemma radix16_from_append:
  "radix16_from maxi acc (s @ t) =
     (case radix16_from maxi acc s of None \<Rightarrow> None | Some a \<Rightarrow> radix16_from maxi a t)"
  by (induction maxi acc s rule: radix16_from.induct) (auto split: option.splits)

lemma radix16_from_zeros: "radix16_from maxi 0 (replicate k 48 @ s) = radix16_from maxi 0 s"
  by (induction k) auto

lemma radix16_to_hex: "n \<le> maxi \<Longrightarrow> radix16_from maxi 0 (to_hex n) = Some n"
proof (induction n rule: to_hex.induct)
  case (1 n)
  then show ?case
    by (subst to_hex.simps) (auto simp: radix16_from_append)
qed

lemma hex_padded_signs: "c \<in> set (hex_padded w n) \<Longrightarrow> c \<noteq> 45 \<and> c \<noteq> 43"
  using to_hex_signs[of c n] by (auto simp: hex_padded_def)

lemma from_str_radix16_padded: "n \<le> maxi \<Longrightarrow> from_str_radix16 maxi (hex_padded w n) = Some n"
proof -
  assume n: "n \<le> maxi"
  have ne: "hex_padded w n \<noteq> []" by (simp add: hex_padded_def)
  then have "hd (hex_padded w n) \<noteq> 43" "hex_padded w n \<noteq> [43]" "hex_padded w n \<noteq> [45]"
    using hex_padded_signs[of "hd (hex_padded w n)" w n] by (auto simp: neq_Nil_conv)
  with ne n show ?thesis
    by (simp add: from_str_radix16_def) (simp add: hex_padded_def radix16_from_zeros radix16_to_hex)
qed

lemma split_once_append: "sep \<notin> set a \<Longrightarrow> split_once sep (a @ sep # b) = Some (a, b)"
  by (induction a) (auto simp: split_once_def)

lemma parse_to_token: "parse_token (to_token c) = Inr c"
proof -
  have q: "unat (c_sequence c) \<le> 2 ^ 64 - 1" "unat (c_index c) \<le> 2 ^ 32 - 1"
    using unat_word_bounds(3)[of "c_sequence c"] less_Suc_eq_le[of "unat (c_index c)" 4294967295]
    by simp_all
  have "split_once 45 (to_token c)
      = Some (hex_padded 16 (unat (c_sequence c)), hex_padded 8 (unat (c_index c)))"
    unfolding to_token_def append_Cons append_Nil
    by (rule split_once_append) (use hex_padded_signs in blast)
  with q show ?thesis by (simp add: parse_token_def from_str_radix16_padded)
qed

section \<open>Batches\<close>

definition entry_ok :: "change_entry \<Rightarrow> bool" where
  "entry_ok e \<longleftrightarrow> fst e \<noteq> [] \<and> length (fst e) \<le> MAX_KEY_SIZE \<and>
     (case snd e of None \<Rightarrow> True | Some v \<Rightarrow> length v < 2 ^ 32)"

interpretation entry_code: canonical_code encode_entry decode_entry entry_ok
proof
  fix e r assume "entry_ok e"
  then show "decode_entry (encode_entry e @ r) = Inr (e, r)"
    by (cases e; cases "snd e") (auto simp: decode_entry_def encode_entry_def entry_ok_def
        bslice_simps unat_word_of_nat_u32 MAX_KEY_SIZE_def Let_def)
next
  fix s e r assume d: "decode_entry s = Inr (e, r)"
  define kl where "kl = unat (u32_of_be (bslice s 1 4))"
  define vl where "vl = unat (u32_of_be (bslice s 5 4))"
  have f: "9 \<le> length s" "s ! 0 = 0 \<or> s ! 0 = 1" "kl \<noteq> 0" "kl \<le> MAX_KEY_SIZE"
    "s ! 0 = 1 \<or> vl = 0" "kl + vl \<le> length (drop 9 s)"
    "e = (take kl (drop 9 s), if s ! 0 = 1 then Some (take vl (drop kl (drop 9 s))) else None)"
    "r = drop (kl + vl) (drop 9 s)"
    using d by (auto simp: decode_entry_def Let_def kl_def vl_def split: if_splits)
  have "s = s ! 0 # drop 1 s" using f(1) by (cases s) auto
  also have "drop 1 s = bslice s 1 4 @ bslice s 5 4 @ drop 9 s"
    using drop_bslice[of 1 s 4] drop_bslice[of 5 s 4] by simp
  also have "drop 9 s = take kl (drop 9 s) @ take vl (drop kl (drop 9 s)) @ r"
    using f(8) by (metis append_take_drop_id drop_drop add.commute)
  finally have s: "s = s ! 0 # bslice s 1 4 @ bslice s 5 4 @
      take kl (drop 9 s) @ take vl (drop kl (drop 9 s)) @ r" .
  have len: "u32_to_be (word_of_nat kl) = bslice s 1 4" "u32_to_be (word_of_nat vl) = bslice s 5 4"
    using f(1) by (simp_all add: kl_def vl_def to_be_of_be)
  have "length (take kl (drop 9 s)) = kl" "length (take vl (drop kl (drop 9 s))) = vl" "vl < 2 ^ 32"
    using f(6) by (simp_all add: vl_def)
  moreover have "encode_entry e @ r = s ! 0 # u32_to_be (word_of_nat kl) @ u32_to_be (word_of_nat vl) @
      take kl (drop 9 s) @ take vl (drop kl (drop 9 s)) @ r"
    using f(2,5,7) calculation(1,2) by (auto simp: encode_entry_def)
  ultimately show "entry_ok e \<and> s = encode_entry e @ r"
    using s len f(3,4,7) by (auto simp: entry_ok_def)
qed

definition batch_ok :: "change_entry list \<Rightarrow> bool" where
  "batch_ok es \<longleftrightarrow> length es < 2 ^ 32 \<and> list_all entry_ok es"

lemma decode_encode_batch [simp]:
  "batch_ok es \<Longrightarrow> decode_batch q (encode_batch es) = Inr (number_records q es)"
  using entry_code.get_many_enc[of es "[]"]
  by (simp add: decode_batch_def encode_batch_def batch_ok_def bslice_simps unat_word_of_nat_u32)

lemma decode_batch_sound:
  assumes "decode_batch q b = Inr rs"
  obtains es where "batch_ok es" "b = encode_batch es" "rs = number_records q es"
proof -
  obtain es where es: "get_many (unat (u32_of_be (bslice b 0 4))) decode_entry (drop 4 b) = Inr (es, [])"
    "rs = number_records q es" "4 \<le> length b"
    using assms by (auto simp: decode_batch_def split: sum.splits if_splits)
  note g = entry_code.get_many_sound[OF es(1)]
  have "b = bslice b 0 4 @ drop 4 b" by (simp add: bslice_def)
  also have "bslice b 0 4 = u32_to_be (word_of_nat (length es))"
    using g es(3) by (simp add: to_be_of_be)
  finally have "b = encode_batch es" using g by (simp add: encode_batch_def)
  moreover have "batch_ok es" using g by (simp add: batch_ok_def)
  ultimately show thesis using es(2) that by blast
qed

lemma length_number_records [simp]: "length (number_records q es) = length es"
  by (simp add: number_records_def)

lemma number_records_nth:
  "i < length es \<Longrightarrow> number_records q es ! i = change_record_of q i (es ! i)"
  by (simp add: number_records_def nth_enumerate_eq)

lemma number_records_ascending:
  "length es < 2 ^ 32 \<Longrightarrow> sorted_wrt cursor_less (map record_cursor (number_records q es))"
  unfolding sorted_wrt_iff_nth_less
  by (auto simp: number_records_nth record_cursor_def change_record_of_def cursor_less_def
      word_less_nat_alt unat_word_of_nat_u32)

lemma number_records_entries:
  "map (\<lambda>r. (cr_key r, cr_value r)) (number_records q es) = es"
  by (rule nth_equalityI) (simp_all add: number_records_nth change_record_of_def)

lemma number_records_sequence: "r \<in> set (number_records q es) \<Longrightarrow> cr_sequence r = q"
  by (auto simp: number_records_def change_record_of_def)

section \<open>Properties\<close>

text \<open>
  The token handed to a subscriber is parsed back to the same position, for
  every sequence and index.
\<close>

lemma cursor_token_roundtrip: "parse_token (to_token c) = Inr c"
  by (rule parse_to_token)

text \<open>
  the stored 12-byte suffix of a cursor is read back as that cursor, nothing
  but such suffixes is read, and suffixes sort as cursors do.
\<close>

lemma cursor_suffix_order_roundtrip:
  "(from_suffix s = Inr c \<longleftrightarrow> s = cursor_suffix c) \<and>
   (cursor_suffix a < cursor_suffix b \<longleftrightarrow> cursor_less a b)"
  using suffix_from_suffix cursor_suffix_less by auto

text \<open>
  a stored batch decodes to a list of records exactly when it is the encoding
  of some well-formed entries and the records are those entries numbered from
  zero under the commit's sequence; every other byte string is refused.
\<close>

lemma decode_batch_exact:
  "decode_batch q b = Inr rs \<longleftrightarrow>
     (\<exists>es. batch_ok es \<and> b = encode_batch es \<and> rs = number_records q es)"
proof
  show "decode_batch q b = Inr rs \<Longrightarrow>
      \<exists>es. batch_ok es \<and> b = encode_batch es \<and> rs = number_records q es"
    by (elim decode_batch_sound) blast
qed auto

end
