(* ===== verification/OrderedMap.thy ===== *)
theory OrderedMap
  imports Prelude
begin

text \<open>
  An ordered map as its rows in strictly ascending key order: what the standard
  library's \<open>BTreeMap\<close> holds and what the page tree shows its callers.  Lookup,
  insertion, removal and bounded range scans are executable; the locale states
  the contract of an ordered store, which the engine's components rely on, and
  the rows themselves are its first interpretation.
\<close>

section \<open>Operations\<close>

definition sorted_rows :: "('k :: linorder \<times> 'v) list \<Rightarrow> bool" where
  "sorted_rows r \<longleftrightarrow> sorted_wrt (<) (map fst r)"

fun rget :: "('k :: linorder \<times> 'v) list \<Rightarrow> 'k \<Rightarrow> 'v option" where
  "rget [] k = None"
| "rget ((a, v) # r) k = (if k = a then Some v else rget r k)"

fun rput :: "'k :: linorder \<Rightarrow> 'v \<Rightarrow> ('k \<times> 'v) list \<Rightarrow> ('k \<times> 'v) list" where
  "rput k v [] = [(k, v)]"
| "rput k v ((a, w) # r) =
     (if k < a then (k, v) # (a, w) # r
      else if k = a then (k, v) # r
      else (a, w) # rput k v r)"

fun rdel :: "'k :: linorder \<Rightarrow> ('k \<times> 'v) list \<Rightarrow> ('k \<times> 'v) list" where
  "rdel k [] = []"
| "rdel k ((a, w) # r) = (if k = a then r else (a, w) # rdel k r)"

text \<open>Changing a value in place, as through \<open>get_mut\<close>.\<close>

definition rmodify :: "'k \<Rightarrow> ('v \<Rightarrow> 'v) \<Rightarrow> ('k \<times> 'v) list \<Rightarrow> ('k \<times> 'v) list" where
  "rmodify k f r = map (\<lambda>(a, v). if a = k then (a, f v) else (a, v)) r"

text \<open>A half-open key range with optional bounds, as every scan of the engine takes.\<close>

definition in_range :: "'k :: linorder option \<Rightarrow> 'k option \<Rightarrow> 'k \<Rightarrow> bool" where
  "in_range start until k \<longleftrightarrow>
     (case start of None \<Rightarrow> True | Some a \<Rightarrow> a \<le> k) \<and>
     (case until of None \<Rightarrow> True | Some b \<Rightarrow> k < b)"

definition rrange :: "'k :: linorder option \<Rightarrow> 'k option \<Rightarrow> ('k \<times> 'v) list \<Rightarrow> ('k \<times> 'v) list" where
  "rrange start until r = filter (\<lambda>(k, v). in_range start until k) r"

definition rscan ::
  "('k :: linorder \<times> 'v) list \<Rightarrow> 'k option \<Rightarrow> 'k option \<Rightarrow> nat \<Rightarrow> ('k \<times> 'v) list" where
  "rscan r start until limit = take limit (rrange start until r)"

section \<open>Order\<close>

lemma sorted_rows_simps [simp]:
  "sorted_rows []"
  "sorted_rows (x # r) \<longleftrightarrow> (\<forall>y \<in> set r. fst x < fst y) \<and> sorted_rows r"
  by (auto simp: sorted_rows_def)

lemma sorted_rows_append:
  "sorted_rows (r @ s) \<longleftrightarrow>
     sorted_rows r \<and> sorted_rows s \<and> (\<forall>x \<in> set r. \<forall>y \<in> set s. fst x < fst y)"
  by (auto simp: sorted_rows_def sorted_wrt_append)

lemma sorted_rows_filter [simp]: "sorted_rows r \<Longrightarrow> sorted_rows (filter P r)"
  by (induction r) auto

lemma sorted_rows_distinct: "sorted_rows r \<Longrightarrow> distinct (map fst r)"
  unfolding sorted_rows_def by (simp add: strict_sorted_iff)

lemma rget_None: "rget r k = None \<longleftrightarrow> k \<notin> fst ` set r"
  by (induction r k rule: rget.induct) auto

lemma rget_in: "sorted_rows r \<Longrightarrow> rget r k = Some v \<longleftrightarrow> (k, v) \<in> set r"
  by (induction r) force+

lemma rget_map_of: "rget r = map_of r"
proof
  show "rget r k = map_of r k" for k by (induction r) auto
qed

lemma keys_rput: "fst ` set (rput k v r) = insert k (fst ` set r)"
  by (induction k v r rule: rput.induct) auto

lemma keys_rdel: "sorted_rows r \<Longrightarrow> fst ` set (rdel k r) = fst ` set r - {k}"
  by (induction k r rule: rdel.induct) (auto simp: image_iff)

lemma rput_greater:
  "a < k \<Longrightarrow> \<forall>y \<in> set r. a < fst y \<Longrightarrow> \<forall>y \<in> set (rput k v r). a < fst y"
  by (induction k v r rule: rput.induct) auto

lemma sorted_rput [simp]: "sorted_rows r \<Longrightarrow> sorted_rows (rput k v r)"
proof (induction k v r rule: rput.induct)
  case (2 k v a w r)
  then show ?case using rput_greater[of a k r v] by auto
qed simp

lemma set_rput_subset: "set (rput k v r) \<subseteq> insert (k, v) (set r)"
  by (induction k v r rule: rput.induct) auto

lemma rput_last: "\<forall>y \<in> set r. fst y < k \<Longrightarrow> rput k v r = r @ [(k, v)]"
  by (induction k v r rule: rput.induct) auto

lemma set_rdel_subset: "set (rdel k r) \<subseteq> set r"
  by (induction r) (auto split: if_splits)

lemma sorted_rdel [simp]: "sorted_rows r \<Longrightarrow> sorted_rows (rdel k r)"
  by (induction k r rule: rdel.induct) (auto dest: subsetD[OF set_rdel_subset])

lemma rmodify_simps [simp]:
  "rmodify k f [] = []"
  "rmodify k f ((a, v) # r) = (a, if a = k then f v else v) # rmodify k f r"
  by (simp_all add: rmodify_def)

lemma keys_rmodify [simp]: "map fst (rmodify k f r) = map fst r"
  by (induction r) (auto simp: rmodify_def)

lemma sorted_rmodify [simp]: "sorted_rows (rmodify k f r) \<longleftrightarrow> sorted_rows r"
  by (simp only: sorted_rows_def keys_rmodify)

lemma rget_rmodify [simp]:
  "rget (rmodify k f r) x = (if x = k then map_option f (rget r x) else rget r x)"
  by (induction r) (auto simp: rmodify_def)

lemma rget_less_None [simp]: "\<forall>y \<in> set r. k < fst y \<Longrightarrow> rget r k = None"
  by (auto simp: rget_None)

lemma rget_rput [simp]: "rget (rput k v r) x = (if x = k then Some v else rget r x)"
  by (induction k v r rule: rput.induct) auto

lemma rget_rdel [simp]: "sorted_rows r \<Longrightarrow> rget (rdel k r) x = (if x = k then None else rget r x)"
  by (induction k r rule: rdel.induct) auto

text \<open>Rows in order are determined by what they answer.\<close>

lemma rows_of_keys: "sorted_rows r \<Longrightarrow> map (\<lambda>k. (k, the (rget r k))) (map fst r) = r"
  by (simp, rule map_idI) (auto simp flip: rget_in)

lemma rows_eqI:
  assumes "sorted_rows r" "sorted_rows s" "\<And>k. rget r k = rget s k"
  shows "r = s"
proof -
  have "fst ` set r = fst ` set s"
    using assms(3) rget_None[of r] rget_None[of s] by (metis set_eqI)
  then have "map fst r = map fst s"
    using assms(1,2) by (simp add: sorted_rows_def strict_sorted_equal)
  with rows_of_keys[OF assms(1)] rows_of_keys[OF assms(2)] assms(3) show ?thesis by simp
qed

section \<open>Scans\<close>

lemma rget_filter:
  "sorted_rows r \<Longrightarrow> rget (filter (\<lambda>(k, v). P k) r) k = (if P k then rget r k else None)"
  by (induction r) (auto simp: rget_None)

lemma rget_filter_row:
  "sorted_rows r \<Longrightarrow>
     rget (filter P r) k = (case rget r k of Some v \<Rightarrow> if P (k, v) then Some v else None | None \<Rightarrow> None)"
proof (induction r)
  case (Cons x r)
  obtain a v where x: "x = (a, v)" by (cases x)
  have "rget (filter P r) a = None" using Cons.prems x by (auto simp: rget_None)
  with Cons x show ?case by (cases "k = a") auto
qed simp

lemma filter_rput:
  "sorted_rows r \<Longrightarrow>
     filter (\<lambda>(k, v). P k) (rput k v r) =
       (if P k then rput k v (filter (\<lambda>(k, v). P k) r) else filter (\<lambda>(k, v). P k) r)"
  by (rule rows_eqI) (auto simp: rget_filter)

lemma filter_rdel:
  "sorted_rows r \<Longrightarrow> filter (\<lambda>(k, v). P k) (rdel k r) = rdel k (filter (\<lambda>(k, v). P k) r)"
  by (rule rows_eqI) (auto simp: rget_filter)

lemma rdel_absent: "rget r k = None \<Longrightarrow> rdel k r = r"
  by (induction r) (auto split: if_splits)

lemma rdel_filter: "sorted_rows r \<Longrightarrow> rdel k r = filter (\<lambda>(x, v). x \<noteq> k) r"
  by (rule rows_eqI) (auto simp: rget_filter)

lemma set_rscan_subset: "set (rscan r a b n) \<subseteq> set r"
  unfolding rscan_def rrange_def by (meson filter_is_subset order_trans set_take_subset)

lemma sorted_rrange [simp]: "sorted_rows r \<Longrightarrow> sorted_rows (rrange a b r)"
  by (simp add: rrange_def)

lemma sorted_take [simp]: "sorted_rows r \<Longrightarrow> sorted_rows (take n r)"
  unfolding sorted_rows_def by (metis sorted_wrt_take take_map)

lemma sorted_rscan [simp]: "sorted_rows r \<Longrightarrow> sorted_rows (rscan r a b n)"
  by (simp add: rscan_def)

lemma rrange_all [simp]: "rrange None None r = r"
  by (simp add: rrange_def in_range_def)

lemma rrange_rput:
  "sorted_rows r \<Longrightarrow>
     rrange a b (rput k v r) = (if in_range a b k then rput k v (rrange a b r) else rrange a b r)"
  by (simp add: rrange_def filter_rput)

lemma rrange_rdel:
  "sorted_rows r \<Longrightarrow> rrange a b (rdel k r) = rdel k (rrange a b r)"
  by (simp add: rrange_def filter_rdel)

section \<open>The contract of an ordered store\<close>

text \<open>
  What a client of the tree relies on: a well-formed store has a row view, reads
  answer from it, scans return its rows in the range in order up to the limit,
  and writes change it as the sorted rows change.
\<close>

locale ordered_store =
  fixes wf :: "'s \<Rightarrow> bool"
    and view :: "'s \<Rightarrow> (bytes \<times> 'v) list"
    and sget :: "'s \<Rightarrow> bytes \<Rightarrow> 'v option"
    and sscan :: "'s \<Rightarrow> bytes option \<Rightarrow> bytes option \<Rightarrow> nat \<Rightarrow> (bytes \<times> 'v) list"
    and sput :: "bytes \<Rightarrow> 'v \<Rightarrow> 's \<Rightarrow> 's"
    and sdel :: "bytes \<Rightarrow> 's \<Rightarrow> 's"
  assumes view_sorted: "wf s \<Longrightarrow> sorted_rows (view s)"
    and sget_view: "wf s \<Longrightarrow> sget s k = rget (view s) k"
    and sscan_view: "wf s \<Longrightarrow> sscan s a b n = rscan (view s) a b n"
    and wf_sput: "wf s \<Longrightarrow> wf (sput k v s)"
    and view_sput: "wf s \<Longrightarrow> view (sput k v s) = rput k v (view s)"
    and wf_sdel: "wf s \<Longrightarrow> wf (sdel k s)"
    and view_sdel: "wf s \<Longrightarrow> view (sdel k s) = rdel k (view s)"
begin

lemma get_after_put: "wf s \<Longrightarrow> sget (sput k v s) x = (if x = k then Some v else sget s x)"
  by (simp add: sget_view wf_sput view_sput)

lemma get_after_del: "wf s \<Longrightarrow> sget (sdel k s) x = (if x = k then None else sget s x)"
  by (simp add: sget_view wf_sdel view_sdel view_sorted)

lemma scan_sound: "wf s \<Longrightarrow> (k, v) \<in> set (sscan s a b n) \<Longrightarrow> in_range a b k \<and> sget s k = Some v"
  using set_take_subset[of n "rrange a b (view s)"]
  by (auto simp: sscan_view rscan_def rrange_def sget_view rget_in view_sorted)

lemma scan_complete:
  "wf s \<Longrightarrow> length (sscan s a b n) < n \<Longrightarrow> sget s k = Some v \<Longrightarrow> in_range a b k \<Longrightarrow>
     (k, v) \<in> set (sscan s a b n)"
  by (auto simp: sscan_view rscan_def rrange_def sget_view rget_in view_sorted)

end

interpretation rows_store: ordered_store sorted_rows "\<lambda>r. r" rget rscan rput rdel
  by unfold_locales auto

end
