(* ===== verification/ChangeFeed.thy ===== *)
theory ChangeFeed
  imports ChangeLog OrderedMap
begin

text \<open>
  The durable change feed of the engine (\<open>crates/vyrn-core/src/lib.rs\<close>):
  \<open>with_change_log\<close> adds one record per commit, \<open>read_changes\<close> replays from a
  cursor, and the loops of \<open>trim_changes\<close> and \<open>change_log_len\<close>.  The store is seen
  through its ordered rows.  The lemmas show that the records of a commit replay
  its effect on the published keys, and that a reader gets exactly the changes
  after its cursor.
\<close>

section \<open>Batches on rows\<close>

fun apply_op :: "batch_operation \<Rightarrow> (bytes \<times> bytes) list \<Rightarrow> (bytes \<times> bytes) list" where
  "apply_op (Put k v) r = rput k v r"
| "apply_op (Delete k) r = rdel k r"

definition apply_ops :: "batch_operation list \<Rightarrow> (bytes \<times> bytes) list \<Rightarrow> (bytes \<times> bytes) list" where
  "apply_ops ops r = fold apply_op ops r"

fun apply_entry :: "change_entry \<Rightarrow> (bytes \<times> bytes) list \<Rightarrow> (bytes \<times> bytes) list" where
  "apply_entry (k, Some v) r = rput k v r"
| "apply_entry (k, None) r = rdel k r"

section \<open>Recording a commit\<close>

text \<open>
  The loop of \<open>with_change_log\<close>: \<open>live\<close> tracks the batch's own effect, and a key the
  batch has not touched is looked up in the store, which may fail.
\<close>

fun change_entries ::
  "(bytes \<Rightarrow> vyrn_error + bytes option) \<Rightarrow> (bytes \<Rightarrow> bool option) \<Rightarrow> batch_operation list
     \<Rightarrow> vyrn_error + change_entry list" where
  "change_entries tree_get live [] = Inr []"
| "change_entries tree_get live (Put key val # ops) =
     (case change_entries tree_get (live(key \<mapsto> True)) ops of
        Inl e \<Rightarrow> Inl e
      | Inr es \<Rightarrow> Inr ((if is_published_key key then [(key, Some val)] else []) @ es))"
| "change_entries tree_get live (Delete key # ops) =
     (case (case live key of Some p \<Rightarrow> Inr p | None \<Rightarrow> map_sum id (\<lambda>v. v \<noteq> None) (tree_get key)) of
        Inl e \<Rightarrow> Inl e
      | Inr present \<Rightarrow>
         (case change_entries tree_get (live(key \<mapsto> False)) ops of
            Inl e \<Rightarrow> Inl e
          | Inr es \<Rightarrow> Inr ((if present \<and> is_published_key key then [(key, None)] else []) @ es)))"

definition with_change_log ::
  "bool \<Rightarrow> u64 \<Rightarrow> (bytes \<Rightarrow> vyrn_error + bytes option) \<Rightarrow> batch_operation list
     \<Rightarrow> vyrn_error + (batch_operation list \<times> change_record list)" where
  "with_change_log enabled last_lsn tree_get ops =
     (if \<not> enabled then Inr (ops, [])
      else if last_lsn = U64_MAX then Inl Io
      else
        (let sequence = last_lsn + 1 in
         case change_entries tree_get (\<lambda>_. None) ops of
           Inl e \<Rightarrow> Inl e
         | Inr entries \<Rightarrow>
             if entries = [] then Inr (ops, [])
             else if 4294967295 < length entries then Inl Io
             else Inr (ops @ [Put (change_log_key sequence) (encode_batch entries)],
                       number_records sequence entries)))"

section \<open>Reading and trimming\<close>

definition usize_max :: nat where "usize_max = 2 ^ 64 - 1"

definition change_log_start :: "(bytes \<times> bytes) list \<Rightarrow> vyrn_error + cursor" where
  "change_log_start r =
     (case rget r CHANGE_LOG_START_KEY of
        Some v \<Rightarrow> from_suffix v
      | None \<Rightarrow> Inr cursor_start)"

text \<open>The inner loop returns the records so far and whether the limit was reached.\<close>

fun push_records ::
  "cursor \<Rightarrow> nat \<Rightarrow> change_record list \<Rightarrow> change_record list \<Rightarrow> change_record list \<times> bool" where
  "push_records cursor limit acc [] = (acc, False)"
| "push_records cursor limit acc (r # rs) =
     (if cursor \<noteq> cursor_start \<and> cursor_le (record_cursor r) cursor
      then push_records cursor limit acc rs
      else if length (acc @ [r]) = limit then (acc @ [r], True)
      else push_records cursor limit (acc @ [r]) rs)"

fun read_rows ::
  "cursor \<Rightarrow> nat \<Rightarrow> change_record list \<Rightarrow> (bytes \<times> bytes) list \<Rightarrow> vyrn_error + change_record list" where
  "read_rows cursor limit acc [] = Inr acc"
| "read_rows cursor limit acc ((key, val) # rows) =
     (case change_log_sequence key of
        Inl e \<Rightarrow> Inl e
      | Inr sequence \<Rightarrow>
         (case decode_batch sequence val of
            Inl e \<Rightarrow> Inl e
          | Inr rs \<Rightarrow>
             (case push_records cursor limit acc rs of
                (acc, True) \<Rightarrow> Inr acc
              | (acc, False) \<Rightarrow> read_rows cursor limit acc rows)))"

text \<open>A token as the text of an error message.\<close>

definition chars_of :: "bytes \<Rightarrow> string" where
  "chars_of b = map (\<lambda>x. char_of (unat x)) b"

definition read_changes ::
  "(bytes \<times> bytes) list \<Rightarrow> cursor \<Rightarrow> nat \<Rightarrow> vyrn_error + change_record list" where
  "read_changes r cursor limit =
     (case change_log_start r of
        Inl e \<Rightarrow> Inl e
      | Inr retained \<Rightarrow>
          if cursor_less cursor retained
          then Inl (CursorTooOld (chars_of (to_token cursor)) (chars_of (to_token retained)))
          else if limit = 0 then Inr []
          else
            read_rows cursor limit []
              (rscan r (Some (change_log_key (c_sequence cursor))) (prefix_end CHANGE_LOG_PREFIX)
                 (min (limit + 1) usize_max)))"

text \<open>
  The loop of \<open>trim_changes\<close>: how many changes go and which records are deleted.
\<close>

fun trim_rows :: "cursor \<Rightarrow> (bytes \<times> bytes) list \<Rightarrow> vyrn_error + (nat \<times> batch_operation list)" where
  "trim_rows cursor [] = Inr (0, [])"
| "trim_rows cursor ((key, val) # rows) =
     (case change_log_sequence key of
        Inl e \<Rightarrow> Inl e
      | Inr sequence \<Rightarrow>
         (case decode_batch sequence val of
            Inl e \<Rightarrow> Inl e
          | Inr rs \<Rightarrow>
             (case trim_rows cursor rows of
                Inl e \<Rightarrow> Inl e
              | Inr (n, ops) \<Rightarrow>
                  if rs \<noteq> [] \<and> cursor_le (record_cursor (last rs)) cursor
                  then Inr (length rs + n, Delete key # ops)
                  else Inr (n, ops))))"

text \<open>The loop of \<open>change_log_len\<close> adds up the decoded batches; \<open>latest_cursor\<close> follows the log's end.\<close>

fun count_rows :: "nat \<Rightarrow> (bytes \<times> bytes) list \<Rightarrow> vyrn_error + nat" where
  "count_rows acc [] = Inr acc"
| "count_rows acc ((key, val) # rows) =
     (case change_log_sequence key of
        Inl e \<Rightarrow> Inl e
      | Inr sequence \<Rightarrow>
         (case decode_batch sequence val of
            Inl e \<Rightarrow> Inl e
          | Inr rs \<Rightarrow> count_rows (acc + length rs) rows))"

definition latest_cursor :: "u64 \<Rightarrow> cursor" where
  "latest_cursor last_lsn = cursor_new last_lsn U32_MAX"

section \<open>Replaying a commit\<close>

definition published :: "(bytes \<times> bytes) list \<Rightarrow> (bytes \<times> bytes) list" where
  "published r = filter (\<lambda>(k, v). is_published_key k) r"

lemma sorted_apply_op [simp]: "sorted_rows r \<Longrightarrow> sorted_rows (apply_op op r)"
  by (cases op) auto

lemma sorted_apply_ops [simp]: "sorted_rows r \<Longrightarrow> sorted_rows (apply_ops ops r)"
  unfolding apply_ops_def by (induction ops arbitrary: r) auto

lemma apply_ops_simps [simp]:
  "apply_ops [] r = r" "apply_ops (op # ops) r = apply_ops ops (apply_op op r)"
  "apply_ops (ops @ ops') r = apply_ops ops' (apply_ops ops r)"
  by (simp_all add: apply_ops_def)

lemma change_entries_replay:
  assumes "sorted_rows cur" "change_entries tree_get live ops = Inr es"
    and "\<And>k p. live k = Some p \<Longrightarrow> p \<longleftrightarrow> rget cur k \<noteq> None"
    and "\<And>k v. live k = None \<Longrightarrow> tree_get k = Inr v \<Longrightarrow> v \<noteq> None \<longleftrightarrow> rget cur k \<noteq> None"
  shows "published (apply_ops ops cur) = fold apply_entry es (published cur)"
  using assms
proof (induction ops arbitrary: cur live es)
  case (Cons op ops)
  note sorted = Cons.prems(1)
  show ?case
  proof (cases op)
    case (Put k v)
    with Cons.prems(2) obtain es' where
      es': "change_entries tree_get (live(k \<mapsto> True)) ops = Inr es'"
      "es = (if is_published_key k then [(k, Some v)] else []) @ es'"
      by (auto split: sum.splits)
    have "published (apply_ops ops (rput k v cur)) = fold apply_entry es' (published (rput k v cur))"
      using sorted Cons.prems(3,4) by (intro Cons.IH[OF _ es'(1)]) (auto split: if_splits)
    with Put sorted es'(2) show ?thesis
      by (simp add: published_def filter_rput)
  next
    case (Delete k)
    with Cons.prems(2) obtain p es' where
      p: "(case live k of Some p \<Rightarrow> Inr p | None \<Rightarrow> map_sum id (\<lambda>v. v \<noteq> None) (tree_get k)) = Inr p" and
      es': "change_entries tree_get (live(k \<mapsto> False)) ops = Inr es'"
      "es = (if p \<and> is_published_key k then [(k, None)] else []) @ es'"
      by (auto split: sum.splits)
    have "published (apply_ops ops (rdel k cur)) = fold apply_entry es' (published (rdel k cur))"
      using sorted Cons.prems(3,4) by (intro Cons.IH[OF _ es'(1)]) (auto split: if_splits)
    moreover have "p \<longleftrightarrow> rget cur k \<noteq> None"
      using p Cons.prems(3,4)[of k] by (cases "live k"; cases "tree_get k") auto
    moreover have "published (rdel k cur) =
        (if rget cur k \<noteq> None \<and> is_published_key k then rdel k (published cur) else published cur)"
      using sorted rdel_absent[of "published cur" k]
      by (auto simp: published_def filter_rdel rget_filter rdel_absent)
    ultimately show ?thesis
      using Delete es'(2) by simp
  qed
qed simp

lemma change_entries_keys:
  "change_entries tree_get live ops = Inr es \<Longrightarrow> e \<in> set es \<Longrightarrow>
     is_published_key (fst e) \<and> (\<exists>op \<in> set ops. op = (case snd e of None \<Rightarrow> Delete (fst e) | Some v \<Rightarrow> Put (fst e) v))"
  by (induction tree_get live ops arbitrary: es rule: change_entries.induct)
    (fastforce split: if_splits sum.splits)+

section \<open>Reading from a cursor\<close>

definition keep :: "cursor \<Rightarrow> change_record \<Rightarrow> bool" where
  "keep c r \<longleftrightarrow> c = cursor_start \<or> cursor_less c (record_cursor r)"

text \<open>The retained log: its rows, and the records they hold in order.\<close>

definition log_rows :: "(bytes \<times> bytes) list \<Rightarrow> (bytes \<times> bytes) list" where
  "log_rows r = rrange (Some CHANGE_LOG_PREFIX) (prefix_end CHANGE_LOG_PREFIX) r"

definition row_records :: "bytes \<times> bytes \<Rightarrow> change_record list" where
  "row_records kv =
     (case change_log_sequence (fst kv) of
        Inl _ \<Rightarrow> []
      | Inr q \<Rightarrow> (case decode_batch q (snd kv) of Inl _ \<Rightarrow> [] | Inr rs \<Rightarrow> rs))"

definition log_records :: "(bytes \<times> bytes) list \<Rightarrow> change_record list" where
  "log_records r = concat (map row_records (log_rows r))"

text \<open>A row as \<open>with_change_log\<close> writes it: a non-empty batch under its sequence.\<close>

definition log_row_ok :: "bytes \<times> bytes \<Rightarrow> bool" where
  "log_row_ok kv \<longleftrightarrow>
     (\<exists>q es. kv = (change_log_key q, encode_batch es) \<and> q \<noteq> 0 \<and> batch_ok es \<and> es \<noteq> [])"

definition log_ok :: "(bytes \<times> bytes) list \<Rightarrow> bool" where
  "log_ok r \<longleftrightarrow> sorted_rows r \<and> (\<forall>kv \<in> set (log_rows r). log_row_ok kv)"

lemma row_records_ok [simp]:
  "batch_ok es \<Longrightarrow> row_records (change_log_key q, encode_batch es) = number_records q es"
  by (simp add: row_records_def)

lemma keep_iff: "keep c r \<longleftrightarrow> \<not> (c \<noteq> cursor_start \<and> cursor_le (record_cursor r) c)"
  using not_cursor_less[of c "record_cursor r"] by (auto simp: keep_def)

lemma push_records_take:
  "length acc < limit \<Longrightarrow>
     push_records c limit acc rs =
       (take limit (acc @ filter (keep c) rs), limit \<le> length (acc @ filter (keep c) rs))"
  by (induction c limit acc rs rule: push_records.induct) (auto simp: keep_iff)

lemma read_rows_take:
  "length acc < limit \<Longrightarrow> \<forall>kv \<in> set rows. log_row_ok kv \<Longrightarrow>
     read_rows c limit acc rows =
       Inr (take limit (acc @ filter (keep c) (concat (map row_records rows))))"
proof (induction rows arbitrary: acc)
  case (Cons kv rows)
  obtain q es where kv: "kv = (change_log_key q, encode_batch es)" "batch_ok es"
    using Cons.prems(2) by (auto simp: log_row_ok_def)
  let ?new = "acc @ filter (keep c) (number_records q es)"
  show ?case
  proof (cases "limit \<le> length ?new")
    case True
    with Cons.prems kv show ?thesis by (simp add: push_records_take)
  next
    case False
    with Cons.prems kv Cons.IH[of ?new] show ?thesis by (simp add: push_records_take)
  qed
qed simp

lemma take_concat_nonempty:
  "\<forall>b \<in> set bs. f b \<noteq> [] \<Longrightarrow> take n (concat (map f (take n bs))) = take n (concat (map f bs))"
proof (induction bs arbitrary: n)
  case (Cons b bs)
  show ?case
  proof (cases n)
    case (Suc m)
    obtain x xs where fb: "f b = x # xs" using Cons.prems by (cases "f b") auto
    have "take (m - length xs) (concat (map f (take m bs))) =
        take (m - length xs) (take m (concat (map f (take m bs))))" by simp
    also have "\<dots> = take (m - length xs) (take m (concat (map f bs)))"
      using Cons by simp
    finally show ?thesis using Suc fb by simp
  qed simp
qed simp

lemma take_concat_first:
  assumes "\<forall>b \<in> set bs. f b \<noteq> []"
  shows "take n (concat (map f (take (Suc n) (a # bs)))) = take n (concat (map f (a # bs)))"
proof -
  have "take (n - length (f a)) (concat (map f (take n bs))) =
      take (n - length (f a)) (take n (concat (map f (take n bs))))" by simp
  also have "\<dots> = take (n - length (f a)) (take n (concat (map f bs)))"
    using take_concat_nonempty[OF assms] by simp
  finally show ?thesis by simp
qed

lemma concat_filter_map: "filter P (concat (map f xs)) = concat (map (\<lambda>x. filter P (f x)) xs)"
  by (induction xs) auto

lemma keep_later: "r \<in> set (number_records q es) \<Longrightarrow> c_sequence c < q \<Longrightarrow> keep c r"
  by (auto simp: keep_def record_cursor_def cursor_less_def dest!: number_records_sequence)

lemma drop_earlier:
  "r \<in> set (number_records q es) \<Longrightarrow> q < c_sequence c \<Longrightarrow> \<not> keep c r"
  by (auto simp: keep_def record_cursor_def cursor_less_def cursor_start_def dest!: number_records_sequence)

lemma log_row_okE:
  assumes "log_row_ok kv"
  obtains q es where "kv = (change_log_key q, encode_batch es)" "q \<noteq> 0" "batch_ok es" "es \<noteq> []"
    "row_records kv = number_records q es"
  using assms by (auto simp: log_row_ok_def)

lemma log_rows_from:
  "rrange (Some (change_log_key q)) (prefix_end CHANGE_LOG_PREFIX) r =
     filter (\<lambda>(k, v). change_log_key q \<le> k) (log_rows r)"
proof -
  have "CHANGE_LOG_PREFIX \<le> change_log_key q" by (rule prefix_imp_le) simp
  then show ?thesis
    unfolding rrange_def log_rows_def filter_filter
    by (intro filter_cong) (auto simp: in_range_def split: option.splits)
qed

lemma concat_map_filter:
  "(\<And>x. x \<in> set xs \<Longrightarrow> \<not> P x \<Longrightarrow> f x = []) \<Longrightarrow> concat (map f (filter P xs)) = concat (map f xs)"
  by (induction xs) auto

lemma log_row_okI:
  "q \<noteq> 0 \<Longrightarrow> batch_ok es \<Longrightarrow> es \<noteq> [] \<Longrightarrow> log_row_ok (change_log_key q, encode_batch es)"
  by (auto simp: log_row_ok_def)

lemma change_log_key_le [simp]: "change_log_key s \<le> change_log_key t \<longleftrightarrow> s \<le> t"
  by (metis change_log_key_inject change_log_key_less leI less_le_not_le order_le_less)

lemma kept_from:
  assumes "\<forall>kv \<in> set rows. log_row_ok kv"
  shows "filter (keep c) (concat (map row_records (filter (\<lambda>(k, v). change_log_key (c_sequence c) \<le> k) rows)))
    = filter (keep c) (concat (map row_records rows))"
  unfolding concat_filter_map
proof (rule concat_map_filter)
  fix kv assume kv: "kv \<in> set rows" "\<not> (case kv of (k, v) \<Rightarrow> change_log_key (c_sequence c) \<le> k)"
  with assms obtain q es where "kv = (change_log_key q, encode_batch es)"
    "row_records kv = number_records q es"
    by (meson log_row_okE)
  with kv(2) show "filter (keep c) (row_records kv) = []"
    by (auto simp: filter_empty_conv not_le drop_earlier)
qed

lemma kept_limit:
  assumes "sorted_rows rows" "\<forall>kv \<in> set rows. log_row_ok kv"
    and "\<forall>kv \<in> set rows. change_log_key (c_sequence c) \<le> fst kv"
  shows "take n (filter (keep c) (concat (map row_records (take (Suc n) rows)))) =
    take n (filter (keep c) (concat (map row_records rows)))"
proof (cases rows)
  case (Cons a bs)
  have "filter (keep c) (row_records b) \<noteq> []" if b: "b \<in> set bs" for b
  proof -
    from assms(2) Cons b have "log_row_ok b" by simp
    then obtain q es where q: "b = (change_log_key q, encode_batch es)" "es \<noteq> []"
      "row_records b = number_records q es"
      by (rule log_row_okE)
    have "change_log_key (c_sequence c) \<le> fst a" "fst a < fst b"
      using assms(1,3) Cons b by auto
    then have "change_log_key (c_sequence c) < change_log_key q"
      using q(1) by (metis fst_conv order_le_less_trans)
    then have "\<forall>r \<in> set (row_records b). keep c r" using q(3) keep_later by auto
    moreover have "row_records b \<noteq> []" using q(2,3) by (metis length_0_conv length_number_records)
    ultimately show ?thesis by (simp add: filter_id_conv[THEN iffD2])
  qed
  then show ?thesis
    unfolding concat_filter_map Cons
    by (intro take_concat_first) blast
qed simp

lemma read_changes_take:
  assumes "log_ok r" "change_log_start r = Inr st" "\<not> cursor_less c st"
    and "limit \<le> usize_max" "length r < usize_max"
  shows "read_changes r c limit = Inr (take limit (filter (keep c) (log_records r)))"
proof (cases "limit = 0")
  case False
  let ?S = "filter (\<lambda>(k, v). change_log_key (c_sequence c) \<le> k) (log_rows r)"
  have ok: "\<forall>kv \<in> set (log_rows r). log_row_ok kv" "sorted_rows ?S"
    using assms(1) by (auto simp: log_ok_def log_rows_def)
  then have okS: "\<forall>kv \<in> set ?S. log_row_ok kv" "\<forall>kv \<in> set ?S. change_log_key (c_sequence c) \<le> fst kv"
    by auto
  have "length ?S \<le> length (log_rows r)" by (rule length_filter_le)
  also have "\<dots> \<le> length r" unfolding log_rows_def rrange_def by (rule length_filter_le)
  finally have "length ?S < usize_max" using assms(5) by linarith
  then have "take (min (limit + 1) usize_max) ?S = take (Suc limit) ?S"
    by (cases "limit + 1 \<le> usize_max") (simp_all add: min_def)
  then have "read_changes r c limit = read_rows c limit [] (take (Suc limit) ?S)"
    using assms(2,3) False by (simp add: read_changes_def rscan_def log_rows_from)
  also have "\<dots> = Inr (take limit (filter (keep c) (concat (map row_records (take (Suc limit) ?S)))))"
    using False okS(1) by (subst read_rows_take) (auto dest: in_set_takeD)
  also have "\<dots> = Inr (take limit (filter (keep c) (log_records r)))"
    using kept_limit[OF ok(2) okS] kept_from[OF ok(1)] by (simp add: log_records_def)
  finally show ?thesis .
qed (use assms in \<open>simp add: read_changes_def\<close>)

section \<open>The log as one ascending sequence\<close>

lemma number_records_below:
  assumes "r \<in> set (number_records q es)" "r' \<in> set (number_records q' es')" "q < q'"
  shows "cursor_less (record_cursor r) (record_cursor r')"
  using assms by (auto simp: record_cursor_def cursor_less_def dest!: number_records_sequence)

lemma log_rows_ascending:
  assumes "sorted_rows rows" "\<forall>kv \<in> set rows. log_row_ok kv"
  shows "sorted_wrt cursor_less (map record_cursor (concat (map row_records rows)))"
  using assms
proof (induction rows)
  case (Cons a rows)
  obtain q es where a: "a = (change_log_key q, encode_batch es)" "batch_ok es"
    "row_records a = number_records q es"
    using Cons.prems(2) by (meson list.set_intros(1) log_row_okE)
  have "cursor_less (record_cursor r) (record_cursor r')"
    if r: "r \<in> set (row_records a)" and m: "b \<in> set rows" and r': "r' \<in> set (row_records b)" for r r' b
  proof -
    obtain q' es' where b: "b = (change_log_key q', encode_batch es')"
      "row_records b = number_records q' es'"
      using Cons.prems(2) m by (meson list.set_intros(2) log_row_okE)
    have "q < q'" using Cons.prems(1) m a(1) b(1) by auto
    with r r' a(3) b(2) show ?thesis using number_records_below by simp
  qed
  moreover have "sorted_wrt cursor_less (map record_cursor (row_records a))"
    using a(2,3) number_records_ascending by (simp add: batch_ok_def)
  ultimately show ?case using Cons by (auto simp: sorted_wrt_append)
qed simp

lemma log_records_ascending: "log_ok r \<Longrightarrow> sorted_wrt cursor_less (map record_cursor (log_records r))"
  unfolding log_records_def
  by (rule log_rows_ascending) (auto simp: log_ok_def log_rows_def)

lemma filter_after_take:
  assumes "sorted_wrt cursor_less (map record_cursor xs)" "n < length xs"
  shows "filter (\<lambda>r. cursor_less (record_cursor (xs ! n)) (record_cursor r)) xs = drop (Suc n) xs"
proof -
  have lt: "cursor_less (record_cursor (xs ! i)) (record_cursor (xs ! j))" if "i < j" "j < length xs" for i j
    using assms(1) that by (auto simp: sorted_wrt_iff_nth_less)
  have "\<not> cursor_less (record_cursor (xs ! n)) (record_cursor r)" if r: "r \<in> set (take (Suc n) xs)" for r
  proof -
    obtain i where "i \<le> n" "r = xs ! i"
      using r by (metis in_set_conv_nth length_take less_Suc_eq_le min_less_iff_conj nth_take)
    then show ?thesis
      using lt[of i n] assms(2) cursor_less_trans[of "record_cursor (xs ! n)" "record_cursor (xs ! i)" "record_cursor (xs ! n)"]
      by (cases "i = n") auto
  qed
  moreover have "cursor_less (record_cursor (xs ! n)) (record_cursor r)" if "r \<in> set (drop (Suc n) xs)" for r
    using that assms(2) by (auto simp: in_set_conv_nth intro!: lt)
  ultimately have "filter (\<lambda>r. cursor_less (record_cursor (xs ! n)) (record_cursor r))
      (take (Suc n) xs @ drop (Suc n) xs) = drop (Suc n) xs"
    unfolding filter_append by (simp add: filter_empty_conv filter_id_conv)
  then show ?thesis by simp
qed

lemma log_record_not_start: "log_ok r \<Longrightarrow> x \<in> set (log_records r) \<Longrightarrow> record_cursor x \<noteq> cursor_start"
  by (auto simp: log_ok_def log_records_def record_cursor_def cursor_start_def
      elim!: log_row_okE dest!: number_records_sequence bspec)

section \<open>Trimming\<close>

definition trimmed :: "cursor \<Rightarrow> bytes \<times> bytes \<Rightarrow> bool" where
  "trimmed c kv \<longleftrightarrow> row_records kv \<noteq> [] \<and> cursor_le (record_cursor (last (row_records kv))) c"

lemma trim_rows_spec:
  "\<forall>kv \<in> set rows. log_row_ok kv \<Longrightarrow>
     trim_rows c rows = Inr (sum_list (map (length \<circ> row_records) (filter (trimmed c) rows)),
                             map (\<lambda>kv. Delete (fst kv)) (filter (trimmed c) rows))"
proof (induction rows)
  case (Cons kv rows)
  obtain q es where "kv = (change_log_key q, encode_batch es)" "batch_ok es" "es \<noteq> []"
    using Cons.prems by (auto simp: log_row_ok_def)
  with Cons show ?case by (simp add: trimmed_def)
qed simp

lemma apply_deletes:
  "sorted_rows r \<Longrightarrow>
     apply_ops (map (\<lambda>kv. Delete (fst kv)) ds) r = filter (\<lambda>(k, v). k \<notin> fst ` set ds) r"
proof (induction ds arbitrary: r)
  case (Cons d ds)
  then show ?case by (simp add: rdel_filter) (auto intro!: filter_cong)
qed simp

lemma start_key_not_logged [simp]:
  "\<not> in_range (Some CHANGE_LOG_PREFIX) (prefix_end CHANGE_LOG_PREFIX) CHANGE_LOG_START_KEY"
proof -
  have "\<not> prefix CHANGE_LOG_PREFIX CHANGE_LOG_START_KEY" by (simp add: prefix_defs)
  then show ?thesis
    using prefix_end_bound[of CHANGE_LOG_PREFIX _ CHANGE_LOG_START_KEY]
      prefix_end_unbounded[of CHANGE_LOG_PREFIX CHANGE_LOG_START_KEY]
    by (cases "prefix_end CHANGE_LOG_PREFIX") (auto simp: in_range_def)
qed

lemma trimmed_not_kept:
  assumes "log_row_ok kv" "trimmed c kv" "\<not> cursor_less c' c"
  shows "filter (keep c') (row_records kv) = []"
proof -
  obtain q es where kv: "q \<noteq> 0" "batch_ok es" "es \<noteq> []" "row_records kv = number_records q es"
    using assms(1) by (rule log_row_okE)
  let ?rs = "row_records kv"
  have le: "cursor_le (record_cursor r) c'" if "r \<in> set ?rs" for r
  proof -
    have "sorted_wrt cursor_less (map record_cursor ?rs)"
      using kv number_records_ascending by (simp add: batch_ok_def)
    from sorted_wrt_last[OF this, of "record_cursor r"]
    have "cursor_le (record_cursor r) (record_cursor (last ?rs))"
      using that assms(2) by (auto simp: cursor_le_def last_map trimmed_def)
    then show ?thesis
      using assms(2,3) cursor_less_trans not_cursor_less unfolding trimmed_def cursor_le_def by metis
  qed
  have "c' \<noteq> cursor_start"
  proof
    assume "c' = cursor_start"
    moreover have "?rs \<noteq> []" using assms(2) by (simp add: trimmed_def)
    then have "last ?rs \<in> set ?rs" by simp
    moreover from this le have "cursor_le (record_cursor (last ?rs)) c'" by blast
    ultimately show False
      using kv(1,4) by (auto simp: cursor_le_def cursor_less_def cursor_start_def record_cursor_def
          dest!: number_records_sequence)
  qed
  with le show ?thesis by (auto simp: filter_empty_conv keep_iff)
qed

lemma log_rows_prefix: "log_rows r = filter (\<lambda>(k, v). prefix CHANGE_LOG_PREFIX k) r"
proof -
  have "in_range (Some CHANGE_LOG_PREFIX) (prefix_end CHANGE_LOG_PREFIX) k \<longleftrightarrow> prefix CHANGE_LOG_PREFIX k" for k
    using prefix_end_bound[of CHANGE_LOG_PREFIX _ k] prefix_end_unbounded[of CHANGE_LOG_PREFIX k]
    by (cases "prefix_end CHANGE_LOG_PREFIX") (auto simp: in_range_def)
  then show ?thesis by (simp add: log_rows_def rrange_def)
qed

section \<open>Properties\<close>

definition op_valid :: "batch_operation \<Rightarrow> bool" where
  "op_valid op \<longleftrightarrow> validate_key (operation_key op) = Inr () \<and>
     (case op of Put k v \<Rightarrow> validate_value v = Inr () | Delete k \<Rightarrow> True)"

lemma change_entries_ok:
  assumes "list_all op_valid ops" "change_entries tree_get live ops = Inr es"
  shows "list_all entry_ok es"
proof -
  have "entry_ok e" if "e \<in> set es" for e
    using change_entries_keys[OF assms(2) that] assms(1)
    by (cases e; cases "snd e")
      (auto simp: list_all_iff op_valid_def entry_ok_def validate_key_def validate_value_def MAX_VALUE_SIZE_def
        dest!: bspec split: if_splits)
  then show ?thesis by (simp add: list_all_iff)
qed

text \<open>
  C26: the records published with a commit replay it.  Applying them to the
  published part of the store gives the published part of the store after the
  batch, provided the lookups that answered answered from the store; nothing is
  recorded when nothing published changed, and otherwise the one record appended
  to the batch decodes to exactly the published records under the commit's own
  sequence.
\<close>

theorem feed_replays_commit:
  assumes "sorted_rows r" "list_all op_valid ops" "\<And>k v. tree_get k = Inr v \<Longrightarrow> v = rget r k"
    and "with_change_log True last_lsn tree_get ops = Inr (ops', pub)"
  shows "published (apply_ops ops r)
      = fold apply_entry (map (\<lambda>c. (cr_key c, cr_value c)) pub) (published r) \<and>
    (pub = [] \<and> ops' = ops \<or>
     (\<exists>rec. ops' = ops @ [Put (change_log_key (last_lsn + 1)) rec] \<and>
            decode_batch (last_lsn + 1) rec = Inr pub \<and> pub \<noteq> []))"
proof -
  obtain es where es: "change_entries tree_get (\<lambda>_. None) ops = Inr es"
    using assms(4) by (auto simp: with_change_log_def Let_def split: if_splits sum.splits)
  have replay: "published (apply_ops ops r) = fold apply_entry es (published r)"
    using assms(1,3) by (intro change_entries_replay[OF _ es]) auto
  show ?thesis
  proof (cases "es = []")
    case True
    with replay assms(4) es show ?thesis
      by (auto simp: with_change_log_def Let_def split: if_splits)
  next
    case False
    with assms(4) es have "length es \<le> 4294967295" "pub = number_records (last_lsn + 1) es"
      "ops' = ops @ [Put (change_log_key (last_lsn + 1)) (encode_batch es)]"
      by (auto simp: with_change_log_def Let_def split: if_splits)
    moreover from this have "batch_ok es"
      using change_entries_ok[OF assms(2) es] by (simp add: batch_ok_def)
    moreover have "number_records (last_lsn + 1) es \<noteq> []"
      using False by (metis length_0_conv length_number_records)
    ultimately show ?thesis using replay by (simp add: number_records_entries)
  qed
qed

theorem feed_replays_commit_witness:
  "published (apply_ops [Put [97] [1], Delete [98]] [])
     = fold apply_entry (map (\<lambda>c. (cr_key c, cr_value c))
         (snd (projr (with_change_log True 4 (\<lambda>k. Inr (rget [] k)) [Put [97] [1], Delete [98]])))) (published [])"
proof -
  let ?w = "with_change_log True 4 (\<lambda>k. Inr (rget [] k)) [Put [97] [1], Delete [98]]"
  have "?w = Inr (projr ?w)"
    by (simp add: with_change_log_def is_published_key_def prefix_defs Let_def)
  then show ?thesis
    using feed_replays_commit[of "[]" "[Put [97] [1], Delete [98]]" "\<lambda>k. Inr (rget [] k)" 4]
    by (cases "projr ?w")
      (simp add: op_valid_def validate_key_def validate_value_def MAX_KEY_SIZE_def MAX_VALUE_SIZE_def)
qed

text \<open>
  C27: on a log written by the engine, a read from a retained cursor returns the
  first \<open>limit\<close> changes committed strictly after it (everything retained for the
  start cursor), in cursor order, skipping and repeating none.
\<close>

theorem read_changes_exact:
  assumes "log_ok r" "change_log_start r = Inr st" "\<not> cursor_less c st"
    and "limit \<le> usize_max" "length r < usize_max"
  shows "read_changes r c limit = Inr (take limit (filter (keep c) (log_records r))) \<and>
    sorted_wrt cursor_less (map record_cursor (log_records r))"
  using read_changes_take[OF assms] log_records_ascending[OF assms(1)] by simp

definition sample_log :: "(bytes \<times> bytes) list" where
  "sample_log = [(change_log_key 3, encode_batch [([97], Some [1]), ([98], None)]),
                 (change_log_key 5, encode_batch [([99], Some [])])]"

lemma sample_batches: "batch_ok [([97], Some [1]), ([98], None)]" "batch_ok [([99], Some [])]"
  by (simp_all add: batch_ok_def entry_ok_def MAX_KEY_SIZE_def)

lemma sample_log_rows: "log_rows sample_log = sample_log"
  by (simp add: sample_log_def log_rows_prefix)

lemma sample_log_records:
  "log_records sample_log
     = number_records 3 [([97], Some [1]), ([98], None)] @ number_records 5 [([99], Some [])]"
  by (simp add: log_records_def sample_log_rows) (simp add: sample_log_def sample_batches)

lemma sample_log_ok: "log_ok sample_log" "change_log_start sample_log = Inr cursor_start"
  "length sample_log < usize_max"
proof -
  show "log_ok sample_log"
    using sample_batches by (simp add: log_ok_def sample_log_def log_rows_prefix log_row_okI)
  show "change_log_start sample_log = Inr cursor_start"
    by (simp add: change_log_start_def sample_log_def not_sym[OF internal_disjoint(5)])
  show "length sample_log < usize_max" by (simp add: sample_log_def usize_max_def)
qed

theorem read_changes_exact_witness:
  "read_changes sample_log (cursor_new 3 0) 7
     = Inr (take 7 (filter (keep (cursor_new 3 0)) (log_records sample_log)))"
  using read_changes_exact[of sample_log cursor_start "cursor_new 3 0" 7] sample_log_ok
  by (simp add: cursor_less_def cursor_new_def cursor_start_def usize_max_def)

text \<open>
  a subscriber that pages through the log loses nothing.  Resuming from the
  cursor of the last record of a page returns exactly the changes that follow
  that page.
\<close>

lemma read_changes_resume:
  assumes "log_ok r" "change_log_start r = Inr st" "\<not> cursor_less c st"
    and "limit \<le> usize_max" "length r < usize_max" "m \<le> usize_max"
    and page: "read_changes r c limit = Inr rs" "rs \<noteq> []"
  shows "read_changes r (record_cursor (last rs)) m
    = Inr (take m (drop (length rs) (filter (keep c) (log_records r))))"
proof -
  let ?L = "log_records r" and ?K = "filter (keep c) (log_records r)"
  let ?n = "length rs - 1"
  have rs: "rs = take limit ?K" using read_changes_take[OF assms(1-5)] page(1) by simp
  have len: "0 < length rs" "length rs \<le> limit" "length rs \<le> length ?K"
    using page(2) by (simp, simp_all add: rs)
  then have n: "?n < length ?K" "?n < limit" by linarith+
  have last: "last rs = ?K ! ?n"
    using last_conv_nth[OF page(2)] nth_take[OF n(2), of ?K] rs by simp
  let ?c = "record_cursor (last rs)"
  have mem: "last rs \<in> set ?K" using n(1) last by (metis nth_mem)
  then have start: "?c \<noteq> cursor_start" and kept: "keep c (last rs)"
    using log_record_not_start[OF assms(1)] by auto
  have "cursor_le st ?c"
  proof (cases "c = cursor_start")
    case True
    have "\<not> cursor_less ?c cursor_start" by (simp add: cursor_less_def cursor_start_def)
    with True assms(3) show ?thesis
      using cursor_less_trans not_cursor_less unfolding cursor_le_def by metis
  next
    case False
    with kept assms(3) show ?thesis
      using cursor_less_trans not_cursor_less unfolding keep_def cursor_le_def by metis
  qed
  then have "read_changes r ?c m = Inr (take m (filter (keep ?c) ?L))"
    using read_changes_take[OF assms(1,2) _ assms(6,5)] not_cursor_less by blast
  moreover have "filter (keep ?c) ?L = filter (\<lambda>x. cursor_less ?c (record_cursor x)) ?K"
    using start kept by (auto simp: keep_def filter_filter intro!: filter_cong dest: cursor_less_trans)
  moreover have "sorted_wrt cursor_less (map record_cursor ?K)"
    using log_records_ascending[OF assms(1)] sorted_wrt_filter by (simp add: sorted_wrt_map)
  from filter_after_take[OF this n(1)]
  have "filter (\<lambda>x. cursor_less ?c (record_cursor x)) ?K = drop (length rs) ?K"
    using last len(1) by simp
  ultimately show ?thesis by simp
qed

theorem read_changes_resume_witness:
  "\<exists>rs. read_changes sample_log cursor_start 1 = Inr rs \<and>
     read_changes sample_log (record_cursor (last rs)) 9
       = Inr (take 9 (drop (length rs) (filter (keep cursor_start) (log_records sample_log))))"
proof -
  let ?rs = "take 1 (filter (keep cursor_start) (log_records sample_log))"
  have c: "\<not> cursor_less cursor_start cursor_start" "1 \<le> usize_max" "9 \<le> usize_max"
    by (simp_all add: usize_max_def)
  have "read_changes sample_log cursor_start 1 = Inr ?rs"
    by (rule read_changes_take[OF sample_log_ok(1,2) c(1,2) sample_log_ok(3)])
  moreover have "?rs \<noteq> []"
    by (simp add: sample_log_records keep_def number_records_def)
  ultimately show ?thesis
    using read_changes_resume[OF sample_log_ok(1,2) c(1,2) sample_log_ok(3) c(3)] by blast
qed

end
