(* ===== verification/TreeView.thy ===== *)
theory TreeView
  imports Keyspace OrderedMap
begin

text \<open>
  What the page tree shows its callers: the rows of its published root, each key
  with its value and the revision that wrote it.  These are the specifications
  of the tree's reads; the overlay and the engine are stated over them, and the
  page tree is shown to implement them.
\<close>

type_synonym tree_rows = "(bytes \<times> u64) rows"

definition USIZE_MAX :: nat where "USIZE_MAX = 2 ^ 64 - 1"

text \<open>\<open>excluded_prefix.is_none_or(|prefix| !key.starts_with(prefix))\<close>.\<close>

definition wanted :: "bytes option \<Rightarrow> bytes \<Rightarrow> bool" where
  "wanted excluded key =
     (case excluded of None \<Rightarrow> True | Some p \<Rightarrow> \<not> starts_with key p)"

definition tv_get :: "tree_rows \<Rightarrow> bytes \<Rightarrow> bytes option" where
  "tv_get t key = map_option fst (rget t key)"

definition tv_revision :: "tree_rows \<Rightarrow> bytes \<Rightarrow> u64 option" where
  "tv_revision t key = map_option snd (rget t key)"

definition tv_get_many_revisions :: "tree_rows \<Rightarrow> bytes list \<Rightarrow> u64 option list" where
  "tv_get_many_revisions t keys = map (tv_revision t) keys"

definition tv_get_many_with_revision :: "tree_rows \<Rightarrow> bytes list \<Rightarrow> (bytes \<times> u64) option list" where
  "tv_get_many_with_revision t keys = map (rget t) keys"

definition tv_range :: "bytes option \<Rightarrow> bytes option \<Rightarrow> bytes option \<Rightarrow> 'v rows \<Rightarrow> 'v rows" where
  "tv_range start until excluded t = filter (\<lambda>(k, e). wanted excluded k) (rrange start until t)"

definition tv_scan ::
  "tree_rows \<Rightarrow> bytes option \<Rightarrow> bytes option \<Rightarrow> nat \<Rightarrow> bytes option \<Rightarrow> tree_rows" where
  "tv_scan t start until limit excluded = take limit (tv_range start until excluded t)"

definition tv_changed_since ::
  "tree_rows \<Rightarrow> bytes option \<Rightarrow> bytes option \<Rightarrow> u64 \<Rightarrow> bytes option \<Rightarrow> bool" where
  "tv_changed_since t start until revision excluded =
     list_ex (\<lambda>(k, v, r). revision < r) (tv_range start until excluded t)"

definition tv_last_key_in :: "'v rows \<Rightarrow> bytes \<Rightarrow> bytes option \<Rightarrow> bytes option" where
  "tv_last_key_in t start until =
     (case rrange (Some start) until t of [] \<Rightarrow> None | r \<Rightarrow> Some (fst (last r)))"

definition tv_count :: "tree_rows \<Rightarrow> bytes option \<Rightarrow> nat" where
  "tv_count t excluded = length (filter (\<lambda>(k, e). wanted excluded k) t)"

text \<open>
  The mutations of a batch, and what preparing and publishing a batch of them
  does to the rows.
\<close>

datatype mutation = MutPut bytes u64 | MutDelete

fun tv_mutate :: "bytes \<times> mutation \<Rightarrow> tree_rows \<Rightarrow> tree_rows" where
  "tv_mutate (key, MutPut v revision) t = rput key (v, revision) t"
| "tv_mutate (key, MutDelete) t = rdel key t"

definition tv_apply_batch :: "(bytes \<times> mutation) list \<Rightarrow> tree_rows \<Rightarrow> tree_rows" where
  "tv_apply_batch ms t = fold tv_mutate ms t"

lemma sorted_tv_mutate [simp]: "sorted_rows t \<Longrightarrow> sorted_rows (tv_mutate m t)"
  by (cases "(m, t)" rule: tv_mutate.cases) auto

lemma sorted_tv_apply_batch [simp]: "sorted_rows t \<Longrightarrow> sorted_rows (tv_apply_batch ms t)"
  unfolding tv_apply_batch_def by (induction ms arbitrary: t) auto

section \<open>Ranges\<close>

lemma tv_range_filter:
  "tv_range a b x t = filter (\<lambda>(k, e). in_range a b k \<and> wanted x k) t"
  by (auto simp: tv_range_def rrange_def intro!: filter_cong)

lemma sorted_tv_range [simp]: "sorted_rows t \<Longrightarrow> sorted_rows (tv_range a b x t)"
  by (simp add: tv_range_def)

lemma rget_tv_range:
  "sorted_rows t \<Longrightarrow>
     rget (tv_range a b x t) k = (if in_range a b k \<and> wanted x k then rget t k else None)"
  by (simp add: tv_range_filter rget_filter)

lemma tv_last_key_in_Some:
  assumes "tv_last_key_in t start until = Some k"
  shows "k \<in> fst ` set t" "in_range (Some start) until k"
proof -
  obtain r where "r \<noteq> []" "r = rrange (Some start) until t" "k = fst (last r)"
    using assms by (auto simp: tv_last_key_in_def split: list.splits)
  moreover from this(1) have "last r \<in> set r" by simp
  ultimately show "k \<in> fst ` set t" "in_range (Some start) until k"
    by (auto simp: rrange_def)
qed

lemma tv_last_key_in_None:
  "tv_last_key_in t start until = None \<longleftrightarrow> (\<forall>k \<in> fst ` set t. \<not> in_range (Some start) until k)"
proof -
  have "tv_last_key_in t start until = None \<longleftrightarrow> rrange (Some start) until t = []"
    by (simp add: tv_last_key_in_def split: list.splits)
  then show ?thesis by (auto simp: rrange_def filter_empty_conv)
qed

text \<open>The last key of a range is the greatest one in it.\<close>

lemma tv_last_key_in_greatest:
  assumes "sorted_rows t" "tv_last_key_in t start until = Some k"
    "x \<in> fst ` set t" "in_range (Some start) until x"
  shows "x \<le> k"
proof -
  let ?r = "rrange (Some start) until t"
  have ne: "?r \<noteq> []" and k: "k = last (map fst ?r)"
    using assms(2) by (auto simp: tv_last_key_in_def last_map split: list.splits)
  have "x \<in> set (map fst ?r)"
    using assms(3,4) by (auto simp: rrange_def image_iff)
  moreover have "sorted_wrt (<) (map fst ?r)"
    using sorted_rrange[OF assms(1)] by (simp add: sorted_rows_def)
  ultimately show ?thesis
    using sorted_wrt_last[of "(<)" "map fst ?r" x] k by auto
qed

lemma tv_last_key_in_eqI:
  assumes "sorted_rows t" "k \<in> fst ` set t" "in_range (Some start) until k"
    "\<And>x. x \<in> fst ` set t \<Longrightarrow> in_range (Some start) until x \<Longrightarrow> x \<le> k"
  shows "tv_last_key_in t start until = Some k"
proof (cases "tv_last_key_in t start until")
  case None
  with assms(2,3) show ?thesis by (auto simp: tv_last_key_in_None)
next
  case (Some k')
  with assms tv_last_key_in_Some[OF Some] tv_last_key_in_greatest[OF assms(1) Some]
  show ?thesis by (metis antisym)
qed

end
