(* ===== verification/Overlay.thy ===== *)
theory Overlay
  imports TreeView
begin

text \<open>
  The write-back buffer (\<open>crates/vyrn-core/src/overlay.rs\<close>): committed
  mutations the tree has not absorbed, with the reads that merge it over the
  tree's rows.  The specification is the single ordered map the two stand for,
  \<open>overlay_view\<close>; every merged read is shown to answer from it, the absorbing
  flush to keep it, and the eviction of absorbed entries on a read handle to
  keep it as well.
\<close>

section \<open>State\<close>

record buffered_entry =
  be_value :: "bytes option"
  be_revision :: u64

record published_mutation =
  pm_key :: bytes
  pm_value :: "bytes option"
  pm_revision :: u64

record write_back_publish =
  wp_mutations :: "published_mutation list"
  wp_absorbed_through :: "u64 option"

definition publish_is_empty :: "write_back_publish \<Rightarrow> bool" where
  "publish_is_empty p \<longleftrightarrow> wp_mutations p = [] \<and> wp_absorbed_through p = None"

record overlay =
  ov_entries :: "buffered_entry rows"
  ov_bytes :: nat
  ov_flush_bytes :: nat

definition ENTRY_OVERHEAD :: nat where "ENTRY_OVERHEAD = 64"

section \<open>Operations\<close>

definition overlay_new :: "nat \<Rightarrow> overlay" where
  "overlay_new flush_bytes = \<lparr> ov_entries = [], ov_bytes = 0, ov_flush_bytes = flush_bytes \<rparr>"

definition value_len :: "bytes option \<Rightarrow> nat" where
  "value_len v = (case v of None \<Rightarrow> 0 | Some bs \<Rightarrow> length bs)"

definition overlay_record :: "bytes \<Rightarrow> bytes option \<Rightarrow> u64 \<Rightarrow> overlay \<Rightarrow> overlay" where
  "overlay_record key v revision o1 =
     o1\<lparr> ov_entries := rput key \<lparr> be_value = v, be_revision = revision \<rparr> (ov_entries o1),
        ov_bytes :=
          (case rget (ov_entries o1) key of
             Some previous \<Rightarrow> ov_bytes o1 - value_len (be_value previous) + value_len v
           | None \<Rightarrow> ov_bytes o1 + (ENTRY_OVERHEAD + length key + value_len v)) \<rparr>"

definition overlay_get :: "overlay \<Rightarrow> bytes \<Rightarrow> buffered_entry option" where
  "overlay_get o1 key = rget (ov_entries o1) key"

definition overlay_is_empty :: "overlay \<Rightarrow> bool" where
  "overlay_is_empty o1 \<longleftrightarrow> ov_entries o1 = []"

definition should_flush :: "overlay \<Rightarrow> bool" where
  "should_flush o1 \<longleftrightarrow> ov_flush_bytes o1 \<le> ov_bytes o1"

definition overlay_clear :: "overlay \<Rightarrow> overlay" where
  "overlay_clear o1 = o1\<lparr> ov_entries := [], ov_bytes := 0 \<rparr>"

definition entry_footprint :: "bytes \<times> buffered_entry \<Rightarrow> nat" where
  "entry_footprint = (\<lambda>(key, e). ENTRY_OVERHEAD + length key + value_len (be_value e))"

definition evict_through :: "u64 \<Rightarrow> overlay \<Rightarrow> overlay" where
  "evict_through lsn o1 =
     (let freed = sum_list (map entry_footprint
                    (filter (\<lambda>(k, e). be_revision e \<le> lsn) (ov_entries o1)))
      in o1\<lparr> ov_entries := filter (\<lambda>(k, e). \<not> be_revision e \<le> lsn) (ov_entries o1),
            ov_bytes := ov_bytes o1 - freed \<rparr>)"

section \<open>Merged reads\<close>

text \<open>\<open>buffer.and_then(|buffer| buffer.get(key))\<close>.\<close>

definition buffered :: "overlay option \<Rightarrow> bytes \<Rightarrow> buffered_entry option" where
  "buffered buffer key = (case buffer of None \<Rightarrow> None | Some o1 \<Rightarrow> overlay_get o1 key)"

definition merged_get :: "tree_rows \<Rightarrow> overlay option \<Rightarrow> bytes \<Rightarrow> bytes option" where
  "merged_get tree buffer key =
     (case buffered buffer key of
        Some entry \<Rightarrow> be_value entry
      | None \<Rightarrow> tv_get tree key)"

text \<open>\<open>entry.value.is_some().then_some(entry.revision)\<close>: a deletion has no live revision.\<close>

definition live_revision :: "buffered_entry \<Rightarrow> u64 option" where
  "live_revision e = (if be_value e = None then None else Some (be_revision e))"

definition merged_revision :: "tree_rows \<Rightarrow> overlay option \<Rightarrow> bytes \<Rightarrow> u64 option" where
  "merged_revision tree buffer key =
     (case buffered buffer key of
        Some entry \<Rightarrow> live_revision entry
      | None \<Rightarrow> tv_revision tree key)"

text \<open>
  The batched reads: buffered keys are answered at once, the others are
  collected with their positions, asked of the tree together, and put back.
\<close>

fun split_misses ::
  "(buffered_entry \<Rightarrow> 'a option) \<Rightarrow> overlay \<Rightarrow> nat \<Rightarrow> bytes list
     \<Rightarrow> 'a option list \<times> bytes list \<times> nat list" where
  "split_misses f o1 index [] = ([], [], [])"
| "split_misses f o1 index (key # keys) =
     (let (results, misses, slots) = split_misses f o1 (Suc index) keys
      in case overlay_get o1 key of
           Some entry \<Rightarrow> (f entry # results, misses, slots)
         | None \<Rightarrow> (None # results, key # misses, index # slots))"

definition fill_slots :: "nat list \<Rightarrow> 'a list \<Rightarrow> 'a list \<Rightarrow> 'a list" where
  "fill_slots slots found results = fold (\<lambda>(slot, x) r. r[slot := x]) (zip slots found) results"

definition merged_get_many_revisions ::
  "tree_rows \<Rightarrow> overlay option \<Rightarrow> bytes list \<Rightarrow> u64 option list" where
  "merged_get_many_revisions tree buffer keys =
     (case buffer of
        None \<Rightarrow> tv_get_many_revisions tree keys
      | Some o1 \<Rightarrow>
          if overlay_is_empty o1 then tv_get_many_revisions tree keys
          else let (results, misses, slots) = split_misses live_revision o1 0 keys
               in fill_slots slots (tv_get_many_revisions tree misses) results)"

definition merged_get_many_with_revision ::
  "tree_rows \<Rightarrow> overlay option \<Rightarrow> bytes list \<Rightarrow> (bytes \<times> u64) option list" where
  "merged_get_many_with_revision tree buffer keys =
     (case buffer of
        None \<Rightarrow> tv_get_many_with_revision tree keys
      | Some o1 \<Rightarrow>
          if overlay_is_empty o1 then tv_get_many_with_revision tree keys
          else let (results, misses, slots) =
                     split_misses (\<lambda>e. map_option (\<lambda>v. (v, be_revision e)) (be_value e)) o1 0 keys
               in fill_slots slots (tv_get_many_with_revision tree misses) results)"

text \<open>
  The ordered merge: the buffer's rows and the tree's rows in key order, the
  buffer winning ties, its deletions masking the tree, until \<open>limit\<close> rows are out.
\<close>

fun merge_rows :: "nat \<Rightarrow> buffered_entry rows \<Rightarrow> tree_rows \<Rightarrow> tree_rows" where
  "merge_rows 0 bs ts = []"
| "merge_rows (Suc n) [] [] = []"
| "merge_rows (Suc n) [] (t # ts) = t # merge_rows n [] ts"
| "merge_rows (Suc n) ((key, e) # bs) [] =
     (case be_value e of
        Some v \<Rightarrow> (key, v, be_revision e) # merge_rows n bs []
      | None \<Rightarrow> merge_rows (Suc n) bs [])"
| "merge_rows (Suc n) ((key, e) # bs) (t # ts) =
     (if key \<le> fst t
      then let rest = (if fst t = key then ts else t # ts)
           in case be_value e of
                Some v \<Rightarrow> (key, v, be_revision e) # merge_rows n bs rest
              | None \<Rightarrow> merge_rows (Suc n) bs rest
      else t # merge_rows n ((key, e) # bs) ts)"

definition count_deletes :: "buffered_entry rows \<Rightarrow> nat" where
  "count_deletes bs = length (filter (\<lambda>(k, e). be_value e = None) bs)"

definition saturating_add :: "nat \<Rightarrow> nat \<Rightarrow> nat" where
  "saturating_add a b = min USIZE_MAX (a + b)"

text \<open>
  The merged range scan.  Its callers check that the bounds are in order, as
  \<open>BTreeMap::range\<close> requires.
\<close>

definition merged_scan ::
  "tree_rows \<Rightarrow> overlay option \<Rightarrow> bytes option \<Rightarrow> bytes option \<Rightarrow> nat \<Rightarrow> bytes option \<Rightarrow> tree_rows" where
  "merged_scan tree buffer start until limit excluded =
     (case buffer of
        None \<Rightarrow> tv_scan tree start until limit excluded
      | Some o1 \<Rightarrow>
          if overlay_is_empty o1 then tv_scan tree start until limit excluded
          else if limit = 0 then []
          else let in_bounds = tv_range start until excluded (ov_entries o1);
                   deletes = count_deletes in_bounds;
                   from_tree = tv_scan tree start until (saturating_add limit deletes) excluded
               in merge_rows limit in_bounds from_tree)"

text \<open>
  The copy-free variants hand out handles on the storage that holds the bytes: a
  tree page or the buffer's allocation (\<open>SharedBytes\<close>).
\<close>

datatype shared_bytes = SharedTree bytes | SharedBuffered bytes

fun as_slice :: "shared_bytes \<Rightarrow> bytes" where
  "as_slice (SharedTree v) = v"
| "as_slice (SharedBuffered v) = v"

type_synonym shared_row = "shared_bytes \<times> shared_bytes \<times> u64"

definition merged_get_shared :: "tree_rows \<Rightarrow> overlay option \<Rightarrow> bytes \<Rightarrow> shared_bytes option" where
  "merged_get_shared tree buffer key =
     (case buffered buffer key of
        Some entry \<Rightarrow> map_option SharedBuffered (be_value entry)
      | None \<Rightarrow> map_option SharedTree (tv_get tree key))"

definition tree_shared_row :: "bytes \<times> bytes \<times> u64 \<Rightarrow> shared_row" where
  "tree_shared_row = (\<lambda>(k, v, r). (SharedTree k, SharedTree v, r))"

fun merge_rows_shared :: "nat \<Rightarrow> buffered_entry rows \<Rightarrow> tree_rows \<Rightarrow> shared_row list" where
  "merge_rows_shared 0 bs ts = []"
| "merge_rows_shared (Suc n) [] [] = []"
| "merge_rows_shared (Suc n) [] (t # ts) = tree_shared_row t # merge_rows_shared n [] ts"
| "merge_rows_shared (Suc n) ((key, e) # bs) [] =
     (case be_value e of
        Some v \<Rightarrow> (SharedTree key, SharedBuffered v, be_revision e) # merge_rows_shared n bs []
      | None \<Rightarrow> merge_rows_shared (Suc n) bs [])"
| "merge_rows_shared (Suc n) ((key, e) # bs) (t # ts) =
     (if key \<le> fst t
      then let rest = (if fst t = key then ts else t # ts)
           in case be_value e of
                Some v \<Rightarrow> (SharedTree key, SharedBuffered v, be_revision e) # merge_rows_shared n bs rest
              | None \<Rightarrow> merge_rows_shared (Suc n) bs rest
      else tree_shared_row t # merge_rows_shared n ((key, e) # bs) ts)"

definition merged_scan_shared ::
  "tree_rows \<Rightarrow> overlay option \<Rightarrow> bytes option \<Rightarrow> bytes option \<Rightarrow> nat \<Rightarrow> bytes option
     \<Rightarrow> shared_row list" where
  "merged_scan_shared tree buffer start until limit excluded =
     (case buffer of
        None \<Rightarrow> map tree_shared_row (tv_scan tree start until limit excluded)
      | Some o1 \<Rightarrow>
          if overlay_is_empty o1 then map tree_shared_row (tv_scan tree start until limit excluded)
          else if limit = 0 then []
          else let in_bounds = tv_range start until excluded (ov_entries o1);
                   deletes = count_deletes in_bounds;
                   from_tree = tv_scan tree start until (saturating_add limit deletes) excluded
               in merge_rows_shared limit in_bounds from_tree)"

definition merged_changed_since ::
  "tree_rows \<Rightarrow> overlay option \<Rightarrow> bytes option \<Rightarrow> bytes option \<Rightarrow> u64 \<Rightarrow> bytes option \<Rightarrow> bool" where
  "merged_changed_since tree buffer start until revision excluded =
     (let changed = (case buffer of
                       None \<Rightarrow> False
                     | Some o1 \<Rightarrow>
                         list_ex (\<lambda>(k, e). wanted excluded k \<and> revision < be_revision e)
                           (rrange start until (ov_entries o1)))
      in if changed then True else tv_changed_since tree start until revision excluded)"

text \<open>The search for the last live key steps its bound down past each masked tree key.\<close>

function last_unmasked :: "tree_rows \<Rightarrow> overlay \<Rightarrow> bytes \<Rightarrow> bytes option \<Rightarrow> bytes option" where
  "last_unmasked tree o1 start bound =
     (case tv_last_key_in tree start bound of
        None \<Rightarrow> None
      | Some key \<Rightarrow>
         (case overlay_get o1 key of
            Some entry \<Rightarrow>
              if be_value entry = None then last_unmasked tree o1 start (Some key) else Some key
          | None \<Rightarrow> Some key))"
  by pat_completeness auto

lemma filter_length_less:
  assumes "\<And>x. P x \<Longrightarrow> Q x" "y \<in> set xs" "Q y" "\<not> P y"
  shows "length (filter P xs) < length (filter Q xs)"
proof -
  have "filter P xs = filter P (filter Q xs)"
    using assms(1) by (auto intro: filter_cong)
  moreover have "length (filter P (filter Q xs)) < length (filter Q xs)"
    using assms(2-) by (intro length_filter_less[of y]) auto
  ultimately show ?thesis by simp
qed

termination last_unmasked
proof (relation "measure (\<lambda>(tree, o1, start, bound). length (rrange (Some start) bound tree))")
  fix tree :: tree_rows and o1 :: overlay and start key :: bytes and bound :: "bytes option"
    and entry :: buffered_entry
  assume last: "tv_last_key_in tree start bound = Some key"
  obtain e where e: "(key, e) \<in> set tree" "in_range (Some start) bound key"
    using tv_last_key_in_Some[OF last] by auto
  have "length (rrange (Some start) (Some key) tree) < length (rrange (Some start) bound tree)"
    unfolding rrange_def
  proof (rule filter_length_less[OF _ e(1)])
    fix x
    assume "case x of (k, v) \<Rightarrow> in_range (Some start) (Some key) k"
    with e(2) show "case x of (k, v) \<Rightarrow> in_range (Some start) bound k"
      by (auto simp: in_range_def split: option.splits)
  qed (use e(2) in \<open>auto simp: in_range_def\<close>)
  then show "((tree, o1, start, Some key), tree, o1, start, bound)
      \<in> measure (\<lambda>(tree, o1, start, bound). length (rrange (Some start) bound tree))"
    by simp
qed simp

declare last_unmasked.simps [simp del]

definition live_rows :: "buffered_entry rows \<Rightarrow> buffered_entry rows" where
  "live_rows bs = filter (\<lambda>(k, e). be_value e \<noteq> None) bs"

definition merged_last_key_in ::
  "tree_rows \<Rightarrow> overlay option \<Rightarrow> bytes \<Rightarrow> bytes option \<Rightarrow> bytes option" where
  "merged_last_key_in tree buffer start until =
     (case buffer of
        None \<Rightarrow> tv_last_key_in tree start until
      | Some o1 \<Rightarrow>
         (case (tv_last_key_in (live_rows (ov_entries o1)) start until,
                last_unmasked tree o1 start until) of
            (Some a, Some b) \<Rightarrow> Some (max a b)
          | (Some a, None) \<Rightarrow> Some a
          | (None, b) \<Rightarrow> b))"


section \<open>The map the buffer and the tree stand for\<close>

definition apply_buffered :: "bytes \<times> buffered_entry \<Rightarrow> tree_rows \<Rightarrow> tree_rows" where
  "apply_buffered = (\<lambda>(key, e) t.
     case be_value e of Some v \<Rightarrow> rput key (v, be_revision e) t | None \<Rightarrow> rdel key t)"

definition overlay_view :: "buffered_entry rows \<Rightarrow> tree_rows \<Rightarrow> tree_rows" where
  "overlay_view bs t = fold apply_buffered bs t"

definition buffer_view :: "overlay option \<Rightarrow> tree_rows \<Rightarrow> tree_rows" where
  "buffer_view buffer t = (case buffer of None \<Rightarrow> t | Some o1 \<Rightarrow> overlay_view (ov_entries o1) t)"

definition entry_row :: "buffered_entry \<Rightarrow> (bytes \<times> u64) option" where
  "entry_row e = map_option (\<lambda>v. (v, be_revision e)) (be_value e)"

lemma overlay_view_simps [simp]:
  "overlay_view [] t = t"
  "overlay_view (x # bs) t = overlay_view bs (apply_buffered x t)"
  by (simp_all add: overlay_view_def)

lemma sorted_apply_buffered [simp]: "sorted_rows t \<Longrightarrow> sorted_rows (apply_buffered x t)"
  by (auto simp: apply_buffered_def split: prod.split option.split)

lemma sorted_overlay_view [simp]: "sorted_rows t \<Longrightarrow> sorted_rows (overlay_view bs t)"
  by (induction bs arbitrary: t) auto

lemma rget_apply_buffered:
  "sorted_rows t \<Longrightarrow> rget (apply_buffered (k, e) t) x = (if x = k then entry_row e else rget t x)"
  by (auto simp: apply_buffered_def entry_row_def split: option.split)

lemma rget_overlay_view:
  "sorted_rows t \<Longrightarrow> sorted_rows bs \<Longrightarrow>
     rget (overlay_view bs t) k =
       (case rget bs k of Some e \<Rightarrow> entry_row e | None \<Rightarrow> rget t k)"
proof (induction bs arbitrary: t)
  case (Cons x bs)
  obtain a e where x: "x = (a, e)" by (cases x)
  have "rget bs a = None" using Cons.prems(2) x by (auto simp: rget_None)
  with Cons show ?case
    by (auto simp: x rget_apply_buffered split: option.split)
qed simp

definition overlay_ok :: "overlay \<Rightarrow> bool" where
  "overlay_ok o1 \<longleftrightarrow>
     sorted_rows (ov_entries o1) \<and> ov_bytes o1 = sum_list (map entry_footprint (ov_entries o1))"

definition buffer_ok :: "overlay option \<Rightarrow> bool" where
  "buffer_ok buffer = (case buffer of None \<Rightarrow> True | Some o1 \<Rightarrow> overlay_ok o1)"

lemma overlay_ok_sorted: "overlay_ok o1 \<Longrightarrow> sorted_rows (ov_entries o1)"
  by (simp add: overlay_ok_def)

lemma rget_buffer_view:
  assumes "sorted_rows t" "buffer_ok buffer"
  shows "rget (buffer_view buffer t) k =
    (case buffered buffer k of Some e \<Rightarrow> entry_row e | None \<Rightarrow> rget t k)"
  using assms
  by (cases buffer)
    (auto simp: buffer_view_def buffered_def buffer_ok_def overlay_get_def rget_overlay_view
      overlay_ok_sorted)

lemma sorted_buffer_view [simp]: "sorted_rows t \<Longrightarrow> sorted_rows (buffer_view buffer t)"
  by (cases buffer) (auto simp: buffer_view_def)

subsection \<open>The operations keep the accounting exact\<close>

lemma overlay_ok_new [simp]: "overlay_ok (overlay_new n)"
  by (simp add: overlay_ok_def overlay_new_def)

lemma overlay_ok_clear [simp]: "overlay_ok (overlay_clear o1)"
  by (simp add: overlay_ok_def overlay_clear_def)

lemma footprint_rput_new:
  "rget r k = None \<Longrightarrow>
     sum_list (map entry_footprint (rput k e r)) =
       entry_footprint (k, e) + sum_list (map entry_footprint r)"
  by (induction k e r rule: rput.induct) (auto split: if_splits)

lemma footprint_rput_old:
  "sorted_rows r \<Longrightarrow> rget r k = Some p \<Longrightarrow>
     sum_list (map entry_footprint (rput k e r)) + value_len (be_value p) =
       sum_list (map entry_footprint r) + value_len (be_value e)"
proof (induction k e r rule: rput.induct)
  case (2 k e a w r)
  then have "rget r k = None" if "k < a" using that by (auto simp: rget_None)
  with 2 show ?case by (auto simp: entry_footprint_def split: if_splits)
qed simp

lemma footprint_le:
  "rget r k = Some p \<Longrightarrow> value_len (be_value p) \<le> sum_list (map entry_footprint r)"
  by (induction r) (auto simp: entry_footprint_def split: if_splits)

lemma overlay_ok_record: "overlay_ok o1 \<Longrightarrow> overlay_ok (overlay_record k v r o1)"
  using footprint_rput_new[of "ov_entries o1" k "\<lparr> be_value = v, be_revision = r \<rparr>"]
    footprint_rput_old[of "ov_entries o1" k _ "\<lparr> be_value = v, be_revision = r \<rparr>"]
    footprint_le[of "ov_entries o1" k]
  by (cases "rget (ov_entries o1) k")
    (auto simp: overlay_ok_def overlay_record_def entry_footprint_def)

lemma sum_list_filter_split:
  "sum_list (map f xs) = sum_list (map f (filter P xs)) + sum_list (map f (filter (\<lambda>x. \<not> P x) xs))"
  for f :: "'a \<Rightarrow> nat"
  by (induction xs) auto

lemma overlay_ok_evict: "overlay_ok o1 \<Longrightarrow> overlay_ok (evict_through lsn o1)"
  using sum_list_filter_split[of entry_footprint "ov_entries o1" "\<lambda>(k, e). be_revision e \<le> lsn"]
  by (simp add: overlay_ok_def evict_through_def split_def)

subsection \<open>Point reads\<close>

lemma merged_get_view:
  "sorted_rows t \<Longrightarrow> buffer_ok b \<Longrightarrow> merged_get t b k = tv_get (buffer_view b t) k"
  by (auto simp: merged_get_def tv_get_def rget_buffer_view entry_row_def option.map_comp comp_def
      option.map_ident split: option.split)

lemma merged_revision_view:
  "sorted_rows t \<Longrightarrow> buffer_ok b \<Longrightarrow> merged_revision t b k = tv_revision (buffer_view b t) k"
  by (auto simp: merged_revision_def live_revision_def tv_revision_def rget_buffer_view entry_row_def
      split: option.split)

subsection \<open>Batched reads\<close>

lemma fill_slots_simps [simp]:
  "fill_slots [] found results = results"
  "fill_slots (i # slots) (x # found) results = fill_slots slots found (results[i := x])"
  by (simp_all add: fill_slots_def)

lemma fill_split_misses:
  "split_misses f o1 (length pre) keys = (results, misses, slots) \<Longrightarrow>
     fill_slots slots (map g misses) (pre @ results) =
       pre @ map (\<lambda>k. case overlay_get o1 k of Some e \<Rightarrow> f e | None \<Rightarrow> g k) keys"
proof (induction keys arbitrary: pre results misses slots)
  case (Cons k keys)
  obtain R M S where rest: "split_misses f o1 (Suc (length pre)) keys = (R, M, S)"
    by (rule prod_cases3)
  then have IH: "fill_slots S (map g M) ((pre @ [y]) @ R) =
      (pre @ [y]) @ map (\<lambda>k. case overlay_get o1 k of Some e \<Rightarrow> f e | None \<Rightarrow> g k) keys" for y
    using Cons.IH[of "pre @ [y]" R M S] by simp
  show ?case
    using Cons.prems rest IH[of "g k"] IH
    by (auto split: option.splits)
qed simp

lemma merged_get_many_revisions_view:
  assumes "sorted_rows t" "buffer_ok b"
  shows "merged_get_many_revisions t b keys = map (tv_revision (buffer_view b t)) keys"
proof (cases "b = None \<or> (\<exists>o1. b = Some o1 \<and> overlay_is_empty o1)")
  case True
  then show ?thesis
    by (auto simp: merged_get_many_revisions_def tv_get_many_revisions_def buffer_view_def
        overlay_is_empty_def)
next
  case False
  then obtain o1 where o1: "b = Some o1" "\<not> overlay_is_empty o1" by auto
  obtain R M S where split: "split_misses live_revision o1 0 keys = (R, M, S)"
    by (rule prod_cases3)
  have "merged_get_many_revisions t b keys = map (merged_revision t b) keys"
    using fill_split_misses[of live_revision o1 "[]" keys R M S "tv_revision t"] split o1
    by (simp add: merged_get_many_revisions_def tv_get_many_revisions_def merged_revision_def
        buffered_def)
  with assms show ?thesis by (simp add: merged_revision_view)
qed

lemma merged_get_many_with_revision_view:
  assumes "sorted_rows t" "buffer_ok b"
  shows "merged_get_many_with_revision t b keys = map (rget (buffer_view b t)) keys"
proof (cases "b = None \<or> (\<exists>o1. b = Some o1 \<and> overlay_is_empty o1)")
  case True
  then show ?thesis
    by (auto simp: merged_get_many_with_revision_def tv_get_many_with_revision_def buffer_view_def
        overlay_is_empty_def)
next
  case False
  then obtain o1 where o1: "b = Some o1" "\<not> overlay_is_empty o1" by auto
  obtain R M S where split: "split_misses entry_row o1 0 keys = (R, M, S)"
    by (rule prod_cases3)
  with fill_split_misses[of entry_row o1 "[]" keys R M S "rget t"] o1 assms show ?thesis
    by (simp add: merged_get_many_with_revision_def tv_get_many_with_revision_def
        entry_row_def[abs_def] rget_buffer_view buffered_def)
qed

subsection \<open>The ordered merge\<close>

lemma overlay_view_below:
  "\<forall>y \<in> set bs. k < fst y \<Longrightarrow> overlay_view bs ((k, v) # t) = (k, v) # overlay_view bs t"
proof (induction bs arbitrary: t)
  case (Cons x bs)
  then have "apply_buffered x ((k, v) # t) = (k, v) # apply_buffered x t"
    by (cases x) (auto simp: apply_buffered_def split: option.split)
  with Cons show ?case by simp
qed simp

lemma rdel_below: "k < a \<Longrightarrow> \<forall>y \<in> set r. a < fst y \<Longrightarrow> rdel k r = r"
  by (rule rdel_absent) (auto simp: rget_None)

lemma merge_rows_view:
  "sorted_rows bs \<Longrightarrow> sorted_rows ts \<Longrightarrow> merge_rows n bs ts = take n (overlay_view bs ts)"
proof (induction n bs ts rule: merge_rows.induct)
  case (4 n k e bs)
  then show ?case
    by (auto simp: apply_buffered_def overlay_view_below split: option.split)
next
  case (5 n k e bs t ts)
  obtain a v where t: "t = (a, v)" by (cases t)
  consider "k < a" | "k = a" | "a < k" by force
  then show ?case
  proof cases
    case 1
    with 5 t show ?thesis
      by (auto simp: apply_buffered_def overlay_view_below rdel_below split: option.split)
  next
    case 2
    with 5 t show ?thesis
      by (auto simp: apply_buffered_def overlay_view_below split: option.split)
  next
    case 3
    then have "\<forall>y \<in> set ((k, e) # bs). a < fst y" using "5.prems"(1) by auto
    then have "overlay_view ((k, e) # bs) ((a, v) # ts) = (a, v) # overlay_view ((k, e) # bs) ts"
      by (rule overlay_view_below)
    with 3 5 t show ?thesis by (simp add: not_le[symmetric])
  qed
qed auto

text \<open>Each deletion masks at most one row of the tree, so the bound passed to the tree is enough.\<close>

lemma merge_rows_append:
  "n + count_deletes bs \<le> length ts \<Longrightarrow> merge_rows n bs (ts @ us) = merge_rows n bs ts"
  by (induction n bs ts rule: merge_rows.induct) (auto simp: count_deletes_def split: option.split)

lemma merge_rows_take:
  assumes "n + count_deletes bs \<le> m"
  shows "merge_rows n bs (take m ts) = merge_rows n bs ts"
  using merge_rows_append[of n bs "take m ts" "drop m ts"] assms
  by (cases "m \<le> length ts") simp_all

lemma tv_range_overlay_view:
  assumes "sorted_rows t" "sorted_rows bs"
  shows "tv_range a b x (overlay_view bs t) = overlay_view (tv_range a b x bs) (tv_range a b x t)"
  using assms by (intro rows_eqI) (auto simp: rget_tv_range rget_overlay_view split: option.split)

lemma merged_scan_view:
  assumes "sorted_rows t" "buffer_ok buffer" "length t \<le> USIZE_MAX"
  shows "merged_scan t buffer a b n x = tv_scan (buffer_view buffer t) a b n x"
proof (cases "buffer = None \<or> (\<exists>o1. buffer = Some o1 \<and> overlay_is_empty o1)")
  case True
  then show ?thesis
    by (auto simp: merged_scan_def buffer_view_def overlay_is_empty_def)
next
  case False
  then obtain o1 where o1: "buffer = Some o1" "\<not> overlay_is_empty o1" by auto
  let ?bs = "tv_range a b x (ov_entries o1)" and ?ts = "tv_range a b x t"
  have sorted: "sorted_rows (ov_entries o1)" using assms(2) o1 by (simp add: buffer_ok_def overlay_ok_def)
  have "length ?ts \<le> USIZE_MAX"
    using assms(3) length_filter_le[of _ t] unfolding tv_range_filter by (rule order_trans[rotated])
  then have "merge_rows n ?bs (take (saturating_add n (count_deletes ?bs)) ?ts) = merge_rows n ?bs ?ts"
    by (cases "n + count_deletes ?bs \<le> USIZE_MAX") (simp_all add: saturating_add_def merge_rows_take)
  also have "\<dots> = tv_scan (buffer_view buffer t) a b n x"
    using assms(1) sorted o1
    by (simp add: merge_rows_view tv_scan_def buffer_view_def tv_range_overlay_view)
  finally show ?thesis
    using o1 by (cases "n = 0") (simp_all add: merged_scan_def tv_scan_def Let_def)
qed

subsection \<open>The copy-free reads answer the same bytes\<close>

definition shared_row_bytes :: "shared_row \<Rightarrow> bytes \<times> bytes \<times> u64" where
  "shared_row_bytes = (\<lambda>(k, v, r). (as_slice k, as_slice v, r))"

lemma shared_row_bytes_simp [simp]: "shared_row_bytes (k, v, r) = (as_slice k, as_slice v, r)"
  by (simp add: shared_row_bytes_def)

lemma shared_row_bytes_tree [simp]: "shared_row_bytes (tree_shared_row t) = t"
  by (simp add: shared_row_bytes_def tree_shared_row_def split: prod.splits)

lemma merged_get_shared_slice: "map_option as_slice (merged_get_shared t b k) = merged_get t b k"
  by (simp add: merged_get_shared_def merged_get_def option.map_comp comp_def option.map_ident
      split: option.split)

lemma merge_rows_shared_slice:
  "map shared_row_bytes (merge_rows_shared n bs ts) = merge_rows n bs ts"
  by (induction n bs ts rule: merge_rows.induct)
    (auto simp: Let_def split: option.split)

lemma merged_scan_shared_slice:
  "map shared_row_bytes (merged_scan_shared t b s u n x) = merged_scan t b s u n x"
  by (auto simp: merged_scan_shared_def merged_scan_def merge_rows_shared_slice comp_def
      Let_def split: option.split)

subsection \<open>The last live key\<close>

definition masked :: "overlay \<Rightarrow> bytes \<Rightarrow> bool" where
  "masked o1 k \<longleftrightarrow> (\<exists>e. overlay_get o1 k = Some e \<and> be_value e = None)"

lemma in_range_tighten: "in_range (Some a) b k \<Longrightarrow> in_range (Some a) b x \<and> x < k \<longleftrightarrow> in_range (Some a) (Some k) x"
  by (auto simp: in_range_def split: option.splits)

lemma last_unmasked_spec:
  "sorted_rows t \<Longrightarrow>
     last_unmasked t o1 start bound = tv_last_key_in (filter (\<lambda>(k, e). \<not> masked o1 k) t) start bound"
proof (induction t o1 start bound rule: last_unmasked.induct)
  case (1 t o1 start bound)
  let ?live = "filter (\<lambda>(k, e). \<not> masked o1 k) t"
  show ?case
  proof (cases "tv_last_key_in t start bound")
    case None
    then have "tv_last_key_in ?live start bound = None"
      by (auto simp: tv_last_key_in_None)
    with None show ?thesis by (simp add: last_unmasked.simps)
  next
    case (Some k)
    have k: "k \<in> fst ` set t" "in_range (Some start) bound k"
      using tv_last_key_in_Some[OF Some] by auto
    have greatest: "x \<le> k" if "x \<in> fst ` set t" "in_range (Some start) bound x" for x
      using tv_last_key_in_greatest[OF "1.prems" Some that] .
    show ?thesis
    proof (cases "masked o1 k")
      case True
      have "rrange (Some start) (Some k) ?live = rrange (Some start) bound ?live"
        unfolding rrange_def
      proof (rule filter_cong[OF refl])
        fix x
        assume x: "x \<in> set ?live"
        then have "fst x \<noteq> k" using True by auto
        then have "in_range (Some start) bound (fst x) \<Longrightarrow> fst x < k"
          using greatest[of "fst x"] x by force
        then show "(case x of (k', v) \<Rightarrow> in_range (Some start) (Some k) k') =
            (case x of (k', v) \<Rightarrow> in_range (Some start) bound k')"
          using in_range_tighten[OF k(2), of "fst x"] by (auto split: prod.splits)
      qed
      then have "tv_last_key_in ?live start (Some k) = tv_last_key_in ?live start bound"
        by (simp add: tv_last_key_in_def)
      moreover obtain e where "overlay_get o1 k = Some e" "be_value e = None"
        using True by (auto simp: masked_def)
      ultimately show ?thesis
        using 1 Some by (simp add: last_unmasked.simps[of t o1 start bound])
    next
      case False
      have "k \<in> fst ` set ?live" using k(1) False by auto
      then have "tv_last_key_in ?live start bound = Some k"
        using "1.prems" k(2) greatest by (intro tv_last_key_in_eqI) auto
      with False Some show ?thesis
        by (auto simp: last_unmasked.simps[of t o1 start bound] masked_def split: option.split)
    qed
  qed
qed

lemma rget_live_rows:
  "sorted_rows bs \<Longrightarrow>
     rget (live_rows bs) k = (case rget bs k of Some e \<Rightarrow> if be_value e = None then None else Some e | None \<Rightarrow> None)"
  by (auto simp: live_rows_def rget_filter_row split: option.split)

lemma sorted_live_rows [simp]: "sorted_rows bs \<Longrightarrow> sorted_rows (live_rows bs)"
  by (simp add: live_rows_def)

text \<open>The keys of the merged map: live in the buffer, or in the tree and not buffered.\<close>

lemma keys_overlay_view:
  assumes "sorted_rows t" "sorted_rows (ov_entries o1)"
  shows "fst ` set (overlay_view (ov_entries o1) t) =
    fst ` set (live_rows (ov_entries o1)) \<union> fst ` set (filter (\<lambda>(k, e). \<not> masked o1 k) t)"
proof -
  have keys: "k \<in> fst ` set r \<longleftrightarrow> rget r k \<noteq> None" for k and r :: "'b rows"
    using rget_None[of r k] by auto
  show ?thesis
    unfolding set_eq_iff Un_iff keys
    by (auto simp: rget_overlay_view[OF assms] rget_filter[OF assms(1)] rget_live_rows[OF assms(2)]
        masked_def overlay_get_def entry_row_def split: option.split)
qed

text \<open>The last key of a union of key sets is the greater of the two last keys.\<close>

lemma tv_last_key_in_Un:
  assumes "sorted_rows r" "sorted_rows s" "sorted_rows u"
    "fst ` set u = fst ` set r \<union> fst ` set s"
  shows "tv_last_key_in u start until =
    (case (tv_last_key_in r start until, tv_last_key_in s start until) of
       (Some a, Some b) \<Rightarrow> Some (max a b) | (Some a, None) \<Rightarrow> Some a | (None, b) \<Rightarrow> b)"
proof (cases "tv_last_key_in r start until"; cases "tv_last_key_in s start until")
  assume "tv_last_key_in r start until = None" "tv_last_key_in s start until = None"
  moreover from this have "tv_last_key_in u start until = None"
    using assms(4) by (auto simp: tv_last_key_in_None)
  ultimately show ?thesis by simp
next
  fix b assume N: "tv_last_key_in r start until = None" and S: "tv_last_key_in s start until = Some b"
  have "tv_last_key_in u start until = Some b"
    using tv_last_key_in_Some[OF S] tv_last_key_in_greatest[OF assms(2) S] N assms(4)
    by (intro tv_last_key_in_eqI[OF assms(3)]) (auto simp: tv_last_key_in_None)
  with N S show ?thesis by simp
next
  fix a assume S: "tv_last_key_in r start until = Some a" and N: "tv_last_key_in s start until = None"
  have "tv_last_key_in u start until = Some a"
    using tv_last_key_in_Some[OF S] tv_last_key_in_greatest[OF assms(1) S] N assms(4)
    by (intro tv_last_key_in_eqI[OF assms(3)]) (auto simp: tv_last_key_in_None)
  with N S show ?thesis by simp
next
  fix a b
  assume A: "tv_last_key_in r start until = Some a" and B: "tv_last_key_in s start until = Some b"
  have "max a b \<in> fst ` set u" "in_range (Some start) until (max a b)"
    using tv_last_key_in_Some[OF A] tv_last_key_in_Some[OF B] assms(4) by (auto simp: max_def)
  moreover have "x \<le> max a b" if "x \<in> fst ` set u" "in_range (Some start) until x" for x
    using tv_last_key_in_greatest[OF assms(1) A, of x] tv_last_key_in_greatest[OF assms(2) B, of x]
      that assms(4) by (auto simp: le_max_iff_disj)
  ultimately have "tv_last_key_in u start until = Some (max a b)"
    by (rule tv_last_key_in_eqI[OF assms(3)])
  with A B show ?thesis by simp
qed

lemma merged_last_key_in_view:
  assumes "sorted_rows t" "buffer_ok b"
  shows "merged_last_key_in t b start until = tv_last_key_in (buffer_view b t) start until"
proof (cases b)
  case (Some o1)
  then have o1: "sorted_rows (ov_entries o1)" using assms(2) by (simp add: buffer_ok_def overlay_ok_def)
  show ?thesis
    using tv_last_key_in_Un[OF sorted_live_rows[OF o1] _ _ keys_overlay_view[OF assms(1) o1],
        of start until] assms(1)
    by (simp add: Some merged_last_key_in_def buffer_view_def last_unmasked_spec)
qed (simp add: merged_last_key_in_def buffer_view_def)

lemma merged_changed_since_iff:
  "merged_changed_since t b start until r x \<longleftrightarrow>
     (\<exists>o1. b = Some o1 \<and> (\<exists>k e. (k, e) \<in> set (ov_entries o1) \<and> in_range start until k \<and>
        wanted x k \<and> r < be_revision e)) \<or>
     (\<exists>k v w. (k, v, w) \<in> set t \<and> in_range start until k \<and> wanted x k \<and> r < w)"
  by (cases b)
    (auto simp: merged_changed_since_def tv_changed_since_def tv_range_filter rrange_def list_ex_iff
      Bex_def split: prod.splits)

section \<open>The buffered tree is an ordered store\<close>

text \<open>
  A tree with a buffer over it meets the contract of an ordered store: its reads
  are the merged reads, its writes are records in the buffer.
\<close>

definition buffered_wf :: "tree_rows \<times> overlay \<Rightarrow> bool" where
  "buffered_wf = (\<lambda>(t, o1). sorted_rows t \<and> length t \<le> USIZE_MAX \<and> overlay_ok o1)"

definition buffered_get :: "tree_rows \<times> overlay \<Rightarrow> bytes \<Rightarrow> (bytes \<times> u64) option" where
  "buffered_get = (\<lambda>(t, o1) k. hd (merged_get_many_with_revision t (Some o1) [k]))"

definition buffered_scan ::
  "tree_rows \<times> overlay \<Rightarrow> bytes option \<Rightarrow> bytes option \<Rightarrow> nat \<Rightarrow> tree_rows" where
  "buffered_scan = (\<lambda>(t, o1) a b n. merged_scan t (Some o1) a b n None)"

definition buffered_put :: "bytes \<Rightarrow> bytes \<times> u64 \<Rightarrow> tree_rows \<times> overlay \<Rightarrow> tree_rows \<times> overlay" where
  "buffered_put k = (\<lambda>(v, r) (t, o1). (t, overlay_record k (Some v) r o1))"

definition buffered_delete :: "u64 \<Rightarrow> bytes \<Rightarrow> tree_rows \<times> overlay \<Rightarrow> tree_rows \<times> overlay" where
  "buffered_delete r k = (\<lambda>(t, o1). (t, overlay_record k None r o1))"

lemma record_view:
  assumes "sorted_rows t" "overlay_ok o1"
  shows "overlay_view (ov_entries (overlay_record k v r o1)) t =
    (case v of Some bs \<Rightarrow> rput k (bs, r) (overlay_view (ov_entries o1) t)
     | None \<Rightarrow> rdel k (overlay_view (ov_entries o1) t))"
  using assms
  by (intro rows_eqI)
    (auto simp: rget_overlay_view entry_row_def overlay_ok_sorted overlay_record_def split: option.split)

interpretation overlay_store: ordered_store buffered_wf
  "\<lambda>(t, o1). overlay_view (ov_entries o1) t" buffered_get buffered_scan buffered_put "buffered_delete r"
  for r
proof unfold_locales
  fix s :: "tree_rows \<times> overlay" and k a b n and v :: "bytes \<times> u64"
  obtain t o1 where s: "s = (t, o1)" by (cases s)
  assume "buffered_wf s"
  then have wf: "sorted_rows t" "length t \<le> USIZE_MAX" "overlay_ok o1" "buffer_ok (Some o1)"
    by (auto simp: buffered_wf_def s buffer_ok_def)
  show "sorted_rows (case s of (t, o1) \<Rightarrow> overlay_view (ov_entries o1) t)"
    using wf by (simp add: s)
  show "buffered_get s k = rget (case s of (t, o1) \<Rightarrow> overlay_view (ov_entries o1) t) k"
    using merged_get_many_with_revision_view[OF wf(1,4), of "[k]"]
    by (simp add: s buffered_get_def buffer_view_def)
  show "buffered_scan s a b n = rscan (case s of (t, o1) \<Rightarrow> overlay_view (ov_entries o1) t) a b n"
    using merged_scan_view[OF wf(1,4,2), of a b n None]
    by (simp add: s buffered_scan_def buffer_view_def tv_scan_def rscan_def tv_range_def wanted_def)
  show "buffered_wf (buffered_put k v s)" "buffered_wf (buffered_delete r k s)"
    using wf by (auto simp: s buffered_wf_def buffered_put_def buffered_delete_def overlay_ok_record
        split: prod.split)
  show "(case buffered_put k v s of (t, o1) \<Rightarrow> overlay_view (ov_entries o1) t) =
      rput k v (case s of (t, o1) \<Rightarrow> overlay_view (ov_entries o1) t)"
    and "(case buffered_delete r k s of (t, o1) \<Rightarrow> overlay_view (ov_entries o1) t) =
      rdel k (case s of (t, o1) \<Rightarrow> overlay_view (ov_entries o1) t)"
    using record_view[OF wf(1,3)]
    by (simp_all add: s buffered_put_def buffered_delete_def split: prod.split)
qed

section \<open>Correctness\<close>

text \<open>
  C29: Merged reads refine one ordered map.  Over a tree with sorted rows and a
  well-formed buffer, the point read, the revision, both batched reads, the
  limited range scan with an excluded prefix and the last key of a range all
  answer from the rows the tree would have if it absorbed the buffer.  The scan's
  bound on the tree, \<open>limit\<close> plus the buffered deletions in range, loses no row.
\<close>

theorem merged_reads_refine:
  assumes "sorted_rows t" "overlay_ok o1" "length t \<le> USIZE_MAX"
  defines "v \<equiv> overlay_view (ov_entries o1) t"
  shows "merged_get t (Some o1) k = tv_get v k \<and>
    merged_revision t (Some o1) k = tv_revision v k \<and>
    merged_get_many_revisions t (Some o1) keys = tv_get_many_revisions v keys \<and>
    merged_get_many_with_revision t (Some o1) keys = tv_get_many_with_revision v keys \<and>
    merged_scan t (Some o1) start until limit excluded = tv_scan v start until limit excluded \<and>
    merged_last_key_in t (Some o1) key until = tv_last_key_in v key until"
proof -
  have ok: "buffer_ok (Some o1)" using assms(2) by (simp add: buffer_ok_def)
  have v: "v = buffer_view (Some o1) t" by (simp add: v_def buffer_view_def)
  show ?thesis
    unfolding v tv_get_many_revisions_def tv_get_many_with_revision_def
    by (intro conjI merged_get_view merged_revision_view merged_get_many_revisions_view
        merged_get_many_with_revision_view merged_scan_view merged_last_key_in_view ok assms)
qed

section \<open>Witnesses\<close>

text \<open>A buffer that overwrites one tree row, deletes another and adds a third.\<close>

definition example_tree :: tree_rows where
  "example_tree = [([1], [10], 1), ([2], [20], 1), ([3], [30], 2)]"

definition example_buffer :: overlay where
  "example_buffer =
     overlay_record [3] None 5 (overlay_record [2] (Some [22]) 4
       (overlay_record [4] (Some [44]) 3 (overlay_new 4096)))"

theorem merged_reads_refine_witness:
  "merged_scan example_tree (Some example_buffer) None None 2 None =
     tv_scan (overlay_view (ov_entries example_buffer) example_tree) None None 2 None \<and>
   merged_scan example_tree (Some example_buffer) None None 2 None = [([1], [10], 1), ([2], [22], 4)] \<and>
   merged_last_key_in example_tree (Some example_buffer) [1] (Some [4]) = Some [2]"
proof -
  have ok: "sorted_rows example_tree" "length example_tree \<le> USIZE_MAX"
    by (simp_all add: example_tree_def USIZE_MAX_def)
  have o: "overlay_ok example_buffer"
    by (simp add: example_buffer_def overlay_ok_record)
  have "tv_scan (overlay_view (ov_entries example_buffer) example_tree) None None 2 None =
      [([1], [10], 1), ([2], [22], 4)]"
    "tv_last_key_in (overlay_view (ov_entries example_buffer) example_tree) [1] (Some [4]) = Some [2]"
    by code_simp+
  with merged_reads_refine[OF ok(1) o ok(2), of "[1]" "[]" None None 2 None "[1]"]
    merged_reads_refine[OF ok(1) o ok(2), of "[1]" "[]" None "Some [4]" 2 None "[1]"]
  show ?thesis by simp
qed

end
