(* ===== verification/ReadEngine.thy ===== *)
theory ReadEngine
  imports Overlay
begin

text \<open>
  Write-back commits and the read handles that follow them
  (\<open>crates/vyrn-core/src/lib.rs\<close>): the part of \<open>apply_batch\<close> that stages a
  commit in the buffer, the flush that has the tree absorb it, what is published
  to the read handles, and \<open>ReadEngine\<close> with its reads.  The central theorem is
  that a read handle fed every commit in order serves exactly the writer's rows,
  whenever the flushes happen.
\<close>

section \<open>The writer's side\<close>

record wb_engine =
  we_tree :: tree_rows
  we_write_back :: "overlay option"
  we_last_lsn :: u64
  we_absorbed :: u64
  we_publish :: "published_mutation list"
  we_publish_enabled :: bool

definition reset_published :: "wb_engine \<Rightarrow> wb_engine" where
  "reset_published w = w\<lparr> we_publish := [] \<rparr>"

text \<open>A mutation as the buffer records it: a deletion carries the batch's revision.\<close>

definition buffered_state :: "u64 \<Rightarrow> mutation \<Rightarrow> bytes option \<times> u64" where
  "buffered_state revision m =
     (case m of MutPut v r \<Rightarrow> (Some v, r) | MutDelete \<Rightarrow> (None, revision))"

definition buffer_mutation :: "u64 \<Rightarrow> bytes \<times> mutation \<Rightarrow> wb_engine \<Rightarrow> wb_engine" where
  "buffer_mutation revision = (\<lambda>(key, m) w.
     let (v, entry_revision) = buffered_state revision m;
         w = (if we_publish_enabled w
              then w\<lparr> we_publish := we_publish w @
                       [\<lparr> pm_key = key, pm_value = v, pm_revision = entry_revision \<rparr>] \<rparr>
              else w)
     in w\<lparr> we_write_back := map_option (overlay_record key v entry_revision) (we_write_back w) \<rparr>)"

definition flush_mutations :: "overlay \<Rightarrow> (bytes \<times> mutation) list" where
  "flush_mutations o1 =
     map (\<lambda>(key, e). (key, case be_value e of Some v \<Rightarrow> MutPut v (be_revision e) | None \<Rightarrow> MutDelete))
       (ov_entries o1)"

definition flush_write_back :: "wb_engine \<Rightarrow> wb_engine" where
  "flush_write_back w =
     (case we_write_back w of
        None \<Rightarrow> w
      | Some o1 \<Rightarrow>
          if overlay_is_empty o1 then w
          else w\<lparr> we_tree := tv_apply_batch (flush_mutations o1) (we_tree w),
                 we_write_back := Some (overlay_clear o1),
                 we_absorbed := we_last_lsn w \<rparr>)"

text \<open>
  A write-back commit from its WAL record on: the record advanced the LSN, the
  mutations land in the buffer, and a buffer over its threshold is flushed.
\<close>

definition flush_if_due :: "wb_engine \<Rightarrow> wb_engine" where
  "flush_if_due w =
     (if (case we_write_back w of Some o1 \<Rightarrow> should_flush o1 | None \<Rightarrow> False)
      then flush_write_back w else w)"

definition write_back_commit :: "(bytes \<times> mutation) list \<Rightarrow> wb_engine \<Rightarrow> wb_engine" where
  "write_back_commit mutations w =
     (let revision = we_last_lsn w + 1;
          w = (reset_published w)\<lparr> we_last_lsn := revision \<rparr>;
          w = fold (buffer_mutation revision) mutations w
      in flush_if_due w)"

definition take_write_back_publish :: "wb_engine \<Rightarrow> write_back_publish \<times> wb_engine" where
  "take_write_back_publish w =
     (if we_write_back w = None then (\<lparr> wp_mutations = [], wp_absorbed_through = None \<rparr>, w)
      else (\<lparr> wp_mutations = we_publish w, wp_absorbed_through = Some (we_absorbed w) \<rparr>,
            w\<lparr> we_publish := [] \<rparr>))"

definition write_back_absorbed_through :: "wb_engine \<Rightarrow> u64 option" where
  "write_back_absorbed_through w = map_option (\<lambda>_. we_absorbed w) (we_write_back w)"

section \<open>The read handle\<close>

record read_engine =
  re_generation :: u64
  re_tree :: tree_rows
  re_overlay :: "overlay option"
  re_evicted_through :: u64

definition re_open :: "u64 \<Rightarrow> tree_rows \<Rightarrow> bool \<Rightarrow> read_engine" where
  "re_open generation tree write_back =
     \<lparr> re_generation = generation, re_tree = tree,
       re_overlay = (if write_back then Some (overlay_new USIZE_MAX) else None),
       re_evicted_through = 0 \<rparr>"

definition re_evict_write_back_through :: "u64 \<Rightarrow> read_engine \<Rightarrow> read_engine" where
  "re_evict_write_back_through lsn re =
     (case re_overlay re of
        None \<Rightarrow> re
      | Some o1 \<Rightarrow>
          if re_evicted_through re < lsn
          then re\<lparr> re_overlay := Some (evict_through lsn o1), re_evicted_through := lsn \<rparr>
          else re)"

definition re_publish_write_back :: "write_back_publish \<Rightarrow> read_engine \<Rightarrow> vyrn_error + read_engine" where
  "re_publish_write_back p re =
     (if publish_is_empty p then Inr re
      else case re_overlay re of
        None \<Rightarrow>
          Inl (WriteBackMismatch
                 ''commit published to a read handle opened without write-back replay'')
      | Some o1 \<Rightarrow>
          let o1 = fold (\<lambda>m. overlay_record (pm_key m) (pm_value m) (pm_revision m)) (wp_mutations p) o1;
              re = re\<lparr> re_overlay := Some o1 \<rparr>
          in Inr (case wp_absorbed_through p of
                    None \<Rightarrow> re
                  | Some absorbed \<Rightarrow>
                      if re_evicted_through re < absorbed
                      then re\<lparr> re_overlay := Some (evict_through absorbed o1),
                              re_evicted_through := absorbed \<rparr>
                      else re))"

text \<open>
  A newer root of the same generation moves the tree forward, a newer generation
  reopens it, and a root of a retired generation is ignored.  The tree is given
  by the rows of the root being published.
\<close>

definition re_refresh :: "u64 \<Rightarrow> tree_rows \<Rightarrow> read_engine \<Rightarrow> read_engine" where
  "re_refresh generation tree re =
     (if generation < re_generation re then re
      else re\<lparr> re_tree := tree, re_generation := generation \<rparr>)"

definition re_get :: "bytes \<Rightarrow> read_engine \<Rightarrow> vyrn_error + bytes option" where
  "re_get key re =
     (case validate_user_key key of
        Inl e \<Rightarrow> Inl e
      | Inr _ \<Rightarrow> Inr (merged_get (re_tree re) (re_overlay re) key))"

definition re_get_shared :: "bytes \<Rightarrow> read_engine \<Rightarrow> vyrn_error + shared_bytes option" where
  "re_get_shared key re =
     (case validate_user_key key of
        Inl e \<Rightarrow> Inl e
      | Inr _ \<Rightarrow> Inr (merged_get_shared (re_tree re) (re_overlay re) key))"

text \<open>The checks every public range read makes first.\<close>

definition validate_range :: "bytes option \<Rightarrow> bytes option \<Rightarrow> vyrn_error + unit" where
  "validate_range start until =
     (case (case start of Some k \<Rightarrow> validate_user_key k | None \<Rightarrow> Inr ()) of
        Inl e \<Rightarrow> Inl e
      | Inr _ \<Rightarrow>
         (case (case until of Some k \<Rightarrow> validate_user_key k | None \<Rightarrow> Inr ()) of
            Inl e \<Rightarrow> Inl e
          | Inr _ \<Rightarrow>
             (case (start, until) of
                (Some a, Some b) \<Rightarrow> if b < a then Inl InvalidRange else Inr ()
              | _ \<Rightarrow> Inr ())))"

definition re_scan ::
  "bytes option \<Rightarrow> bytes option \<Rightarrow> nat \<Rightarrow> read_engine \<Rightarrow> vyrn_error + (bytes \<times> bytes) list" where
  "re_scan start until limit re =
     (case validate_range start until of
        Inl e \<Rightarrow> Inl e
      | Inr _ \<Rightarrow>
          Inr (map (\<lambda>(k, v, _). (k, v))
                (merged_scan (re_tree re) (re_overlay re) start until limit (Some INTERNAL_PREFIX))))"

definition re_scan_shared ::
  "bytes option \<Rightarrow> bytes option \<Rightarrow> nat \<Rightarrow> read_engine
     \<Rightarrow> vyrn_error + (shared_bytes \<times> shared_bytes) list" where
  "re_scan_shared start until limit re =
     (case validate_range start until of
        Inl e \<Rightarrow> Inl e
      | Inr _ \<Rightarrow>
          Inr (map (\<lambda>(k, v, _). (k, v))
                (merged_scan_shared (re_tree re) (re_overlay re) start until limit
                   (Some INTERNAL_PREFIX))))"

text \<open>\<open>scan_each\<close> calls its visitor on every row; the calls are the rows visited.\<close>

definition re_scan_each ::
  "bytes option \<Rightarrow> bytes option \<Rightarrow> nat \<Rightarrow> read_engine \<Rightarrow> vyrn_error + (bytes \<times> bytes) list" where
  "re_scan_each start until limit re =
     (case validate_range start until of
        Inl e \<Rightarrow> Inl e
      | Inr _ \<Rightarrow>
         (case re_overlay re of
            Some o1 \<Rightarrow>
              if \<not> overlay_is_empty o1
              then Inr (map (\<lambda>(k, v, _). (as_slice k, as_slice v))
                     (merged_scan_shared (re_tree re) (re_overlay re) start until limit
                        (Some INTERNAL_PREFIX)))
              else Inr (map (\<lambda>(k, v, _). (k, v))
                     (tv_scan (re_tree re) start until limit (Some INTERNAL_PREFIX)))
          | None \<Rightarrow>
              Inr (map (\<lambda>(k, v, _). (k, v))
                     (tv_scan (re_tree re) start until limit (Some INTERNAL_PREFIX)))))"

text \<open>Collecting results of a mapped list stops at the first error.\<close>

fun collect_results :: "('e + 'a) list \<Rightarrow> 'e + 'a list" where
  "collect_results [] = Inr []"
| "collect_results (Inl e # rs) = Inl e"
| "collect_results (Inr x # rs) =
     (case collect_results rs of Inl e \<Rightarrow> Inl e | Inr xs \<Rightarrow> Inr (x # xs))"

definition re_lookup_index :: "bytes \<Rightarrow> bytes \<Rightarrow> nat \<Rightarrow> read_engine \<Rightarrow> vyrn_error + bytes list" where
  "re_lookup_index name v limit re =
     (case validate_index_name name of
        Inl e \<Rightarrow> Inl e
      | Inr _ \<Rightarrow>
         (case validate_index_value (Some v) of
            Inl e \<Rightarrow> Inl e
          | Inr _ \<Rightarrow>
              if merged_get (re_tree re) (re_overlay re) (index_definition_key name) = None
              then Inl IndexNotFound
              else let p = index_value_prefix name v
                   in collect_results (map (\<lambda>(k, _, _). decode_index_primary k p)
                        (merged_scan (re_tree re) (re_overlay re) (Some p) (prefix_end p) limit None))))"

definition re_read_raw :: "bytes \<Rightarrow> read_engine \<Rightarrow> vyrn_error + bytes option" where
  "re_read_raw key re =
     (case validate_key key of
        Inl e \<Rightarrow> Inl e
      | Inr _ \<Rightarrow> Inr (merged_get (re_tree re) (re_overlay re) key))"

definition re_scan_raw ::
  "bytes option \<Rightarrow> bytes option \<Rightarrow> nat \<Rightarrow> read_engine \<Rightarrow> (bytes \<times> bytes) list" where
  "re_scan_raw start until limit re =
     map (\<lambda>(k, v, _). (k, v)) (merged_scan (re_tree re) (re_overlay re) start until limit None)"

section \<open>The flush keeps the rows\<close>

definition we_view :: "wb_engine \<Rightarrow> tree_rows" where
  "we_view w = buffer_view (we_write_back w) (we_tree w)"

definition re_view :: "read_engine \<Rightarrow> tree_rows" where
  "re_view re = buffer_view (re_overlay re) (re_tree re)"

lemma flush_mutations_view: "tv_apply_batch (flush_mutations o1) t = overlay_view (ov_entries o1) t"
proof -
  have "fold tv_mutate (map (\<lambda>(key, e). (key, case be_value e of Some v \<Rightarrow> MutPut v (be_revision e) | None \<Rightarrow> MutDelete)) bs) t
      = fold apply_buffered bs t" for bs
    by (induction bs arbitrary: t) (auto simp: apply_buffered_def split: option.split)
  then show ?thesis by (simp add: tv_apply_batch_def flush_mutations_def overlay_view_def)
qed

lemma flush_write_back_view [simp]: "we_view (flush_write_back w) = we_view w"
  by (auto simp: we_view_def flush_write_back_def buffer_view_def flush_mutations_view
      overlay_clear_def split: option.split)


section \<open>A read handle follows the writer\<close>

text \<open>
  The mutations of a commit as the batch stamps them, and the writer and one read
  handle over a series of commits: each commit is published to the handle once,
  the root first, then the mutations with the absorb watermark.
\<close>

definition stamp :: "u64 \<Rightarrow> (bytes \<times> bytes option) list \<Rightarrow> (bytes \<times> mutation) list" where
  "stamp revision ops =
     map (\<lambda>(k, v). (k, case v of Some v \<Rightarrow> MutPut v revision | None \<Rightarrow> MutDelete)) ops"

fun follow ::
  "(bytes \<times> bytes option) list list \<Rightarrow> wb_engine \<times> read_engine \<Rightarrow> vyrn_error + wb_engine \<times> read_engine" where
  "follow [] s = Inr s"
| "follow (ops # commits) (w, re) =
     (let w = write_back_commit (stamp (we_last_lsn w + 1) ops) w;
          (p, w) = take_write_back_publish w
      in case re_publish_write_back p (re_refresh (re_generation re) (we_tree w) re) of
           Inl e \<Rightarrow> Inl e
         | Inr re \<Rightarrow> follow commits (w, re))"

text \<open>The entries one commit records, in the buffer and on the handle alike.\<close>

definition record_ops :: "u64 \<Rightarrow> (bytes \<times> bytes option) list \<Rightarrow> overlay \<Rightarrow> overlay" where
  "record_ops revision ops o1 = fold (\<lambda>(k, v). overlay_record k v revision) ops o1"

lemma entries_record [simp]:
  "ov_entries (overlay_record k v r o1) = rput k \<lparr> be_value = v, be_revision = r \<rparr> (ov_entries o1)"
  by (simp add: overlay_record_def)

lemma entries_record_ops:
  "ov_entries (record_ops r ops o1) =
     fold (\<lambda>(k, v). rput k \<lparr> be_value = v, be_revision = r \<rparr>) ops (ov_entries o1)"
  unfolding record_ops_def by (induction ops arbitrary: o1) auto

lemma record_ops_ok: "overlay_ok o1 \<Longrightarrow> overlay_ok (record_ops r ops o1)"
  unfolding record_ops_def by (induction ops arbitrary: o1) (auto simp: overlay_ok_record)

lemma record_ops_revisions:
  "(k, e) \<in> set (ov_entries (record_ops r ops o1)) \<Longrightarrow>
     be_revision e = r \<or> (k, e) \<in> set (ov_entries o1)"
proof (induction ops arbitrary: o1)
  case (Cons x ops)
  obtain a v where x: "x = (a, v)" by (cases x)
  have "(k, e) \<in> set (ov_entries (record_ops r ops (overlay_record a v r o1)))"
    using Cons.prems by (simp add: record_ops_def x)
  then have "be_revision e = r \<or> (k, e) \<in> set (ov_entries (overlay_record a v r o1))"
    by (rule Cons.IH)
  then show ?case
    using set_rput_subset[of a "\<lparr> be_value = v, be_revision = r \<rparr>" "ov_entries o1"] by auto
qed (simp add: record_ops_def)

lemma buffer_mutation_stamp:
  assumes "we_write_back w = Some o1" "we_publish_enabled w"
  shows "fold (buffer_mutation r) (stamp r ops) w =
    w\<lparr> we_write_back := Some (record_ops r ops o1),
       we_publish := we_publish w @ map (\<lambda>(k, v). \<lparr> pm_key = k, pm_value = v, pm_revision = r \<rparr>) ops \<rparr>"
  using assms
proof (induction ops arbitrary: w o1)
  case Nil
  then show ?case by (simp add: stamp_def record_ops_def)
next
  case (Cons x ops)
  obtain k v where x: "x = (k, v)" by (cases x)
  have step: "buffer_mutation r (k, case v of Some v \<Rightarrow> MutPut v r | None \<Rightarrow> MutDelete) w =
      w\<lparr> we_write_back := Some (overlay_record k v r o1),
         we_publish := we_publish w @ [\<lparr> pm_key = k, pm_value = v, pm_revision = r \<rparr>] \<rparr>"
    using Cons.prems by (auto simp: buffer_mutation_def buffered_state_def split: option.split)
  show ?case
    using Cons.IH[of "w\<lparr> we_write_back := Some (overlay_record k v r o1),
         we_publish := we_publish w @ [\<lparr> pm_key = k, pm_value = v, pm_revision = r \<rparr>] \<rparr>"
        "overlay_record k v r o1"] Cons.prems
    by (simp add: x stamp_def step record_ops_def)
qed

lemma publish_records:
  "fold (\<lambda>m. overlay_record (pm_key m) (pm_value m) (pm_revision m))
     (map (\<lambda>(k, v). \<lparr> pm_key = k, pm_value = v, pm_revision = r \<rparr>) ops) o1 = record_ops r ops o1"
  unfolding record_ops_def by (induction ops arbitrary: o1) auto

text \<open>What the pair keeps: the same root, the same buffered entries, all above the watermark.\<close>

definition in_step :: "wb_engine \<Rightarrow> read_engine \<Rightarrow> bool" where
  "in_step w re \<longleftrightarrow>
     (\<exists>o1 o2. we_write_back w = Some o1 \<and> re_overlay re = Some o2 \<and>
        ov_entries o1 = ov_entries o2 \<and> overlay_ok o1 \<and> overlay_ok o2 \<and>
        (\<forall>k e. (k, e) \<in> set (ov_entries o1) \<longrightarrow> we_absorbed w < be_revision e \<and> be_revision e \<le> we_last_lsn w)) \<and>
     we_publish_enabled w \<and> re_tree re = we_tree w \<and> sorted_rows (we_tree w) \<and>
     re_evicted_through re \<le> we_absorbed w \<and> we_absorbed w \<le> we_last_lsn w"

lemma in_step_view: "in_step w re \<Longrightarrow> re_view re = we_view w"
  by (auto simp: in_step_def re_view_def we_view_def buffer_view_def)

lemma evict_none:
  assumes "\<forall>k e. (k, e) \<in> set (ov_entries o1) \<longrightarrow> lsn < be_revision e"
  shows "ov_entries (evict_through lsn o1) = ov_entries o1"
  using assms by (auto simp: evict_through_def Let_def filter_id_conv not_le)

lemma evict_all:
  assumes "\<forall>k e. (k, e) \<in> set (ov_entries o1) \<longrightarrow> be_revision e \<le> lsn"
  shows "ov_entries (evict_through lsn o1) = []"
  using assms by (auto simp: evict_through_def Let_def filter_empty_conv)

lemma record_ops_view:
  assumes "sorted_rows t" "overlay_ok o1"
  shows "overlay_view (ov_entries (record_ops r ops o1)) t =
    tv_apply_batch (stamp r ops) (overlay_view (ov_entries o1) t)"
  using assms(2)
proof (induction ops arbitrary: o1)
  case Nil
  then show ?case by (simp add: record_ops_def stamp_def tv_apply_batch_def)
next
  case (Cons x ops)
  obtain k v where x: "x = (k, v)" by (cases x)
  let ?o = "overlay_record k v r o1"
  have sorted: "sorted_rows (ov_entries o1)" using Cons.prems by (rule overlay_ok_sorted)
  have "overlay_view (ov_entries ?o) t =
      tv_mutate (k, case v of Some v \<Rightarrow> MutPut v r | None \<Rightarrow> MutDelete) (overlay_view (ov_entries o1) t)"
    using assms(1) sorted
    by (intro rows_eqI) (auto simp: rget_overlay_view entry_row_def split: option.split)
  then show ?case
    using Cons.IH[of ?o] Cons.prems
    by (simp add: x overlay_ok_record record_ops_def stamp_def tv_apply_batch_def)
qed

lemma in_step_commit:
  assumes "in_step w re" "we_last_lsn w < we_last_lsn w + 1"
  defines "r \<equiv> we_last_lsn w + 1"
  obtains w' re' where
    "follow (ops # commits) (w, re) = follow commits (w', re')" "in_step w' re'" "we_last_lsn w' = r"
    "we_view w' = tv_apply_batch (stamp r ops) (we_view w)"
proof -
  obtain o1 o2 where o: "we_write_back w = Some o1" "re_overlay re = Some o2"
    "ov_entries o1 = ov_entries o2" "overlay_ok o1" "overlay_ok o2"
    and revs: "\<forall>k e. (k, e) \<in> set (ov_entries o1) \<longrightarrow> we_absorbed w < be_revision e \<and> be_revision e \<le> we_last_lsn w"
    using assms(1) by (auto simp: in_step_def)
  note inv = assms(1)[unfolded in_step_def]
  let ?O1 = "record_ops r ops o1" and ?O2 = "record_ops r ops o2"
  let ?pub = "map (\<lambda>(k, v). \<lparr> pm_key = k, pm_value = v, pm_revision = r \<rparr>) ops"
  have O: "ov_entries ?O1 = ov_entries ?O2" "overlay_ok ?O1" "overlay_ok ?O2"
    using o by (simp_all add: entries_record_ops record_ops_ok)
  have R: "we_absorbed w < be_revision e \<and> be_revision e \<le> r" if "(k, e) \<in> set (ov_entries ?O1)" for k e
    using record_ops_revisions[OF that] revs inv assms(2) unfolding r_def by force
  let ?w1 = "w\<lparr> we_last_lsn := r, we_write_back := Some ?O1, we_publish := ?pub \<rparr>"
  have w1: "fold (buffer_mutation r) (stamp r ops) ((reset_published w)\<lparr> we_last_lsn := r \<rparr>) = ?w1"
    using buffer_mutation_stamp[of "(reset_published w)\<lparr> we_last_lsn := r \<rparr>" o1 r ops] o inv
    by (simp add: reset_published_def)
  have commit: "write_back_commit (stamp r ops) w = (if should_flush ?O1 then flush_write_back ?w1 else ?w1)"
    using w1 by (simp add: write_back_commit_def flush_if_due_def Let_def r_def[symmetric])
  have view1: "we_view ?w1 = tv_apply_batch (stamp r ops) (we_view w)"
    using record_ops_view[of "we_tree w" o1 r ops] inv o by (simp add: we_view_def buffer_view_def)
  show ?thesis
  proof (cases "should_flush ?O1 \<and> \<not> overlay_is_empty ?O1")
    case False
    then have c: "write_back_commit (stamp r ops) w = ?w1"
      using commit by (auto simp: flush_write_back_def)
    let ?re = "if re_evicted_through re < we_absorbed w
               then re\<lparr> re_tree := we_tree w, re_overlay := Some (evict_through (we_absorbed w) ?O2),
                       re_evicted_through := we_absorbed w \<rparr>
               else re\<lparr> re_tree := we_tree w, re_overlay := Some ?O2 \<rparr>"
    have "follow (ops # commits) (w, re) = follow commits (?w1\<lparr> we_publish := [] \<rparr>, ?re)"
      using c o inv
      by (auto simp: r_def[symmetric] take_write_back_publish_def re_publish_write_back_def
          publish_is_empty_def re_refresh_def publish_records Let_def)
    moreover have "in_step (?w1\<lparr> we_publish := [] \<rparr>) ?re"
      using O R inv evict_none[of ?O2 "we_absorbed w"] overlay_ok_evict[of ?O2 "we_absorbed w"]
        assms(2) unfolding in_step_def by (auto simp: r_def)
    ultimately show ?thesis
      using that[of "?w1\<lparr> we_publish := [] \<rparr>" ?re] view1 by (simp add: we_view_def)
  next
    case True
    let ?w2 = "?w1\<lparr> we_tree := overlay_view (ov_entries ?O1) (we_tree w),
                    we_write_back := Some (overlay_clear ?O1), we_absorbed := r \<rparr>"
    have f: "flush_write_back ?w1 = ?w2"
      using True by (simp add: flush_write_back_def flush_mutations_view)
    then have c: "write_back_commit (stamp r ops) w = ?w2"
      using True commit by simp
    have lt: "re_evicted_through re < r" using inv assms(2) unfolding r_def by force
    let ?re = "re\<lparr> re_tree := we_tree ?w2, re_overlay := Some (evict_through r ?O2),
                   re_evicted_through := r \<rparr>"
    have "follow (ops # commits) (w, re) = follow commits (?w2\<lparr> we_publish := [] \<rparr>, ?re)"
      using c o inv lt
      by (auto simp: r_def[symmetric] take_write_back_publish_def re_publish_write_back_def
          publish_is_empty_def re_refresh_def publish_records Let_def)
    moreover have "in_step (?w2\<lparr> we_publish := [] \<rparr>) ?re"
      using O R inv evict_all[of ?O2 r] overlay_ok_evict[of ?O2 r]
      unfolding in_step_def by (auto simp: overlay_clear_def overlay_ok_def)
    moreover have "we_view ?w2 = we_view ?w1" using flush_write_back_view[of ?w1] f by simp
    ultimately show ?thesis
      using that[of "?w2\<lparr> we_publish := [] \<rparr>" ?re] view1 by (simp add: we_view_def)
  qed
qed

text \<open>The rows a series of commits leaves, each stamped with its LSN.\<close>

fun committed_rows :: "u64 \<Rightarrow> (bytes \<times> bytes option) list list \<Rightarrow> tree_rows \<Rightarrow> tree_rows" where
  "committed_rows lsn [] t = t"
| "committed_rows lsn (ops # commits) t =
     committed_rows (lsn + 1) commits (tv_apply_batch (stamp (lsn + 1) ops) t)"

lemma follow_in_step:
  "in_step w re \<Longrightarrow> unat (we_last_lsn w) + length commits < 2 ^ 64 \<Longrightarrow>
     \<exists>w' re'. follow commits (w, re) = Inr (w', re') \<and> in_step w' re' \<and>
       we_view w' = committed_rows (we_last_lsn w) commits (we_view w)"
proof (induction commits arbitrary: w re)
  case (Cons ops commits)
  have nat: "unat (we_last_lsn w + 1) = unat (we_last_lsn w) + 1"
    using Cons.prems(2) by (subst unat_word_ariths) simp
  then have "we_last_lsn w < we_last_lsn w + 1" by (simp add: word_less_nat_alt)
  then obtain w' re' where step: "follow (ops # commits) (w, re) = follow commits (w', re')"
    "in_step w' re'" "we_last_lsn w' = we_last_lsn w + 1"
    "we_view w' = tv_apply_batch (stamp (we_last_lsn w + 1) ops) (we_view w)"
    using in_step_commit[OF Cons.prems(1)] by metis
  with Cons.IH[OF step(2)] Cons.prems(2) nat show ?case by simp
qed auto

definition wb_open :: "tree_rows \<Rightarrow> u64 \<Rightarrow> nat \<Rightarrow> wb_engine" where
  "wb_open tree lsn flush_bytes =
     \<lparr> we_tree = tree, we_write_back = Some (overlay_new flush_bytes), we_last_lsn = lsn,
       we_absorbed = lsn, we_publish = [], we_publish_enabled = True \<rparr>"

lemma in_step_open: "sorted_rows t \<Longrightarrow> in_step (wb_open t lsn n) (re_open g t True)"
  unfolding in_step_def
  by (auto simp: wb_open_def re_open_def intro!: exI[of _ "overlay_new n"] exI[of _ "overlay_new USIZE_MAX"])
    (simp_all add: overlay_new_def)

section \<open>Correctness\<close>

text \<open>
  C30: A read handle opened beside a write-back engine and fed every commit serves
  the writer's rows.  Whatever the flush threshold, after any series of commits
  no publication is refused, and the handle's merged rows are the writer's merged
  rows, which are the starting rows with every commit applied at its LSN.
\<close>

theorem reader_follows_writer:
  assumes "sorted_rows t" "unat lsn + length commits < 2 ^ 64"
  shows "\<exists>w re. follow commits (wb_open t lsn n, re_open g t True) = Inr (w, re) \<and>
    re_view re = committed_rows lsn commits t \<and> we_view w = committed_rows lsn commits t \<and>
    (\<forall>k. merged_get (re_tree re) (re_overlay re) k = tv_get (committed_rows lsn commits t) k)"
proof -
  have start: "we_last_lsn (wb_open t lsn n) = lsn" "we_view (wb_open t lsn n) = t"
    by (simp_all add: wb_open_def we_view_def buffer_view_def overlay_new_def)
  obtain w re where run: "follow commits (wb_open t lsn n, re_open g t True) = Inr (w, re)"
    "in_step w re" "we_view w = committed_rows lsn commits t"
    using follow_in_step[OF in_step_open[OF assms(1), of lsn n g], of commits] assms(2) start
    by auto
  then have "re_view re = committed_rows lsn commits t"
    using in_step_view by simp
  moreover have "sorted_rows (re_tree re)" "buffer_ok (re_overlay re)"
    using run(2) by (auto simp: in_step_def buffer_ok_def)
  ultimately show ?thesis
    using run merged_get_view by (auto simp: re_view_def)
qed

section \<open>Witnesses\<close>

text \<open>A threshold of one byte flushes on every commit, a large one never does.\<close>

theorem reader_follows_writer_witness:
  "\<exists>w re. follow [[([1], Some [7])], [([1], None), ([2], Some [8])]]
       (wb_open [([3], [9], 4)] 4 100, re_open 0 [([3], [9], 4)] True) = Inr (w, re) \<and>
     merged_get (re_tree re) (re_overlay re) [1] = None \<and>
     merged_get (re_tree re) (re_overlay re) [2] = Some [8] \<and>
     re_view re = [([2], [8], 6), ([3], [9], 4)]"
proof -
  let ?cs = "[[([1], Some [7])], [([1], None), ([2], Some [8])]]"
  have rows: "committed_rows 4 ?cs [([3], [9], 4)] = [([2], [8], 6), ([3], [9], 4)]"
    by (simp add: stamp_def tv_apply_batch_def)
  show ?thesis
    using reader_follows_writer[of "[([3], [9], 4)]" 4 ?cs 100 0]
    unfolding rows by (auto simp: tv_get_def)
qed

end
