(* ===== verification/ValueLog.thy ===== *)
theory ValueLog
  imports Keyspace OrderedMap
begin

text \<open>
  The value log, \<open>crates/vyrn-core/src/value_log.rs\<close>: an append-only file of framed,
  checksummed values, its tail repair at open, and the byte-budgeted second-chance
  cache of validated values in front of it.  The CRC-32 of the third-party hasher is
  the parameter \<open>crc\<close>.  The lemmas show that an appended value is read back and
  stays readable, that a torn append is repaired to the state before it, that the
  eviction loop ends, and that the cache never changes an answer and never exceeds
  its budget.
\<close>

section \<open>Framing\<close>

definition VALUE_MAGIC :: bytes where "VALUE_MAGIC = ascii ''VVAL''"
definition VALUE_END :: bytes where "VALUE_END = ascii ''VEND''"
definition VALUE_VERSION :: byte where "VALUE_VERSION = 1"
definition VALUE_HEADER_LEN :: nat where "VALUE_HEADER_LEN = 24"
definition VALUE_FOOTER_LEN :: nat where "VALUE_FOOTER_LEN = 8"
definition COPY_RATHER_THAN_SEEK :: nat where "COPY_RATHER_THAN_SEEK = 32 * 1024"

lemmas value_consts = VALUE_MAGIC_def VALUE_END_def VALUE_VERSION_def VALUE_HEADER_LEN_def
  VALUE_FOOTER_LEN_def

definition value_checksum :: "(bytes \<Rightarrow> u32) \<Rightarrow> u64 \<Rightarrow> bytes \<Rightarrow> u32" where
  "value_checksum crc revision val =
     crc ([VALUE_VERSION] @ u64_to_be revision @ u32_to_be (word_of_nat (length val)) @ val)"

definition value_total_len :: "nat \<Rightarrow> nat" where
  "value_total_len n = VALUE_HEADER_LEN + n + VALUE_FOOTER_LEN"

definition value_header :: "(bytes \<Rightarrow> u32) \<Rightarrow> u64 \<Rightarrow> bytes \<Rightarrow> bytes" where
  "value_header crc revision val =
     VALUE_MAGIC @ [VALUE_VERSION] @ u64_to_be revision @ u32_to_be (word_of_nat (length val)) @
     u32_to_be (value_checksum crc revision val) @ [0, 0, 0]"

definition value_footer :: "nat \<Rightarrow> bytes" where
  "value_footer total_len = u32_to_be (word_of_nat total_len) @ VALUE_END"

definition value_record :: "(bytes \<Rightarrow> u32) \<Rightarrow> u64 \<Rightarrow> bytes \<Rightarrow> bytes" where
  "value_record crc revision val =
     value_header crc revision val @ val @ value_footer (value_total_len (length val))"

definition validate_framing ::
  "(bytes \<Rightarrow> u32) \<Rightarrow> bytes \<Rightarrow> bytes \<Rightarrow> bytes \<Rightarrow> nat \<Rightarrow> u64 \<Rightarrow> vyrn_error + unit" where
  "validate_framing crc header footer val total_len offset =
     (if length header \<noteq> VALUE_HEADER_LEN \<or> length footer \<noteq> VALUE_FOOTER_LEN \<or>
         bslice header 0 4 \<noteq> VALUE_MAGIC \<or> header ! 4 \<noteq> VALUE_VERSION
      then Inl (CorruptValue offset ''invalid value record header'')
      else
        (let value_len = unat (u32_of_be (bslice header 13 4)) in
         if MAX_VALUE_SIZE < value_len \<or> value_len \<noteq> length val \<or> total_len \<noteq> value_total_len value_len
         then Inl (CorruptValue offset ''invalid value record length'')
         else if u32_of_be (bslice header 17 4) \<noteq> value_checksum crc (u64_of_be (bslice header 5 8)) val \<or>
                 unat (u32_of_be (bslice footer 0 4)) \<noteq> total_len \<or> drop 4 footer \<noteq> VALUE_END
         then Inl (CorruptValue offset ''value checksum or footer mismatch'')
         else Inr ()))"

definition validate_record :: "(bytes \<Rightarrow> u32) \<Rightarrow> bytes \<Rightarrow> u64 \<Rightarrow> vyrn_error + unit" where
  "validate_record crc rec offset =
     (if length rec < VALUE_HEADER_LEN + VALUE_FOOTER_LEN
      then Inl (CorruptValue offset ''invalid value record header'')
      else
        (let header = take VALUE_HEADER_LEN rec; rest = drop VALUE_HEADER_LEN rec;
             val = take (length rest - VALUE_FOOTER_LEN) rest;
             footer = drop (length rest - VALUE_FOOTER_LEN) rest in
         validate_framing crc header footer val (length rec) offset))"

section \<open>The validated-value cache\<close>

record value_ref =
  vr_offset :: u64
  vr_len :: u32
  vr_revision :: u64

record cached_value =
  cv_value :: bytes
  cv_revision :: u64
  cv_referenced :: bool

record value_cache =
  vc_entries :: "(u64 \<times> cached_value) list"
  vc_clock :: "u64 list"
  vc_bytes :: nat
  vc_budget :: nat

definition cache_new :: "nat \<Rightarrow> value_cache" where
  "cache_new budget = \<lparr>vc_entries = [], vc_clock = [], vc_bytes = 0, vc_budget = budget\<rparr>"

definition cache_get :: "value_cache \<Rightarrow> u64 \<Rightarrow> u64 \<Rightarrow> u32 \<Rightarrow> bytes option \<times> value_cache" where
  "cache_get c offset revision len =
     (case rget (vc_entries c) offset of
        None \<Rightarrow> (None, c)
      | Some e \<Rightarrow>
          if cv_revision e \<noteq> revision \<or> length (cv_value e) \<noteq> unat len then (None, c)
          else (Some (cv_value e),
                c\<lparr>vc_entries := rmodify offset (\<lambda>e. e\<lparr>cv_referenced := True\<rparr>) (vc_entries c)\<rparr>))"

text \<open>The eviction loop of \<open>insert\<close>: make room for \<open>need\<close> more bytes.\<close>

definition referenced_count :: "(u64 \<times> cached_value) list \<Rightarrow> nat" where
  "referenced_count es = length (filter (\<lambda>(o', e). cv_referenced e) es)"

lemma referenced_count_simps [simp]:
  "referenced_count [] = 0"
  "referenced_count ((k, e) # es) = (if cv_referenced e then 1 else 0) + referenced_count es"
  by (simp_all add: referenced_count_def)

lemma referenced_count_clear:
  assumes "rget es k = Some e" "cv_referenced e"
  shows "referenced_count (rmodify k (\<lambda>e. e\<lparr>cv_referenced := False\<rparr>) es) < referenced_count es"
proof -
  have le: "referenced_count (rmodify k (\<lambda>e. e\<lparr>cv_referenced := False\<rparr>) fs) \<le> referenced_count fs" for fs
    by (induction fs) auto
  from assms show ?thesis
  proof (induction es)
    case (Cons x es)
    with le[of es] show ?case
      by (cases x) (auto split: if_splits)
  qed simp
qed

lemma referenced_count_rdel: "referenced_count (rdel k es) \<le> referenced_count es"
  by (induction es) auto

function cache_make_room :: "value_cache \<Rightarrow> nat \<Rightarrow> value_cache" where
  "cache_make_room c need =
     (if vc_bytes c + need \<le> vc_budget c then c
      else
        (case vc_clock c of
           [] \<Rightarrow> c
         | victim # clock \<Rightarrow>
            (case rget (vc_entries c) victim of
               Some e \<Rightarrow>
                 if cv_referenced e
                 then cache_make_room
                   (c\<lparr>vc_entries := rmodify victim (\<lambda>e. e\<lparr>cv_referenced := False\<rparr>) (vc_entries c),
                      vc_clock := clock @ [victim]\<rparr>) need
                 else cache_make_room
                   (c\<lparr>vc_entries := rdel victim (vc_entries c), vc_clock := clock,
                      vc_bytes := vc_bytes c - length (cv_value e)\<rparr>) need
             | None \<Rightarrow> cache_make_room (c\<lparr>vc_clock := clock\<rparr>) need)))"
  by pat_completeness auto
termination
proof (relation "measure (\<lambda>(c, need). 2 * referenced_count (vc_entries c) + length (vc_clock c))")
  fix c :: value_cache and need victim clock e
  assume "rget (vc_entries c) victim = Some e" "cv_referenced e" "vc_clock c = victim # clock"
  with referenced_count_clear[of "vc_entries c" victim e]
  show "((c\<lparr>vc_entries := rmodify victim (\<lambda>e. e\<lparr>cv_referenced := False\<rparr>) (vc_entries c),
             vc_clock := clock @ [victim]\<rparr>, need), c, need)
      \<in> measure (\<lambda>(c, need). 2 * referenced_count (vc_entries c) + length (vc_clock c))"
    by simp
next
  fix c :: value_cache and need victim clock e
  assume "vc_clock c = victim # clock"
  with referenced_count_rdel[of victim "vc_entries c"]
  show "((c\<lparr>vc_entries := rdel victim (vc_entries c), vc_clock := clock,
             vc_bytes := vc_bytes c - length (cv_value e)\<rparr>, need), c, need)
      \<in> measure (\<lambda>(c, need). 2 * referenced_count (vc_entries c) + length (vc_clock c))"
    by simp
qed auto

declare cache_make_room.simps [simp del]

definition cache_insert :: "value_cache \<Rightarrow> u64 \<Rightarrow> u64 \<Rightarrow> bytes \<Rightarrow> value_cache" where
  "cache_insert c offset revision val =
     (if vc_budget c = 0 \<or> vc_budget c div 8 < length val then c
      else
        (let c = cache_make_room c (length val);
             entries = rput offset \<lparr>cv_value = val, cv_revision = revision, cv_referenced = False\<rparr>
                         (vc_entries c) in
         case rget (vc_entries c) offset of
           Some previous \<Rightarrow>
             c\<lparr>vc_entries := entries,
               vc_bytes := vc_bytes c - length (cv_value previous) + length val\<rparr>
         | None \<Rightarrow>
             c\<lparr>vc_entries := entries, vc_clock := vc_clock c @ [offset],
               vc_bytes := vc_bytes c + length val\<rparr>))"

section \<open>The log\<close>

record value_log =
  vl_file :: bytes
  vl_dirty :: bool
  vl_len :: nat
  vl_cache :: value_cache

text \<open>
  Tail repair walks the records and returns the length the file is left with: a
  record that cannot be complete ends the file there, a complete one must validate.
\<close>

function recover_tail_from :: "(bytes \<Rightarrow> u32) \<Rightarrow> nat \<Rightarrow> bytes \<Rightarrow> vyrn_error + nat" where
  "recover_tail_from crc offset rest =
     (if rest = [] then Inr offset
      else if length rest < VALUE_HEADER_LEN then Inr offset
      else if bslice rest 0 4 \<noteq> VALUE_MAGIC \<or> rest ! 4 \<noteq> VALUE_VERSION
      then Inl (CorruptValue (word_of_nat offset) ''invalid value record header'')
      else
        (let value_len = unat (u32_of_be (bslice rest 13 4));
             total_len = value_total_len value_len in
         if MAX_VALUE_SIZE < value_len then Inl (CorruptValue (word_of_nat offset) ''invalid value length'')
         else if length rest < total_len then Inr offset
         else
           (case validate_record crc (take total_len rest) (word_of_nat offset) of
              Inl e \<Rightarrow> Inl e
            | Inr _ \<Rightarrow> recover_tail_from crc (offset + total_len) (drop total_len rest))))"
  by pat_completeness auto
termination
  by (relation "measure (\<lambda>(crc, offset, rest). length rest)")
    (auto simp: value_total_len_def VALUE_HEADER_LEN_def VALUE_FOOTER_LEN_def)

declare recover_tail_from.simps [simp del]

definition recover_tail :: "(bytes \<Rightarrow> u32) \<Rightarrow> bytes \<Rightarrow> vyrn_error + bytes" where
  "recover_tail crc file =
     (case recover_tail_from crc 0 file of Inl e \<Rightarrow> Inl e | Inr n \<Rightarrow> Inr (take n file))"

definition vl_open :: "(bytes \<Rightarrow> u32) \<Rightarrow> nat \<Rightarrow> bytes \<Rightarrow> vyrn_error + value_log" where
  "vl_open crc budget file =
     (case recover_tail crc file of
        Inl e \<Rightarrow> Inl e
      | Inr f \<Rightarrow> Inr \<lparr>vl_file = f, vl_dirty = False, vl_len = length f, vl_cache = cache_new budget\<rparr>)"

definition check_bounds :: "value_log \<Rightarrow> u64 \<Rightarrow> nat \<Rightarrow> (vyrn_error + unit) \<times> value_log" where
  "check_bounds l offset total_len =
     (let until = unat offset + total_len;
          oob = Inl (CorruptValue offset ''value reference is out of bounds'') in
      if 2 ^ 64 \<le> until then (oob, l)
      else if until \<le> vl_len l then (Inr (), l)
      else
        (let fresh = length (vl_file l); l = l\<lparr>vl_len := max (vl_len l) fresh\<rparr> in
         if until \<le> fresh then (Inr (), l) else (oob, l)))"

definition read_exact_at :: "bytes \<Rightarrow> nat \<Rightarrow> nat \<Rightarrow> vyrn_error + bytes" where
  "read_exact_at file n offset = (if offset + n \<le> length file then Inr (bslice file offset n) else Inl Io)"

text \<open>
  The two read shapes of \<open>read_uncached\<close>: one read of the whole record for a small
  value, or the header and then value and footer for a large one.
\<close>

definition read_framed :: "(bytes \<Rightarrow> u32) \<Rightarrow> bytes \<Rightarrow> value_ref \<Rightarrow> vyrn_error + (bytes \<times> bytes)" where
  "read_framed crc file r =
     (let n = unat (vr_len r); total_len = value_total_len n; at = unat (vr_offset r) in
      if n \<le> COPY_RATHER_THAN_SEEK then
        (case read_exact_at file total_len at of
           Inl e \<Rightarrow> Inl e
         | Inr rec \<Rightarrow>
             let header = take VALUE_HEADER_LEN rec;
                 val = bslice rec VALUE_HEADER_LEN (total_len - VALUE_FOOTER_LEN - VALUE_HEADER_LEN) in
             (case validate_framing crc header (drop (total_len - VALUE_FOOTER_LEN) rec) val
                     total_len (vr_offset r) of
                Inl e \<Rightarrow> Inl e
              | Inr _ \<Rightarrow> Inr (header, val)))
      else
        (case read_exact_at file VALUE_HEADER_LEN at of
           Inl e \<Rightarrow> Inl e
         | Inr header \<Rightarrow>
            (case read_exact_at file (n + VALUE_FOOTER_LEN) (at + VALUE_HEADER_LEN) of
               Inl e \<Rightarrow> Inl e
             | Inr body \<Rightarrow>
                (case validate_framing crc header (drop n body) (take n body) total_len (vr_offset r) of
                   Inl e \<Rightarrow> Inl e
                 | Inr _ \<Rightarrow> Inr (header, take n body)))))"

definition read_uncached ::
  "(bytes \<Rightarrow> u32) \<Rightarrow> value_log \<Rightarrow> value_ref \<Rightarrow> (vyrn_error + bytes) \<times> value_log" where
  "read_uncached crc l r =
     (case check_bounds l (vr_offset r) (value_total_len (unat (vr_len r))) of
        (Inl e, l) \<Rightarrow> (Inl e, l)
      | (Inr _, l) \<Rightarrow>
         (case read_framed crc (vl_file l) r of
            Inl e \<Rightarrow> (Inl e, l)
          | Inr (header, val) \<Rightarrow>
              if u64_of_be (bslice header 5 8) \<noteq> vr_revision r \<or> u32_of_be (bslice header 13 4) \<noteq> vr_len r
              then (Inl (CorruptValue (vr_offset r) ''value reference metadata mismatch''), l)
              else (Inr val, l)))"

definition vl_read ::
  "(bytes \<Rightarrow> u32) \<Rightarrow> value_log \<Rightarrow> value_ref \<Rightarrow> (vyrn_error + bytes) \<times> value_log" where
  "vl_read crc l r =
     (case cache_get (vl_cache l) (vr_offset r) (vr_revision r) (vr_len r) of
        (Some v, c) \<Rightarrow> (Inr v, l\<lparr>vl_cache := c\<rparr>)
      | (None, c) \<Rightarrow>
         (case read_uncached crc (l\<lparr>vl_cache := c\<rparr>) r of
            (Inl e, l) \<Rightarrow> (Inl e, l)
          | (Inr v, l) \<Rightarrow>
              (Inr v, l\<lparr>vl_cache := cache_insert (vl_cache l) (vr_offset r) (vr_revision r) v\<rparr>)))"

definition vl_append ::
  "(bytes \<Rightarrow> u32) \<Rightarrow> value_log \<Rightarrow> bytes \<Rightarrow> u64 \<Rightarrow> vyrn_error + (value_ref \<times> value_log)" where
  "vl_append crc l val revision =
     (if 2 ^ 32 \<le> length val then Inl ValueTooLarge
      else if 2 ^ 32 \<le> value_total_len (length val) then Inl ValueTooLarge
      else
        (let offset = length (vl_file l); file = vl_file l @ value_record crc revision val in
         Inr (\<lparr>vr_offset = word_of_nat offset, vr_len = word_of_nat (length val), vr_revision = revision\<rparr>,
              l\<lparr>vl_file := file, vl_dirty := True,
                vl_len := max (vl_len l) (offset + value_total_len (length val))\<rparr>)))"

definition vl_sync :: "value_log \<Rightarrow> value_log" where
  "vl_sync l = (if vl_dirty l then l\<lparr>vl_dirty := False\<rparr> else l)"

section \<open>Records in a file\<close>

lemma length_value_header [simp]: "length (value_header crc rv val) = VALUE_HEADER_LEN"
  by (simp add: value_header_def value_consts)

lemma length_value_footer [simp]: "length (value_footer n) = VALUE_FOOTER_LEN"
  by (simp add: value_footer_def value_consts)

lemma length_value_record [simp]: "length (value_record crc rv val) = value_total_len (length val)"
  by (simp add: value_record_def value_total_len_def)

lemma value_header_fields:
  "take 4 (value_header crc rv val) = VALUE_MAGIC"
  "value_header crc rv val ! 4 = VALUE_VERSION"
  "u64_of_be (bslice (value_header crc rv val) 5 8) = rv"
  "u32_of_be (bslice (value_header crc rv val) 13 4) = word_of_nat (length val)"
  "u32_of_be (bslice (value_header crc rv val) 17 4) = value_checksum crc rv val"
  by (simp_all add: value_header_def value_consts bslice_simps)

lemma value_len_u32:
  "length val \<le> MAX_VALUE_SIZE \<Longrightarrow> unat (word_of_nat (length val) :: u32) = length val"
  "length val \<le> MAX_VALUE_SIZE \<Longrightarrow> value_total_len (length val) < 2 ^ 32"
  by (simp_all add: MAX_VALUE_SIZE_def unat_word_of_nat_u32 value_total_len_def value_consts)

lemma value_footer_fields:
  "length val \<le> MAX_VALUE_SIZE \<Longrightarrow>
     unat (u32_of_be (take 4 (value_footer (value_total_len (length val)))))
       = value_total_len (length val)"
  "drop 4 (value_footer n) = VALUE_END"
  using value_len_u32(2)[of val]
  by (simp_all add: value_footer_def bslice_simps unat_word_of_nat_u32)

lemma validate_framing_record:
  assumes "length val \<le> MAX_VALUE_SIZE"
  shows "validate_framing crc (value_header crc rv val) (value_footer (value_total_len (length val)))
    val (value_total_len (length val)) off = Inr ()"
  using assms value_len_u32(1)[OF assms]
  by (simp add: validate_framing_def value_header_fields value_footer_fields)

lemma validate_record_value_record:
  "length val \<le> MAX_VALUE_SIZE \<Longrightarrow> validate_record crc (value_record crc rv val) off = Inr ()"
  using validate_framing_record[of val crc rv off]
  by (simp add: validate_record_def value_record_def Let_def) (simp add: value_total_len_def add.assoc)

lemma value_record_prefix_fields:
  assumes "length val \<le> MAX_VALUE_SIZE" "VALUE_HEADER_LEN \<le> k"
  shows "take 4 (take k (value_record crc rv val) @ rest) = VALUE_MAGIC"
    and "(take k (value_record crc rv val) @ rest) ! 4 = VALUE_VERSION"
    and "unat (u32_of_be (bslice (take k (value_record crc rv val) @ rest) 13 4)) = length val"
  using assms value_len_u32(1)[OF assms(1)] value_header_fields[of crc rv val]
  by (simp_all add: value_record_def bslice_append_left nth_append value_consts)

text \<open>Files made of whole records, and what repair does after a torn append.\<close>

definition records_file :: "(bytes \<Rightarrow> u32) \<Rightarrow> (u64 \<times> bytes) list \<Rightarrow> bytes" where
  "records_file crc rs = concat (map (\<lambda>(rv, val). value_record crc rv val) rs)"

definition values_ok :: "(u64 \<times> bytes) list \<Rightarrow> bool" where
  "values_ok rs \<longleftrightarrow> (\<forall>(rv, val) \<in> set rs. length val \<le> MAX_VALUE_SIZE)"

lemma recover_torn:
  assumes "length val \<le> MAX_VALUE_SIZE" "k < value_total_len (length val)"
  shows "recover_tail_from crc off (take k (value_record crc rv val)) = Inr off"
proof (cases "k < VALUE_HEADER_LEN")
  case True
  then show ?thesis by (subst recover_tail_from.simps) auto
next
  case False
  with assms value_record_prefix_fields[OF assms(1), of k crc rv "[]"] show ?thesis
    by (subst recover_tail_from.simps) (auto simp: Let_def)
qed

lemma recover_record:
  assumes "length val \<le> MAX_VALUE_SIZE"
  shows "recover_tail_from crc off (value_record crc rv val @ rest) =
    recover_tail_from crc (off + value_total_len (length val)) rest"
proof -
  have len: "VALUE_HEADER_LEN \<le> value_total_len (length val)" by (simp add: value_total_len_def)
  have "value_record crc rv val \<noteq> []"
    using len by (metis length_0_conv length_value_record VALUE_HEADER_LEN_def le_zero_eq zero_neq_numeral)
  with assms len value_record_prefix_fields[OF assms len, of crc rv rest]
    validate_record_value_record[OF assms, of crc rv "word_of_nat off"]
  show ?thesis by (subst recover_tail_from.simps) (simp add: Let_def)
qed

lemma recover_records:
  "values_ok rs \<Longrightarrow>
     recover_tail_from crc off (records_file crc rs @ rest) =
       recover_tail_from crc (off + length (records_file crc rs)) rest"
proof (induction rs arbitrary: off)
  case (Cons r rs)
  then show ?case
    by (cases r) (simp add: records_file_def values_ok_def recover_record add.assoc)
qed (simp add: records_file_def)

section \<open>Reads as a function of the file\<close>

text \<open>What a reference denotes in a file, with no cache and no length hint.\<close>

definition file_read :: "(bytes \<Rightarrow> u32) \<Rightarrow> bytes \<Rightarrow> value_ref \<Rightarrow> vyrn_error + bytes" where
  "file_read crc file r =
     (let n = unat (vr_len r); at = unat (vr_offset r) in
      if 2 ^ 64 \<le> at + value_total_len n \<or> length file < at + value_total_len n
      then Inl (CorruptValue (vr_offset r) ''value reference is out of bounds'')
      else
        (let rec = bslice file at (value_total_len n); header = take VALUE_HEADER_LEN rec;
             val = take n (drop VALUE_HEADER_LEN rec) in
         case validate_framing crc header (drop (VALUE_HEADER_LEN + n) rec) val
                (value_total_len n) (vr_offset r) of
           Inl e \<Rightarrow> Inl e
         | Inr _ \<Rightarrow>
             if u64_of_be (bslice header 5 8) \<noteq> vr_revision r \<or> u32_of_be (bslice header 13 4) \<noteq> vr_len r
             then Inl (CorruptValue (vr_offset r) ''value reference metadata mismatch'')
             else Inr val))"

lemma read_framed_record:
  assumes "unat (vr_offset r) + value_total_len (unat (vr_len r)) \<le> length file"
  defines "rec \<equiv> bslice file (unat (vr_offset r)) (value_total_len (unat (vr_len r)))"
  shows "read_framed crc file r =
    (let header = take VALUE_HEADER_LEN rec; val = take (unat (vr_len r)) (drop VALUE_HEADER_LEN rec) in
     case validate_framing crc header (drop (VALUE_HEADER_LEN + unat (vr_len r)) rec) val
            (value_total_len (unat (vr_len r))) (vr_offset r) of
       Inl e \<Rightarrow> Inl e | Inr _ \<Rightarrow> Inr (header, val))"
proof (cases "unat (vr_len r) \<le> COPY_RATHER_THAN_SEEK")
  case True
  with assms show ?thesis
    by (simp add: read_framed_def read_exact_at_def Let_def bslice_def value_total_len_def add.commute)
next
  case False
  let ?n = "unat (vr_len r)" and ?at = "unat (vr_offset r)"
  have "bslice file ?at VALUE_HEADER_LEN = take VALUE_HEADER_LEN rec"
    by (simp add: rec_def bslice_def value_total_len_def)
  moreover have "bslice file (?at + VALUE_HEADER_LEN) (?n + VALUE_FOOTER_LEN) = drop VALUE_HEADER_LEN rec"
    by (simp add: rec_def bslice_def value_total_len_def drop_take add.commute)
  ultimately show ?thesis
    using False assms(1)
    by (simp add: read_framed_def read_exact_at_def Let_def value_total_len_def add.commute)
qed

lemma check_bounds_result:
  "vl_len l \<le> length (vl_file l) \<Longrightarrow>
     fst (check_bounds l offset n) =
       (if 2 ^ 64 \<le> unat offset + n \<or> length (vl_file l) < unat offset + n
        then Inl (CorruptValue offset ''value reference is out of bounds'') else Inr ())"
  by (auto simp: check_bounds_def Let_def)

lemma check_bounds_state:
  "vl_len l \<le> length (vl_file l) \<Longrightarrow>
     snd (check_bounds l offset n) = l \<or>
     snd (check_bounds l offset n) = l\<lparr>vl_len := length (vl_file l)\<rparr>"
  by (auto simp: check_bounds_def Let_def max_absorb2)

lemma read_uncached_file:
  assumes "vl_len l \<le> length (vl_file l)"
  shows "fst (read_uncached crc l r) = file_read crc (vl_file l) r"
proof -
  obtain b l' where b: "check_bounds l (vr_offset r) (value_total_len (unat (vr_len r))) = (b, l')"
    by fastforce
  have "vl_file l' = vl_file l"
    using b check_bounds_state[OF assms, of "vr_offset r" "value_total_len (unat (vr_len r))"] by auto
  with b check_bounds_result[OF assms, of "vr_offset r" "value_total_len (unat (vr_len r))"]
    read_framed_record[of r "vl_file l" crc]
  show ?thesis
    by (auto simp: read_uncached_def file_read_def Let_def split: sum.splits if_splits)
qed

lemma read_uncached_state:
  assumes "vl_len l \<le> length (vl_file l)"
  shows "snd (read_uncached crc l r) = l \<or> snd (read_uncached crc l r) = l\<lparr>vl_len := length (vl_file l)\<rparr>"
  using check_bounds_state[OF assms, of "vr_offset r" "value_total_len (unat (vr_len r))"]
  by (auto simp: read_uncached_def split: sum.splits prod.splits)

lemma file_read_append:
  assumes "file_read crc file r = Inr v"
  shows "file_read crc (file @ ext) r = Inr v"
proof -
  have "\<not> length file < unat (vr_offset r) + value_total_len (unat (vr_len r))"
    using assms by (auto simp: file_read_def Let_def split: if_splits)
  then have "file_read crc (file @ ext) r = file_read crc file r"
    by (simp add: file_read_def Let_def bslice_append_left)
  with assms show ?thesis by simp
qed

lemma value_record_parts:
  "take VALUE_HEADER_LEN (value_record crc rv val) = value_header crc rv val"
  "take (length val) (drop VALUE_HEADER_LEN (value_record crc rv val)) = val"
  "drop (VALUE_HEADER_LEN + length val) (value_record crc rv val) = value_footer (value_total_len (length val))"
  by (simp_all add: value_record_def)

lemma file_read_appended:
  assumes "length val \<le> MAX_VALUE_SIZE" "length file + value_total_len (length val) < 2 ^ 64"
  shows "file_read crc (file @ value_record crc rv val)
    \<lparr>vr_offset = word_of_nat (length file), vr_len = word_of_nat (length val), vr_revision = rv\<rparr> = Inr val"
proof -
  have off: "unat (word_of_nat (length file) :: u64) = length file"
    using assms(2) by (simp add: unat_of_nat)
  have "bslice (file @ value_record crc rv val) (length file) (value_total_len (length val))
      = value_record crc rv val"
    by (simp add: bslice_append_right)
  then show ?thesis
    using assms off value_len_u32(1)[OF assms(1)]
      validate_framing_record[OF assms(1), of crc rv "word_of_nat (length file)"]
    by (simp add: file_read_def Let_def value_record_parts value_header_fields)
qed

section \<open>The cache answers as the file does\<close>

definition cache_ok :: "value_cache \<Rightarrow> bool" where
  "cache_ok c \<longleftrightarrow> sorted_rows (vc_entries c) \<and> distinct (vc_clock c) \<and>
     set (vc_clock c) = fst ` set (vc_entries c) \<and>
     vc_bytes c = sum_list (map (\<lambda>(k, e). length (cv_value e)) (vc_entries c)) \<and>
     vc_bytes c \<le> vc_budget c"

definition cache_sound :: "(bytes \<Rightarrow> u32) \<Rightarrow> bytes \<Rightarrow> value_cache \<Rightarrow> bool" where
  "cache_sound crc file c \<longleftrightarrow>
     (\<forall>k e. rget (vc_entries c) k = Some e \<longrightarrow>
        (\<exists>len. unat len = length (cv_value e) \<and>
           file_read crc file \<lparr>vr_offset = k, vr_len = len, vr_revision = cv_revision e\<rparr> = Inr (cv_value e)))"

definition vl_ok :: "(bytes \<Rightarrow> u32) \<Rightarrow> value_log \<Rightarrow> bool" where
  "vl_ok crc l \<longleftrightarrow> vl_len l \<le> length (vl_file l) \<and> cache_ok (vl_cache l) \<and>
     cache_sound crc (vl_file l) (vl_cache l)"

definition entry_bytes :: "(u64 \<times> cached_value) list \<Rightarrow> nat" where
  "entry_bytes es = sum_list (map (\<lambda>(k, e). length (cv_value e)) es)"

lemma entry_bytes_simps [simp]:
  "entry_bytes [] = 0" "entry_bytes ((k, e) # es) = length (cv_value e) + entry_bytes es"
  by (simp_all add: entry_bytes_def)

lemma entry_bytes_rdel:
  "rget es k = Some e \<Longrightarrow> entry_bytes (rdel k es) = entry_bytes es - length (cv_value e)"
  "rget es k = Some e \<Longrightarrow> length (cv_value e) \<le> entry_bytes es"
  by (induction es) (auto split: if_splits)

lemma entry_bytes_rput_new:
  "rget es k = None \<Longrightarrow> entry_bytes (rput k e es) = length (cv_value e) + entry_bytes es"
  by (induction es) (auto split: if_splits)

lemma entry_bytes_rput_old:
  "sorted_rows es \<Longrightarrow> rget es k = Some p \<Longrightarrow>
     entry_bytes (rput k e es) = entry_bytes es - length (cv_value p) + length (cv_value e)"
proof (induction es)
  case (Cons x es)
  obtain a q where x: "x = (a, q)" by fastforce
  moreover have "rget es k = None" if "k < a"
    using Cons.prems(1) that x by (intro rget_less_None) auto
  moreover have "length (cv_value p) \<le> entry_bytes es" if "rget es k = Some p"
    using that by (rule entry_bytes_rdel(2))
  ultimately show ?case using Cons by (auto split: if_splits)
qed simp

lemma entry_bytes_rmodify [simp]:
  "entry_bytes (rmodify k (\<lambda>e. e\<lparr>cv_referenced := b\<rparr>) es) = entry_bytes es"
  by (induction es) auto

lemma cache_ok_alt:
  "cache_ok c \<longleftrightarrow> sorted_rows (vc_entries c) \<and> distinct (vc_clock c) \<and>
     set (vc_clock c) = fst ` set (vc_entries c) \<and> vc_bytes c = entry_bytes (vc_entries c) \<and>
     vc_bytes c \<le> vc_budget c"
  by (simp add: cache_ok_def entry_bytes_def)

lemma fst_set_rmodify [simp]: "fst ` set (rmodify k f r) = fst ` set r"
  by (metis keys_rmodify list.set_map)

lemma make_room_props:
  assumes "cache_ok c" "cache_sound crc file c"
  shows "cache_ok (cache_make_room c need) \<and> cache_sound crc file (cache_make_room c need) \<and>
    vc_budget (cache_make_room c need) = vc_budget c \<and>
    (need \<le> vc_budget c \<longrightarrow> vc_bytes (cache_make_room c need) + need \<le> vc_budget c)"
  using assms
proof (induction c need rule: cache_make_room.induct)
  case (1 c need)
  show ?case
  proof (cases "vc_bytes c + need \<le> vc_budget c")
    case True
    with 1 show ?thesis by (subst (1 2 3 4) cache_make_room.simps) simp
  next
    case False
    show ?thesis
    proof (cases "vc_clock c")
      case Nil
      with 1 have "vc_bytes c = 0" by (simp add: cache_ok_alt)
      with False Nil 1 show ?thesis by (subst (1 2 3 4) cache_make_room.simps) simp
    next
      case (Cons victim clock)
      with 1 obtain e where e: "rget (vc_entries c) victim = Some e"
        by (metis cache_ok_alt list.set_intros(1) not_None_eq rget_None)
      show ?thesis
      proof (cases "cv_referenced e")
        case True
        let ?c = "c\<lparr>vc_entries := rmodify victim (\<lambda>e. e\<lparr>cv_referenced := False\<rparr>) (vc_entries c),
                    vc_clock := clock @ [victim]\<rparr>"
        have "cache_ok ?c" using 1 Cons by (auto simp: cache_ok_alt)
        moreover have "cache_sound crc file ?c" using 1(5) by (auto simp: cache_sound_def)
        moreover have "cache_make_room c need = cache_make_room ?c need"
          using False Cons e True by (subst cache_make_room.simps) simp
        ultimately show ?thesis using "1.IH"(2)[OF False Cons e True] by simp
      next
        case False': False
        let ?c = "c\<lparr>vc_entries := rdel victim (vc_entries c), vc_clock := clock,
                    vc_bytes := vc_bytes c - length (cv_value e)\<rparr>"
        have "cache_ok ?c"
          using 1 Cons e by (auto simp: cache_ok_alt entry_bytes_rdel keys_rdel)
        moreover have "cache_sound crc file ?c"
          using 1(4,5) by (auto simp: cache_sound_def cache_ok_alt)
        moreover have "cache_make_room c need = cache_make_room ?c need"
          using False Cons e False' by (subst cache_make_room.simps) simp
        ultimately show ?thesis using "1.IH"(3)[OF False Cons e False'] by simp
      qed
    qed
  qed
qed

lemma cache_insert_props:
  assumes "cache_ok c" "cache_sound crc file c"
    and "file_read crc file \<lparr>vr_offset = k, vr_len = len, vr_revision = rv\<rparr> = Inr val"
    and "unat len = length val"
  shows "cache_ok (cache_insert c k rv val) \<and> cache_sound crc file (cache_insert c k rv val)"
proof (cases "vc_budget c = 0 \<or> vc_budget c div 8 < length val")
  case False
  define d where "d = cache_make_room c (length val)"
  have room: "cache_ok d" "cache_sound crc file d" "vc_budget d = vc_budget c"
    "vc_bytes d + length val \<le> vc_budget c"
    using make_room_props[OF assms(1,2), of "length val"] False by (auto simp: d_def)
  have snd: "cache_sound crc file
      (d\<lparr>vc_entries := rput k \<lparr>cv_value = val, cv_revision = rv, cv_referenced = False\<rparr> (vc_entries d)\<rparr>)"
    using room(2) assms(3,4) by (auto simp: cache_sound_def)
  show ?thesis
  proof (cases "rget (vc_entries d) k")
    case None
    then have "k \<notin> set (vc_clock d)" using room(1) by (simp add: cache_ok_alt rget_None)
    with None False room snd show ?thesis
      by (simp add: cache_insert_def d_def[symmetric] Let_def cache_ok_alt cache_sound_def
          entry_bytes_rput_new keys_rput)
  next
    case (Some p)
    then have "k \<in> fst ` set (vc_entries d)" by (metis not_None_eq rget_None)
    moreover have "length (cv_value p) \<le> vc_bytes d"
      using room(1) entry_bytes_rdel(2)[OF Some] by (simp add: cache_ok_alt)
    ultimately show ?thesis
      using Some False room snd
      by (simp add: cache_insert_def d_def[symmetric] Let_def cache_ok_alt cache_sound_def
          entry_bytes_rput_old keys_rput insert_absorb)
  qed
qed (use assms in \<open>simp add: cache_insert_def\<close>)

lemma cache_touch:
  "cache_ok c \<Longrightarrow> cache_ok (c\<lparr>vc_entries := rmodify k (\<lambda>e. e\<lparr>cv_referenced := b\<rparr>) (vc_entries c)\<rparr>)"
  "cache_sound crc file c \<Longrightarrow>
     cache_sound crc file (c\<lparr>vc_entries := rmodify k (\<lambda>e. e\<lparr>cv_referenced := b\<rparr>) (vc_entries c)\<rparr>)"
  by (simp add: cache_ok_alt, auto simp: cache_sound_def)

lemma cache_get_sound:
  assumes "cache_ok c" "cache_sound crc file c" "cache_get c off rv len = (ans, c')"
  shows "cache_ok c'" "cache_sound crc file c'"
    "\<And>v. ans = Some v \<Longrightarrow>
       file_read crc file \<lparr>vr_offset = off, vr_len = len, vr_revision = rv\<rparr> = Inr v"
proof -
  show "cache_ok c'" "cache_sound crc file c'"
    using assms cache_touch by (auto simp: cache_get_def split: option.splits if_splits)
  fix v assume "ans = Some v"
  with assms(3) have "\<exists>e. rget (vc_entries c) off = Some e \<and> cv_revision e = rv \<and>
      length (cv_value e) = unat len \<and> v = cv_value e"
    by (simp add: cache_get_def split: option.splits if_splits)
  then obtain e where e: "rget (vc_entries c) off = Some e" "cv_revision e = rv"
    "length (cv_value e) = unat len" "v = cv_value e"
    by blast
  have "\<exists>len'. unat len' = length (cv_value e) \<and>
      file_read crc file \<lparr>vr_offset = off, vr_len = len', vr_revision = cv_revision e\<rparr> = Inr (cv_value e)"
    using assms(2) e(1) by (simp add: cache_sound_def)
  then obtain len' where "unat len' = unat len"
    "file_read crc file \<lparr>vr_offset = off, vr_len = len', vr_revision = rv\<rparr> = Inr v"
    using e(2-4) by auto
  then show "file_read crc file \<lparr>vr_offset = off, vr_len = len, vr_revision = rv\<rparr> = Inr v"
    using unsigned_word_eqI by metis
qed

lemma value_ref_eta [simp]:
  "\<lparr>vr_offset = vr_offset r, vr_len = vr_len r, vr_revision = vr_revision r\<rparr> = (r :: value_ref)"
  by (cases r) simp

lemma file_read_len: "file_read crc file r = Inr v \<Longrightarrow> unat (vr_len r) = length v"
  by (auto simp: file_read_def Let_def value_total_len_def split: sum.splits if_splits)

lemma vl_read_file:
  assumes "vl_ok crc l"
  shows "fst (vl_read crc l r) = file_read crc (vl_file l) r \<and>
    vl_ok crc (snd (vl_read crc l r)) \<and> vl_file (snd (vl_read crc l r)) = vl_file l"
proof -
  have ok: "vl_len l \<le> length (vl_file l)" "cache_ok (vl_cache l)" "cache_sound crc (vl_file l) (vl_cache l)"
    using assms by (auto simp: vl_ok_def)
  obtain ans c where g: "cache_get (vl_cache l) (vr_offset r) (vr_revision r) (vr_len r) = (ans, c)"
    by fastforce
  note g' = cache_get_sound[OF ok(2,3) g]
  show ?thesis
  proof (cases ans)
    case (Some v)
    with g g'(3)[OF Some] g'(1,2) ok(1) show ?thesis by (simp add: vl_read_def vl_ok_def)
  next
    case None
    obtain res l2 where u: "read_uncached crc (l\<lparr>vl_cache := c\<rparr>) r = (res, l2)" by fastforce
    have res: "res = file_read crc (vl_file l) r"
      using read_uncached_file[of "l\<lparr>vl_cache := c\<rparr>" crc r] ok(1) u by simp
    have l2: "l2 = l\<lparr>vl_cache := c\<rparr> \<or> l2 = l\<lparr>vl_cache := c, vl_len := length (vl_file l)\<rparr>"
      using read_uncached_state[of "l\<lparr>vl_cache := c\<rparr>" crc r] ok(1) u by simp
    then have l2': "vl_len l2 \<le> length (vl_file l)" "vl_file l2 = vl_file l" "vl_cache l2 = c"
      using ok(1) by auto
    show ?thesis
    proof (cases res)
      case (Inl e)
      then have "file_read crc (vl_file l) r = Inl e" using res by simp
      with Inl None g u l2' g'(1,2) show ?thesis by (simp add: vl_read_def vl_ok_def)
    next
      case (Inr v)
      then have fr: "file_read crc (vl_file l) r = Inr v" using res by simp
      with file_read_len[of crc "vl_file l" r v] have
        "cache_ok (cache_insert c (vr_offset r) (vr_revision r) v) \<and>
         cache_sound crc (vl_file l) (cache_insert c (vr_offset r) (vr_revision r) v)"
        using cache_insert_props[OF g'(1,2), of "vr_offset r" "vr_len r" "vr_revision r" v] by simp
      with Inr fr None g u l2' show ?thesis by (simp add: vl_read_def vl_ok_def)
    qed
  qed
qed

lemma vl_ok_budget: "vl_ok crc l \<Longrightarrow> vc_bytes (vl_cache l) \<le> vc_budget (vl_cache l)"
  by (simp add: vl_ok_def cache_ok_def)

lemma cache_sound_append: "cache_sound crc file c \<Longrightarrow> cache_sound crc (file @ ext) c"
  unfolding cache_sound_def using file_read_append by blast

lemma vl_append_props:
  assumes "vl_ok crc l" "vl_append crc l val rv = Inr (r, l')"
    and "length val \<le> MAX_VALUE_SIZE" "length (vl_file l') < 2 ^ 64"
  shows "vl_ok crc l' \<and> file_read crc (vl_file l') r = Inr val \<and>
    vl_file l' = vl_file l @ value_record crc rv val"
proof -
  have l': "vl_file l' = vl_file l @ value_record crc rv val"
    "r = \<lparr>vr_offset = word_of_nat (length (vl_file l)), vr_len = word_of_nat (length val), vr_revision = rv\<rparr>"
    "vl_cache l' = vl_cache l" "vl_len l' = max (vl_len l) (length (vl_file l) + value_total_len (length val))"
    using assms(2) by (auto simp: vl_append_def Let_def split: if_splits)
  then show ?thesis
    using assms(1,3,4) file_read_appended[of val "vl_file l" crc rv] cache_sound_append
    by (auto simp: vl_ok_def)
qed

section \<open>The interface of a value store\<close>

text \<open>
  What the version histories rely on: storing a value yields a reference that
  denotes it, and every reference that denoted a value still does.
\<close>

locale value_store =
  fixes ok :: "'s \<Rightarrow> bool"
    and denotes :: "'s \<Rightarrow> 'r \<Rightarrow> bytes \<Rightarrow> bool"
    and stores :: "'s \<Rightarrow> bytes \<Rightarrow> u64 \<Rightarrow> 'r \<Rightarrow> 's \<Rightarrow> bool"
  assumes stores_ok: "ok s \<Longrightarrow> stores s v rv r s' \<Longrightarrow> ok s'"
    and stores_denotes: "ok s \<Longrightarrow> stores s v rv r s' \<Longrightarrow> denotes s' r v"
    and stores_keeps: "ok s \<Longrightarrow> stores s v rv r s' \<Longrightarrow> denotes s r' w \<Longrightarrow> denotes s' r' w"
    and denotes_unique: "denotes s r v \<Longrightarrow> denotes s r w \<Longrightarrow> v = w"
begin

text \<open>A later store in which everything stored earlier is still found.\<close>

definition keeps :: "'s \<Rightarrow> 's \<Rightarrow> bool" where
  "keeps s s' \<longleftrightarrow> (\<forall>r v. denotes s r v \<longrightarrow> denotes s' r v)"

lemma keepsD: "keeps s s' \<Longrightarrow> denotes s r v \<Longrightarrow> denotes s' r v"
  by (simp add: keeps_def)

lemma keeps_refl: "keeps s s"
  by (simp add: keeps_def)

lemma keeps_trans: "keeps s t \<Longrightarrow> keeps t u \<Longrightarrow> keeps s u"
  by (simp add: keeps_def)

lemma stores_keeps_all: "ok s \<Longrightarrow> stores s v rv r s' \<Longrightarrow> keeps s s'"
  using stores_keeps by (auto simp: keeps_def)

end

definition vl_denotes :: "(bytes \<Rightarrow> u32) \<Rightarrow> value_log \<Rightarrow> value_ref \<Rightarrow> bytes \<Rightarrow> bool" where
  "vl_denotes crc l r v \<longleftrightarrow> file_read crc (vl_file l) r = Inr v"

definition vl_stores ::
  "(bytes \<Rightarrow> u32) \<Rightarrow> value_log \<Rightarrow> bytes \<Rightarrow> u64 \<Rightarrow> value_ref \<Rightarrow> value_log \<Rightarrow> bool" where
  "vl_stores crc l v rv r l' \<longleftrightarrow> vl_append crc l v rv = Inr (r, l') \<and>
     length v \<le> MAX_VALUE_SIZE \<and> length (vl_file l') < 2 ^ 64"

interpretation value_log: value_store "vl_ok crc" "vl_denotes crc" "vl_stores crc" for crc
proof
  fix s s' v rv r r' w
  assume a: "vl_ok crc s" "vl_stores crc s v rv r s'"
  then show "vl_ok crc s'" "vl_denotes crc s' r v"
    using vl_append_props[of crc s v rv r s'] by (auto simp: vl_stores_def vl_denotes_def)
  assume "vl_denotes crc s r' w"
  then show "vl_denotes crc s' r' w"
    using a vl_append_props[of crc s v rv r s'] file_read_append
    by (auto simp: vl_stores_def vl_denotes_def)
qed (simp add: vl_denotes_def)

section \<open>Properties\<close>

text \<open>
  C20: the cache is invisible.  On a well-formed log every read, hit or miss, gives
  exactly what the file holds at the reference (value or error), leaves the file
  alone, and keeps the cache within its byte budget and consistent with the file.
\<close>

theorem vl_read_transparent:
  assumes "vl_ok crc l"
  shows "fst (vl_read crc l r) = file_read crc (vl_file l) r \<and>
    vl_ok crc (snd (vl_read crc l r)) \<and> vl_file (snd (vl_read crc l r)) = vl_file l \<and>
    vc_bytes (vl_cache (snd (vl_read crc l r))) \<le> vc_budget (vl_cache (snd (vl_read crc l r)))"
  using vl_read_file[OF assms, of r] vl_ok_budget by blast

definition sample_crc :: "bytes \<Rightarrow> u32" where "sample_crc bs = word_of_nat (sum_list (map unat bs))"

definition empty_log :: "nat \<Rightarrow> value_log" where
  "empty_log budget = \<lparr>vl_file = [], vl_dirty = False, vl_len = 0, vl_cache = cache_new budget\<rparr>"

lemma empty_log_ok [simp]: "vl_ok crc (empty_log budget)"
  by (simp add: vl_ok_def empty_log_def cache_new_def cache_ok_def cache_sound_def)

text \<open>An appended value, read from the file and then from the cache.\<close>

theorem vl_read_transparent_witness:
  "\<exists>r l. vl_append sample_crc (empty_log 64) [7] 1 = Inr (r, l) \<and>
     fst (vl_read sample_crc l r) = Inr [7] \<and>
     fst (vl_read sample_crc (snd (vl_read sample_crc l r)) r) = Inr [7] \<and>
     vc_bytes (vl_cache (snd (vl_read sample_crc l r))) \<le> vc_budget (vl_cache (snd (vl_read sample_crc l r)))"
proof -
  obtain r l where a: "vl_append sample_crc (empty_log 64) [7] 1 = Inr (r, l)" "length (vl_file l) = 33"
    by (simp add: vl_append_def Let_def value_total_len_def value_consts empty_log_def)
  have "length [7 :: 8 word] \<le> MAX_VALUE_SIZE" "length (vl_file l) < 2 ^ 64"
    using a(2) by (simp_all add: MAX_VALUE_SIZE_def)
  from vl_append_props[OF empty_log_ok a(1) this]
  have l: "vl_ok sample_crc l" "file_read sample_crc (vl_file l) r = Inr [7]" by blast+
  note first = vl_read_transparent[OF l(1), of r]
  note second = vl_read_transparent[OF conjunct1[OF conjunct2[OF first]], of r]
  show ?thesis using a(1) l(2) first second by (intro exI[of _ r] exI[of _ l]) simp
qed

text \<open>
  C17: an appended value is read back through its reference, now and after any
  further appends.
\<close>

theorem vl_append_read:
  assumes "vl_ok crc l" "vl_append crc l val rv = Inr (r, l1)" "length val \<le> MAX_VALUE_SIZE"
    and "length (vl_file l1) < 2 ^ 64"
    and "vl_append crc l1 val' rv' = Inr (r', l2)" "length val' \<le> MAX_VALUE_SIZE"
    and "length (vl_file l2) < 2 ^ 64"
  shows "fst (vl_read crc l1 r) = Inr val \<and> fst (vl_read crc l2 r) = Inr val \<and>
    fst (vl_read crc l2 r') = Inr val'"
proof -
  note a = vl_append_props[OF assms(1-4)]
  note b = vl_append_props[OF conjunct1[OF a] assms(5-7)]
  show ?thesis
    using a b vl_read_file[of crc l1 r] vl_read_file[of crc l2 r] vl_read_file[of crc l2 r']
      file_read_append[of crc "vl_file l1" r val "value_record crc rv' val'"] by metis
qed

theorem vl_append_read_witness:
  "\<exists>r l1 r' l2. vl_append sample_crc (empty_log 64) [7] 1 = Inr (r, l1) \<and>
     vl_append sample_crc l1 [8, 9] 2 = Inr (r', l2) \<and> fst (vl_read sample_crc l2 r) = Inr [7]"
proof -
  obtain r l1 where a: "vl_append sample_crc (empty_log 64) [7] 1 = Inr (r, l1)"
    "length (vl_file l1) = 33"
    by (simp add: vl_append_def Let_def value_total_len_def value_consts empty_log_def)
  obtain r' l2 where b: "vl_append sample_crc l1 [8, 9] 2 = Inr (r', l2)" "length (vl_file l2) = 67"
    using a(2) by (simp add: vl_append_def Let_def value_total_len_def value_consts)
  have "fst (vl_read sample_crc l2 r) = Inr [7]"
    using vl_append_read[OF empty_log_ok a(1) _ _ b(1)] a(2) b(2) by (simp add: MAX_VALUE_SIZE_def)
  with a b show ?thesis by blast
qed

text \<open>
  C19: a crash in the middle of an append is repaired exactly.  Opening a file of
  whole records followed by any proper prefix of one more record leaves the whole
  records and nothing else.
\<close>

theorem recover_tail_torn:
  assumes "values_ok rs" "length val \<le> MAX_VALUE_SIZE" "k < length (value_record crc rv val)"
  shows "recover_tail crc (records_file crc rs @ take k (value_record crc rv val))
    = Inr (records_file crc rs)"
  using assms recover_records[OF assms(1), of crc 0 "take k (value_record crc rv val)"]
    recover_torn[OF assms(2), of k crc "length (records_file crc rs)" rv]
  by (simp add: recover_tail_def)

theorem recover_tail_torn_witness:
  "recover_tail sample_crc (records_file sample_crc [(1, [5])] @ take 30 (value_record sample_crc 2 [6]))
     = Inr (records_file sample_crc [(1, [5])])"
  using recover_tail_torn[of "[(1, [5])]" "[6]" 30 sample_crc 2]
  by (simp add: values_ok_def MAX_VALUE_SIZE_def value_total_len_def value_consts)

end
