(* ===== verification/Mvcc.thy ===== *)
theory Mvcc
  imports ValueLog
begin

text \<open>
  The version histories of snapshots, \<open>crates/vyrn-core/src/mvcc.rs\<close>: per key the
  retained versions in ascending revision order, each value a reference into the
  value log; the history file; and the operations on them.  The lemmas show that a
  read at a revision sees the latest version at or below it, that appending,
  collecting and compacting change exactly the answers they mean to, and that the
  file read back is the state written.
\<close>

section \<open>State\<close>

record version =
  v_revision :: u64
  v_value :: "value_ref option"

record mvcc_state =
  gc_floor :: u64
  covered_through :: u64
  histories :: "version list rows"

definition mvcc_default :: mvcc_state where
  "mvcc_default = \<lparr>gc_floor = 0, covered_through = 0, histories = []\<rparr>"

definition MVCC_MAGIC :: bytes where "MVCC_MAGIC = ascii ''VMVC''"
definition MVCC_VERSION :: byte where "MVCC_VERSION = 3"
definition LEGACY_VERSION :: byte where "LEGACY_VERSION = 2"
definition MVCC_HEADER_LEN :: nat where "MVCC_HEADER_LEN = 24"
definition KEY_HEADER_LEN :: nat where "KEY_HEADER_LEN = 8"
definition VERSION_HEADER_LEN :: nat where "VERSION_HEADER_LEN = 25"
definition LEGACY_VERSION_HEADER_LEN :: nat where "LEGACY_VERSION_HEADER_LEN = 17"

lemmas mvcc_consts = MVCC_MAGIC_def MVCC_VERSION_def LEGACY_VERSION_def MVCC_HEADER_LEN_def
  KEY_HEADER_LEN_def VERSION_HEADER_LEN_def LEGACY_VERSION_HEADER_LEN_def

section \<open>The history file\<close>

definition version_checksum :: "(bytes \<Rightarrow> u32) \<Rightarrow> u64 \<Rightarrow> byte \<Rightarrow> u64 \<Rightarrow> u32 \<Rightarrow> u32" where
  "version_checksum crc revision present offset len =
     crc ([MVCC_VERSION, present] @ u64_to_be revision @ u64_to_be offset @ u32_to_be len)"

definition legacy_version_checksum :: "(bytes \<Rightarrow> u32) \<Rightarrow> u64 \<Rightarrow> byte \<Rightarrow> bytes \<Rightarrow> u32" where
  "legacy_version_checksum crc revision present val =
     crc ([LEGACY_VERSION, present] @ u64_to_be revision @ u32_to_be (word_of_nat (length val)) @ val)"

text \<open>
  The cursor of the source's reads is the remaining input: \<open>require\<close> tests that it is
  long enough, and an advanced \<open>offset\<close> is what is left behind the consumed bytes.
\<close>

definition require :: "bytes \<Rightarrow> nat \<Rightarrow> vyrn_error + unit" where
  "require rest n = (if length rest < n then Inl (CorruptManifest ''truncated MVCC history'') else Inr ())"

definition read_version :: "(bytes \<Rightarrow> u32) \<Rightarrow> u64 \<Rightarrow> u64 option \<Rightarrow> (vyrn_error, version) reader" where
  "read_version crc maximum_revision previous rest =
     (case require rest VERSION_HEADER_LEN of
        Inl e \<Rightarrow> Inl e
      | Inr _ \<Rightarrow>
         let revision = u64_of_be (bslice rest 0 8); present = rest ! 8;
             value_offset = u64_of_be (bslice rest 9 8); value_len = u32_of_be (bslice rest 17 4);
             expected = u32_of_be (bslice rest 21 4) in
         if revision = 0 \<or> maximum_revision < revision \<or>
            (case previous of None \<Rightarrow> False | Some p \<Rightarrow> revision \<le> p) \<or>
            1 < present \<or> MAX_VALUE_SIZE < unat value_len \<or>
            (present = 0 \<and> (value_offset \<noteq> 0 \<or> value_len \<noteq> 0)) \<or>
            version_checksum crc revision present value_offset value_len \<noteq> expected
         then Inl (CorruptManifest ''invalid MVCC version metadata'')
         else Inr (\<lparr>v_revision = revision,
                    v_value = (if present = 1
                      then Some \<lparr>vr_offset = value_offset, vr_len = value_len, vr_revision = revision\<rparr>
                      else None)\<rparr>,
                   drop VERSION_HEADER_LEN rest))"

text \<open>The older format carries the values inline; reading it moves them to the value log.\<close>

definition read_legacy_version ::
  "(bytes \<Rightarrow> u32) \<Rightarrow> u64 \<Rightarrow> u64 option \<Rightarrow> value_log \<Rightarrow> bytes \<Rightarrow>
     vyrn_error + ((version \<times> value_log) \<times> bytes)" where
  "read_legacy_version crc maximum_revision previous values rest =
     (case require rest LEGACY_VERSION_HEADER_LEN of
        Inl e \<Rightarrow> Inl e
      | Inr _ \<Rightarrow>
         let revision = u64_of_be (bslice rest 0 8); present = rest ! 8;
             value_len = unat (u32_of_be (bslice rest 9 4)); expected = u32_of_be (bslice rest 13 4);
             rest = drop LEGACY_VERSION_HEADER_LEN rest in
         if revision = 0 \<or> maximum_revision < revision \<or>
            (case previous of None \<Rightarrow> False | Some p \<Rightarrow> revision \<le> p) \<or>
            1 < present \<or> MAX_VALUE_SIZE < value_len \<or> (present = 0 \<and> value_len \<noteq> 0)
         then Inl (CorruptManifest ''invalid MVCC version metadata'')
         else
           (case require rest value_len of
              Inl e \<Rightarrow> Inl e
            | Inr _ \<Rightarrow>
               let val = take value_len rest; rest = drop value_len rest in
               if legacy_version_checksum crc revision present val \<noteq> expected
               then Inl (CorruptManifest ''invalid MVCC version checksum'')
               else if present = 1 then
                 (case vl_append crc values val revision of
                    Inl e \<Rightarrow> Inl e
                  | Inr (r, values) \<Rightarrow>
                      Inr ((\<lparr>v_revision = revision, v_value = Some r\<rparr>, values), rest))
               else Inr ((\<lparr>v_revision = revision, v_value = None\<rparr>, values), rest)))"

fun read_versions ::
  "(bytes \<Rightarrow> u32) \<Rightarrow> byte \<Rightarrow> u64 \<Rightarrow> nat \<Rightarrow> u64 option \<Rightarrow> value_log \<Rightarrow> bytes \<Rightarrow>
     vyrn_error + ((version list \<times> value_log) \<times> bytes)" where
  "read_versions crc format maximum_revision 0 previous values rest = Inr (([], values), rest)"
| "read_versions crc format maximum_revision (Suc n) previous values rest =
     (case (if format = LEGACY_VERSION
            then read_legacy_version crc maximum_revision previous values rest
            else (case read_version crc maximum_revision previous rest of
                    Inl e \<Rightarrow> Inl e
                  | Inr (v, rest) \<Rightarrow> Inr ((v, values), rest))) of
        Inl e \<Rightarrow> Inl e
      | Inr ((v, values), rest) \<Rightarrow>
         (case read_versions crc format maximum_revision n (Some (v_revision v)) values rest of
            Inl e \<Rightarrow> Inl e
          | Inr ((vs, values), rest) \<Rightarrow> Inr ((v # vs, values), rest)))"

fun read_histories ::
  "(bytes \<Rightarrow> u32) \<Rightarrow> byte \<Rightarrow> u64 \<Rightarrow> nat \<Rightarrow> version list rows \<Rightarrow> value_log \<Rightarrow> bytes \<Rightarrow>
     vyrn_error + ((version list rows \<times> value_log) \<times> bytes)" where
  "read_histories crc format maximum_revision 0 hs values rest = Inr ((hs, values), rest)"
| "read_histories crc format maximum_revision (Suc n) hs values rest =
     (case require rest KEY_HEADER_LEN of
        Inl e \<Rightarrow> Inl e
      | Inr _ \<Rightarrow>
         let key_len = unat (u32_of_be (bslice rest 0 4)); version_count = unat (u32_of_be (bslice rest 4 4));
             rest = drop KEY_HEADER_LEN rest in
         if key_len = 0 \<or> MAX_KEY_SIZE < key_len \<or> version_count = 0
         then Inl (CorruptManifest ''invalid MVCC key metadata'')
         else
           (case require rest key_len of
              Inl e \<Rightarrow> Inl e
            | Inr _ \<Rightarrow>
               let key = take key_len rest in
               (case read_versions crc format maximum_revision version_count None values (drop key_len rest) of
                  Inl e \<Rightarrow> Inl e
                | Inr ((versions, values), rest) \<Rightarrow>
                    if rget hs key \<noteq> None then Inl (CorruptManifest ''duplicate MVCC history key'')
                    else read_histories crc format maximum_revision n (rput key versions hs) values rest)))"

definition mvcc_read ::
  "(bytes \<Rightarrow> u32) \<Rightarrow> bytes option \<Rightarrow> u64 \<Rightarrow> value_log \<Rightarrow> vyrn_error + (mvcc_state \<times> value_log)" where
  "mvcc_read crc file maximum_revision values =
     (case file of
        None \<Rightarrow> Inr (mvcc_default, values)
      | Some bs \<Rightarrow>
         if length bs < MVCC_HEADER_LEN \<or> bslice bs 0 4 \<noteq> MVCC_MAGIC \<or>
            (bs ! 4 \<noteq> MVCC_VERSION \<and> bs ! 4 \<noteq> LEGACY_VERSION) \<or>
            crc (bslice bs 0 20) \<noteq> u32_of_be (bslice bs 20 4)
         then Inl (CorruptManifest ''invalid MVCC history header'')
         else
           (let floor = u64_of_be (bslice bs 12 8) in
            if maximum_revision < floor
            then Inl (CorruptManifest ''MVCC garbage-collection floor exceeds the committed revision'')
            else
              (case read_histories crc (bs ! 4) maximum_revision (unat (u32_of_be (bslice bs 8 4))) []
                      values (drop MVCC_HEADER_LEN bs) of
                 Inl e \<Rightarrow> Inl e
               | Inr ((hs, values), rest) \<Rightarrow>
                   if rest \<noteq> [] then Inl (CorruptManifest ''trailing MVCC history data'')
                   else Inr (\<lparr>gc_floor = floor, covered_through = floor, histories = hs\<rparr>, values))))"

definition write_version :: "(bytes \<Rightarrow> u32) \<Rightarrow> version \<Rightarrow> bytes" where
  "write_version crc v =
     (let present = (if v_value v \<noteq> None then 1 else 0);
          (value_offset, value_len) =
            (case v_value v of None \<Rightarrow> (0, 0) | Some r \<Rightarrow> (vr_offset r, vr_len r)) in
      u64_to_be (v_revision v) @ [present] @ u64_to_be value_offset @ u32_to_be value_len @
      u32_to_be (version_checksum crc (v_revision v) present value_offset value_len))"

fun write_histories :: "(bytes \<Rightarrow> u32) \<Rightarrow> version list rows \<Rightarrow> vyrn_error + bytes" where
  "write_histories crc [] = Inr []"
| "write_histories crc ((key, versions) # hs) =
     (if 2 ^ 32 \<le> length key then Inl KeyTooLarge
      else if 2 ^ 32 \<le> length versions then Inl (CorruptManifest ''too many versions for key'')
      else
        (case write_histories crc hs of
           Inl e \<Rightarrow> Inl e
         | Inr bs \<Rightarrow>
             Inr (u32_to_be (word_of_nat (length key)) @ u32_to_be (word_of_nat (length versions)) @ key @
                  concat (map (write_version crc) versions) @ bs)))"

definition mvcc_header :: "(bytes \<Rightarrow> u32) \<Rightarrow> nat \<Rightarrow> u64 \<Rightarrow> bytes" where
  "mvcc_header crc key_count floor =
     (let head = MVCC_MAGIC @ [MVCC_VERSION, 0, 0, 0] @ u32_to_be (word_of_nat key_count) @ u64_to_be floor in
      head @ u32_to_be (crc head))"

definition mvcc_write :: "(bytes \<Rightarrow> u32) \<Rightarrow> mvcc_state \<Rightarrow> vyrn_error + bytes" where
  "mvcc_write crc st =
     (if 2 ^ 32 \<le> length (histories st) then Inl (CorruptManifest ''too many MVCC history keys'')
      else
        (case write_histories crc (histories st) of
           Inl e \<Rightarrow> Inl e
         | Inr bs \<Rightarrow> Inr (mvcc_header crc (length (histories st)) (gc_floor st) @ bs)))"

section \<open>Operations\<close>

text \<open>\<open>versions.iter().rev().find(...)\<close>.\<close>

definition version_at :: "version list \<Rightarrow> u64 \<Rightarrow> version option" where
  "version_at versions revision = find (\<lambda>v. v_revision v \<le> revision) (rev versions)"

definition get_at ::
  "(bytes \<Rightarrow> u32) \<Rightarrow> mvcc_state \<Rightarrow> value_log \<Rightarrow> bytes \<Rightarrow> u64 \<Rightarrow>
     (vyrn_error + bytes option) \<times> value_log" where
  "get_at crc st values key revision =
     (if revision < covered_through st
      then (Inl (SnapshotTooOld revision (covered_through st)), values)
      else
        (case Option.bind (rget (histories st) key) (\<lambda>vs. version_at vs revision) of
           None \<Rightarrow> (Inr None, values)
         | Some v \<Rightarrow>
            (case v_value v of
               None \<Rightarrow> (Inr None, values)
             | Some r \<Rightarrow>
                (case vl_read crc values r of
                   (Inl e, values) \<Rightarrow> (Inl e, values)
                 | (Inr val, values) \<Rightarrow> (Inr (Some val), values)))))"

definition prepare_value ::
  "(bytes \<Rightarrow> u32) \<Rightarrow> value_log \<Rightarrow> u64 \<Rightarrow> bytes option \<Rightarrow> vyrn_error + (value_ref option \<times> value_log)" where
  "prepare_value crc values revision val =
     (case val of
        None \<Rightarrow> Inr (None, values)
      | Some v \<Rightarrow>
         (case vl_append crc values v revision of
            Inl e \<Rightarrow> Inl e
          | Inr (r, values) \<Rightarrow> Inr (Some r, values)))"

definition append_version :: "version list \<Rightarrow> u64 \<Rightarrow> value_ref option \<Rightarrow> version list" where
  "append_version versions revision val =
     (if versions \<noteq> [] \<and> v_revision (last versions) = revision
      then butlast versions @ [(last versions)\<lparr>v_value := val\<rparr>]
      else versions @ [\<lparr>v_revision = revision, v_value = val\<rparr>])"

definition append_prepared :: "mvcc_state \<Rightarrow> bytes \<Rightarrow> u64 \<Rightarrow> value_ref option \<Rightarrow> mvcc_state" where
  "append_prepared st key revision val =
     (let versions = (case rget (histories st) key of None \<Rightarrow> [] | Some vs \<Rightarrow> vs) in
      st\<lparr>histories := rput key (append_version versions revision val) (histories st)\<rparr>)"

definition mvcc_append ::
  "(bytes \<Rightarrow> u32) \<Rightarrow> mvcc_state \<Rightarrow> value_log \<Rightarrow> bytes \<Rightarrow> u64 \<Rightarrow> bytes option \<Rightarrow>
     vyrn_error + (mvcc_state \<times> value_log)" where
  "mvcc_append crc st values key revision val =
     (case prepare_value crc values revision val of
        Inl e \<Rightarrow> Inl e
      | Inr (r, values) \<Rightarrow> Inr (append_prepared st key revision r, values))"

text \<open>Compaction copies every retained value from the source log to the destination.\<close>

definition compact_value ::
  "(bytes \<Rightarrow> u32) \<Rightarrow> version \<Rightarrow> value_log \<Rightarrow> value_log \<Rightarrow>
     vyrn_error + (value_ref option \<times> value_log \<times> value_log)" where
  "compact_value crc v source destination =
     (case v_value v of
        None \<Rightarrow> Inr (None, source, destination)
      | Some r \<Rightarrow>
         (case vl_read crc source r of
            (Inl e, _) \<Rightarrow> Inl e
          | (Inr val, source) \<Rightarrow>
             (case vl_append crc destination val (v_revision v) of
                Inl e \<Rightarrow> Inl e
              | Inr (r', destination) \<Rightarrow> Inr (Some r', source, destination))))"

fun compact_versions ::
  "(bytes \<Rightarrow> u32) \<Rightarrow> version list \<Rightarrow> value_log \<Rightarrow> value_log \<Rightarrow>
     vyrn_error + (version list \<times> value_log \<times> value_log)" where
  "compact_versions crc [] source destination = Inr ([], source, destination)"
| "compact_versions crc (v # vs) source destination =
     (case compact_value crc v source destination of
        Inl e \<Rightarrow> Inl e
      | Inr (val, source, destination) \<Rightarrow>
         (case compact_versions crc vs source destination of
            Inl e \<Rightarrow> Inl e
          | Inr (vs', source, destination) \<Rightarrow>
              Inr (\<lparr>v_revision = v_revision v, v_value = val\<rparr> # vs', source, destination)))"

fun compact_histories ::
  "(bytes \<Rightarrow> u32) \<Rightarrow> version list rows \<Rightarrow> version list rows \<Rightarrow> value_log \<Rightarrow> value_log \<Rightarrow>
     vyrn_error + (version list rows \<times> value_log \<times> value_log)" where
  "compact_histories crc [] acc source destination = Inr (acc, source, destination)"
| "compact_histories crc ((key, versions) # hs) acc source destination =
     (case compact_versions crc versions source destination of
        Inl e \<Rightarrow> Inl e
      | Inr (versions', source, destination) \<Rightarrow>
          compact_histories crc hs (rput key versions' acc) source destination)"

definition mvcc_compact ::
  "(bytes \<Rightarrow> u32) \<Rightarrow> mvcc_state \<Rightarrow> value_log \<Rightarrow> value_log \<Rightarrow>
     vyrn_error + (mvcc_state \<times> value_log \<times> value_log)" where
  "mvcc_compact crc st source destination =
     (case compact_histories crc (histories st) [] source destination of
        Inl e \<Rightarrow> Inl e
      | Inr (hs, source, destination) \<Rightarrow>
          Inr (\<lparr>gc_floor = gc_floor st, covered_through = covered_through st, histories = hs\<rparr>,
               source, destination))"

definition mvcc_revisions :: "mvcc_state \<Rightarrow> (bytes \<times> u64) list" where
  "mvcc_revisions st =
     List.map_filter
       (\<lambda>(key, versions). if versions = [] then None else Some (key, v_revision (last versions)))
       (histories st)"

definition keep_from :: "u64 \<Rightarrow> version list \<Rightarrow> nat" where
  "keep_from floor versions =
     (case rposition (\<lambda>v. v_revision v \<le> floor) versions of None \<Rightarrow> 0 | Some i \<Rightarrow> i)"

definition mvcc_collect :: "mvcc_state \<Rightarrow> u64 option \<Rightarrow> u64 \<Rightarrow> nat \<times> mvcc_state" where
  "mvcc_collect st oldest_active latest =
     (let floor = (case oldest_active of None \<Rightarrow> latest | Some r \<Rightarrow> r);
          drained = map (\<lambda>(key, vs). (key, drop (keep_from floor vs) vs)) (histories st);
          removed = sum_list (map (\<lambda>(key, vs). keep_from floor vs) (histories st)) +
            (if oldest_active = None then sum_list (map (\<lambda>(key, vs). length vs) drained) else 0) in
      (removed,
       \<lparr>gc_floor = max (gc_floor st) floor, covered_through = max (covered_through st) floor,
        histories = (if oldest_active = None then [] else drained)\<rparr>))"

section \<open>The version a revision sees\<close>

lemma version_at_simps [simp]:
  "version_at [] r = None"
  "version_at (vs @ [v]) r = (if v_revision v \<le> r then Some v else version_at vs r)"
  by (simp_all add: version_at_def)

lemma find_append: "find P (xs @ ys) = (case find P xs of None \<Rightarrow> find P ys | Some x \<Rightarrow> Some x)"
  by (induction xs) auto

lemma version_at_Cons:
  "version_at (v # vs) r =
     (case version_at vs r of None \<Rightarrow> if v_revision v \<le> r then Some v else None | Some w \<Rightarrow> Some w)"
  by (simp add: version_at_def find_append split: option.splits)

lemma version_at_None: "version_at vs r = None \<longleftrightarrow> (\<forall>v \<in> set vs. r < v_revision v)"
  by (auto simp: version_at_def find_None_iff not_le)

lemma version_at_in: "version_at vs r = Some v \<Longrightarrow> v \<in> set vs"
  by (induction vs) (auto simp: version_at_Cons split: option.splits if_splits)

lemma version_at_append:
  assumes "\<forall>v \<in> set vs. v_revision v \<le> rv"
  shows "version_at (append_version vs rv val) r =
    (if rv \<le> r then Some \<lparr>v_revision = rv, v_value = val\<rparr> else version_at vs r)"
proof (cases vs rule: rev_cases)
  case (snoc ws w)
  have "w\<lparr>v_value := val\<rparr> = \<lparr>v_revision = v_revision w, v_value = val\<rparr>" by (cases w) simp
  with snoc assms show ?thesis by (auto simp: append_version_def version_at_def)
qed (simp add: append_version_def version_at_def)

lemma keep_from_le: "keep_from f vs \<le> length vs"
  by (auto simp: keep_from_def split: option.splits dest: rposition_Some)

lemma version_at_drained: "f \<le> r \<Longrightarrow> version_at (drop (keep_from f vs) vs) r = version_at vs r"
proof (induction vs)
  case (Cons v vs)
  show ?case
  proof (cases "rposition (\<lambda>v. v_revision v \<le> f) vs")
    case None
    then show ?thesis by (simp add: keep_from_def)
  next
    case (Some i)
    then have "vs ! i \<in> set vs" "v_revision (vs ! i) \<le> r"
      using rposition_Some[OF Some] Cons.prems by auto
    then have "version_at vs r \<noteq> None"
      by (auto simp: version_at_None not_less)
    with Some Cons.IH[OF Cons.prems] show ?thesis
      by (auto simp: keep_from_def version_at_Cons)
  qed
qed (simp add: keep_from_def)

section \<open>What a read answers\<close>

definition version_answer :: "(bytes \<Rightarrow> u32) \<Rightarrow> bytes \<Rightarrow> version \<Rightarrow> vyrn_error + bytes option" where
  "version_answer crc file v =
     (case v_value v of None \<Rightarrow> Inr None | Some r \<Rightarrow> map_sum (\<lambda>e. e) Some (file_read crc file r))"

definition history_answer :: "(bytes \<Rightarrow> u32) \<Rightarrow> mvcc_state \<Rightarrow> bytes \<Rightarrow> bytes \<Rightarrow> u64 \<Rightarrow> vyrn_error + bytes option" where
  "history_answer crc st file key r =
     (if r < covered_through st then Inl (SnapshotTooOld r (covered_through st))
      else
        (case Option.bind (rget (histories st) key) (\<lambda>vs. version_at vs r) of
           None \<Rightarrow> Inr None | Some v \<Rightarrow> version_answer crc file v))"

lemma get_at_answer:
  assumes "vl_ok crc l"
  shows "fst (get_at crc st l key r) = history_answer crc st (vl_file l) key r \<and>
    vl_ok crc (snd (get_at crc st l key r)) \<and> vl_file (snd (get_at crc st l key r)) = vl_file l"
proof -
  have "\<And>v. fst (vl_read crc l v) = file_read crc (vl_file l) v"
    "\<And>v. vl_ok crc (snd (vl_read crc l v)) \<and> vl_file (snd (vl_read crc l v)) = vl_file l"
    using vl_read_file[OF assms] by blast+
  then show ?thesis using assms
    by (auto simp: get_at_def history_answer_def version_answer_def
        split: option.splits prod.splits sum.splits) (metis fst_conv snd_conv sum.simps map_sum.simps)+
qed

text \<open>A history whose references all denote values of the log.\<close>

definition version_ok :: "(bytes \<Rightarrow> u32) \<Rightarrow> value_log \<Rightarrow> version \<Rightarrow> bool" where
  "version_ok crc l v \<longleftrightarrow> (\<forall>r. v_value v = Some r \<longrightarrow> (\<exists>val. vl_denotes crc l r val))"

definition mvcc_ok :: "(bytes \<Rightarrow> u32) \<Rightarrow> value_log \<Rightarrow> mvcc_state \<Rightarrow> bool" where
  "mvcc_ok crc l st \<longleftrightarrow> sorted_rows (histories st) \<and>
     (\<forall>(key, vs) \<in> set (histories st).
        sorted_wrt (<) (map v_revision vs) \<and> list_all (version_ok crc l) vs)"

lemma version_answer_ok:
  "version_ok crc l v \<Longrightarrow> \<exists>a. version_answer crc (vl_file l) v = Inr a"
  by (auto simp: version_ok_def version_answer_def vl_denotes_def split: option.splits)

lemma version_answer_keeps:
  assumes "value_log.keeps crc l l'" "version_ok crc l v"
  shows "version_answer crc (vl_file l') v = version_answer crc (vl_file l) v \<and> version_ok crc l' v"
proof (cases "v_value v")
  case (Some r)
  then obtain val where "vl_denotes crc l r val" using assms(2) by (auto simp: version_ok_def)
  moreover from this have "vl_denotes crc l' r val" using assms(1) value_log.keepsD by blast
  ultimately show ?thesis using Some by (auto simp: version_answer_def version_ok_def vl_denotes_def)
qed (simp add: version_answer_def version_ok_def)

lemma mvcc_ok_versions:
  "mvcc_ok crc l st \<Longrightarrow> rget (histories st) key = Some vs \<Longrightarrow>
     sorted_wrt (<) (map v_revision vs) \<and> list_all (version_ok crc l) vs"
  by (auto simp: mvcc_ok_def rget_in)

lemma mvcc_ok_at:
  assumes ok: "mvcc_ok crc l st"
    and "Option.bind (rget (histories st) key) (\<lambda>vs. version_at vs r) = Some v"
  shows "version_ok crc l v"
proof -
  obtain vs where vs: "rget (histories st) key = Some vs" "version_at vs r = Some v"
    using assms(2) by (auto simp: bind_eq_Some_conv)
  from mvcc_ok_versions[OF ok vs(1)] version_at_in[OF vs(2)] show ?thesis
    by (simp add: list_all_iff)
qed

lemma history_answer_keeps:
  assumes "value_log.keeps crc l l'" "mvcc_ok crc l st"
  shows "history_answer crc st (vl_file l') key r = history_answer crc st (vl_file l) key r"
  using version_answer_keeps[OF assms(1)] mvcc_ok_at[OF assms(2)]
  by (auto simp: history_answer_def split: option.splits)

lemma rget_map: "rget (map (\<lambda>(k, v). (k, f v)) r) k = map_option f (rget r k)"
  by (induction r) auto

lemma collect_at:
  "f \<le> r \<Longrightarrow>
     Option.bind (rget (map (\<lambda>(key, vs). (key, drop (keep_from f vs) vs)) hs) key) (\<lambda>vs. version_at vs r)
       = Option.bind (rget hs key) (\<lambda>vs. version_at vs r)"
  by (cases "rget hs key") (simp_all add: rget_map version_at_drained)

section \<open>Appending\<close>

lemma append_version_sorted:
  assumes "sorted_wrt (<) (map v_revision vs)" "\<forall>v \<in> set vs. v_revision v \<le> rv"
  shows "sorted_wrt (<) (map v_revision (append_version vs rv val))"
proof (cases vs rule: rev_cases)
  case (snoc ws w)
  with assms show ?thesis by (auto simp: append_version_def sorted_wrt_append)
qed (simp add: append_version_def)

lemma append_version_all:
  "list_all P vs \<Longrightarrow> P \<lparr>v_revision = rv, v_value = val\<rparr> \<Longrightarrow> list_all P (append_version vs rv val)"
proof (cases vs rule: rev_cases)
  case (snoc ws w)
  have w: "w\<lparr>v_value := val\<rparr> = \<lparr>v_revision = v_revision w, v_value = val\<rparr>" by (cases w) simp
  assume "list_all P vs" "P \<lparr>v_revision = rv, v_value = val\<rparr>"
  with snoc show ?thesis by (auto simp: append_version_def w)
qed (simp add: append_version_def)

lemma prepare_value_props:
  assumes "vl_ok crc l" "prepare_value crc l rv val = Inr (r, l')"
    and "\<forall>v. val = Some v \<longrightarrow> length v \<le> MAX_VALUE_SIZE" "length (vl_file l') < 2 ^ 64"
  shows "vl_ok crc l' \<and> value_log.keeps crc l l' \<and>
    version_answer crc (vl_file l') \<lparr>v_revision = rv, v_value = r\<rparr> = Inr val \<and>
    version_ok crc l' \<lparr>v_revision = rv, v_value = r\<rparr>"
proof (cases val)
  case (Some v)
  then obtain ref where r: "r = Some ref" "vl_append crc l v rv = Inr (ref, l')"
    using assms(2) by (auto simp: prepare_value_def split: sum.splits)
  then have "vl_stores crc l v rv ref l'" using assms(3,4) Some by (simp add: vl_stores_def)
  then have "vl_ok crc l' \<and> value_log.keeps crc l l' \<and> vl_denotes crc l' ref v"
    using assms(1) value_log.stores_ok value_log.stores_denotes value_log.stores_keeps_all by blast
  with r Some show ?thesis by (auto simp: version_answer_def version_ok_def vl_denotes_def)
next
  case None
  with assms show ?thesis
    by (auto simp: prepare_value_def version_answer_def version_ok_def value_log.keeps_refl)
qed

lemma mvcc_ok_keeps:
  assumes "mvcc_ok crc l st" "value_log.keeps crc l l'"
  shows "mvcc_ok crc l' st"
  using assms(1) version_answer_keeps[OF assms(2)] unfolding mvcc_ok_def list_all_iff by blast

lemma append_prepared_props:
  assumes "mvcc_ok crc l st" "version_ok crc l \<lparr>v_revision = rv, v_value = val\<rparr>"
    and "\<forall>vs. rget (histories st) key = Some vs \<longrightarrow> (\<forall>v \<in> set vs. v_revision v \<le> rv)"
  shows "mvcc_ok crc l (append_prepared st key rv val) \<and>
    history_answer crc (append_prepared st key rv val) file k r =
      (if k = key \<and> rv \<le> r \<and> covered_through st \<le> r
       then version_answer crc file \<lparr>v_revision = rv, v_value = val\<rparr> else history_answer crc st file k r)"
proof
  define vs where "vs = (case rget (histories st) key of None \<Rightarrow> [] | Some vs \<Rightarrow> vs)"
  have vs: "\<forall>v \<in> set vs. v_revision v \<le> rv" "sorted_wrt (<) (map v_revision vs)"
    "list_all (version_ok crc l) vs"
    using assms(3) mvcc_ok_versions[OF assms(1), of key]
    by (cases "rget (histories st) key"; simp add: vs_def)+
  have set: "set (rput key w (histories st)) \<subseteq> insert (key, w) (set (histories st))" for w
    using set_rput_subset by fast
  show "mvcc_ok crc l (append_prepared st key rv val)"
    using assms(1,2) set[of "append_version vs rv val"] append_version_sorted[OF vs(2,1), of val]
      append_version_all[OF vs(3) assms(2)]
    by (auto simp: mvcc_ok_def append_prepared_def Let_def simp flip: vs_def)
  show "history_answer crc (append_prepared st key rv val) file k r =
      (if k = key \<and> rv \<le> r \<and> covered_through st \<le> r
       then version_answer crc file \<lparr>v_revision = rv, v_value = val\<rparr> else history_answer crc st file k r)"
    by (auto simp: history_answer_def append_prepared_def Let_def version_at_append[OF vs(1)]
        vs_def[symmetric] not_less[symmetric]) (auto simp: vs_def split: option.splits)
qed

lemma mvcc_append_parts:
  assumes "mvcc_ok crc l st" "vl_ok crc l" "mvcc_append crc st l key rv val = Inr (st', l')"
    and "\<forall>v. val = Some v \<longrightarrow> length v \<le> MAX_VALUE_SIZE" "length (vl_file l') < 2 ^ 64"
    and "\<forall>vs. rget (histories st) key = Some vs \<longrightarrow> (\<forall>v \<in> set vs. v_revision v \<le> rv)"
  shows "mvcc_ok crc l' st' \<and> vl_ok crc l' \<and>
    history_answer crc st' (vl_file l') k r =
      (if k = key \<and> rv \<le> r \<and> covered_through st \<le> r then Inr val
       else history_answer crc st (vl_file l) k r)"
proof -
  obtain ref where ref: "prepare_value crc l rv val = Inr (ref, l')" "st' = append_prepared st key rv ref"
    using assms(3) by (auto simp: mvcc_append_def split: sum.splits)
  note p = prepare_value_props[OF assms(2) ref(1) assms(4,5)]
  then have ok: "mvcc_ok crc l' st" using mvcc_ok_keeps[OF assms(1)] by blast
  show ?thesis
    using p append_prepared_props[OF ok _ assms(6), of ref "vl_file l'" k r] ref(2)
      history_answer_keeps[OF _ assms(1), of l' k r] by simp
qed

section \<open>Compacting\<close>

definition version_bytes :: "version list \<Rightarrow> nat" where
  "version_bytes vs =
     (\<Sum>v\<leftarrow>vs. case v_value v of None \<Rightarrow> 0 | Some r \<Rightarrow> value_total_len (unat (vr_len r)))"

definition history_bytes :: "version list rows \<Rightarrow> nat" where
  "history_bytes hs = (\<Sum>(key, vs)\<leftarrow>hs. version_bytes vs)"

text \<open>A version and its copy in another log.\<close>

definition moved :: "(bytes \<Rightarrow> u32) \<Rightarrow> bytes \<Rightarrow> value_log \<Rightarrow> version \<Rightarrow> version \<Rightarrow> bool" where
  "moved crc file l v v' \<longleftrightarrow> v_revision v' = v_revision v \<and>
     version_answer crc (vl_file l) v' = version_answer crc file v \<and> version_ok crc l v'"

lemma moved_keeps: "moved crc file l v v' \<Longrightarrow> value_log.keeps crc l l' \<Longrightarrow> moved crc file l' v v'"
  using version_answer_keeps by (auto simp: moved_def)

lemma version_ok_file: "vl_file l = vl_file l' \<Longrightarrow> version_ok crc l v = version_ok crc l' v"
  by (simp add: version_ok_def vl_denotes_def)

lemma validate_framing_max:
  "validate_framing crc h f val n off = Inr u \<Longrightarrow> length val \<le> MAX_VALUE_SIZE"
  unfolding validate_framing_def Let_def by (simp split: if_splits)

lemma file_read_max: "file_read crc file r = Inr v \<Longrightarrow> length v \<le> MAX_VALUE_SIZE"
  unfolding file_read_def Let_def by (auto split: sum.splits if_splits dest: validate_framing_max)

lemma vl_append_total:
  assumes "vl_ok crc l" "length val \<le> MAX_VALUE_SIZE"
    and "length (vl_file l) + value_total_len (length val) < 2 ^ 64"
  shows "\<exists>r l'. vl_stores crc l val rv r l' \<and>
    length (vl_file l') = length (vl_file l) + value_total_len (length val)"
  using assms(2,3)
  by (simp add: vl_stores_def vl_append_def Let_def value_total_len_def value_consts MAX_VALUE_SIZE_def)

lemma compact_value_props:
  assumes "vl_ok crc src" "vl_ok crc dst" "version_ok crc src v"
    and "length (vl_file dst) + version_bytes [v] < 2 ^ 64"
  shows "\<exists>r src' dst'. compact_value crc v src dst = Inr (r, src', dst') \<and>
    vl_ok crc src' \<and> vl_file src' = vl_file src \<and> vl_ok crc dst' \<and> value_log.keeps crc dst dst' \<and>
    length (vl_file dst') = length (vl_file dst) + version_bytes [v] \<and>
    moved crc (vl_file src) dst' v \<lparr>v_revision = v_revision v, v_value = r\<rparr>"
proof (cases "v_value v")
  case None
  with assms show ?thesis
    by (simp add: compact_value_def version_bytes_def moved_def version_answer_def version_ok_def
        value_log.keeps_refl)
next
  case (Some r)
  then obtain val where val: "file_read crc (vl_file src) r = Inr val"
    using assms(3) by (auto simp: version_ok_def vl_denotes_def)
  obtain src' where src': "vl_read crc src r = (Inr val, src')" "vl_ok crc src'" "vl_file src' = vl_file src"
    using vl_read_file[OF assms(1), of r] val by (metis prod.collapse)
  have len: "unat (vr_len r) = length val" "length val \<le> MAX_VALUE_SIZE"
    using file_read_len[OF val] file_read_max[OF val] by simp_all
  with assms(4) Some obtain r' dst' where dst': "vl_stores crc dst val (v_revision v) r' dst'"
    "length (vl_file dst') = length (vl_file dst) + value_total_len (length val)"
    using vl_append_total[OF assms(2) len(2), of "v_revision v"] by (auto simp: version_bytes_def)
  have "vl_ok crc dst' \<and> value_log.keeps crc dst dst' \<and> vl_denotes crc dst' r' val"
    using assms(2) dst'(1) value_log.stores_ok value_log.stores_denotes value_log.stores_keeps_all by blast
  with Some val src' dst' len(1) show ?thesis
    by (simp add: compact_value_def vl_stores_def version_bytes_def moved_def version_answer_def
        version_ok_def vl_denotes_def)
qed

lemma version_bytes_Cons: "version_bytes (v # vs) = version_bytes [v] + version_bytes vs"
  by (simp add: version_bytes_def)

lemma compact_versions_props:
  assumes "vl_ok crc src" "vl_ok crc dst" "list_all (version_ok crc src) vs"
    and "length (vl_file dst) + version_bytes vs < 2 ^ 64"
  shows "\<exists>vs' src' dst'. compact_versions crc vs src dst = Inr (vs', src', dst') \<and>
    vl_ok crc src' \<and> vl_file src' = vl_file src \<and> vl_ok crc dst' \<and> value_log.keeps crc dst dst' \<and>
    length (vl_file dst') = length (vl_file dst) + version_bytes vs \<and>
    list_all2 (moved crc (vl_file src) dst') vs vs'"
  using assms
proof (induction vs arbitrary: src dst)
  case Nil
  then show ?case by (simp add: version_bytes_def value_log.keeps_refl)
next
  case (Cons v vs)
  then obtain r src1 dst1 where one: "compact_value crc v src dst = Inr (r, src1, dst1)"
    "vl_ok crc src1" "vl_file src1 = vl_file src" "vl_ok crc dst1" "value_log.keeps crc dst dst1"
    "length (vl_file dst1) = length (vl_file dst) + version_bytes [v]"
    "moved crc (vl_file src) dst1 v \<lparr>v_revision = v_revision v, v_value = r\<rparr>"
    using compact_value_props[of crc src dst v] by (auto simp: version_bytes_Cons[of v vs])
  have "list_all (version_ok crc src1) vs" "length (vl_file dst1) + version_bytes vs < 2 ^ 64"
    using Cons.prems(3,4) one(6) version_ok_file[OF one(3)] by (auto simp: version_bytes_Cons[of v vs] list_all_iff)
  with Cons.IH[OF one(2,4)] obtain vs' src2 dst2 where rest:
    "compact_versions crc vs src1 dst1 = Inr (vs', src2, dst2)"
    "vl_ok crc src2" "vl_file src2 = vl_file src1" "vl_ok crc dst2" "value_log.keeps crc dst1 dst2"
    "length (vl_file dst2) = length (vl_file dst1) + version_bytes vs"
    "list_all2 (moved crc (vl_file src) dst2) vs vs'"
    using one(3) by auto
  with one moved_keeps[OF one(7) rest(5)] value_log.keeps_trans[OF one(5) rest(5)] show ?case
    by (simp add: version_bytes_Cons[of v vs])
qed

lemma compact_histories_props:
  assumes "vl_ok crc src" "vl_ok crc dst" "\<forall>(key, vs) \<in> set hs. list_all (version_ok crc src) vs"
    and "length (vl_file dst) + history_bytes hs < 2 ^ 64" "sorted_rows (acc @ hs)"
  shows "\<exists>hs' src' dst'. compact_histories crc hs acc src dst = Inr (acc @ hs', src', dst') \<and>
    vl_ok crc src' \<and> vl_file src' = vl_file src \<and> vl_ok crc dst' \<and> value_log.keeps crc dst dst' \<and>
    list_all2 (rel_prod (=) (list_all2 (moved crc (vl_file src) dst'))) hs hs'"
  using assms
proof (induction hs arbitrary: acc src dst)
  case Nil
  then show ?case by (simp add: value_log.keeps_refl)
next
  case (Cons h hs)
  obtain key vs where h: "h = (key, vs)" by fastforce
  have bytes: "history_bytes (h # hs) = version_bytes vs + history_bytes hs"
    by (simp add: history_bytes_def h)
  from Cons.prems h bytes obtain vs' src1 dst1 where one:
    "compact_versions crc vs src dst = Inr (vs', src1, dst1)"
    "vl_ok crc src1" "vl_file src1 = vl_file src" "vl_ok crc dst1" "value_log.keeps crc dst dst1"
    "length (vl_file dst1) = length (vl_file dst) + version_bytes vs"
    "list_all2 (moved crc (vl_file src) dst1) vs vs'"
    using compact_versions_props[of crc src dst vs] by auto
  have last: "rput key vs' acc = acc @ [(key, vs')]"
    by (rule rput_last) (use Cons.prems(5) h in \<open>auto simp: sorted_rows_append\<close>)
  have "sorted_rows ((acc @ [(key, vs')]) @ hs)"
    using Cons.prems(5) h by (auto simp: sorted_rows_append)
  moreover have "\<forall>(key, vs) \<in> set hs. list_all (version_ok crc src1) vs"
    using Cons.prems(3) version_ok_file[OF one(3)] by (auto simp: list_all_iff)
  moreover have "length (vl_file dst1) + history_bytes hs < 2 ^ 64"
    using Cons.prems(4) one(6) bytes by simp
  ultimately obtain hs' src2 dst2 where rest:
    "compact_histories crc hs (acc @ [(key, vs')]) src1 dst1 = Inr ((acc @ [(key, vs')]) @ hs', src2, dst2)"
    "vl_ok crc src2" "vl_file src2 = vl_file src1" "vl_ok crc dst2" "value_log.keeps crc dst1 dst2"
    "list_all2 (rel_prod (=) (list_all2 (moved crc (vl_file src1) dst2))) hs hs'"
    using Cons.IH[OF one(2,4)] by blast
  have "list_all2 (moved crc (vl_file src) dst2) vs vs'"
    using one(7) by (rule list_all2_mono) (rule moved_keeps[OF _ rest(5)])
  with h one last rest value_log.keeps_trans[OF one(5) rest(5)] show ?case
    by simp
qed

lemma version_at_rel:
  assumes "list_all2 R vs vs'" "\<And>v v'. R v v' \<Longrightarrow> v_revision v' = v_revision v"
  shows "rel_option R (version_at vs r) (version_at vs' r)"
  using assms
proof (induction rule: list_all2_induct)
  case (Cons v vs v' vs')
  then show ?case by (auto simp: version_at_Cons option_rel_Some1 split: option.splits)
qed simp

lemma rget_rel:
  "list_all2 (rel_prod (=) R) r s \<Longrightarrow> rel_option R (rget r k) (rget s k)"
  by (induction rule: list_all2_induct) auto

lemma list_all2_revisions: "list_all2 (moved crc file l) vs vs' \<Longrightarrow> map v_revision vs' = map v_revision vs"
  by (induction rule: list_all2_induct) (auto simp: moved_def)

lemma moved_history:
  assumes "list_all2 (rel_prod (=) (list_all2 (moved crc file l))) (histories st) hs"
    and "st' = \<lparr>gc_floor = gc_floor st, covered_through = covered_through st, histories = hs\<rparr>"
  shows "history_answer crc st' (vl_file l) key r = history_answer crc st file key r"
proof -
  let ?at = "\<lambda>hs. Option.bind (rget hs key) (\<lambda>vs. version_at vs r)"
  have "rel_option (moved crc file l) (?at (histories st)) (?at hs)"
    using rget_rel[OF assms(1), of key] version_at_rel[of "moved crc file l"]
    by (cases "rget (histories st) key"; cases "rget hs key") (auto simp: moved_def)
  then show ?thesis
    by (auto simp: history_answer_def assms(2) option_rel_Some1 option_rel_Some2 moved_def split: option.splits)
qed

lemma moved_ok:
  assumes "mvcc_ok crc src st"
    and "list_all2 (rel_prod (=) (list_all2 (moved crc file l))) (histories st) hs"
  shows "mvcc_ok crc l \<lparr>gc_floor = gc_floor st, covered_through = covered_through st, histories = hs\<rparr>"
proof -
  have "map fst hs = map fst (histories st)"
    using assms(2) by (induction rule: list_all2_induct) auto
  moreover have "\<forall>(key, vs') \<in> set hs. \<exists>vs. (key, vs) \<in> set (histories st) \<and> list_all2 (moved crc file l) vs vs'"
    using assms(2) by (induction rule: list_all2_induct) auto
  moreover have "list_all (version_ok crc l) vs'" if "list_all2 (moved crc file l) vs vs'" for vs vs'
    using that by (induction rule: list_all2_induct) (auto simp: moved_def)
  ultimately show ?thesis
    using assms(1) list_all2_revisions[of crc "file" l] by (fastforce simp: mvcc_ok_def sorted_rows_def)
qed

section \<open>The file read back\<close>

definition version_storable :: "u64 \<Rightarrow> version \<Rightarrow> bool" where
  "version_storable maximum v \<longleftrightarrow> 0 < v_revision v \<and> v_revision v \<le> maximum \<and>
     (\<forall>r. v_value v = Some r \<longrightarrow> vr_revision r = v_revision v \<and> unat (vr_len r) \<le> MAX_VALUE_SIZE)"

definition history_storable :: "u64 \<Rightarrow> bytes \<times> version list \<Rightarrow> bool" where
  "history_storable maximum h \<longleftrightarrow>
     (case h of (key, vs) \<Rightarrow>
        key \<noteq> [] \<and> length key \<le> MAX_KEY_SIZE \<and> vs \<noteq> [] \<and> length vs < 2 ^ 32 \<and>
        sorted_wrt (<) (map v_revision vs) \<and> list_all (version_storable maximum) vs)"

definition mvcc_storable :: "u64 \<Rightarrow> mvcc_state \<Rightarrow> bool" where
  "mvcc_storable maximum st \<longleftrightarrow> gc_floor st \<le> maximum \<and> sorted_rows (histories st) \<and>
     length (histories st) < 2 ^ 32 \<and> list_all (history_storable maximum) (histories st)"

lemma version_eta: "\<lparr>v_revision = v_revision v, v_value = v_value v\<rparr> = (v :: version)"
  by (cases v) simp

lemma read_version_write:
  assumes "version_storable maximum v" "\<forall>p. prev = Some p \<longrightarrow> p < v_revision v"
  shows "read_version crc maximum prev (write_version crc v @ rest) = Inr (v, rest)"
proof (cases "v_value v")
  case None
  then have "v = \<lparr>v_revision = v_revision v, v_value = None\<rparr>" using version_eta[of v] by simp
  with assms None show ?thesis
    by (auto simp: read_version_def write_version_def require_def Let_def mvcc_consts
        version_storable_def bslice_simps nth_append not_le MAX_VALUE_SIZE_def split: option.splits)
next
  case (Some r)
  then have "v = \<lparr>v_revision = v_revision v, v_value = Some r\<rparr>" using version_eta[of v] by simp
  moreover have "vr_revision r = v_revision v" "unat (vr_len r) \<le> MAX_VALUE_SIZE"
    using assms(1) Some by (auto simp: version_storable_def)
  moreover from this(1) have "\<lparr>vr_offset = vr_offset r, vr_len = vr_len r, vr_revision = v_revision v\<rparr> = r"
    by (cases r) simp
  ultimately show ?thesis using assms Some
    by (auto simp: read_version_def write_version_def require_def Let_def mvcc_consts
        version_storable_def bslice_simps nth_append not_le split: option.splits)
qed

lemma read_versions_write:
  assumes "list_all (version_storable maximum) vs" "sorted_wrt (<) (map v_revision vs)"
    and "\<forall>p. prev = Some p \<longrightarrow> (\<forall>v \<in> set vs. p < v_revision v)"
  shows "read_versions crc MVCC_VERSION maximum (length vs) prev values
      (concat (map (write_version crc) vs) @ rest) = Inr ((vs, values), rest)"
  using assms
proof (induction vs arbitrary: prev)
  case (Cons v vs)
  then have "read_version crc maximum prev (write_version crc v @ concat (map (write_version crc) vs) @ rest)
      = Inr (v, concat (map (write_version crc) vs) @ rest)"
    by (intro read_version_write) auto
  moreover have "read_versions crc MVCC_VERSION maximum (length vs) (Some (v_revision v)) values
      (concat (map (write_version crc) vs) @ rest) = Inr ((vs, values), rest)"
    using Cons.prems by (intro Cons.IH) auto
  ultimately show ?case by (simp add: mvcc_consts)
qed simp

lemma read_histories_write:
  assumes "list_all (history_storable maximum) hs" "sorted_rows (acc @ hs)"
  shows "\<exists>bs. write_histories crc hs = Inr bs \<and>
    read_histories crc MVCC_VERSION maximum (length hs) acc values (bs @ rest) =
      Inr ((acc @ hs, values), rest)"
  using assms
proof (induction hs arbitrary: acc)
  case (Cons h hs)
  obtain key vs where h: "h = (key, vs)" by fastforce
  have ok: "key \<noteq> []" "length key \<le> MAX_KEY_SIZE" "vs \<noteq> []" "length vs < 2 ^ 32"
    "sorted_wrt (<) (map v_revision vs)" "list_all (version_storable maximum) vs"
    using Cons.prems(1) h by (auto simp: history_storable_def)
  have rput_key: "rput key vs acc = acc @ [(key, vs)]"
    by (rule rput_last) (use Cons.prems(2) h in \<open>auto simp: sorted_rows_append\<close>)
  have absent: "rget acc key = None"
    using Cons.prems(2) h by (auto simp: sorted_rows_append rget_None)
  obtain bs where bs: "write_histories crc hs = Inr bs"
    "read_histories crc MVCC_VERSION maximum (length hs) (acc @ [(key, vs)]) values (bs @ rest) =
      Inr (((acc @ [(key, vs)]) @ hs, values), rest)"
    using Cons.IH[of "acc @ [(key, vs)]"] Cons.prems h by auto
  have "unat (word_of_nat (length key) :: u32) = length key" "unat (word_of_nat (length vs) :: u32) = length vs"
    using ok(2,4) by (simp_all add: unat_word_of_nat_u32 MAX_KEY_SIZE_def)
  with ok h bs rput_key absent read_versions_write[OF ok(6,5), of None crc "values" "bs @ rest"] show ?case
    by (simp add: require_def Let_def KEY_HEADER_LEN_def bslice_simps MAX_KEY_SIZE_def)
qed simp

lemma mvcc_read_write:
  assumes "mvcc_storable maximum st"
  shows "\<exists>bs. mvcc_write crc st = Inr bs \<and>
    mvcc_read crc (Some bs) maximum values = Inr (st\<lparr>covered_through := gc_floor st\<rparr>, values)"
proof -
  have ok: "gc_floor st \<le> maximum" "length (histories st) < 2 ^ 32"
    using assms by (auto simp: mvcc_storable_def)
  obtain bs where bs: "write_histories crc (histories st) = Inr bs"
    "read_histories crc MVCC_VERSION maximum (length (histories st)) [] values bs =
      Inr ((histories st, values), [])"
    using assms read_histories_write[of maximum "histories st" "[]" crc "values" "[]"]
    by (auto simp: mvcc_storable_def)
  have "unat (word_of_nat (length (histories st)) :: u32) = length (histories st)"
    using ok(2) by (rule unat_word_of_nat_u32)
  with ok bs show ?thesis
    by (simp add: mvcc_write_def mvcc_read_def mvcc_header_def Let_def mvcc_consts bslice_simps not_less ascii_def)
qed

section \<open>Properties\<close>

text \<open>
  C21: appending a version at a revision no older than the key's retained ones changes
  what reads of that key at or above the revision answer, to the appended value or
  deletion, and no other read.  The history stays well formed.
\<close>

theorem mvcc_append_reads:
  assumes "mvcc_ok crc l st" "vl_ok crc l" "mvcc_append crc st l key rv val = Inr (st', l')"
    and "\<forall>v. val = Some v \<longrightarrow> length v \<le> MAX_VALUE_SIZE" "length (vl_file l') < 2 ^ 64"
    and "\<forall>vs. rget (histories st) key = Some vs \<longrightarrow> (\<forall>v \<in> set vs. v_revision v \<le> rv)"
  shows "mvcc_ok crc l' st' \<and> vl_ok crc l' \<and>
    fst (get_at crc st' l' k r) =
      (if k = key \<and> rv \<le> r \<and> covered_through st \<le> r then Inr val else fst (get_at crc st l k r))"
  using mvcc_append_parts[OF assms, of k r] get_at_answer[of crc l' st' k r]
    get_at_answer[OF assms(2), of st k r] by simp

lemma default_ok [simp]: "mvcc_ok crc l mvcc_default"
  by (simp add: mvcc_ok_def mvcc_default_def)

theorem mvcc_append_reads_witness:
  "\<exists>st l. mvcc_append sample_crc mvcc_default (empty_log 64) [97] 3 (Some [7]) = Inr (st, l) \<and>
     fst (get_at sample_crc st l [97] 5) = Inr (Some [7]) \<and> fst (get_at sample_crc st l [97] 2) = Inr None"
proof -
  obtain st l where a: "mvcc_append sample_crc mvcc_default (empty_log 64) [97] 3 (Some [7]) = Inr (st, l)"
    "length (vl_file l) = 33"
    by (simp add: mvcc_append_def prepare_value_def vl_append_def Let_def value_total_len_def
        value_consts empty_log_def)
  have "\<And>r. fst (get_at sample_crc st l [97] r) =
      (if 3 \<le> r then Inr (Some [7]) else fst (get_at sample_crc mvcc_default (empty_log 64) [97] r))"
    using mvcc_append_reads[OF default_ok empty_log_ok a(1), of "[97]"] a(2)
    by (simp add: MAX_VALUE_SIZE_def mvcc_default_def)
  with a show ?thesis by (auto simp: get_at_def mvcc_default_def)
qed

text \<open>
  C7: collecting down to the oldest active snapshot keeps every answer at or above it,
  refuses every revision below it, and reports exactly the number of versions it dropped.
  Without an active snapshot it drops everything and covers from the latest revision on.
\<close>

theorem mvcc_collect_reads:
  "(let (removed, st') = mvcc_collect st (Some f) latest in
      get_at crc st' l key r =
        (if f \<le> r then get_at crc st l key r
         else (Inl (SnapshotTooOld r (max (covered_through st) f)), l)) \<and>
      removed + (\<Sum>(key, vs)\<leftarrow>histories st'. length vs) = (\<Sum>(key, vs)\<leftarrow>histories st. length vs)) \<and>
   mvcc_collect st None latest =
     (\<Sum>(key, vs)\<leftarrow>histories st. length vs,
      \<lparr>gc_floor = max (gc_floor st) latest, covered_through = max (covered_through st) latest, histories = []\<rparr>)"
proof -
  have count: "(\<Sum>(key, vs)\<leftarrow>hs. keep_from f vs) +
      (\<Sum>(key, vs)\<leftarrow>map (\<lambda>(key, vs). (key, drop (keep_from f vs) vs)) hs. length vs) =
      (\<Sum>(key, vs)\<leftarrow>hs. length vs)" for f and hs :: "version list rows"
  proof (induction hs)
    case (Cons h hs)
    then show ?case using keep_from_le[of f "snd h"] by (cases h) simp
  qed simp
  have at: "Option.bind (rget (map (\<lambda>(key, vs). (key, drop (keep_from f vs) vs)) (histories st)) key)
      (\<lambda>vs. version_at vs r) = Option.bind (rget (histories st) key) (\<lambda>vs. version_at vs r)" if "f \<le> r"
    using that by (rule collect_at)
  show ?thesis using count[of f "histories st"] count[of latest "histories st"] at
    by (auto simp: mvcc_collect_def get_at_def Let_def max_def)
qed

text \<open>
  C22: compaction succeeds on a well-formed history whenever the destination has room for
  the retained values, and afterwards every read at every revision answers from the new
  log what it answered from the old one.
\<close>

theorem mvcc_compact_reads:
  assumes "mvcc_ok crc source st" "vl_ok crc source" "vl_ok crc destination"
    and "length (vl_file destination) + history_bytes (histories st) < 2 ^ 64"
  shows "\<exists>st' source' destination'.
    mvcc_compact crc st source destination = Inr (st', source', destination') \<and>
    mvcc_ok crc destination' st' \<and> vl_ok crc destination' \<and> vl_ok crc source' \<and>
    (\<forall>key r. fst (get_at crc st' destination' key r) = fst (get_at crc st source key r))"
proof -
  have "\<forall>(key, vs) \<in> set (histories st). list_all (version_ok crc source) vs"
    "sorted_rows ([] @ histories st)"
    using assms(1) by (auto simp: mvcc_ok_def)
  then obtain hs src dst where c: "compact_histories crc (histories st) [] source destination = Inr (hs, src, dst)"
    "vl_ok crc src" "vl_ok crc dst"
    "list_all2 (rel_prod (=) (list_all2 (moved crc (vl_file source) dst))) (histories st) hs"
    using compact_histories_props[OF assms(2,3) _ assms(4), of "[]"] by auto
  let ?st = "\<lparr>gc_floor = gc_floor st, covered_through = covered_through st, histories = hs\<rparr>"
  have "mvcc_ok crc dst ?st" by (rule moved_ok[OF assms(1) c(4)])
  with c moved_history[OF c(4) refl] get_at_answer[OF c(3), of ?st] get_at_answer[OF assms(2), of st]
  show ?thesis by (simp add: mvcc_compact_def)
qed

theorem mvcc_compact_reads_witness:
  "\<exists>st l st' l' d. mvcc_append sample_crc mvcc_default (empty_log 64) [97] 3 (Some [7]) = Inr (st, l) \<and>
     mvcc_compact sample_crc st l (empty_log 64) = Inr (st', l', d) \<and>
     fst (get_at sample_crc st' d [97] 4) = fst (get_at sample_crc st l [97] 4)"
proof -
  obtain st l where a: "mvcc_append sample_crc mvcc_default (empty_log 64) [97] 3 (Some [7]) = Inr (st, l)"
    "length (vl_file l) = 33" "history_bytes (histories st) = 33"
    by (simp add: mvcc_append_def prepare_value_def append_prepared_def append_version_def mvcc_default_def
        vl_append_def Let_def value_total_len_def value_consts empty_log_def history_bytes_def version_bytes_def)
  have ok: "mvcc_ok sample_crc l st \<and> vl_ok sample_crc l"
    using mvcc_append_parts[OF default_ok empty_log_ok a(1)] a(2) by (simp add: MAX_VALUE_SIZE_def mvcc_default_def)
  have empty: "vl_file (empty_log 64) = []" by (simp add: empty_log_def)
  have "\<exists>st' l' d. mvcc_compact sample_crc st l (empty_log 64) = Inr (st', l', d) \<and>
      (\<forall>key r. fst (get_at sample_crc st' d key r) = fst (get_at sample_crc st l key r))"
    using mvcc_compact_reads[OF conjunct1[OF ok] conjunct2[OF ok] empty_log_ok, of 64] a(3) empty
    by fastforce
  with a show ?thesis by blast
qed

text \<open>
  C23: the history file is faithful.  A state with positive, ascending revisions within
  the committed maximum is always written, and reading the file gives back the same
  histories and the same collection floor, the coverage mark lowered to that floor (the
  file does not carry the mark), and the value log untouched.
\<close>

theorem mvcc_file_roundtrip:
  assumes "mvcc_storable maximum st"
  shows "\<exists>bs. mvcc_write crc st = Inr bs \<and>
    mvcc_read crc (Some bs) maximum log = Inr (st\<lparr>covered_through := gc_floor st\<rparr>, log)"
  using assms by (rule mvcc_read_write)

definition sample_history :: mvcc_state where
  "sample_history = \<lparr>gc_floor = 1, covered_through = 5, histories =
     [([97], [\<lparr>v_revision = 2, v_value = Some \<lparr>vr_offset = 0, vr_len = 4, vr_revision = 2\<rparr>\<rparr>,
              \<lparr>v_revision = 5, v_value = None\<rparr>])]\<rparr>"

theorem mvcc_file_roundtrip_witness:
  "\<exists>bs. mvcc_write sample_crc sample_history = Inr bs \<and>
     mvcc_read sample_crc (Some bs) 6 (empty_log 64) = Inr (sample_history\<lparr>covered_through := 1\<rparr>, empty_log 64)"
  using mvcc_file_roundtrip[of 6 sample_history sample_crc "empty_log 64"]
  by (simp add: sample_history_def mvcc_storable_def history_storable_def version_storable_def
      MAX_KEY_SIZE_def MAX_VALUE_SIZE_def)

end
