(* ===== verification/WalRecord.thy ===== *)
theory WalRecord
  imports Mvcc
begin

text \<open>
  The write-ahead log's formats, \<open>crates/vyrn-core/src/lib.rs\<close>: transaction records
  with a self-checked header, segment headers and the checkpoint manifest, and the
  checks every reader of a record makes before it trusts a length.  The lemmas show
  that the readers accept what the writers produce and give back what was written.
\<close>

section \<open>Constants\<close>

definition SEGMENT_MAGIC :: bytes where "SEGMENT_MAGIC = ascii ''VSEG''"
definition RECORD_MAGIC :: bytes where "RECORD_MAGIC = ascii ''VTXN''"
definition RECORD_END :: bytes where "RECORD_END = ascii ''VEND''"
definition RECORD_VERSION :: byte where "RECORD_VERSION = 5"
definition LEGACY_RECORD_VERSION :: byte where "LEGACY_RECORD_VERSION = 4"
definition RECORD_HEADER_CRC_AT :: nat where "RECORD_HEADER_CRC_AT = 41"
definition MANIFEST_MAGIC :: bytes where "MANIFEST_MAGIC = ascii ''VMAN''"
definition WAL_VERSION :: byte where "WAL_VERSION = 4"
definition SEGMENT_HEADER_LEN :: nat where "SEGMENT_HEADER_LEN = 32"
definition RECORD_HEADER_LEN :: nat where "RECORD_HEADER_LEN = 45"
definition RECORD_FOOTER_LEN :: nat where "RECORD_FOOTER_LEN = 8"
definition OP_HEADER_LEN :: nat where "OP_HEADER_LEN = 9"
definition MANIFEST_LEN :: nat where "MANIFEST_LEN = 48"
definition OP_PUT :: byte where "OP_PUT = 1"
definition OP_DELETE :: byte where "OP_DELETE = 2"

lemmas wal_magics = SEGMENT_MAGIC_def RECORD_MAGIC_def RECORD_END_def MANIFEST_MAGIC_def
lemmas wal_lens = RECORD_HEADER_CRC_AT_def SEGMENT_HEADER_LEN_def RECORD_HEADER_LEN_def
  RECORD_FOOTER_LEN_def OP_HEADER_LEN_def MANIFEST_LEN_def
lemmas wal_versions = RECORD_VERSION_def LEGACY_RECORD_VERSION_def WAL_VERSION_def
lemmas wal_ops = OP_PUT_def OP_DELETE_def

section \<open>State\<close>

record pending_commit =
  pc_op :: byte
  pc_key :: bytes
  pc_value :: bytes

record tree_state =
  ts_root :: u64
  ts_len :: u64
  ts_generation :: u64
  ts_lsn :: u64

type_synonym wal_op = "byte \<times> bytes \<times> bytes option"

record redo_record =
  rd_lsn :: u64
  rd_operations :: "wal_op list"

section \<open>Records\<close>

definition transaction_checksum :: "(bytes \<Rightarrow> u32) \<Rightarrow> u64 \<Rightarrow> nat \<Rightarrow> bytes \<Rightarrow> u64 \<Rightarrow> u64 \<Rightarrow> u32" where
  "transaction_checksum crc lsn operation_count payload root len =
     crc ([WAL_VERSION] @ u64_to_be lsn @ u32_to_be (word_of_nat operation_count) @
          u32_to_be (word_of_nat (length payload)) @ u64_to_be root @ u64_to_be len @ payload)"

definition encode_operation :: "pending_commit \<Rightarrow> bytes" where
  "encode_operation p =
     [pc_op p] @ u32_to_be (word_of_nat (length (pc_key p))) @
     u32_to_be (word_of_nat (length (pc_value p))) @ pc_key p @ pc_value p"

fun encode_payload :: "pending_commit list \<Rightarrow> vyrn_error + bytes" where
  "encode_payload [] = Inr []"
| "encode_payload (p # ps) =
     (if 2 ^ 32 \<le> length (pc_key p) then Inl KeyTooLarge
      else if 2 ^ 32 \<le> length (pc_value p) then Inl ValueTooLarge
      else (case encode_payload ps of Inl e \<Rightarrow> Inl e | Inr bs \<Rightarrow> Inr (encode_operation p @ bs)))"

definition record_total_len :: "nat \<Rightarrow> nat" where
  "record_total_len payload_len = RECORD_HEADER_LEN + payload_len + RECORD_FOOTER_LEN"

definition record_header :: "(bytes \<Rightarrow> u32) \<Rightarrow> u64 \<Rightarrow> nat \<Rightarrow> bytes \<Rightarrow> u64 \<Rightarrow> u64 \<Rightarrow> bytes" where
  "record_header crc lsn operation_count payload root len =
     (let head = RECORD_MAGIC @ [RECORD_VERSION] @ u64_to_be lsn @
            u32_to_be (word_of_nat operation_count) @ u32_to_be (word_of_nat (length payload)) @
            u32_to_be (transaction_checksum crc lsn operation_count payload root len) @
            u64_to_be root @ u64_to_be len in
      head @ u32_to_be (crc head))"

definition record_footer :: "nat \<Rightarrow> bytes" where
  "record_footer total_len = u32_to_be (word_of_nat total_len) @ RECORD_END"

definition encode_record ::
  "(bytes \<Rightarrow> u32) \<Rightarrow> u64 \<Rightarrow> pending_commit list \<Rightarrow> u64 \<Rightarrow> u64 \<Rightarrow> vyrn_error + bytes" where
  "encode_record crc lsn operations root len =
     (if 2 ^ 32 \<le> length operations then Inl Io
      else
        (case encode_payload operations of
           Inl e \<Rightarrow> Inl e
         | Inr payload \<Rightarrow>
             if 2 ^ 32 \<le> length payload \<or> 2 ^ 32 \<le> record_total_len (length payload) then Inl Io
             else Inr (record_header crc lsn (length operations) payload root len @ payload @
                       record_footer (record_total_len (length payload)))))"

text \<open>The payload of a record, walked operation by operation; the walk's offset is the remaining input.\<close>

fun validate_operations :: "bytes \<Rightarrow> nat \<Rightarrow> string + bytes" where
  "validate_operations rest 0 = Inr rest"
| "validate_operations rest (Suc n) =
     (if length rest < OP_HEADER_LEN then Inl ''truncated transaction operation''
      else
        (let op = rest ! 0; key_len = unat (u32_of_be (bslice rest 1 4));
             value_len = unat (u32_of_be (bslice rest 5 4)) in
         if (op \<noteq> OP_PUT \<and> op \<noteq> OP_DELETE) \<or> key_len = 0 \<or> MAX_KEY_SIZE < key_len \<or>
            MAX_VALUE_SIZE < value_len \<or> (op = OP_DELETE \<and> value_len \<noteq> 0)
         then Inl ''invalid transaction operation''
         else if length rest < OP_HEADER_LEN + key_len + value_len
         then Inl ''truncated transaction operation''
         else validate_operations (drop (OP_HEADER_LEN + key_len + value_len) rest) n))"

definition validate_payload :: "bytes \<Rightarrow> nat \<Rightarrow> string + unit" where
  "validate_payload payload operation_count =
     (case validate_operations payload operation_count of
        Inl e \<Rightarrow> Inl e
      | Inr rest \<Rightarrow> if rest \<noteq> [] then Inl ''trailing transaction payload'' else Inr ())"

fun decode_operations :: "bytes \<Rightarrow> nat \<Rightarrow> wal_op list" where
  "decode_operations rest 0 = []"
| "decode_operations rest (Suc n) =
     (let op = rest ! 0; key_len = unat (u32_of_be (bslice rest 1 4));
          value_len = unat (u32_of_be (bslice rest 5 4));
          rest = drop OP_HEADER_LEN rest; key = take key_len rest; rest = drop key_len rest;
          val = (if op = OP_PUT then Some (take value_len rest) else None) in
      (op, key, val) # decode_operations (drop value_len rest) n)"

definition record_version_known :: "bytes \<Rightarrow> bool" where
  "record_version_known header \<longleftrightarrow> header ! 4 = LEGACY_RECORD_VERSION \<or> header ! 4 = RECORD_VERSION"

definition record_header_crc_ok :: "(bytes \<Rightarrow> u32) \<Rightarrow> bytes \<Rightarrow> bool" where
  "record_header_crc_ok crc header \<longleftrightarrow>
     header ! 4 \<noteq> RECORD_VERSION \<or>
     crc (take RECORD_HEADER_CRC_AT header) = u32_of_be (bslice header RECORD_HEADER_CRC_AT 4)"

definition read_wal_record_lsn :: "bytes \<Rightarrow> u64" where
  "read_wal_record_lsn rec = u64_of_be (bslice rec 5 8)"

section \<open>Segment headers\<close>

definition segment_header :: "(bytes \<Rightarrow> u32) \<Rightarrow> u64 \<Rightarrow> u64 \<Rightarrow> bytes" where
  "segment_header crc segment_id first_lsn =
     (let head = SEGMENT_MAGIC @ [WAL_VERSION, 0, 0, 0] @ u64_to_be segment_id @ u64_to_be first_lsn in
      head @ u32_to_be (crc head) @ [0, 0, 0, 0])"

definition check_segment_header :: "(bytes \<Rightarrow> u32) \<Rightarrow> u64 \<Rightarrow> bytes \<Rightarrow> vyrn_error + unit" where
  "check_segment_header crc segment_id file =
     (let header = take SEGMENT_HEADER_LEN file in
      if length file < SEGMENT_HEADER_LEN then Inl (CorruptWal segment_id 0 ''incomplete segment header'')
      else if bslice header 0 4 = SEGMENT_MAGIC \<and> header ! 4 \<noteq> WAL_VERSION
      then Inl (FormatVersion ''WAL segment'' (header ! 4) WAL_VERSION)
      else if bslice header 0 4 \<noteq> SEGMENT_MAGIC \<or> u64_of_be (bslice header 8 8) \<noteq> segment_id \<or>
              crc (take 24 header) \<noteq> u32_of_be (bslice header 24 4)
      then Inl (CorruptWal segment_id 0 ''invalid segment header'')
      else Inr ())"

definition read_segment_first_lsn :: "(bytes \<Rightarrow> u32) \<Rightarrow> bytes \<Rightarrow> vyrn_error + u64" where
  "read_segment_first_lsn crc file =
     (let header = take SEGMENT_HEADER_LEN file in
      if length file < SEGMENT_HEADER_LEN then Inl Io
      else if bslice header 0 4 \<noteq> SEGMENT_MAGIC \<or> header ! 4 \<noteq> WAL_VERSION \<or>
              crc (take 24 header) \<noteq> u32_of_be (bslice header 24 4)
      then Inl (CorruptWal (u64_of_be (bslice header 8 8)) 0 ''invalid segment header'')
      else Inr (u64_of_be (bslice header 16 8)))"

section \<open>The manifest\<close>

definition write_manifest :: "(bytes \<Rightarrow> u32) \<Rightarrow> tree_state \<Rightarrow> bytes" where
  "write_manifest crc st =
     (let head = MANIFEST_MAGIC @ [WAL_VERSION, 0, 0, 0] @ u64_to_be (ts_generation st) @
            u64_to_be (ts_lsn st) @ u64_to_be (ts_root st) @ u64_to_be (ts_len st) in
      head @ u32_to_be (crc head) @ [0, 0, 0, 0])"

definition read_manifest :: "(bytes \<Rightarrow> u32) \<Rightarrow> bytes option \<Rightarrow> vyrn_error + tree_state option" where
  "read_manifest crc file =
     (case file of
        None \<Rightarrow> Inr None
      | Some bs \<Rightarrow>
         if length bs = MANIFEST_LEN \<and> bslice bs 0 4 = MANIFEST_MAGIC \<and> bs ! 4 \<noteq> WAL_VERSION
         then Inl (FormatVersion ''checkpoint manifest'' (bs ! 4) WAL_VERSION)
         else if length bs \<noteq> MANIFEST_LEN \<or> bslice bs 0 4 \<noteq> MANIFEST_MAGIC \<or>
                 crc (take 40 bs) \<noteq> u32_of_be (bslice bs 40 4)
         then Inl LegacyFormat
         else Inr (Some \<lparr>ts_root = u64_of_be (bslice bs 24 8), ts_len = u64_of_be (bslice bs 32 8),
                         ts_generation = u64_of_be (bslice bs 8 8), ts_lsn = u64_of_be (bslice bs 16 8)\<rparr>))"

section \<open>Payloads read back\<close>

text \<open>What the engine logs: a put or a delete of an admissible key and value.\<close>

definition commit_ok :: "pending_commit \<Rightarrow> bool" where
  "commit_ok p \<longleftrightarrow> (pc_op p = OP_PUT \<or> pc_op p = OP_DELETE \<and> pc_value p = []) \<and>
     pc_key p \<noteq> [] \<and> length (pc_key p) \<le> MAX_KEY_SIZE \<and> length (pc_value p) \<le> MAX_VALUE_SIZE"

definition wal_op_of :: "pending_commit \<Rightarrow> wal_op" where
  "wal_op_of p = (pc_op p, pc_key p, if pc_op p = OP_PUT then Some (pc_value p) else None)"

lemma encode_operation_fields:
  assumes "commit_ok p"
  shows "(encode_operation p @ rest) ! 0 = pc_op p"
    "unat (u32_of_be (bslice (encode_operation p @ rest) 1 4)) = length (pc_key p)"
    "unat (u32_of_be (bslice (encode_operation p @ rest) 5 4)) = length (pc_value p)"
    "drop OP_HEADER_LEN (encode_operation p @ rest) = pc_key p @ pc_value p @ rest"
  using assms
  by (simp_all add: encode_operation_def bslice_simps wal_lens commit_ok_def MAX_KEY_SIZE_def
      MAX_VALUE_SIZE_def unat_word_of_nat_u32)

lemma length_encode_operation:
  "length (encode_operation p) = OP_HEADER_LEN + length (pc_key p) + length (pc_value p)"
  by (simp add: encode_operation_def wal_lens)

lemma encode_payload_total:
  "list_all commit_ok ps \<Longrightarrow> encode_payload ps = Inr (concat (map encode_operation ps))"
  by (induction ps) (auto simp: commit_ok_def MAX_KEY_SIZE_def MAX_VALUE_SIZE_def)

lemma validate_operations_encode:
  "list_all commit_ok ps \<Longrightarrow>
     validate_operations (concat (map encode_operation ps) @ rest) (length ps) = Inr rest"
proof (induction ps)
  case (Cons p ps)
  let ?rest = "concat (map encode_operation ps) @ rest"
  have p: "commit_ok p" using Cons.prems by simp
  have d: "drop (OP_HEADER_LEN + length (pc_key p) + length (pc_value p)) (encode_operation p @ ?rest) = ?rest"
    using length_encode_operation[of p] by (metis append_eq_conv_conj)
  have "length (encode_operation p @ ?rest) \<ge> OP_HEADER_LEN + length (pc_key p) + length (pc_value p)"
    using length_encode_operation[of p] by simp
  with Cons d p encode_operation_fields[OF p, of ?rest] show ?case
    by (auto simp: Let_def commit_ok_def wal_ops)
qed simp

lemma validate_payload_encode:
  "list_all commit_ok ps \<Longrightarrow> validate_payload (concat (map encode_operation ps)) (length ps) = Inr ()"
  using validate_operations_encode[of ps "[]"] by (simp add: validate_payload_def)

lemma decode_operations_encode:
  "list_all commit_ok ps \<Longrightarrow>
     decode_operations (concat (map encode_operation ps) @ rest) (length ps) = map wal_op_of ps"
proof (induction ps)
  case (Cons p ps)
  let ?rest = "concat (map encode_operation ps) @ rest"
  have p: "commit_ok p" using Cons.prems by simp
  from Cons encode_operation_fields[OF p, of ?rest] show ?case
    by (simp add: Let_def wal_op_of_def)
qed simp

lemma payload_min_len:
  "list_all commit_ok ps \<Longrightarrow> length ps * OP_HEADER_LEN \<le> length (concat (map encode_operation ps))"
  by (induction ps) (auto simp: encode_operation_def wal_lens)

section \<open>Headers read back\<close>

lemma length_record_header [simp]: "length (record_header crc lsn n payload root len) = RECORD_HEADER_LEN"
  by (simp add: record_header_def Let_def wal_magics wal_lens)

lemma length_record_footer [simp]: "length (record_footer n) = RECORD_FOOTER_LEN"
  by (simp add: record_footer_def wal_magics wal_lens)

lemma record_header_fields [simp]:
  "take 4 (record_header crc lsn n payload root len) = RECORD_MAGIC"
  "record_header crc lsn n payload root len ! 4 = RECORD_VERSION"
  "u64_of_be (bslice (record_header crc lsn n payload root len) 5 8) = lsn"
  "u32_of_be (bslice (record_header crc lsn n payload root len) 13 4) = word_of_nat n"
  "u32_of_be (bslice (record_header crc lsn n payload root len) 17 4) = word_of_nat (length payload)"
  "u32_of_be (bslice (record_header crc lsn n payload root len) 21 4) =
     transaction_checksum crc lsn n payload root len"
  "u64_of_be (bslice (record_header crc lsn n payload root len) 25 8) = root"
  "u64_of_be (bslice (record_header crc lsn n payload root len) 33 8) = len"
  "record_version_known (record_header crc lsn n payload root len)"
  "record_header_crc_ok crc (record_header crc lsn n payload root len)"
  by (simp_all add: record_header_def Let_def wal_magics wal_lens bslice_simps nth_append
      record_version_known_def record_header_crc_ok_def wal_versions)

lemma bslice_take: "off + n \<le> k \<Longrightarrow> bslice (take k s) off n = bslice s off n"
  by (simp add: bslice_def drop_take min_def)

lemma length_segment_header [simp]: "length (segment_header crc s f) = SEGMENT_HEADER_LEN"
  by (simp add: segment_header_def Let_def wal_magics wal_lens)

lemma segment_header_fields [simp]:
  "check_segment_header crc s (segment_header crc s f @ rest) = Inr ()"
  "read_segment_first_lsn crc (segment_header crc s f @ rest) = Inr f"
  "u64_of_be (bslice (segment_header crc s f @ rest) 16 8) = f"
  by (simp_all add: check_segment_header_def read_segment_first_lsn_def segment_header_def Let_def
      wal_magics wal_lens wal_versions bslice_simps nth_append)

lemma encode_record_parts:
  assumes "encode_record crc lsn ps root len = Inr rec"
  shows "\<exists>payload. encode_payload ps = Inr payload \<and> length ps < 2 ^ 32 \<and>
    record_total_len (length payload) < 2 ^ 32 \<and>
    rec = record_header crc lsn (length ps) payload root len @ payload @
      record_footer (record_total_len (length payload))"
  using assms by (auto simp: encode_record_def split: if_splits sum.splits)

lemma encode_record_ok:
  assumes "list_all commit_ok ps" "encode_record crc lsn ps root len = Inr rec"
  defines "payload \<equiv> concat (map encode_operation ps)"
  shows "length ps < 2 ^ 32" "record_total_len (length payload) < 2 ^ 32"
    "rec = record_header crc lsn (length ps) payload root len @ payload @
      record_footer (record_total_len (length payload))"
  using encode_record_parts[OF assms(2)] encode_payload_total[OF assms(1)] by (auto simp: payload_def)

lemma length_encode_record:
  "encode_record crc lsn ps root len = Inr rec \<Longrightarrow> RECORD_HEADER_LEN + RECORD_FOOTER_LEN \<le> length rec"
  using encode_record_parts by fastforce

section \<open>The manifest read back\<close>

lemma manifest_roundtrip: "read_manifest crc (Some (write_manifest crc st)) = Inr (Some st)"
  by (simp add: read_manifest_def write_manifest_def Let_def wal_magics wal_lens wal_versions
      bslice_simps nth_append)

end
