(* ===== verification/Replay.thy ===== *)
theory Replay
  imports WalRecord
begin

text \<open>
  Recovery of the write-ahead log, \<open>crates/vyrn-core/src/lib.rs\<close>: the walk over one
  segment's records, which applies complete records in order, discards a tail torn by
  a crash and reports everything else as corruption, and the lenient walk of
  point-in-time restore.  The lemmas show that recovery gives back exactly the
  transactions whose records were written whole, that nothing but an incomplete
  frame is ever discarded, and that a sealed segment is never truncated.
\<close>

section \<open>How far the segment was written\<close>

definition SCAN_CHUNK :: nat where "SCAN_CHUNK = 64 * 1024"

function last_written_from :: "bytes \<Rightarrow> nat \<Rightarrow> nat" where
  "last_written_from file until =
     (if until \<le> SEGMENT_HEADER_LEN then SEGMENT_HEADER_LEN
      else
        (let start = max (until - SCAN_CHUNK) SEGMENT_HEADER_LEN in
         case rposition (\<lambda>b. b \<noteq> 0) (bslice file start (until - start)) of
           Some i \<Rightarrow> start + i + 1
         | None \<Rightarrow> last_written_from file start))"
  by pat_completeness auto
termination
  by (relation "measure snd") (auto simp: SCAN_CHUNK_def)

declare last_written_from.simps [simp del]

definition last_written_byte :: "bytes \<Rightarrow> nat" where
  "last_written_byte file = last_written_from file (length file)"

section \<open>One frame\<close>

text \<open>
  What the walk finds at an offset: nothing more was written, a frame that a crash cut
  short, or a complete and verified record.
\<close>

datatype frame =
    FrameEnd
  | FrameTorn
  | FrameRecord (fr_lsn: u64) (fr_count: nat) (fr_payload: bytes) (fr_root: u64) (fr_len: u64) (fr_total: nat)

definition truncate_or_corrupt :: "bool \<Rightarrow> u64 \<Rightarrow> nat \<Rightarrow> vyrn_error + frame" where
  "truncate_or_corrupt is_last segment offset =
     (if \<not> is_last then Inl (CorruptWal segment (word_of_nat offset) ''incomplete transaction in sealed segment'')
      else Inr FrameTorn)"

definition stop_at_torn_record :: "bool \<Rightarrow> u64 \<Rightarrow> nat \<Rightarrow> bytes \<Rightarrow> string \<Rightarrow> vyrn_error + frame" where
  "stop_at_torn_record is_last segment offset header reason =
     (if is_last \<and> list_all (\<lambda>b. b = 0) header then truncate_or_corrupt True segment offset
      else Inl (CorruptWal segment (word_of_nat offset) reason))"

definition read_frame :: "(bytes \<Rightarrow> u32) \<Rightarrow> bool \<Rightarrow> u64 \<Rightarrow> nat \<Rightarrow> nat \<Rightarrow> bytes \<Rightarrow> vyrn_error + frame" where
  "read_frame crc is_last segment written_through offset rest =
     (let corrupt = (\<lambda>reason. Inl (CorruptWal segment (word_of_nat offset) reason)) in
      if written_through \<le> offset then Inr FrameEnd
      else if length rest < RECORD_HEADER_LEN \<or> written_through < offset + RECORD_HEADER_LEN
      then truncate_or_corrupt is_last segment offset
      else
        (let header = take RECORD_HEADER_LEN rest in
         if take 4 header \<noteq> RECORD_MAGIC \<or> \<not> record_version_known header
         then stop_at_torn_record is_last segment offset header ''invalid transaction header''
         else if \<not> record_header_crc_ok crc header then corrupt ''transaction header checksum mismatch''
         else
           (let lsn = u64_of_be (bslice header 5 8);
                operation_count = unat (u32_of_be (bslice header 13 4));
                payload_len = unat (u32_of_be (bslice header 17 4));
                expected_checksum = u32_of_be (bslice header 21 4);
                root = u64_of_be (bslice header 25 8); len = u64_of_be (bslice header 33 8);
                total_len = record_total_len payload_len in
            if operation_count = 0 \<or> payload_len < operation_count * OP_HEADER_LEN
            then corrupt ''invalid transaction metadata''
            else if length rest < total_len \<or> written_through < offset + total_len
            then truncate_or_corrupt is_last segment offset
            else
              (let payload = bslice rest RECORD_HEADER_LEN payload_len;
                   footer = bslice rest (RECORD_HEADER_LEN + payload_len) RECORD_FOOTER_LEN in
               case validate_payload payload operation_count of
                 Inl reason \<Rightarrow> corrupt reason
               | Inr _ \<Rightarrow>
                   if unat (u32_of_be (take 4 footer)) \<noteq> total_len \<or> drop 4 footer \<noteq> RECORD_END \<or>
                      transaction_checksum crc lsn operation_count payload root len \<noteq> expected_checksum
                   then corrupt ''transaction checksum or footer mismatch''
                   else Inr (FrameRecord lsn operation_count payload root len total_len)))))"

section \<open>The walk\<close>

record replay_state =
  rs_tree :: tree_state
  rs_mvcc :: mvcc_state
  rs_values :: value_log
  rs_redo :: "redo_record list"

fun append_versions ::
  "(bytes \<Rightarrow> u32) \<Rightarrow> wal_op list \<Rightarrow> u64 \<Rightarrow> mvcc_state \<Rightarrow> value_log \<Rightarrow> vyrn_error + (mvcc_state \<times> value_log)" where
  "append_versions crc [] revision st values = Inr (st, values)"
| "append_versions crc ((op, key, val) # ops) revision st values =
     (case mvcc_append crc st values key revision val of
        Inl e \<Rightarrow> Inl e
      | Inr (st, values) \<Rightarrow> append_versions crc ops revision st values)"

definition record_versions ::
  "(bytes \<Rightarrow> u32) \<Rightarrow> bytes \<Rightarrow> nat \<Rightarrow> u64 \<Rightarrow> mvcc_state \<Rightarrow> value_log \<Rightarrow> vyrn_error + (mvcc_state \<times> value_log)" where
  "record_versions crc payload operation_count revision st values =
     append_versions crc (filter (\<lambda>(op, key, val). is_versioned_key key) (decode_operations payload operation_count))
       revision st values"

definition replay_record ::
  "(bytes \<Rightarrow> u32) \<Rightarrow> u64 \<Rightarrow> nat \<Rightarrow> u64 \<Rightarrow> nat \<Rightarrow> bytes \<Rightarrow> u64 \<Rightarrow> u64 \<Rightarrow> replay_state \<Rightarrow> vyrn_error + replay_state" where
  "replay_record crc segment offset lsn operation_count payload root len rs =
     (if ts_lsn (rs_tree rs) < lsn then
        if lsn \<noteq> ts_lsn (rs_tree rs) + 1
        then Inl (CorruptWal segment (word_of_nat offset) ''WAL sequence is discontinuous'')
        else
          (case record_versions crc payload operation_count lsn (rs_mvcc rs) (rs_values rs) of
             Inl e \<Rightarrow> Inl e
           | Inr (m, values) \<Rightarrow>
               Inr (rs\<lparr>rs_tree := (rs_tree rs)\<lparr>ts_root := root, ts_len := len, ts_lsn := lsn\<rparr>,
                       rs_mvcc := m, rs_values := values,
                       rs_redo := rs_redo rs @
                         [\<lparr>rd_lsn = lsn, rd_operations = decode_operations payload operation_count\<rparr>]\<rparr>))
      else Inr rs)"

text \<open>The record loop; it returns where the records end and whether the file is cut there.\<close>

lemma read_frame_total:
  assumes "read_frame crc is_last segment written offset rest = Inr (FrameRecord lsn n payload root len total_len)"
  shows "0 < total_len \<and> total_len \<le> length rest"
  using assms
  by (auto simp: read_frame_def Let_def truncate_or_corrupt_def stop_at_torn_record_def record_total_len_def
      wal_lens split: if_splits sum.splits)

function replay_records ::
  "(bytes \<Rightarrow> u32) \<Rightarrow> bool \<Rightarrow> u64 \<Rightarrow> nat \<Rightarrow> u64 \<Rightarrow> bool \<Rightarrow> nat \<Rightarrow> bytes \<Rightarrow> replay_state \<Rightarrow>
     vyrn_error + (nat \<times> bool \<times> replay_state)" where
  "replay_records crc is_last segment written_through header_first_lsn saw_record offset rest rs =
     (if rest = [] then Inr (offset, False, rs)
      else
        (case read_frame crc is_last segment written_through offset rest of
           Inl e \<Rightarrow> Inl e
         | Inr FrameEnd \<Rightarrow> Inr (offset, False, rs)
         | Inr FrameTorn \<Rightarrow> Inr (offset, True, rs)
         | Inr (FrameRecord lsn operation_count payload root len total_len) \<Rightarrow>
             if \<not> saw_record \<and> lsn \<noteq> header_first_lsn
             then Inl (CorruptWal segment (word_of_nat offset) ''segment first LSN does not match its header'')
             else
               (case replay_record crc segment offset lsn operation_count payload root len rs of
                  Inl e \<Rightarrow> Inl e
                | Inr rs \<Rightarrow>
                    replay_records crc is_last segment written_through header_first_lsn True
                      (offset + total_len) (drop total_len rest) rs)))"
  by pat_completeness auto
termination
  by (relation "measure (\<lambda>(crc, is_last, segment, written, first_lsn, saw, offset, rest, rs). length rest)")
    (auto dest!: read_frame_total)

declare replay_records.simps [simp del]

definition replay_segment ::
  "(bytes \<Rightarrow> u32) \<Rightarrow> u64 \<Rightarrow> u64 option \<Rightarrow> bytes \<Rightarrow> replay_state \<Rightarrow> vyrn_error + (nat \<times> bytes \<times> replay_state)" where
  "replay_segment crc segment_id next_first_lsn file rs =
     (case check_segment_header crc segment_id file of
        Inl e \<Rightarrow> Inl e
      | Inr _ \<Rightarrow>
         if (case next_first_lsn of
               None \<Rightarrow> False
             | Some n \<Rightarrow> (if n = 0 then 0 else n - 1) \<le> ts_lsn (rs_tree rs))
         then Inr (length file, file, rs)
         else
           (case replay_records crc (next_first_lsn = None) segment_id (last_written_byte file)
                   (u64_of_be (bslice file 16 8)) False SEGMENT_HEADER_LEN (drop SEGMENT_HEADER_LEN file) rs of
              Inl e \<Rightarrow> Inl e
            | Inr (offset, truncated, rs) \<Rightarrow>
                Inr (offset, if truncated then take offset file else file, rs)))"

section \<open>The restore walk\<close>

function scan_records :: "(bytes \<Rightarrow> u32) \<Rightarrow> u64 \<Rightarrow> nat \<Rightarrow> bytes \<Rightarrow> nat option" where
  "scan_records crc bound offset rest =
     (if rest = [] then None
      else if length rest < RECORD_HEADER_LEN then Some offset
      else
        (let header = take RECORD_HEADER_LEN rest;
             total_len = record_total_len (unat (u32_of_be (bslice header 17 4))) in
         if take 4 header \<noteq> RECORD_MAGIC \<or> \<not> record_version_known header \<or>
            \<not> record_header_crc_ok crc header
         then Some offset
         else if bound < u64_of_be (bslice header 5 8) then Some offset
         else if length rest < total_len then Some offset
         else scan_records crc bound (offset + total_len) (drop total_len rest)))"
  by pat_completeness auto
termination
  by (relation "measure (\<lambda>(crc, bound, offset, rest). length rest)")
    (auto simp: record_total_len_def wal_lens)

declare scan_records.simps [simp del]

definition scan_to_lsn :: "(bytes \<Rightarrow> u32) \<Rightarrow> u64 \<Rightarrow> u64 \<Rightarrow> bytes \<Rightarrow> vyrn_error + nat option" where
  "scan_to_lsn crc segment_id bound file =
     (case check_segment_header crc segment_id file of
        Inl e \<Rightarrow> Inl e
      | Inr _ \<Rightarrow> Inr (scan_records crc bound SEGMENT_HEADER_LEN (drop SEGMENT_HEADER_LEN file)))"

section \<open>The backward scan\<close>

definition last_written :: "bytes \<Rightarrow> nat" where
  "last_written file =
     (case rposition (\<lambda>b. b \<noteq> 0) (drop SEGMENT_HEADER_LEN file) of
        None \<Rightarrow> SEGMENT_HEADER_LEN | Some i \<Rightarrow> SEGMENT_HEADER_LEN + i + 1)"

lemma last_written_from_take:
  "until \<le> length bs \<Longrightarrow> last_written_from bs until = last_written (take until bs)"
proof (induction bs until rule: last_written_from.induct)
  case (1 bs until)
  show ?case
  proof (cases "until \<le> SEGMENT_HEADER_LEN")
    case True
    then show ?thesis by (simp add: last_written_from.simps last_written_def)
  next
    case False
    define start where "start = max (until - SCAN_CHUNK) SEGMENT_HEADER_LEN"
    have st: "SEGMENT_HEADER_LEN \<le> start" "start < until"
      using False by (auto simp: start_def SCAN_CHUNK_def)
    have split: "drop SEGMENT_HEADER_LEN (take until bs) =
        drop SEGMENT_HEADER_LEN (take start bs) @ bslice bs start (until - start)"
      using st 1(2) append_take_drop_id[of "start - SEGMENT_HEADER_LEN" "drop SEGMENT_HEADER_LEN (take until bs)"]
      by (simp add: bslice_def drop_take min_def diff_le_mono)
    have "last_written_from bs start = last_written (take start bs)"
      if "rposition (\<lambda>b. b \<noteq> 0) (bslice bs start (until - start)) = None"
      using 1(1)[OF False start_def that] st 1(2) by simp
    then show ?thesis
      using False st 1(2)
      by (subst last_written_from.simps)
        (auto simp: last_written_def split rposition_append simp flip: start_def split: option.splits)
  qed
qed

lemma last_written_byte_eq: "last_written_byte file = last_written file"
  by (simp add: last_written_byte_def last_written_from_take)

lemma last_written_le:
  assumes "SEGMENT_HEADER_LEN \<le> length a"
  shows "last_written (a @ replicate z 0) \<le> length a"
proof -
  have "rposition (\<lambda>b :: byte. b \<noteq> 0) (replicate z 0) = None" by (simp add: rposition_None)
  with assms show ?thesis
    by (auto simp: last_written_def rposition_append split: option.splits dest!: rposition_Some)
qed

lemma last_written_gt:
  assumes "SEGMENT_HEADER_LEN \<le> length a" "x \<noteq> 0"
  shows "length a < last_written (a @ x # ys)"
  using assms by (auto simp: last_written_def rposition_append split: option.splits)

section \<open>Transactions as the writer logs them\<close>

record txn =
  tx_lsn :: u64
  tx_ops :: "pending_commit list"
  tx_root :: u64
  tx_len :: u64

definition txn_ok :: "(bytes \<Rightarrow> u32) \<Rightarrow> txn \<Rightarrow> bool" where
  "txn_ok crc t \<longleftrightarrow> tx_ops t \<noteq> [] \<and> list_all commit_ok (tx_ops t) \<and>
     encode_record crc (tx_lsn t) (tx_ops t) (tx_root t) (tx_len t) \<noteq> Inl Io"

definition txn_payload :: "txn \<Rightarrow> bytes" where
  "txn_payload t = concat (map encode_operation (tx_ops t))"

definition txn_record :: "(bytes \<Rightarrow> u32) \<Rightarrow> txn \<Rightarrow> bytes" where
  "txn_record crc t =
     (case encode_record crc (tx_lsn t) (tx_ops t) (tx_root t) (tx_len t) of Inl e \<Rightarrow> [] | Inr rec \<Rightarrow> rec)"

definition redo_of :: "txn \<Rightarrow> redo_record" where
  "redo_of t = \<lparr>rd_lsn = tx_lsn t, rd_operations = map wal_op_of (tx_ops t)\<rparr>"

lemma txn_encodes:
  assumes "txn_ok crc t"
  shows "encode_record crc (tx_lsn t) (tx_ops t) (tx_root t) (tx_len t) = Inr (txn_record crc t)"
  using assms encode_payload_total[of "tx_ops t"]
  by (auto simp: txn_ok_def txn_record_def encode_record_def split: if_splits)

lemma txn_record_parts:
  assumes "txn_ok crc t"
  shows "length (tx_ops t) < 2 ^ 32" "record_total_len (length (txn_payload t)) < 2 ^ 32"
    "txn_record crc t = record_header crc (tx_lsn t) (length (tx_ops t)) (txn_payload t) (tx_root t) (tx_len t) @
       txn_payload t @ record_footer (record_total_len (length (txn_payload t)))"
  using encode_record_ok[OF _ txn_encodes[OF assms]] assms by (auto simp: txn_ok_def txn_payload_def)

lemma length_txn_record:
  "txn_ok crc t \<Longrightarrow> length (txn_record crc t) = record_total_len (length (txn_payload t))"
  using txn_record_parts by (simp add: record_total_len_def)

lemma txn_record_first: "txn_ok crc t \<Longrightarrow> \<exists>r. txn_record crc t = 86 # r"
  using txn_record_parts(3) by (simp add: record_header_def Let_def wal_magics)

lemma txn_record_last: "txn_ok crc t \<Longrightarrow> \<exists>r. txn_record crc t = r @ [68]"
  using txn_record_parts(3)[of crc t] by (simp add: record_footer_def wal_magics flip: append_assoc)

lemma txn_header:
  assumes "txn_ok crc t" "RECORD_HEADER_LEN \<le> k"
  shows "take RECORD_HEADER_LEN (take k (txn_record crc t) @ rest) =
    record_header crc (tx_lsn t) (length (tx_ops t)) (txn_payload t) (tx_root t) (tx_len t)"
  using assms(2) by (simp add: txn_record_parts(3)[OF assms(1)] take_append min_def)

lemma txn_meta:
  assumes "txn_ok crc t"
  shows "unat (word_of_nat (length (tx_ops t)) :: u32) = length (tx_ops t)"
    "unat (word_of_nat (length (txn_payload t)) :: u32) = length (txn_payload t)"
    "unat (word_of_nat (record_total_len (length (txn_payload t))) :: u32) = record_total_len (length (txn_payload t))"
    "length (tx_ops t) * OP_HEADER_LEN \<le> length (txn_payload t)" "tx_ops t \<noteq> []"
proof -
  note p = txn_record_parts(1,2)[OF assms]
  then have "length (txn_payload t) < 2 ^ 32" by (simp add: record_total_len_def)
  with p show "unat (word_of_nat (length (tx_ops t)) :: u32) = length (tx_ops t)"
    "unat (word_of_nat (length (txn_payload t)) :: u32) = length (txn_payload t)"
    "unat (word_of_nat (record_total_len (length (txn_payload t))) :: u32) = record_total_len (length (txn_payload t))"
    by (simp_all only: unat_word_of_nat_u32)
  show "length (tx_ops t) * OP_HEADER_LEN \<le> length (txn_payload t)" "tx_ops t \<noteq> []"
    using payload_min_len[of "tx_ops t"] assms by (auto simp: txn_ok_def txn_payload_def)
qed

lemma read_frame_record:
  assumes "txn_ok crc t" "offset + length (txn_record crc t) \<le> written"
  shows "read_frame crc is_last seg written offset (txn_record crc t @ rest) =
    Inr (FrameRecord (tx_lsn t) (length (tx_ops t)) (txn_payload t) (tx_root t) (tx_len t)
      (length (txn_record crc t)))"
proof -
  let ?h = "record_header crc (tx_lsn t) (length (tx_ops t)) (txn_payload t) (tx_root t) (tx_len t)"
  define s where "s = txn_record crc t @ rest"
  have h: "take RECORD_HEADER_LEN s = ?h"
    by (simp add: s_def txn_record_parts(3)[OF assms(1)])
  have b: "bslice s RECORD_HEADER_LEN (length (txn_payload t)) = txn_payload t"
    "bslice s (RECORD_HEADER_LEN + length (txn_payload t)) RECORD_FOOTER_LEN =
       record_footer (record_total_len (length (txn_payload t)))"
    by (simp_all add: s_def txn_record_parts(3)[OF assms(1)] bslice_simps)
  have v: "validate_payload (txn_payload t) (length (tx_ops t)) = Inr ()"
    using assms(1) validate_payload_encode by (simp add: txn_ok_def txn_payload_def)
  have f: "take 4 (record_footer n) = u32_to_be (word_of_nat n)" "drop 4 (record_footer n) = RECORD_END" for n
    by (simp_all add: record_footer_def)
  have w: "\<not> written \<le> offset" "\<not> written < offset + RECORD_HEADER_LEN"
    "\<not> length s < RECORD_HEADER_LEN" "\<not> length s < record_total_len (length (txn_payload t))"
    using assms(2) length_txn_record[OF assms(1)] by (simp_all add: s_def record_total_len_def wal_lens)
  show ?thesis
    using assms(2) txn_meta[OF assms(1)] length_txn_record[OF assms(1)] w
    unfolding s_def[symmetric] by (simp add: read_frame_def Let_def h b v f)
qed

lemma read_frame_torn:
  assumes "txn_ok crc t" "k < length (txn_record crc t)" "offset < written" "written \<le> offset + k"
  shows "read_frame crc is_last seg written offset (take k (txn_record crc t) @ rest) =
    truncate_or_corrupt is_last seg offset"
proof (cases "written < offset + RECORD_HEADER_LEN")
  case True
  with assms(3) show ?thesis by (simp add: read_frame_def Let_def)
next
  case False
  then have k: "RECORD_HEADER_LEN \<le> k" using assms(4) by simp
  define s where "s = take k (txn_record crc t) @ rest"
  have "\<not> length s < RECORD_HEADER_LEN"
    "take RECORD_HEADER_LEN s = record_header crc (tx_lsn t) (length (tx_ops t)) (txn_payload t) (tx_root t) (tx_len t)"
    using k assms(2) txn_header[OF assms(1) k] by (simp_all add: s_def)
  with False assms(2-4) txn_meta[OF assms(1)] length_txn_record[OF assms(1)] show ?thesis
    unfolding s_def[symmetric] by (simp add: read_frame_def Let_def)
qed

section \<open>Recovering transactions\<close>

text \<open>The effect recovery must have: the transactions, in order, on the recovered state.\<close>

definition replay_txn :: "(bytes \<Rightarrow> u32) \<Rightarrow> txn \<Rightarrow> replay_state \<Rightarrow> vyrn_error + replay_state" where
  "replay_txn crc t rs =
     (case append_versions crc (filter (\<lambda>(op, key, val). is_versioned_key key) (map wal_op_of (tx_ops t)))
             (tx_lsn t) (rs_mvcc rs) (rs_values rs) of
        Inl e \<Rightarrow> Inl e
      | Inr (m, vl) \<Rightarrow>
          Inr (rs\<lparr>rs_tree := (rs_tree rs)\<lparr>ts_root := tx_root t, ts_len := tx_len t, ts_lsn := tx_lsn t\<rparr>,
                  rs_mvcc := m, rs_values := vl, rs_redo := rs_redo rs @ [redo_of t]\<rparr>))"

fun replay_txns :: "(bytes \<Rightarrow> u32) \<Rightarrow> txn list \<Rightarrow> replay_state \<Rightarrow> vyrn_error + replay_state" where
  "replay_txns crc [] rs = Inr rs"
| "replay_txns crc (t # ts) rs =
     (case replay_txn crc t rs of Inl e \<Rightarrow> Inl e | Inr rs \<Rightarrow> replay_txns crc ts rs)"

fun consecutive :: "u64 \<Rightarrow> txn list \<Rightarrow> bool" where
  "consecutive n [] = True"
| "consecutive n (t # ts) \<longleftrightarrow> tx_lsn t = n \<and> consecutive (n + 1) ts"

lemma unat_Suc_u64: "unat (n :: u64) + 1 < 2 ^ 64 \<Longrightarrow> unat (n + 1) = unat n + 1"
  by (simp add: unat_word_ariths)

lemma consecutive_ge:
  "consecutive n ts \<Longrightarrow> unat n + length ts < 2 ^ 64 \<Longrightarrow> t \<in> set ts \<Longrightarrow> unat n \<le> unat (tx_lsn t)"
proof (induction ts arbitrary: n)
  case (Cons u ts)
  show ?case
  proof (cases "t = u")
    case False
    moreover have "unat (n + 1) = unat n + 1" using Cons.prems(2) by (intro unat_Suc_u64) simp
    ultimately show ?thesis using Cons by fastforce
  qed (use Cons.prems in simp)
qed simp

lemma consecutive_takeWhile: "consecutive n ts \<Longrightarrow> consecutive n (takeWhile P ts)"
  by (induction ts arbitrary: n) auto

lemma append_versions_total:
  assumes "\<forall>(op, key, val) \<in> set ops. \<forall>v. val = Some v \<longrightarrow> length v \<le> MAX_VALUE_SIZE"
  shows "\<exists>m vl. append_versions crc ops rv st values = Inr (m, vl)"
  using assms
proof (induction ops arbitrary: st "values")
  case (Cons x ops)
  obtain op key val where x: "x = (op, key, val)" by (metis prod_cases3)
  have "\<exists>st' vl. mvcc_append crc st values key rv val = Inr (st', vl)"
  proof (cases val)
    case (Some v)
    then have "length v \<le> MAX_VALUE_SIZE" using Cons.prems x by auto
    with Some show ?thesis
      by (simp add: mvcc_append_def prepare_value_def vl_append_def Let_def value_total_len_def
          value_consts MAX_VALUE_SIZE_def)
  qed (simp add: mvcc_append_def prepare_value_def)
  with Cons x show ?case by auto
qed simp

lemma replay_txn_total:
  assumes "list_all commit_ok (tx_ops t)"
  shows "\<exists>m vl. replay_txn crc t rs = Inr (rs\<lparr>
      rs_tree := (rs_tree rs)\<lparr>ts_root := tx_root t, ts_len := tx_len t, ts_lsn := tx_lsn t\<rparr>,
      rs_mvcc := m, rs_values := vl, rs_redo := rs_redo rs @ [redo_of t]\<rparr>)"
proof -
  have "\<forall>(op, key, val) \<in> set (filter (\<lambda>(op, key, val). is_versioned_key key) (map wal_op_of (tx_ops t))).
      \<forall>v. val = Some v \<longrightarrow> length v \<le> MAX_VALUE_SIZE"
    using assms by (auto simp: list_all_iff wal_op_of_def commit_ok_def split: if_splits)
  from append_versions_total[OF this, of crc "tx_lsn t" "rs_mvcc rs" "rs_values rs"]
  obtain m vl where "append_versions crc (filter (\<lambda>(op, key, val). is_versioned_key key)
      (map wal_op_of (tx_ops t))) (tx_lsn t) (rs_mvcc rs) (rs_values rs) = Inr (m, vl)" by blast
  then show ?thesis by (intro exI[of _ m] exI[of _ vl]) (simp add: replay_txn_def)
qed

lemma replay_txns_total:
  assumes "list_all (\<lambda>t. list_all commit_ok (tx_ops t)) ts"
  shows "\<exists>rs'. replay_txns crc ts rs = Inr rs' \<and>
    rs_redo rs' = rs_redo rs @ map redo_of ts \<and>
    rs_tree rs' = (if ts = [] then rs_tree rs
      else (rs_tree rs)\<lparr>ts_root := tx_root (last ts), ts_len := tx_len (last ts), ts_lsn := tx_lsn (last ts)\<rparr>)"
  using assms
proof (induction ts arbitrary: rs)
  case (Cons t ts)
  then obtain m vl where t: "replay_txn crc t rs = Inr (rs\<lparr>
      rs_tree := (rs_tree rs)\<lparr>ts_root := tx_root t, ts_len := tx_len t, ts_lsn := tx_lsn t\<rparr>,
      rs_mvcc := m, rs_values := vl, rs_redo := rs_redo rs @ [redo_of t]\<rparr>)"
    using replay_txn_total[of t crc rs] by auto
  let ?rs = "rs\<lparr>rs_tree := (rs_tree rs)\<lparr>ts_root := tx_root t, ts_len := tx_len t, ts_lsn := tx_lsn t\<rparr>,
      rs_mvcc := m, rs_values := vl, rs_redo := rs_redo rs @ [redo_of t]\<rparr>"
  from Cons.IH[of ?rs] Cons.prems t show ?case by auto
qed simp

lemma replay_record_txn:
  assumes "txn_ok crc t" "ts_lsn (rs_tree rs) < tx_lsn t" "tx_lsn t = ts_lsn (rs_tree rs) + 1"
  shows "replay_record crc seg off (tx_lsn t) (length (tx_ops t)) (txn_payload t) (tx_root t) (tx_len t) rs =
    replay_txn crc t rs"
  using assms decode_operations_encode[of "tx_ops t" "[]"]
  by (auto simp: replay_record_def replay_txn_def record_versions_def txn_payload_def txn_ok_def redo_of_def
      split: sum.splits)

lemma replay_records_txns:
  assumes "list_all (txn_ok crc) ts" "offset + length (concat (map (txn_record crc) ts)) \<le> written"
    and "consecutive n ts" "unat n + length ts < 2 ^ 64" "unat n \<le> unat (ts_lsn (rs_tree rs)) + 1"
    and "\<not> saw \<longrightarrow> ts \<noteq> [] \<longrightarrow> n = first"
  shows "replay_records crc is_last seg written first saw offset (concat (map (txn_record crc) ts) @ tail) rs =
    (case replay_txns crc (filter (\<lambda>t. ts_lsn (rs_tree rs) < tx_lsn t) ts) rs of
       Inl e \<Rightarrow> Inl e
     | Inr rs' \<Rightarrow> replay_records crc is_last seg written first (saw \<or> ts \<noteq> [])
         (offset + length (concat (map (txn_record crc) ts))) tail rs')"
  using assms
proof (induction ts arbitrary: offset n rs saw)
  case (Cons t ts)
  let ?rec = "txn_record crc t" and ?tail = "concat (map (txn_record crc) ts) @ tail"
  have t: "txn_ok crc t" "tx_lsn t = n" "list_all (txn_ok crc) ts" "consecutive (n + 1) ts"
    using Cons.prems by auto
  have n1: "unat (n + 1) = unat n + 1" using Cons.prems(4) by (intro unat_Suc_u64) simp
  have fr: "read_frame crc is_last seg written offset (?rec @ ?tail) =
      Inr (FrameRecord n (length (tx_ops t)) (txn_payload t) (tx_root t) (tx_len t) (length ?rec))"
    using read_frame_record[OF t(1), of offset written is_last seg ?tail] Cons.prems(2) t(2) by simp
  have ne: "?rec @ ?tail \<noteq> []" using txn_record_first[OF t(1)] by auto
  have step: "replay_records crc is_last seg written first saw offset (?rec @ ?tail) rs =
      (case replay_record crc seg offset n (length (tx_ops t)) (txn_payload t) (tx_root t) (tx_len t) rs of
         Inl e \<Rightarrow> Inl e
       | Inr rs \<Rightarrow> replay_records crc is_last seg written first True (offset + length ?rec) ?tail rs)"
    using ne fr Cons.prems(6) by (subst replay_records.simps) (auto split: sum.split)
  have IH: "replay_records crc is_last seg written first True (offset + length ?rec) ?tail rs1 =
      (case replay_txns crc (filter (\<lambda>t. ts_lsn (rs_tree rs1) < tx_lsn t) ts) rs1 of
         Inl e \<Rightarrow> Inl e
       | Inr rs' \<Rightarrow> replay_records crc is_last seg written first True
           (offset + length ?rec + length (concat (map (txn_record crc) ts))) tail rs')"
    if "unat n + 1 \<le> unat (ts_lsn (rs_tree rs1)) + 1" for rs1
    using Cons.IH[OF t(3) _ t(4), of "offset + length ?rec" rs1 True] Cons.prems(2,4) n1 that
    by (simp cong: sum.case_cong)
  show ?case
  proof (cases "ts_lsn (rs_tree rs) < n")
    case False
    then have "unat n \<le> unat (ts_lsn (rs_tree rs))" by (simp add: word_less_nat_alt)
    with IH[of rs] step False t(2) show ?thesis
      by (simp add: replay_record_def add.assoc cong: sum.case_cong)
  next
    case True
    then have lsn: "unat n = unat (ts_lsn (rs_tree rs)) + 1"
      using Cons.prems(5) by (simp add: word_less_nat_alt)
    then have "n = ts_lsn (rs_tree rs) + 1"
      using unat_Suc_u64[of "ts_lsn (rs_tree rs)"] Cons.prems(4)
      by (metis add_lessD1 unsigned_word_eqI)
    then have r: "replay_record crc seg offset n (length (tx_ops t)) (txn_payload t) (tx_root t) (tx_len t) rs =
        replay_txn crc t rs"
      using replay_record_txn[OF t(1)] True t(2) by simp
    obtain rs1 where rs1: "replay_txn crc t rs = Inr rs1" "ts_lsn (rs_tree rs1) = n"
      using replay_txn_total[of t crc rs] t(1,2) by (auto simp: txn_ok_def)
    have "filter (\<lambda>t. m < tx_lsn t) ts = ts" if "unat m \<le> unat n" for m :: u64
      using consecutive_ge[OF t(4)] Cons.prems(4) n1 that
      by (intro filter_True) (fastforce simp: word_less_nat_alt)
    then have "filter (\<lambda>t. ts_lsn (rs_tree rs) < tx_lsn t) ts = filter (\<lambda>t. ts_lsn (rs_tree rs1) < tx_lsn t) ts"
      using lsn rs1(2) by simp
    with IH[of rs1] step r rs1 True t(2) show ?thesis by (simp add: add.assoc cong: sum.case_cong)
  qed
qed simp

section \<open>A segment cut short by a crash\<close>

definition segment_records :: "(bytes \<Rightarrow> u32) \<Rightarrow> u64 \<Rightarrow> u64 \<Rightarrow> txn list \<Rightarrow> bytes" where
  "segment_records crc seg first ts = segment_header crc seg first @ concat (map (txn_record crc) ts)"

lemma last_written_ge: "SEGMENT_HEADER_LEN \<le> last_written bs"
  by (auto simp: last_written_def split: option.splits)

lemma records_written:
  assumes "list_all (txn_ok crc) ts"
  shows "length (segment_records crc seg first ts) \<le> last_written (segment_records crc seg first ts @ rest)"
proof (cases ts rule: rev_cases)
  case Nil
  then show ?thesis using last_written_ge by (simp add: segment_records_def)
next
  case (snoc us u)
  then obtain r where r: "txn_record crc u = r @ [68]" using assms txn_record_last by auto
  let ?a = "segment_header crc seg first @ concat (map (txn_record crc) us) @ r"
  have "length ?a < last_written (?a @ 68 # rest)" by (rule last_written_gt) simp_all
  with snoc r show ?thesis by (simp add: segment_records_def)
qed

lemma torn_written:
  fixes seg first :: u64 and z :: nat
  assumes "list_all (txn_ok crc) ts" "txn_ok crc t" "k < length (txn_record crc t)"
  defines "body \<equiv> segment_records crc seg first ts"
  defines "w \<equiv> last_written (body @ take k (txn_record crc t) @ replicate z 0)"
  shows "length body \<le> w" "w \<le> length body + k" "0 < k \<Longrightarrow> length body < w"
proof -
  have len: "SEGMENT_HEADER_LEN \<le> length body" by (simp add: body_def segment_records_def)
  show "length body \<le> w" unfolding w_def body_def by (rule records_written[OF assms(1)])
  show "w \<le> length body + k"
    using last_written_le[of "body @ take k (txn_record crc t)" z] len assms(3) by (simp add: w_def)
  assume "0 < k"
  then obtain r where "take k (txn_record crc t) = 86 # r"
    using txn_record_first[OF assms(2)] by (cases k) auto
  then show "length body < w" using last_written_gt[OF len, of 86] by (simp add: w_def)
qed

lemma replay_segment_torn:
  fixes seg first :: u64 and z :: nat
  assumes "list_all (txn_ok crc) ts" "txn_ok crc t" "k < length (txn_record crc t)"
    and "consecutive first ts" "unat first + length ts < 2 ^ 64" "unat first \<le> unat (ts_lsn (rs_tree rs)) + 1"
    and "nxt = None \<or> (\<exists>n. nxt = Some n \<and> ts_lsn (rs_tree rs) < n - 1 \<and> n \<noteq> 0)"
  defines "body \<equiv> segment_records crc seg first ts"
  defines "bs \<equiv> body @ take k (txn_record crc t) @ replicate z 0"
  shows "replay_segment crc seg nxt bs rs =
    (case replay_txns crc (filter (\<lambda>t. ts_lsn (rs_tree rs) < tx_lsn t) ts) rs of
       Inl e \<Rightarrow> Inl e
     | Inr rs' \<Rightarrow>
         if k = 0 then Inr (length body, bs, rs')
         else if nxt = None then Inr (length body, body, rs')
         else Inl (CorruptWal seg (word_of_nat (length body)) ''incomplete transaction in sealed segment''))"
proof -
  let ?recs = "concat (map (txn_record crc) ts)" and ?tail = "take k (txn_record crc t) @ replicate z 0"
  have bs: "bs = segment_header crc seg first @ ?recs @ ?tail"
    by (simp add: bs_def body_def segment_records_def)
  have hdr: "check_segment_header crc seg bs = Inr ()" "u64_of_be (bslice bs 16 8) = first"
    "drop SEGMENT_HEADER_LEN bs = ?recs @ ?tail"
    by (simp_all add: bs)
  note w = torn_written[OF assms(1-3), of seg first z, folded body_def, folded bs_def]
  have len: "SEGMENT_HEADER_LEN + length ?recs = length body"
    by (simp add: body_def segment_records_def)
  have tail: "replay_records crc (nxt = None) seg (last_written bs) first saw (length body) ?tail rs' =
      (if k = 0 then Inr (length body, False, rs')
       else if nxt = None then Inr (length body, True, rs')
       else Inl (CorruptWal seg (word_of_nat (length body)) ''incomplete transaction in sealed segment''))"
    for saw rs'
  proof (cases "k = 0")
    case True
    with w(1,2) have "last_written bs = length body" by simp
    then show ?thesis using True by (subst replay_records.simps) (simp add: read_frame_def)
  next
    case False
    have "?tail \<noteq> []" using False assms(3) by auto
    with False w(2) w(3) read_frame_torn[OF assms(2,3), of "length body" "last_written bs" "nxt = None" seg]
    show ?thesis by (subst replay_records.simps) (auto simp: truncate_or_corrupt_def)
  qed
  have skip: "\<not> (case nxt of None \<Rightarrow> False | Some n \<Rightarrow> (if n = 0 then 0 else n - 1) \<le> ts_lsn (rs_tree rs))"
    using assms(7) by auto
  have "take (length body) bs = body" by (simp add: bs_def)
  with hdr skip w(1) len tail replay_records_txns[OF assms(1) _ assms(4-6), of SEGMENT_HEADER_LEN
      "last_written bs" False first "nxt = None" seg ?tail]
  show ?thesis
    by (cases nxt) (simp_all add: replay_segment_def last_written_byte_eq split: sum.split)
qed

section \<open>What is discarded\<close>

lemma replay_records_torn:
  assumes "replay_records crc is_last seg written first saw offset rest rs = Inr (off, True, rs')"
  shows "\<exists>tail pre. rest = pre @ tail \<and> off = offset + length pre \<and>
    read_frame crc is_last seg written off tail = Inr FrameTorn"
  using assms
proof (induction crc is_last seg written first saw offset rest rs rule: replay_records.induct)
  case (1 crc is_last seg written first saw offset rest rs)
  show ?case
  proof (cases "read_frame crc is_last seg written offset rest")
    case (Inl e)
    with 1(2) show ?thesis by (simp add: replay_records.simps split: if_splits)
  next
    case (Inr f)
    show ?thesis
    proof (cases f)
      case FrameEnd
      with Inr 1(2) show ?thesis by (simp add: replay_records.simps split: if_splits)
    next
      case FrameTorn
      with Inr 1(2) have "off = offset" by (simp add: replay_records.simps split: if_splits)
      with Inr FrameTorn show ?thesis by (intro exI[of _ rest] exI[of _ "[]"]) simp
    next
      case (FrameRecord lsn n payload root len tot)
      have ne: "rest \<noteq> []" using 1(2) by (auto simp: replay_records.simps)
      have sawn: "\<not> (\<not> saw \<and> lsn \<noteq> first)"
        using 1(2) Inr FrameRecord ne by (auto simp: replay_records.simps split: if_splits)
      obtain rs1 where rs1: "replay_record crc seg offset lsn n payload root len rs = Inr rs1"
        "replay_records crc is_last seg written first True (offset + tot) (drop tot rest) rs1 = Inr (off, True, rs')"
        using 1(2) Inr FrameRecord ne sawn
        by (subst (asm) replay_records.simps) (auto split: sum.splits if_splits)
      obtain pre tail where d: "drop tot rest = pre @ tail" "off = offset + tot + length pre"
        "read_frame crc is_last seg written off tail = Inr FrameTorn"
        using 1(1)[OF ne Inr FrameRecord sawn rs1] by blast
      have "rest = (take tot rest @ pre) @ tail"
        using append_take_drop_id[of tot rest] d(1) by simp
      moreover have "tot \<le> length rest" using read_frame_total Inr FrameRecord by blast
      then have "off = offset + length (take tot rest @ pre)" using d(2) by simp
      ultimately show ?thesis using d(3) by blast
    qed
  qed
qed

lemma read_frame_torn_iff:
  assumes "read_frame crc is_last seg written offset rest = Inr FrameTorn"
  shows "is_last \<and> offset < written \<and>
    (length rest < RECORD_HEADER_LEN \<or> written < offset + RECORD_HEADER_LEN \<or>
     list_all (\<lambda>b. b = 0) (take RECORD_HEADER_LEN rest) \<or>
     record_header_crc_ok crc (take RECORD_HEADER_LEN rest) \<and>
     (length rest < record_total_len (unat (u32_of_be (bslice rest 17 4))) \<or>
      written < offset + record_total_len (unat (u32_of_be (bslice rest 17 4)))))"
  using assms
  by (auto simp: read_frame_def Let_def truncate_or_corrupt_def stop_at_torn_record_def wal_lens bslice_take
      split: if_splits sum.splits)

section \<open>Trimming to a bound\<close>

lemma scan_records_txns:
  assumes "list_all (txn_ok crc) ts"
  shows "scan_records crc bound offset (concat (map (txn_record crc) ts) @ replicate z 0) =
    (if list_all (\<lambda>t. tx_lsn t \<le> bound) ts \<and> z = 0 then None
     else Some (offset + length (concat (map (txn_record crc) (takeWhile (\<lambda>t. tx_lsn t \<le> bound) ts)))))"
  using assms
proof (induction ts arbitrary: offset)
  case Nil
  have "(86 :: byte) \<notin> set (take 4 (replicate RECORD_HEADER_LEN 0))" "86 \<in> set RECORD_MAGIC"
    by (auto simp: wal_magics dest!: in_set_takeD)
  then have "take 4 (replicate RECORD_HEADER_LEN (0 :: byte)) \<noteq> RECORD_MAGIC" by metis
  then show ?case by (subst scan_records.simps) (auto simp: Let_def min_def not_less)
next
  case (Cons t ts)
  define rest where "rest = concat (map (txn_record crc) ts) @ replicate z 0"
  have t: "txn_ok crc t" using Cons.prems by simp
  note len = length_txn_record[OF t] and meta = txn_meta(2)[OF t]
  define s where "s = txn_record crc t @ rest"
  have h: "take RECORD_HEADER_LEN s =
      record_header crc (tx_lsn t) (length (tx_ops t)) (txn_payload t) (tx_root t) (tx_len t)"
    by (simp add: s_def txn_record_parts(3)[OF t])
  have s: "s \<noteq> []" "\<not> length s < RECORD_HEADER_LEN" "\<not> length s < record_total_len (length (txn_payload t))"
    "drop (record_total_len (length (txn_payload t))) s = rest"
    using len by (auto simp: s_def record_total_len_def wal_lens)
  have "scan_records crc bound offset s =
      (if bound < tx_lsn t then Some offset else scan_records crc bound (offset + length (txn_record crc t)) rest)"
    using s by (subst scan_records.simps) (simp add: Let_def h meta len)
  then show ?case using Cons by (auto simp: s_def rest_def add.assoc)
qed

lemma trim_segment:
  assumes "list_all (txn_ok crc) ts"
  shows "\<exists>r. scan_to_lsn crc seg bound (segment_records crc seg first ts @ replicate z 0) = Inr r \<and>
    (case r of None \<Rightarrow> segment_records crc seg first ts @ replicate z 0
     | Some off \<Rightarrow> take off (segment_records crc seg first ts @ replicate z 0)) =
    segment_records crc seg first (takeWhile (\<lambda>t. tx_lsn t \<le> bound) ts)"
proof -
  let ?p = "\<lambda>t. tx_lsn t \<le> bound"
  have split: "concat (map (txn_record crc) ts) =
      concat (map (txn_record crc) (takeWhile ?p ts)) @ concat (map (txn_record crc) (dropWhile ?p ts))"
    by (metis concat_append map_append takeWhile_dropWhile_id)
  have all: "takeWhile ?p ts = ts" if "list_all ?p ts"
    using that by (simp add: takeWhile_eq_all_conv list_all_iff)
  have drop: "drop SEGMENT_HEADER_LEN (segment_records crc seg first ts @ replicate z 0) =
      concat (map (txn_record crc) ts) @ replicate z 0"
    by (simp add: segment_records_def)
  show ?thesis
  proof (cases "list_all ?p ts \<and> z = 0")
    case True
    then have tw: "takeWhile ?p ts = ts" using all by blast
    from True scan_records_txns[OF assms, of bound SEGMENT_HEADER_LEN z] drop show ?thesis
      by (simp add: scan_to_lsn_def segment_records_def tw)
  next
    case False
    then have "scan_to_lsn crc seg bound (segment_records crc seg first ts @ replicate z 0) =
        Inr (Some (length (segment_records crc seg first (takeWhile ?p ts))))"
      using scan_records_txns[OF assms, of bound SEGMENT_HEADER_LEN z] drop
      by (auto simp: scan_to_lsn_def segment_records_def)
    moreover have "take (length (segment_records crc seg first (takeWhile ?p ts)))
        (segment_records crc seg first ts @ replicate z 0) = segment_records crc seg first (takeWhile ?p ts)"
      by (simp add: segment_records_def split)
    ultimately show ?thesis by simp
  qed
qed

section \<open>Properties\<close>

text \<open>
  C1: crash recovery is exact.  A segment holding whole records of consecutive
  transactions, then any proper prefix of one more record (a commit cut short by a
  crash), then zero-filled runway, is recovered to exactly the transactions beyond the
  already recovered state, in order: root, length and LSN are the last one's, the redo
  list and the version histories get each of them once.  The torn prefix is cut off,
  the next record goes right behind the last whole one, and an untorn file is kept.
\<close>

theorem segment_recovery:
  assumes "list_all (txn_ok crc) ts" "txn_ok crc t" "k < length (txn_record crc t)"
    and "consecutive first ts" "unat first + length ts < 2 ^ 64" "unat first \<le> unat (ts_lsn (rs_tree rs)) + 1"
  shows "\<exists>rs'. replay_txns crc (filter (\<lambda>t. ts_lsn (rs_tree rs) < tx_lsn t) ts) rs = Inr rs' \<and>
    replay_segment crc seg None (segment_records crc seg first ts @ take k (txn_record crc t) @ replicate z 0) rs =
      Inr (length (segment_records crc seg first ts),
           if k = 0 then segment_records crc seg first ts @ replicate z 0 else segment_records crc seg first ts,
           rs') \<and>
    rs_redo rs' = rs_redo rs @ map redo_of (filter (\<lambda>t. ts_lsn (rs_tree rs) < tx_lsn t) ts) \<and>
    rs_tree rs' = (case filter (\<lambda>t. ts_lsn (rs_tree rs) < tx_lsn t) ts of
       [] \<Rightarrow> rs_tree rs
     | new \<Rightarrow> (rs_tree rs)\<lparr>ts_root := tx_root (last new), ts_len := tx_len (last new), ts_lsn := tx_lsn (last new)\<rparr>)"
proof -
  let ?new = "filter (\<lambda>t. ts_lsn (rs_tree rs) < tx_lsn t) ts"
  have "list_all (\<lambda>t. list_all commit_ok (tx_ops t)) ?new"
    using assms(1) by (auto simp: list_all_iff txn_ok_def)
  from replay_txns_total[OF this, of crc rs] replay_segment_torn[OF assms, of None seg z] show ?thesis
    by (fastforce split: list.split)
qed

definition sample_txn :: "u64 \<Rightarrow> txn" where
  "sample_txn n = \<lparr>tx_lsn = n, tx_ops = [\<lparr>pc_op = 1, pc_key = [107], pc_value = [118]\<rparr>], tx_root = 7, tx_len = 1\<rparr>"

definition sample_state :: replay_state where
  "sample_state = \<lparr>rs_tree = \<lparr>ts_root = 0, ts_len = 0, ts_generation = 0, ts_lsn = 0\<rparr>,
     rs_mvcc = mvcc_default, rs_values = empty_log 64, rs_redo = []\<rparr>"

lemma sample_simps [simp]:
  "tx_lsn (sample_txn n) = n" "ts_lsn (rs_tree sample_state) = 0" "rs_redo sample_state = []"
  by (simp_all add: sample_txn_def sample_state_def)

lemma sample_txn_ok [simp]: "txn_ok crc (sample_txn n)"
  by (simp add: txn_ok_def sample_txn_def commit_ok_def wal_ops MAX_KEY_SIZE_def MAX_VALUE_SIZE_def
      encode_record_def encode_operation_def record_total_len_def wal_lens)

lemma length_sample_txn [simp]: "length (txn_record crc (sample_txn n)) = 64"
  using length_txn_record[OF sample_txn_ok, of crc n]
  by (simp add: record_total_len_def wal_lens txn_payload_def sample_txn_def encode_operation_def)

theorem segment_recovery_witness:
  "\<exists>rs'. replay_segment sample_crc 3 None (segment_records sample_crc 3 1 [sample_txn 1, sample_txn 2] @
       take 50 (txn_record sample_crc (sample_txn 3)) @ replicate 100 0) sample_state =
     Inr (length (segment_records sample_crc 3 1 [sample_txn 1, sample_txn 2]),
          segment_records sample_crc 3 1 [sample_txn 1, sample_txn 2], rs') \<and>
     rs_redo rs' = [redo_of (sample_txn 1), redo_of (sample_txn 2)] \<and> ts_lsn (rs_tree rs') = 2"
  using segment_recovery[of sample_crc "[sample_txn 1, sample_txn 2]" "sample_txn 3" 50 1 sample_state 3 100]
  by auto

text \<open>
  C14: recovery discards nothing but an incomplete frame.  If replaying a segment changes
  the file, the segment is the last one, the file is cut at the end of the replayed
  records, bytes past the cut had been written, and the frame cut off either does not
  fit in what was written, by its header's own checked length or by the header itself,
  or its header never reached the disk.  A sealed segment is never changed.
\<close>

theorem replay_discards_only_torn:
  assumes "replay_segment crc seg nxt bs rs = Inr (off, bs', rs')" "bs' \<noteq> bs"
  shows "nxt = None \<and> bs' = take off bs \<and> off < last_written_byte bs \<and>
    (let frame = drop off bs; total_len = record_total_len (unat (u32_of_be (bslice frame 17 4))) in
       last_written_byte bs < off + RECORD_HEADER_LEN \<or> length frame < RECORD_HEADER_LEN \<or>
       list_all (\<lambda>b. b = 0) (take RECORD_HEADER_LEN frame) \<or>
       record_header_crc_ok crc (take RECORD_HEADER_LEN frame) \<and>
         (last_written_byte bs < off + total_len \<or> length frame < total_len))"
proof -
  have r: "replay_records crc (nxt = None) seg (last_written_byte bs) (u64_of_be (bslice bs 16 8)) False
      SEGMENT_HEADER_LEN (drop SEGMENT_HEADER_LEN bs) rs = Inr (off, True, rs')"
    "bs' = take off bs" "SEGMENT_HEADER_LEN \<le> length bs"
    using assms by (auto simp: replay_segment_def check_segment_header_def Let_def
        split: sum.splits if_splits prod.splits)
  obtain pre tail where "drop SEGMENT_HEADER_LEN bs = pre @ tail" "off = SEGMENT_HEADER_LEN + length pre"
    and torn: "read_frame crc (nxt = None) seg (last_written_byte bs) off tail = Inr FrameTorn"
    using replay_records_torn[OF r(1)] by blast
  then have "drop off bs = tail" by (metis add.commute append_eq_conv_conj drop_drop)
  with r(2) read_frame_torn_iff[OF torn] show ?thesis by (auto simp: Let_def)
qed

theorem replay_discards_only_torn_witness:
  "\<exists>rs'. replay_segment sample_crc 3 None (segment_records sample_crc 3 1 [] @
       take 50 (txn_record sample_crc (sample_txn 1)) @ []) sample_state = Inr (32, segment_records sample_crc 3 1 [], rs') \<and>
     32 < last_written_byte (segment_records sample_crc 3 1 [] @ take 50 (txn_record sample_crc (sample_txn 1)) @ [])"
proof -
  let ?bs = "segment_records sample_crc 3 1 [] @ take 50 (txn_record sample_crc (sample_txn 1)) @ []"
  have r: "replay_segment sample_crc 3 None ?bs sample_state = Inr (32, segment_records sample_crc 3 1 [], sample_state)"
    using replay_segment_torn[of sample_crc "[]" "sample_txn 1" 50 1 sample_state None 3 0]
    by (simp add: segment_records_def wal_lens)
  moreover have "segment_records sample_crc 3 1 [] \<noteq> ?bs" using txn_record_first[OF sample_txn_ok, of sample_crc 1] by auto
  ultimately show ?thesis using replay_discards_only_torn[OF r] by blast
qed

text \<open>
  the backward scan in chunks finds one past the last non-zero byte behind the
  segment header, the header's end when there is none, whatever the file's length.
\<close>

lemma last_written_byte_correct:
  "last_written_byte bs =
     (case rposition (\<lambda>b. b \<noteq> 0) (drop SEGMENT_HEADER_LEN bs) of
        None \<Rightarrow> SEGMENT_HEADER_LEN | Some i \<Rightarrow> SEGMENT_HEADER_LEN + i + 1)"
  by (simp add: last_written_byte_eq last_written_def)

text \<open>
  C25: point-in-time restore stops exactly at its bound.  Trimming a segment of whole
  records and runway where the restore walk says leaves exactly the records up to the
  first one past the bound, and replaying the trimmed segment applies those beyond the
  recovered state and no other.
\<close>

theorem restore_to_bound:
  assumes "list_all (txn_ok crc) ts" "consecutive first ts" "unat first + length ts < 2 ^ 64"
    and "unat first \<le> unat (ts_lsn (rs_tree rs)) + 1"
  shows "\<exists>r trimmed rs'. scan_to_lsn crc seg bound (segment_records crc seg first ts @ replicate z 0) = Inr r \<and>
    trimmed = (case r of None \<Rightarrow> segment_records crc seg first ts @ replicate z 0
      | Some off \<Rightarrow> take off (segment_records crc seg first ts @ replicate z 0)) \<and>
    replay_segment crc seg None trimmed rs = Inr (length trimmed, trimmed, rs') \<and>
    rs_redo rs' = rs_redo rs @
      map redo_of (filter (\<lambda>t. ts_lsn (rs_tree rs) < tx_lsn t) (takeWhile (\<lambda>t. tx_lsn t \<le> bound) ts))"
proof -
  let ?us = "takeWhile (\<lambda>t. tx_lsn t \<le> bound) ts"
  let ?new = "filter (\<lambda>t. ts_lsn (rs_tree rs) < tx_lsn t) ?us"
  have us: "list_all (txn_ok crc) ?us" "consecutive first ?us" "unat first + length ?us < 2 ^ 64"
    using assms(1,2,3) length_takeWhile_le[of "\<lambda>t. tx_lsn t \<le> bound" ts] consecutive_takeWhile
    by (auto simp: list_all_iff dest: set_takeWhileD)
  have "list_all (\<lambda>t. list_all commit_ok (tx_ops t)) ?new"
    using us(1) by (auto simp: list_all_iff txn_ok_def)
  then obtain rs' where rs': "replay_txns crc ?new rs = Inr rs'" "rs_redo rs' = rs_redo rs @ map redo_of ?new"
    using replay_txns_total[of ?new crc rs] by blast
  have len: "0 < length (txn_record crc (sample_txn 1))" by simp
  from replay_segment_torn[OF us(1) sample_txn_ok len us(2,3) assms(4), of None seg 0] rs'
  have "replay_segment crc seg None (segment_records crc seg first ?us) rs =
      Inr (length (segment_records crc seg first ?us), segment_records crc seg first ?us, rs')"
    by simp
  with trim_segment[OF assms(1), of seg bound first z] rs'(2) show ?thesis by metis
qed

theorem restore_to_bound_witness:
  "\<exists>r trimmed rs'. scan_to_lsn sample_crc 3 1 (segment_records sample_crc 3 1 [sample_txn 1, sample_txn 2] @
       replicate 9 0) = Inr r \<and>
     replay_segment sample_crc 3 None trimmed sample_state = Inr (length trimmed, trimmed, rs') \<and>
     rs_redo rs' = [redo_of (sample_txn 1)]"
proof -
  have "\<not> (2 :: u64) \<le> 1" by (simp add: word_le_nat_alt)
  then show ?thesis
    using restore_to_bound[of sample_crc "[sample_txn 1, sample_txn 2]" 1 sample_state 3 1 9] by auto
qed

end
