(* ===== verification/WalWriter.thy ===== *)
theory WalWriter
  imports Replay
begin

text \<open>
  The active log segment, \<open>crates/vyrn-core/src/wal.rs\<close>: records written end to end into
  a zero-filled runway, and the shared flush that makes them durable.  The file is its
  bytes; writes succeed.  The lemmas show that the file always holds exactly the appended
  records followed by zeros, so that what recovery reads is what was appended, that the
  runway stays within its bound, and that no record is ever reported durable before a
  flush that covers it, whatever the interleaving of appends and flushes.
\<close>

section \<open>The writer\<close>

definition RUNWAY :: nat where "RUNWAY = 1048576"
definition MAX_RUNWAY :: nat where "MAX_RUNWAY = 8388608"

record writer =
  w_file :: bytes
  w_offset :: nat
  w_zeroed :: nat
  w_runway :: nat

text \<open>A positioned write; bytes between the old end and a later offset read as zeros.\<close>

definition write_all_at :: "bytes \<Rightarrow> bytes \<Rightarrow> nat \<Rightarrow> bytes" where
  "write_all_at bs buffer offset =
     take offset bs @ replicate (offset - length bs) 0 @ buffer @ drop (offset + length buffer) bs"

definition sat_add :: "nat \<Rightarrow> nat \<Rightarrow> nat" where "sat_add a b = min (a + b) (2 ^ 64 - 1)"
definition sat_mul :: "nat \<Rightarrow> nat \<Rightarrow> nat" where "sat_mul a b = min (a * b) (2 ^ 64 - 1)"
definition clamp :: "nat \<Rightarrow> nat \<Rightarrow> nat \<Rightarrow> nat" where "clamp x lo hi = max lo (min x hi)"

definition reserve :: "writer \<Rightarrow> nat \<Rightarrow> writer" where
  "reserve w wanted =
     (let required = sat_add (w_offset w) wanted in
      if required \<le> w_zeroed w then w
      else if sat_add (w_zeroed w) (w_runway w) < required then w
      else
        (let step = clamp (sat_mul wanted 64) (w_runway w) (max MAX_RUNWAY (w_runway w));
             target = sat_add (w_zeroed w) step in
         w\<lparr>w_file := write_all_at (w_file w) (replicate (target - w_zeroed w) 0) (w_zeroed w),
           w_zeroed := target\<rparr>))"

definition writer_new :: "bytes \<Rightarrow> nat \<Rightarrow> nat \<Rightarrow> writer" where
  "writer_new bs offset runway =
     \<lparr>w_file = bs, w_offset = offset, w_zeroed = offset, w_runway = clamp runway 1 RUNWAY\<rparr>"

definition writer_append :: "writer \<Rightarrow> bytes \<Rightarrow> writer" where
  "writer_append w rec =
     (let w = reserve w (length rec); offset = w_offset w;
          w = w\<lparr>w_file := write_all_at (w_file w) rec offset, w_offset := offset + length rec\<rparr> in
      w\<lparr>w_zeroed := max (w_zeroed w) (w_offset w)\<rparr>)"

definition writer_rotate :: "writer \<Rightarrow> bytes \<Rightarrow> nat \<Rightarrow> writer" where
  "writer_rotate w bs offset = w\<lparr>w_file := bs, w_offset := offset, w_zeroed := offset\<rparr>"

section \<open>The shared segment\<close>

text \<open>
  The counters of \<open>Wal\<close>, the segment files its writer and its syncer are on (numbered in
  the order they were created), the LSNs handed to the kernel, each with the file it went
  into, those flushed, and the flush in progress: the LSN it read before flushing, and
  whether the flush has returned.
\<close>

record wal =
  appended_lsn :: u64
  synced_lsn :: u64
  writer_file :: nat
  syncer_file :: nat
  written :: "(u64 \<times> nat) set"
  durable :: "u64 set"
  flushing :: "(u64 \<times> bool) option"

definition wal_new :: wal where
  "wal_new = \<lparr>appended_lsn = 0, synced_lsn = 0, writer_file = 0, syncer_file = 0,
     written = {}, durable = {}, flushing = None\<rparr>"

definition wal_adopt :: "wal \<Rightarrow> u64 \<Rightarrow> wal" where
  "wal_adopt w lsn = w\<lparr>appended_lsn := max (appended_lsn w) lsn, synced_lsn := max (synced_lsn w) lsn\<rparr>"

definition wal_publish :: "wal \<Rightarrow> u64 \<Rightarrow> wal" where
  "wal_publish w lsn = w\<lparr>appended_lsn := max (appended_lsn w) lsn\<rparr>"

text \<open>\<open>syncer.sync_data()\<close>: the records of the file it is called on, and of no other.\<close>

definition sync_data :: "wal \<Rightarrow> wal" where
  "sync_data w =
     w\<lparr>durable := durable w \<union> fst ` Set.filter (\<lambda>p. snd p = syncer_file w) (written w)\<rparr>"

text \<open>An uninterrupted call: nothing to do when a flush already covered the LSN.\<close>

definition sync_through :: "wal \<Rightarrow> u64 \<Rightarrow> wal" where
  "sync_through w lsn =
     (if lsn \<le> synced_lsn w then w
      else let covered = appended_lsn w;
               w = sync_data w
           in w\<lparr>synced_lsn := max (synced_lsn w) covered\<rparr>)"

text \<open>
  The outgoing segment is flushed before the handles move on to the fresh one.
\<close>

definition wal_rotate :: "wal \<Rightarrow> nat \<Rightarrow> wal" where
  "wal_rotate w fresh =
     (let covered = appended_lsn w;
          w = sync_data w;
          w = w\<lparr>synced_lsn := max (synced_lsn w) covered\<rparr>
      in w\<lparr>syncer_file := fresh, writer_file := fresh\<rparr>)"

text \<open>
  The interleavings.  Appends are serial, in LSN order, and write into the writer's file
  under its lock; the LSN is published after the lock is released, so a rotation may come
  between the two.  One flush at a time holds the syncer, reads the published LSN, flushes
  the syncer's file, and then publishes what it read, or fails and publishes nothing;
  rotation holds both locks, and stops after its flush when the fresh file's handle cannot
  be cloned.
\<close>

inductive wal_step :: "wal \<Rightarrow> wal \<Rightarrow> bool" where
  hand_over: "\<forall>p \<in> written w. fst p < lsn \<Longrightarrow> appended_lsn w < lsn \<Longrightarrow>
    wal_step w (w\<lparr>written := insert (lsn, writer_file w) (written w)\<rparr>)"
| publish: "(lsn, f) \<in> written w \<Longrightarrow> wal_step w (wal_publish w lsn)"
| sync_begin: "flushing w = None \<Longrightarrow> synced_lsn w < lsn \<Longrightarrow>
    wal_step w (w\<lparr>flushing := Some (appended_lsn w, False)\<rparr>)"
| flush: "flushing w = Some (covered, False) \<Longrightarrow>
    wal_step w ((sync_data w)\<lparr>flushing := Some (covered, True)\<rparr>)"
| flush_failed: "flushing w = Some (covered, False) \<Longrightarrow> wal_step w (w\<lparr>flushing := None\<rparr>)"
| sync_end: "flushing w = Some (covered, True) \<Longrightarrow>
    wal_step w (w\<lparr>synced_lsn := max (synced_lsn w) covered, flushing := None\<rparr>)"
| rotate_failed: "flushing w = None \<Longrightarrow>
    wal_step w ((sync_data w)\<lparr>synced_lsn := max (synced_lsn w) (appended_lsn w)\<rparr>)"
| rotate: "flushing w = None \<Longrightarrow> writer_file w < fresh \<Longrightarrow> wal_step w (wal_rotate w fresh)"

inductive wal_reach :: "wal \<Rightarrow> bool" where
  start: "wal_reach (wal_adopt wal_new lsn)"
| step: "wal_reach w \<Longrightarrow> wal_step w w' \<Longrightarrow> wal_reach w'"

section \<open>Records end to end\<close>

definition writer_ok :: "bytes \<Rightarrow> writer \<Rightarrow> bool" where
  "writer_ok recs w \<longleftrightarrow> (\<exists>n. w_file w = recs @ replicate n 0) \<and> w_offset w = length recs \<and>
     length recs \<le> w_zeroed w \<and> w_zeroed w \<le> length (w_file w) \<and> w_zeroed w < 2 ^ 64 \<and> w_runway w \<le> RUNWAY"

lemma write_zeros_at:
  "length recs \<le> offset \<Longrightarrow> offset \<le> length recs + n \<Longrightarrow>
     write_all_at (recs @ replicate n 0) (replicate m 0) offset = recs @ replicate (max n (offset + m - length recs)) 0"
  by (simp add: write_all_at_def max_def flip: replicate_add)

lemma write_record_at:
  "write_all_at (recs @ replicate n 0) rec (length recs) = (recs @ rec) @ replicate (n - length rec) 0"
  by (simp add: write_all_at_def)

lemma reserve_ok:
  assumes "writer_ok recs w"
  shows "writer_ok recs (reserve w wanted) \<and>
    length (w_file (reserve w wanted)) \<le> max (length (w_file w)) (length recs + wanted + MAX_RUNWAY)"
proof -
  obtain n where n: "w_file w = recs @ replicate n 0" "w_offset w = length recs" "length recs \<le> w_zeroed w"
    "w_zeroed w \<le> length recs + n" "w_zeroed w < 2 ^ 64" "w_runway w \<le> RUNWAY"
    using assms by (auto simp: writer_ok_def)
  define target where
    "target = sat_add (w_zeroed w) (clamp (sat_mul wanted 64) (w_runway w) (max MAX_RUNWAY (w_runway w)))"
  have t: "w_zeroed w \<le> target" "target < 2 ^ 64" "target \<le> w_zeroed w + MAX_RUNWAY"
    using n(5,6) by (auto simp: target_def sat_add_def clamp_def RUNWAY_def MAX_RUNWAY_def)
  have zeros: "write_all_at (w_file w) (replicate (target - w_zeroed w) 0) (w_zeroed w) =
      recs @ replicate (max n (target - length recs)) 0"
    using n t(1) by (simp add: write_zeros_at)
  have "reserve w wanted =
      (if sat_add (length recs) wanted \<le> w_zeroed w \<or> sat_add (w_zeroed w) (w_runway w) < sat_add (length recs) wanted
       then w else w\<lparr>w_file := recs @ replicate (max n (target - length recs)) 0, w_zeroed := target\<rparr>)"
    unfolding reserve_def Let_def n(2) target_def[symmetric] zeros by simp
  moreover have "w_zeroed w < length recs + wanted" if "\<not> sat_add (length recs) wanted \<le> w_zeroed w"
    using that by (simp add: sat_add_def)
  ultimately show ?thesis
    using assms n t by (auto simp: writer_ok_def)
qed

lemma writer_append_ok:
  assumes "writer_ok recs w" "length recs + length rec < 2 ^ 64"
  shows "writer_ok (recs @ rec) (writer_append w rec) \<and>
    length (w_file (writer_append w rec)) \<le> max (length (w_file w)) (length recs + length rec + MAX_RUNWAY)"
proof -
  let ?w = "reserve w (length rec)"
  obtain n where n: "w_file ?w = recs @ replicate n 0" "w_offset ?w = length recs" "length recs \<le> w_zeroed ?w"
    "w_zeroed ?w \<le> length recs + n" "w_zeroed ?w < 2 ^ 64" "w_runway ?w \<le> RUNWAY"
    "length recs + n \<le> max (length (w_file w)) (length recs + length rec + MAX_RUNWAY)"
    using reserve_ok[OF assms(1), of "length rec"] by (auto simp: writer_ok_def)
  then show ?thesis
    using assms(2) by (auto simp: writer_append_def Let_def writer_ok_def write_record_at max_def)
qed

fun append_all :: "writer \<Rightarrow> bytes list \<Rightarrow> writer" where
  "append_all w [] = w"
| "append_all w (r # rs) = append_all (writer_append w r) rs"

lemma append_all_ok:
  "writer_ok recs w \<Longrightarrow> length recs + length (concat rs) < 2 ^ 64 \<Longrightarrow>
     writer_ok (recs @ concat rs) (append_all w rs)"
proof (induction rs arbitrary: recs w)
  case (Cons r rs)
  then have "writer_ok (recs @ r) (writer_append w r)" using writer_append_ok by simp
  from Cons.IH[OF this] Cons.prems(2) show ?case by simp
qed simp

lemma writer_new_ok: "length recs < 2 ^ 64 \<Longrightarrow> writer_ok recs (writer_new (recs @ replicate n 0) (length recs) runway)"
  by (auto simp: writer_ok_def writer_new_def clamp_def RUNWAY_def)

section \<open>Durability\<close>

text \<open>
  Both handles are on the same file, every record of an earlier file is durable, and
  what a flush has covered is durable wherever it was written.
\<close>

definition wal_inv :: "wal \<Rightarrow> bool" where
  "wal_inv w \<longleftrightarrow> synced_lsn w \<le> appended_lsn w \<and> syncer_file w = writer_file w \<and>
     (\<forall>(l, f) \<in> written w. f \<le> writer_file w \<and> (f < writer_file w \<longrightarrow> l \<in> durable w) \<and>
        (l \<le> synced_lsn w \<longrightarrow> l \<in> durable w)) \<and>
     (\<forall>c g. flushing w = Some (c, g) \<longrightarrow> c \<le> appended_lsn w \<and>
        (g \<longrightarrow> (\<forall>(l, f) \<in> written w. l \<le> c \<longrightarrow> l \<in> durable w)))"

lemma sync_data_simps [simp]:
  "appended_lsn (sync_data w) = appended_lsn w" "synced_lsn (sync_data w) = synced_lsn w"
  "writer_file (sync_data w) = writer_file w" "syncer_file (sync_data w) = syncer_file w"
  "written (sync_data w) = written w" "flushing (sync_data w) = flushing w"
  by (simp_all add: sync_data_def)

lemma sync_data_durable:
  assumes "wal_inv w" "(l, f) \<in> written w"
  shows "l \<in> durable (sync_data w)"
  using assms by (cases "f = syncer_file w") (force simp: sync_data_def wal_inv_def)+

lemma wal_inv_sync_data: "wal_inv w \<Longrightarrow> wal_inv (sync_data w)"
  using sync_data_durable[of w] by (auto simp: wal_inv_def)

lemma wal_inv_rotate:
  assumes "wal_inv w" "flushing w = None" "writer_file w < fresh"
  shows "wal_inv (wal_rotate w fresh)"
proof -
  have "l \<in> durable (sync_data w)" "f \<le> fresh" if "(l, f) \<in> written w" for l f
  proof -
    have "f \<le> writer_file w" using assms(1) that by (auto simp: wal_inv_def)
    then show "f \<le> fresh" using assms(3) by simp
  qed (rule sync_data_durable[OF assms(1) that])
  then show ?thesis
    using assms by (auto simp: wal_inv_def wal_rotate_def Let_def)
qed

lemma wal_inv_step: "wal_step w w' \<Longrightarrow> wal_inv w \<Longrightarrow> wal_inv w'"
proof (induction rule: wal_step.induct)
  case (hand_over w lsn)
  have "\<not> lsn \<le> synced_lsn w" "\<not> lsn \<le> c" if "c \<le> appended_lsn w" for c
    using hand_over that by (auto simp: wal_inv_def)
  with hand_over.prems show ?case by (auto simp: wal_inv_def)
next
  case (publish lsn f w)
  then show ?case by (auto simp: wal_inv_def wal_publish_def le_max_iff_disj)
next
  case (flush w covered)
  then show ?case
    using wal_inv_sync_data[of w] sync_data_durable[of w] by (auto simp: wal_inv_def)
next
  case (sync_end w covered)
  then show ?case by (auto simp: wal_inv_def le_max_iff_disj)
next
  case (rotate_failed w)
  then show ?case using sync_data_durable[of w] by (auto simp: wal_inv_def)
next
  case (rotate w fresh)
  then show ?case by (intro wal_inv_rotate)
qed (auto simp: wal_inv_def)

lemma wal_reach_inv: "wal_reach w \<Longrightarrow> wal_inv w"
proof (induction rule: wal_reach.induct)
  case (start lsn)
  show ?case by (simp add: wal_inv_def wal_adopt_def wal_new_def)
qed (rule wal_inv_step)

section \<open>Properties\<close>

text \<open>
  C3: what the writer leaves behind is what recovery reads.  Opening a writer on a segment
  of whole records and runway and appending the records of further consecutive
  transactions leaves a file that recovery, whatever runway was filled, takes apart into
  the old and the new transactions, each applied once and in order.
\<close>

theorem appended_records_recovered:
  assumes "list_all (txn_ok crc) (ts @ us)" "consecutive first (ts @ us)"
    and "unat first + length (ts @ us) < 2 ^ 64" "unat first \<le> unat (ts_lsn (rs_tree rs)) + 1"
    and "length (segment_records crc seg first (ts @ us)) < 2 ^ 64"
    and "w = writer_new (segment_records crc seg first ts @ replicate n 0)
           (length (segment_records crc seg first ts)) runway"
  shows "\<exists>rs'. replay_segment crc seg None (w_file (append_all w (map (txn_record crc) us))) rs =
      Inr (w_offset (append_all w (map (txn_record crc) us)),
           w_file (append_all w (map (txn_record crc) us)), rs') \<and>
    rs_redo rs' = rs_redo rs @ map redo_of (filter (\<lambda>t. ts_lsn (rs_tree rs) < tx_lsn t) (ts @ us))"
proof -
  let ?w = "append_all w (map (txn_record crc) us)"
  have "writer_ok (segment_records crc seg first ts) w"
    unfolding assms(6) by (rule writer_new_ok) (use assms(5) in \<open>simp add: segment_records_def\<close>)
  from append_all_ok[OF this, of "map (txn_record crc) us"] assms(5)
  have "writer_ok (segment_records crc seg first (ts @ us)) ?w"
    by (simp add: segment_records_def)
  then obtain z where w: "w_file ?w = segment_records crc seg first (ts @ us) @ replicate z 0"
    "w_offset ?w = length (segment_records crc seg first (ts @ us))"
    by (auto simp: writer_ok_def)
  let ?new = "filter (\<lambda>t. ts_lsn (rs_tree rs) < tx_lsn t) (ts @ us)"
  have "list_all (\<lambda>t. list_all commit_ok (tx_ops t)) ?new"
    using assms(1) by (auto simp: list_all_iff txn_ok_def)
  then obtain rs' where rs': "replay_txns crc ?new rs = Inr rs'" "rs_redo rs' = rs_redo rs @ map redo_of ?new"
    using replay_txns_total[of ?new crc rs] by blast
  have len: "0 < length (txn_record crc (sample_txn 1))" by simp
  from replay_segment_torn[OF assms(1) sample_txn_ok len assms(2-4), of None seg z] rs' w show ?thesis
    by simp
qed

theorem appended_records_recovered_witness:
  "\<exists>rs' w. w = append_all (writer_new (segment_records sample_crc 3 1 [sample_txn 1])
       (length (segment_records sample_crc 3 1 [sample_txn 1])) 64) [txn_record sample_crc (sample_txn 2)] \<and>
     replay_segment sample_crc 3 None (w_file w) sample_state = Inr (w_offset w, w_file w, rs') \<and>
     rs_redo rs' = [redo_of (sample_txn 1), redo_of (sample_txn 2)]"
  using appended_records_recovered[of sample_crc "[sample_txn 1]" "[sample_txn 2]" 1 sample_state 3 _ 0 64]
  by (simp add: segment_records_def wal_lens)

text \<open>
  the runway is bounded.  Appending a record to a segment of whole records and runway
  grows the file to at most one largest runway step past the record's end, and leaves
  whole records and zeros again.
\<close>

lemma runway_bounded:
  assumes "writer_ok recs w" "length recs + length rec < 2 ^ 64"
  shows "writer_ok (recs @ rec) (writer_append w rec) \<and>
    length (w_file (writer_append w rec)) \<le> max (length (w_file w)) (length recs + length rec + MAX_RUNWAY)"
  using assms by (rule writer_append_ok)

theorem runway_bounded_witness:
  "writer_ok [7, 7] (writer_append (writer_new [] 0 64) [7, 7]) \<and>
     length (w_file (writer_append (writer_new [] 0 64) [7, 7])) \<le> 2 + MAX_RUNWAY"
  using runway_bounded[of "[]" "writer_new [] 0 64" "[7, 7]"] writer_new_ok[of "[]" 0 64]
  by (simp add: writer_new_def)

text \<open>
  C24: a reported LSN is durable.  In every interleaving of appends, flushes, failed
  flushes and rotations over segment files, every record at or below the synced LSN has
  been flushed in the file it was written to; every record of a segment rotated away from
  has been flushed, so the next one never outlives it; and a sync call that finds its LSN
  appended makes it durable, also when a rotation came between its write and the call.
\<close>

theorem synced_is_durable:
  assumes "wal_reach w" "(l, f) \<in> written w"
  shows "(l \<le> synced_lsn w \<longrightarrow> l \<in> durable w) \<and> (f \<noteq> writer_file w \<longrightarrow> l \<in> durable w) \<and>
    (l \<le> appended_lsn w \<longrightarrow> l \<le> synced_lsn (sync_through w l) \<and> l \<in> durable (sync_through w l))"
proof -
  note inv = wal_reach_inv[OF assms(1)]
  then have "l \<in> durable (sync_data w)" using assms(2) by (rule sync_data_durable)
  then show ?thesis
    using inv assms(2) by (force simp: wal_inv_def sync_through_def Let_def max_def)
qed

text \<open>Record 6 goes into file 0, a rotation follows before it is published, and then a sync.\<close>

theorem synced_is_durable_witness:
  "\<exists>w. wal_reach w \<and> (6, 0) \<in> written w \<and> writer_file w = 1 \<and> synced_lsn w = 5 \<and>
     6 \<in> durable w \<and> synced_lsn (sync_through w 6) = 6 \<and> 6 \<in> durable (sync_through w 6)"
proof -
  let ?a = "(wal_adopt wal_new 5)\<lparr>written := {(6, 0)}\<rparr>"
  let ?b = "wal_rotate ?a 1"
  let ?c = "wal_publish ?b 6"
  have "wal_reach ?a"
    using wal_reach.step[OF start hand_over, of 5 6] by (simp add: wal_adopt_def wal_new_def)
  then have "wal_reach ?b"
    by (rule wal_reach.step) (rule rotate, simp_all add: wal_adopt_def wal_new_def)
  then have c: "wal_reach ?c"
    by (rule wal_reach.step) (rule publish[of _ 0], simp add: wal_rotate_def Let_def)
  have "(6, 0) \<in> written ?c" "writer_file ?c = 1" "synced_lsn ?c = 5" "appended_lsn ?c = 6"
    by (simp_all add: wal_publish_def wal_rotate_def wal_adopt_def wal_new_def Let_def)
  with synced_is_durable[OF c, of 6 0] c show ?thesis
    by (intro exI[of _ ?c]) (auto simp: sync_through_def Let_def)
qed

end
