(* ===== verification/ReplicationLog.thy ===== *)
theory ReplicationLog
  imports Replay
begin

text \<open>
  The replica's side of log shipping, \<open>crates/vyrn-core/src/replication.rs\<close>: the checks a
  received record passes before it is appended, the rules for joining and continuing a
  stream, and the bounded reader that closes a gap from the archive.  The lemmas relate
  those checks to recovery's own, and show that a stream that is never refused is exactly
  the log, and that the archive reader returns the next records in order and always makes
  progress.
\<close>

section \<open>Received records\<close>

record record_info =
  ri_lsn :: u64
  ri_operation_count :: u32
  ri_payload_len :: u32
  ri_root :: u64
  ri_len :: u64
  ri_total_len :: nat

datatype divergence =
    ReplicaAhead (da_replica_lsn: u64) (da_primary_lsn: u64)
  | GapBeforeStream (dg_replica_lsn: u64) (dg_first_lsn: u64)
  | NonContiguous (dn_expected: u64) (dn_received: u64)

definition verify_record :: "(bytes \<Rightarrow> u32) \<Rightarrow> bytes \<Rightarrow> vyrn_error + record_info" where
  "verify_record crc bs =
     (let bad = (\<lambda>reason. Inl (InvalidReplicatedRecord reason)) in
      if length bs < RECORD_HEADER_LEN then bad ''replication record is shorter than its header''
      else if take 4 bs \<noteq> RECORD_MAGIC then bad ''replication record has invalid magic''
      else if \<not> record_version_known bs
      then Inl (FormatVersion ''replicated WAL record'' (bs ! 4) RECORD_VERSION)
      else
        (let lsn = u64_of_be (bslice bs 5 8); operation_count = u32_of_be (bslice bs 13 4);
             payload_len = u32_of_be (bslice bs 17 4); expected_checksum = u32_of_be (bslice bs 21 4);
             root = u64_of_be (bslice bs 25 8); len = u64_of_be (bslice bs 33 8);
             total_len = record_total_len (unat payload_len) in
         if lsn = 0 then bad ''replication record has LSN 0''
         else if bs ! 4 = LEGACY_RECORD_VERSION \<and> list_ex (\<lambda>b. b \<noteq> 0) (bslice bs 41 (RECORD_HEADER_LEN - 41))
         then bad ''replication record has non-zero padding in its header''
         else if bs ! 4 \<noteq> LEGACY_RECORD_VERSION \<and> \<not> record_header_crc_ok crc (take RECORD_HEADER_LEN bs)
         then bad ''replication record header fails its checksum''
         else if total_len \<noteq> length bs then bad ''replication record length does not match its declared size''
         else
           (let payload = bslice bs RECORD_HEADER_LEN (total_len - RECORD_FOOTER_LEN - RECORD_HEADER_LEN);
                footer = drop (total_len - RECORD_FOOTER_LEN) bs in
            if transaction_checksum crc lsn (unat operation_count) payload root len \<noteq> expected_checksum
            then bad ''replication record failed its checksum''
            else if unat (u32_of_be (take 4 footer)) \<noteq> total_len
            then bad ''replication record footer length disagrees''
            else if drop 4 footer \<noteq> RECORD_END then bad ''replication record has invalid footer''
            else
              (case validate_payload payload (unat operation_count) of
                 Inl reason \<Rightarrow> bad reason
               | Inr _ \<Rightarrow>
                   Inr \<lparr>ri_lsn = lsn, ri_operation_count = operation_count, ri_payload_len = payload_len,
                        ri_root = root, ri_len = len, ri_total_len = total_len\<rparr>))))"

section \<open>Joining and continuing a stream\<close>

text \<open>\<open>u64::saturating_add(1)\<close>.\<close>

definition sat_succ :: "u64 \<Rightarrow> u64" where
  "sat_succ n = (if n = U64_MAX then n else n + 1)"

definition check_join :: "u64 \<Rightarrow> u64 \<Rightarrow> u64 \<Rightarrow> divergence option" where
  "check_join replica_lsn primary_lsn first_lsn =
     (if primary_lsn < replica_lsn then Some (ReplicaAhead replica_lsn primary_lsn)
      else if sat_succ replica_lsn < first_lsn then Some (GapBeforeStream replica_lsn first_lsn)
      else None)"

definition check_contiguous :: "u64 \<Rightarrow> u64 \<Rightarrow> divergence + bool" where
  "check_contiguous last_lsn lsn =
     (if lsn = sat_succ last_lsn then Inr True
      else if lsn \<le> last_lsn then Inr False
      else Inl (NonContiguous (sat_succ last_lsn) lsn))"

section \<open>The archive\<close>

text \<open>
  A log directory is its segments by id.  The oldest one's header says which records are
  still there.
\<close>

definition oldest_available_lsn :: "(bytes \<Rightarrow> u32) \<Rightarrow> (u64 \<times> bytes) list \<Rightarrow> vyrn_error + u64" where
  "oldest_available_lsn crc segments =
     (case segments of [] \<Rightarrow> Inr 0 | (i, bs) # _ \<Rightarrow> read_segment_first_lsn crc bs)"

text \<open>
  One segment's records from the wanted LSN on.  The flag says that a bound was reached
  and the records so far are returned.
\<close>

function archive_walk ::
  "(bytes \<Rightarrow> u32) \<Rightarrow> u64 \<Rightarrow> u64 \<Rightarrow> nat \<Rightarrow> nat \<Rightarrow> nat \<Rightarrow> bytes \<Rightarrow> bytes list \<Rightarrow> nat \<Rightarrow>
     vyrn_error + (bool \<times> bytes list \<times> nat)" where
  "archive_walk crc i from_lsn max_records max_bytes offset rest records held =
     (let bad = (\<lambda>reason. Inl (InvalidReplicatedRecord (''archived segment '' @ show_nat (unat i) @ reason)));
          header = take RECORD_HEADER_LEN rest in
      if length rest < RECORD_HEADER_LEN then Inr (False, records, held)
      else if take 4 header \<noteq> RECORD_MAGIC then Inr (False, records, held)
      else if \<not> record_header_crc_ok crc header
      then bad ('' holds a record whose header fails its checksum at byte '' @ show_nat offset)
      else
        (let lsn = u64_of_be (bslice header 5 8);
             total_len = record_total_len (unat (u32_of_be (bslice header 17 4))) in
         if length rest < total_len then bad ('' ends inside a record at byte '' @ show_nat offset)
         else if from_lsn \<le> lsn then
           if records \<noteq> [] \<and> (max_records \<le> length records \<or> max_bytes < held + total_len)
           then Inr (True, records, held)
           else archive_walk crc i from_lsn max_records max_bytes (offset + total_len) (drop total_len rest)
                  (records @ [take total_len rest]) (held + total_len)
         else archive_walk crc i from_lsn max_records max_bytes (offset + total_len) (drop total_len rest)
                records held))"
  by pat_completeness auto
termination
  by (relation "measure (\<lambda>(crc, i, from_lsn, mr, mb, offset, rest, records, held). length rest)")
    (auto simp: record_total_len_def wal_lens)

declare archive_walk.simps [simp del]

fun archive_segments ::
  "(bytes \<Rightarrow> u32) \<Rightarrow> u64 \<Rightarrow> nat \<Rightarrow> nat \<Rightarrow> (u64 \<times> bytes) list \<Rightarrow> bytes list \<Rightarrow> nat \<Rightarrow> vyrn_error + bytes list" where
  "archive_segments crc from_lsn max_records max_bytes [] records held = Inr records"
| "archive_segments crc from_lsn max_records max_bytes ((i, bs) # segments) records held =
     (if (case segments of
            [] \<Rightarrow> False
          | (j, next) # _ \<Rightarrow>
              (let next_first = (case read_segment_first_lsn crc next of Inl e \<Rightarrow> 0 | Inr l \<Rightarrow> l) in
               next_first \<noteq> 0 \<and> next_first \<le> from_lsn))
      then archive_segments crc from_lsn max_records max_bytes segments records held
      else if length bs < SEGMENT_HEADER_LEN
      then Inl (InvalidReplicatedRecord (''archived segment '' @ show_nat (unat i) @ '' is shorter than its header''))
      else
        (case archive_walk crc i from_lsn max_records max_bytes SEGMENT_HEADER_LEN (drop SEGMENT_HEADER_LEN bs)
                records held of
           Inl e \<Rightarrow> Inl e
         | Inr (True, records, held) \<Rightarrow> Inr records
         | Inr (False, records, held) \<Rightarrow>
             archive_segments crc from_lsn max_records max_bytes segments records held))"

text \<open>
  The segments are the archive directory's files with their ids, in the order of the
  ids; listing the directory and parsing the names is left out.
\<close>

definition archived_records_from ::
  "(bytes \<Rightarrow> u32) \<Rightarrow> (u64 \<times> bytes) list \<Rightarrow> u64 \<Rightarrow> nat \<Rightarrow> nat \<Rightarrow> vyrn_error + bytes list" where
  "archived_records_from crc segments from_lsn max_records max_bytes =
     archive_segments crc from_lsn max_records max_bytes segments [] 0"

section \<open>Verified records and recovery\<close>

lemma validate_operations_len:
  "validate_operations rest n = Inr r \<Longrightarrow> n * OP_HEADER_LEN + length r \<le> length rest"
proof (induction n arbitrary: rest)
  case (Suc n)
  let ?k = "unat (u32_of_be (bslice rest 1 4))" and ?v = "unat (u32_of_be (bslice rest 5 4))"
  have "OP_HEADER_LEN + ?k + ?v \<le> length rest"
    "validate_operations (drop (OP_HEADER_LEN + ?k + ?v) rest) n = Inr r"
    using Suc.prems by (auto simp: Let_def split: if_splits)
  with Suc.IH show ?case by fastforce
qed simp

lemma validate_payload_len: "validate_payload payload n = Inr u \<Longrightarrow> n * OP_HEADER_LEN \<le> length payload"
  using validate_operations_len by (fastforce simp: validate_payload_def split: sum.splits if_splits)

lemma verify_recordD:
  assumes "verify_record crc bs = Inr h"
  defines "payload_len \<equiv> unat (u32_of_be (bslice bs 17 4))"
  defines "count \<equiv> u32_of_be (bslice bs 13 4)"
  defines "payload \<equiv> bslice bs RECORD_HEADER_LEN payload_len"
  shows "length bs = record_total_len payload_len" "take 4 bs = RECORD_MAGIC" "record_version_known bs"
    "bs ! 4 = LEGACY_RECORD_VERSION \<or> record_header_crc_ok crc (take RECORD_HEADER_LEN bs)"
    "transaction_checksum crc (u64_of_be (bslice bs 5 8)) (unat count) payload (u64_of_be (bslice bs 25 8))
       (u64_of_be (bslice bs 33 8)) = u32_of_be (bslice bs 21 4)"
    "unat (u32_of_be (take 4 (drop (RECORD_HEADER_LEN + payload_len) bs))) = record_total_len payload_len"
    "drop 4 (drop (RECORD_HEADER_LEN + payload_len) bs) = RECORD_END"
    "validate_payload payload (unat count) = Inr ()"
    "h = \<lparr>ri_lsn = u64_of_be (bslice bs 5 8), ri_operation_count = count,
          ri_payload_len = u32_of_be (bslice bs 17 4), ri_root = u64_of_be (bslice bs 25 8),
          ri_len = u64_of_be (bslice bs 33 8), ri_total_len = record_total_len payload_len\<rparr>"
    "ri_lsn h \<noteq> 0"
proof -
  have len: "length bs = record_total_len payload_len"
    using assms(1) unfolding verify_record_def Let_def payload_len_def by (simp split: if_splits)
  then have minus: "length bs - RECORD_FOOTER_LEN = RECORD_HEADER_LEN + payload_len"
    "length bs - (RECORD_FOOTER_LEN + RECORD_HEADER_LEN) = payload_len"
    by (simp_all add: record_total_len_def)
  show "length bs = record_total_len payload_len"
    "take 4 bs = RECORD_MAGIC"
    "record_version_known bs"
    "bs ! 4 = LEGACY_RECORD_VERSION \<or> record_header_crc_ok crc (take RECORD_HEADER_LEN bs)"
    "transaction_checksum crc (u64_of_be (bslice bs 5 8)) (unat count) payload (u64_of_be (bslice bs 25 8))
       (u64_of_be (bslice bs 33 8)) = u32_of_be (bslice bs 21 4)"
    "unat (u32_of_be (take 4 (drop (RECORD_HEADER_LEN + payload_len) bs))) = record_total_len payload_len"
    "drop 4 (drop (RECORD_HEADER_LEN + payload_len) bs) = RECORD_END"
    "validate_payload payload (unat count) = Inr ()"
    "h = \<lparr>ri_lsn = u64_of_be (bslice bs 5 8), ri_operation_count = count,
          ri_payload_len = u32_of_be (bslice bs 17 4), ri_root = u64_of_be (bslice bs 25 8),
          ri_len = u64_of_be (bslice bs 33 8), ri_total_len = record_total_len payload_len\<rparr>"
    "ri_lsn h \<noteq> 0"
    using assms(1) len minus unfolding verify_record_def Let_def
    by (auto simp: payload_def count_def simp flip: payload_len_def split: if_splits sum.splits)
qed

lemma verify_record_frame:
  assumes v: "verify_record crc bs = Inr h" and n: "ri_operation_count h \<noteq> 0"
    and w: "offset + length bs \<le> written"
  shows "read_frame crc is_last seg written offset (bs @ rest) =
    Inr (FrameRecord (ri_lsn h) (unat (ri_operation_count h))
      (bslice bs RECORD_HEADER_LEN (unat (ri_payload_len h))) (ri_root h) (ri_len h) (length bs))"
proof -
  note d = verify_recordD[OF v]
  let ?p = "unat (u32_of_be (bslice bs 17 4))"
  define s where "s = bs @ rest"
  have hlen: "RECORD_HEADER_LEN \<le> length bs" "RECORD_HEADER_LEN + ?p + RECORD_FOOTER_LEN = length bs"
    using d(1) by (auto simp: record_total_len_def)
  have foot: "bslice s (RECORD_HEADER_LEN + ?p) RECORD_FOOTER_LEN = drop (RECORD_HEADER_LEN + ?p) bs"
    "bslice s RECORD_HEADER_LEN ?p = bslice bs RECORD_HEADER_LEN ?p"
    using hlen(2) by (simp_all add: s_def bslice_def)
  have hd: "take RECORD_HEADER_LEN s = take RECORD_HEADER_LEN bs" using hlen by (simp add: s_def)
  have fields: "bslice (take RECORD_HEADER_LEN bs) off m = bslice bs off m" if "off + m \<le> 45" for off m
    using that by (simp add: bslice_take wal_lens)
  have h: "take 4 (take RECORD_HEADER_LEN bs) = RECORD_MAGIC" "record_version_known (take RECORD_HEADER_LEN bs)"
    "record_header_crc_ok crc (take RECORD_HEADER_LEN bs)"
    using d(2-4) by (auto simp: wal_lens record_version_known_def record_header_crc_ok_def wal_versions)
  have m: "\<not> ?p < unat (ri_operation_count h) * OP_HEADER_LEN" "unat (ri_operation_count h) \<noteq> 0"
    using validate_payload_len[OF d(8)] hlen(2) n d(9) by (auto simp: unat_eq_0)
  have "\<not> written \<le> offset" "\<not> written < offset + RECORD_HEADER_LEN" "\<not> written < offset + record_total_len ?p"
    "\<not> length s < RECORD_HEADER_LEN" "\<not> length s < record_total_len ?p" "length bs = record_total_len ?p"
    using w hlen d(1) by (auto simp: s_def wal_lens)
  then show ?thesis
    using d(5-9) h m unfolding s_def[symmetric] by (simp add: read_frame_def Let_def hd fields foot)
qed

lemma verify_record_encoded:
  assumes "list_all commit_ok ps" "encode_record crc lsn ps root len = Inr rec" "lsn \<noteq> 0"
  defines "payload \<equiv> concat (map encode_operation ps)"
  shows "verify_record crc rec =
    Inr \<lparr>ri_lsn = lsn, ri_operation_count = word_of_nat (length ps), ri_payload_len = word_of_nat (length payload),
         ri_root = root, ri_len = len, ri_total_len = length rec\<rparr>"
proof -
  let ?h = "record_header crc lsn (length ps) payload root len"
  let ?t = "record_total_len (length payload)"
  note e = encode_record_ok[OF assms(1,2), folded payload_def]
  have rec: "rec = ?h @ payload @ record_footer ?t" by (rule e(3))
  have u: "unat (word_of_nat (length ps) :: u32) = length ps"
    "unat (word_of_nat (length payload) :: u32) = length payload" "unat (word_of_nat ?t :: u32) = ?t"
    using e(1,2) by (simp_all only: unat_word_of_nat_u32) (simp_all add: record_total_len_def unat_word_of_nat_u32)
  have len: "length rec = ?t" by (simp add: rec record_total_len_def)
  have f: "bslice rec off n = bslice ?h off n" if "off + n \<le> 45" for off n
    using that by (simp add: rec bslice_append_left wal_lens)
  have p: "bslice rec RECORD_HEADER_LEN (length payload) = payload"
    "drop (RECORD_HEADER_LEN + length payload) rec = record_footer ?t"
    "take RECORD_HEADER_LEN rec = ?h" "take 4 rec = RECORD_MAGIC" "rec ! 4 = RECORD_VERSION"
    "record_version_known rec" "\<not> length rec < RECORD_HEADER_LEN"
    using record_header_fields(1,2)[of crc lsn "length ps" payload root len]
    by (simp_all add: rec bslice_simps wal_lens nth_append record_version_known_def)
  have g: "take 4 (record_footer n) = u32_to_be (word_of_nat n)" "drop 4 (record_footer n) = RECORD_END" for n
    by (simp_all add: record_footer_def)
  have "validate_payload payload (length ps) = Inr ()"
    unfolding payload_def by (rule validate_payload_encode[OF assms(1)])
  moreover have "?t - RECORD_FOOTER_LEN = RECORD_HEADER_LEN + length payload" by (simp add: record_total_len_def)
  ultimately show ?thesis
    using assms(3) u len p g by (simp add: verify_record_def Let_def f wal_versions)
qed

lemma empty_record_refused:
  assumes "encode_record crc lsn [] root len = Inr rec"
  shows "replay_segment crc seg None (segment_header crc seg lsn @ rec) rs =
    Inl (CorruptWal seg 32 ''invalid transaction metadata'')"
proof -
  let ?h = "record_header crc lsn 0 [] root len"
  have rec: "rec = ?h @ record_footer (record_total_len 0)"
    using encode_record_ok[OF _ assms] by simp
  then have hd: "take RECORD_HEADER_LEN rec = ?h" "length rec = 53" "\<not> length rec < RECORD_HEADER_LEN"
    by (simp_all add: wal_lens)
  let ?a = "segment_header crc seg lsn @ ?h @ u32_to_be (word_of_nat (record_total_len 0)) @ butlast RECORD_END"
  have "segment_header crc seg lsn @ rec = ?a @ [68]"
    by (simp add: rec record_footer_def wal_magics)
  with last_written_gt[of ?a 68 "[]"] have w: "length ?a < last_written_byte (segment_header crc seg lsn @ rec)"
    by (simp add: last_written_byte_eq)
  have "read_frame crc True seg (last_written_byte (segment_header crc seg lsn @ rec)) SEGMENT_HEADER_LEN rec =
      Inl (CorruptWal seg (word_of_nat SEGMENT_HEADER_LEN) ''invalid transaction metadata'')"
    using w by (simp add: read_frame_def Let_def hd(1,3))
  moreover have "rec \<noteq> []" using hd(2) by auto
  ultimately show ?thesis
    by (simp add: replay_segment_def replay_records.simps) (simp add: wal_lens)
qed

section \<open>Streams\<close>

text \<open>The replica's loop over the LSNs it receives: skip duplicates, append the next, stop on a gap.\<close>

fun follow_stream :: "u64 \<Rightarrow> u64 list \<Rightarrow> divergence + (u64 list \<times> u64)" where
  "follow_stream last_lsn [] = Inr ([], last_lsn)"
| "follow_stream last_lsn (lsn # lsns) =
     (case check_contiguous last_lsn lsn of
        Inl d \<Rightarrow> Inl d
      | Inr False \<Rightarrow> follow_stream last_lsn lsns
      | Inr True \<Rightarrow>
         (case follow_stream lsn lsns of Inl d \<Rightarrow> Inl d | Inr (app, l) \<Rightarrow> Inr (lsn # app, l)))"

lemma sat_succ_max: "sat_succ n \<noteq> n \<Longrightarrow> unat (sat_succ n) = unat n + 1"
proof -
  assume "sat_succ n \<noteq> n"
  then have "n \<noteq> U64_MAX" by (auto simp: sat_succ_def)
  have "unat n + 1 \<noteq> 2 ^ 64"
  proof
    assume "unat n + 1 = 2 ^ 64"
    then have "unat (n + 1) = 0" by (simp add: unat_word_ariths)
    then have "n + 1 = 0" by (simp add: unat_eq_0)
    with \<open>n \<noteq> U64_MAX\<close> show False by (simp add: eq_neg_iff_add_eq_0)
  qed
  moreover have "unat n < 2 ^ 64" using unsigned_less[of n, where ?'a = nat] by simp
  ultimately have "unat n + 1 < 2 ^ 64" by simp
  with \<open>n \<noteq> U64_MAX\<close> show ?thesis by (simp add: sat_succ_def unat_Suc_u64)
qed

lemma follow_stream_contiguous:
  "follow_stream last_lsn lsns = Inr (app, l) \<Longrightarrow> last_lsn \<noteq> U64_MAX \<Longrightarrow> U64_MAX \<notin> set lsns \<Longrightarrow>
     map unat app = [Suc (unat last_lsn) ..< Suc (unat last_lsn + length app)] \<and>
     unat l = unat last_lsn + length app"
proof (induction lsns arbitrary: last_lsn app)
  case (Cons x lsns)
  have s: "unat (sat_succ last_lsn) = unat last_lsn + 1"
    using Cons.prems(2) by (intro sat_succ_max) (simp add: sat_succ_def)
  consider "check_contiguous last_lsn x = Inr False" | "check_contiguous last_lsn x = Inr True"
    using Cons.prems(1) by (cases "check_contiguous last_lsn x") (auto split: bool.splits)
  then show ?case
  proof cases
    case 1
    with Cons show ?thesis by auto
  next
    case 2
    then have x: "x = sat_succ last_lsn" by (auto simp: check_contiguous_def split: if_splits)
    obtain app' where a: "follow_stream x lsns = Inr (app', l)" "app = x # app'"
      using Cons.prems(1) 2 by (auto split: sum.splits)
    with Cons.IH[OF a(1)] Cons.prems(3) x s show ?thesis by (auto simp: upt_conv_Cons)
  qed
qed simp

section \<open>What the archive reader returns\<close>

fun take_bounded :: "nat \<Rightarrow> nat \<Rightarrow> bytes list \<Rightarrow> nat \<Rightarrow> bytes list \<Rightarrow> bool \<times> bytes list \<times> nat" where
  "take_bounded max_records max_bytes records held [] = (False, records, held)"
| "take_bounded max_records max_bytes records held (r # rs) =
     (if records \<noteq> [] \<and> (max_records \<le> length records \<or> max_bytes < held + length r) then (True, records, held)
      else take_bounded max_records max_bytes (records @ [r]) (held + length r) rs)"

lemma take_bounded_append:
  "take_bounded mr mb acc held (rs @ ss) =
     (case take_bounded mr mb acc held rs of
        (True, a, h) \<Rightarrow> (True, a, h) | (False, a, h) \<Rightarrow> take_bounded mr mb a h ss)"
  by (induction rs arbitrary: acc held) auto

lemma take_bounded_take:
  "\<exists>k. k \<le> length rs \<and> take_bounded mr mb acc held rs =
       (k < length rs, acc @ take k rs, held + length (concat (take k rs))) \<and>
     (acc = [] \<and> rs \<noteq> [] \<longrightarrow> 0 < k) \<and>
     (1 < length acc + k \<and> 0 < k \<longrightarrow> length acc + k \<le> mr \<and> held + length (concat (take k rs)) \<le> mb) \<and>
     (k < length rs \<longrightarrow> mr \<le> length acc + k \<or> mb < held + length (concat (take (Suc k) rs)))"
proof (induction rs arbitrary: acc held)
  case (Cons r rs)
  show ?case
  proof (cases "acc \<noteq> [] \<and> (mr \<le> length acc \<or> mb < held + length r)")
    case True
    then show ?thesis by (intro exI[of _ 0]) auto
  next
    case False
    obtain k where k: "k \<le> length rs" "take_bounded mr mb (acc @ [r]) (held + length r) rs =
        (k < length rs, (acc @ [r]) @ take k rs, held + length r + length (concat (take k rs)))"
      "1 < length (acc @ [r]) + k \<and> 0 < k \<longrightarrow>
         length (acc @ [r]) + k \<le> mr \<and> held + length r + length (concat (take k rs)) \<le> mb"
      "k < length rs \<longrightarrow> mr \<le> length (acc @ [r]) + k \<or> mb < held + length r + length (concat (take (Suc k) rs))"
      using Cons.IH[of "acc @ [r]" "held + length r"] by blast
    have "length acc + Suc k \<le> mr \<and> held + length (concat (take (Suc k) (r # rs))) \<le> mb"
      if "1 < length acc + Suc k"
      using that k(3) False by (cases k) auto
    with k False show ?thesis by (intro exI[of _ "Suc k"]) (auto simp: add.assoc)
  qed
qed simp

lemma archive_walk_txns:
  assumes "list_all (txn_ok crc) ts"
  shows "archive_walk crc i from_lsn mr mb offset (concat (map (txn_record crc) ts) @ replicate z 0) acc held =
    Inr (take_bounded mr mb acc held (map (txn_record crc) (filter (\<lambda>t. from_lsn \<le> tx_lsn t) ts)))"
  using assms
proof (induction ts arbitrary: offset acc held)
  case Nil
  have "(86 :: byte) \<notin> set (take 4 (replicate RECORD_HEADER_LEN 0))" "86 \<in> set RECORD_MAGIC"
    by (auto simp: wal_magics dest!: in_set_takeD)
  then have "take 4 (replicate RECORD_HEADER_LEN (0 :: byte)) \<noteq> RECORD_MAGIC" by metis
  then show ?case by (subst archive_walk.simps) (auto simp: Let_def min_def not_less)
next
  case (Cons t ts)
  define rest where "rest = concat (map (txn_record crc) ts) @ replicate z 0"
  define s where "s = txn_record crc t @ rest"
  have t: "txn_ok crc t" using Cons.prems by simp
  note len = length_txn_record[OF t] and meta = txn_meta(2)[OF t]
  have h: "take RECORD_HEADER_LEN s =
      record_header crc (tx_lsn t) (length (tx_ops t)) (txn_payload t) (tx_root t) (tx_len t)"
    by (simp add: s_def txn_record_parts(3)[OF t])
  have s: "\<not> length s < RECORD_HEADER_LEN" "\<not> length s < record_total_len (length (txn_payload t))"
    "drop (record_total_len (length (txn_payload t))) s = rest"
    "take (record_total_len (length (txn_payload t))) s = txn_record crc t"
    using len by (auto simp: s_def record_total_len_def wal_lens)
  have "archive_walk crc i from_lsn mr mb offset s acc held =
      (if from_lsn \<le> tx_lsn t then
         if acc \<noteq> [] \<and> (mr \<le> length acc \<or> mb < held + length (txn_record crc t)) then Inr (True, acc, held)
         else archive_walk crc i from_lsn mr mb (offset + length (txn_record crc t)) rest
                (acc @ [txn_record crc t]) (held + length (txn_record crc t))
       else archive_walk crc i from_lsn mr mb (offset + length (txn_record crc t)) rest acc held)"
    using s by (subst archive_walk.simps) (simp add: Let_def h meta len)
  then show ?case using Cons by (simp add: s_def rest_def)
qed

fun archive_files :: "(bytes \<Rightarrow> u32) \<Rightarrow> u64 \<Rightarrow> (u64 \<times> txn list \<times> nat) list \<Rightarrow> (u64 \<times> bytes) list" where
  "archive_files crc n [] = []"
| "archive_files crc n ((i, ts, z) # segs) =
     (i, segment_records crc i n ts @ replicate z 0) # archive_files crc (n + word_of_nat (length ts)) segs"

fun archive_chain :: "(bytes \<Rightarrow> u32) \<Rightarrow> u64 \<Rightarrow> (u64 \<times> txn list \<times> nat) list \<Rightarrow> bool" where
  "archive_chain crc n [] = True"
| "archive_chain crc n ((i, ts, z) # segs) \<longleftrightarrow>
     list_all (txn_ok crc) ts \<and> consecutive n ts \<and> archive_chain crc (n + word_of_nat (length ts)) segs"

definition archive_txns :: "(u64 \<times> txn list \<times> nat) list \<Rightarrow> txn list" where
  "archive_txns segs = concat (map (\<lambda>(i, ts, z). ts) segs)"

lemma unat_add_u64: "unat (n :: u64) + k < 2 ^ 64 \<Longrightarrow> unat (n + word_of_nat k) = unat n + k"
  by (simp add: unat_word_ariths unat_of_nat)

lemma consecutive_lt:
  "consecutive n ts \<Longrightarrow> unat n + length ts < 2 ^ 64 \<Longrightarrow> t \<in> set ts \<Longrightarrow> unat (tx_lsn t) < unat n + length ts"
proof (induction ts arbitrary: n)
  case (Cons u ts)
  have "unat (n + 1) = unat n + 1" using Cons.prems(2) by (intro unat_Suc_u64) simp
  with Cons show ?case by fastforce
qed simp

lemma archive_segments_txns:
  assumes "archive_chain crc n segs" "unat n + length (archive_txns segs) < 2 ^ 64"
  shows "archive_segments crc from_lsn mr mb (archive_files crc n segs) acc held =
    Inr (fst (snd (take_bounded mr mb acc held
      (map (txn_record crc) (filter (\<lambda>t. from_lsn \<le> tx_lsn t) (archive_txns segs))))))"
  using assms
proof (induction segs arbitrary: n acc held)
  case (Cons seg segs)
  obtain i ts z where seg: "seg = (i, ts, z)" by (metis prod_cases3)
  let ?n = "n + word_of_nat (length ts)"
  let ?want = "\<lambda>ts. map (txn_record crc) (filter (\<lambda>t. from_lsn \<le> tx_lsn t) ts)"
  have ok: "list_all (txn_ok crc) ts" "consecutive n ts" "archive_chain crc ?n segs"
    using Cons.prems(1) seg by auto
  have n: "unat ?n = unat n + length ts" "unat ?n + length (archive_txns segs) < 2 ^ 64" "unat n + length ts < 2 ^ 64"
    using Cons.prems(2) seg unat_add_u64[of n "length ts"] by (auto simp: archive_txns_def)
  note IH = Cons.IH[OF ok(3) n(2)]
  have walk: "archive_walk crc i from_lsn mr mb SEGMENT_HEADER_LEN
      (drop SEGMENT_HEADER_LEN (segment_records crc i n ts @ replicate z 0)) acc held =
      Inr (take_bounded mr mb acc held (?want ts))"
    using archive_walk_txns[OF ok(1)] by (simp add: segment_records_def)
  let ?skip = "case archive_files crc ?n segs of [] \<Rightarrow> False
      | (j, nx) # _ \<Rightarrow> (let next_first = (case read_segment_first_lsn crc nx of Inl e \<Rightarrow> 0 | Inr l \<Rightarrow> l) in
           next_first \<noteq> 0 \<and> next_first \<le> from_lsn)"
  have skip: "filter (\<lambda>t. from_lsn \<le> tx_lsn t) ts = []" if "?skip"
  proof -
    have "?n \<le> from_lsn"
      using that by (cases segs) (auto simp: Let_def segment_records_def split: prod.splits)
    then show ?thesis using consecutive_lt[OF ok(2) n(3)] n(1)
      by (fastforce simp: filter_empty_conv word_le_nat_alt)
  qed
  have app: "?want (archive_txns (seg # segs)) = ?want ts @ ?want (archive_txns segs)"
    by (simp add: archive_txns_def seg)
  show ?case
  proof (cases ?skip)
    case True
    with IH skip[OF True] app seg show ?thesis by simp
  next
    case False
    have len: "\<not> length (segment_records crc i n ts @ replicate z 0) < SEGMENT_HEADER_LEN"
      by (simp add: segment_records_def)
    show ?thesis using False IH walk app seg len
      by (simp add: take_bounded_append split: prod.splits bool.splits)
  qed
qed (simp add: archive_txns_def)

section \<open>Properties\<close>

text \<open>
  C37: a received record with at least one operation that passes the replica's checks is one
  recovery accepts.  Wherever it is appended, recovery's walk reads a complete record of
  the same LSN, root, length and operations there, behind which the walk goes on.
\<close>

theorem verified_record_replays:
  assumes "verify_record crc bs = Inr h" "ri_operation_count h \<noteq> 0" "offset + length bs \<le> written_through"
  shows "read_frame crc is_last seg written_through offset (bs @ rest) =
    Inr (FrameRecord (ri_lsn h) (unat (ri_operation_count h))
      (bslice bs RECORD_HEADER_LEN (unat (ri_payload_len h))) (ri_root h) (ri_len h) (length bs))"
  using assms by (rule verify_record_frame)

lemma sample_verified:
  "verify_record crc (txn_record crc (sample_txn 1)) =
     Inr \<lparr>ri_lsn = 1, ri_operation_count = 1, ri_payload_len = 11, ri_root = 7, ri_len = 1, ri_total_len = 64\<rparr>"
  using verify_record_encoded[OF _ txn_encodes[OF sample_txn_ok[of crc 1]]] sample_txn_ok[of crc 1]
    length_sample_txn[of crc 1]
  by (simp add: txn_ok_def) (simp add: sample_txn_def encode_operation_def)

theorem verified_record_replays_witness:
  "read_frame sample_crc True 3 96 32 (txn_record sample_crc (sample_txn 1) @ [0, 0]) =
     Inr (FrameRecord 1 1 (bslice (txn_record sample_crc (sample_txn 1)) RECORD_HEADER_LEN 11) 7 1 64)"
  using verified_record_replays[OF sample_verified[of sample_crc], of 32 96 True 3 "[0, 0]"] by simp

text \<open>
  the replica's checks and recovery disagree on a record without operations.  For
  every LSN but zero the encoded record of no operations passes the replica's checks,
  and a segment that holds it is refused by recovery as corrupt.
\<close>

lemma empty_record_verified_not_replayed:
  assumes "lsn \<noteq> 0"
  shows "\<exists>rec h. encode_record crc lsn [] root len = Inr rec \<and> verify_record crc rec = Inr h \<and> ri_lsn h = lsn \<and>
    (\<forall>seg rs. replay_segment crc seg None (segment_header crc seg lsn @ rec) rs =
       Inl (CorruptWal seg 32 ''invalid transaction metadata''))"
proof -
  obtain rec where rec: "encode_record crc lsn [] root len = Inr rec"
    by (simp add: encode_record_def record_total_len_def wal_lens)
  with verify_record_encoded[OF _ rec assms] empty_record_refused[OF rec] show ?thesis by auto
qed

theorem empty_record_verified_not_replayed_witness:
  "\<exists>rec h. encode_record sample_crc 5 [] 0 0 = Inr rec \<and> verify_record sample_crc rec = Inr h \<and>
     replay_segment sample_crc 1 None (segment_header sample_crc 1 5 @ rec) sample_state =
       Inl (CorruptWal 1 32 ''invalid transaction metadata'')"
  using empty_record_verified_not_replayed[of 5 sample_crc 0 0] by auto

text \<open>
  a stream that is never refused is the log.  Whatever LSNs arrive, if no gap is
  reported then the records appended are exactly the ones directly behind the replica's
  last, each once and in order.
\<close>

lemma stream_appends_contiguously:
  assumes "follow_stream last_lsn lsns = Inr (app, l)" "last_lsn \<noteq> U64_MAX" "U64_MAX \<notin> set lsns"
  shows "map unat app = [Suc (unat last_lsn) ..< Suc (unat last_lsn + length app)] \<and>
    unat l = unat last_lsn + length app"
  using assms by (rule follow_stream_contiguous)

theorem stream_appends_contiguously_witness:
  "follow_stream 4 [3, 4, 5, 5, 6] = Inr ([5, 6], 6) \<and> map unat [5, 6 :: u64] = [5 ..< 7]"
proof -
  have a: "follow_stream 4 [3, 4, 5, 5, 6] = Inr ([5, 6], 6)"
    by (simp add: check_contiguous_def sat_succ_def)
  with stream_appends_contiguously[OF a] show ?thesis by simp
qed

text \<open>
  C36: the archive reader closes a gap.  Over archived segments holding consecutive
  transactions it returns the records from the wanted LSN on, in order and without a
  hole: at least one when there is one, otherwise as many as the bounds allow and no more.
\<close>

theorem archived_records_next:
  assumes "archive_chain crc n segs" "unat n + length (archive_txns segs) < 2 ^ 64"
    and wanted: "wanted = map (txn_record crc) (filter (\<lambda>t. from_lsn \<le> tx_lsn t) (archive_txns segs))"
  shows "\<exists>k. archived_records_from crc (archive_files crc n segs) from_lsn max_records max_bytes =
      Inr (take k wanted) \<and> k \<le> length wanted \<and> (wanted \<noteq> [] \<longrightarrow> 0 < k) \<and>
    (1 < k \<longrightarrow> k \<le> max_records \<and> length (concat (take k wanted)) \<le> max_bytes) \<and>
    (k < length wanted \<longrightarrow> max_records \<le> k \<or> max_bytes < length (concat (take (Suc k) wanted)))"
proof -
  obtain k where "k \<le> length wanted" "take_bounded max_records max_bytes [] 0 wanted =
      (k < length wanted, take k wanted, length (concat (take k wanted)))"
    "wanted \<noteq> [] \<longrightarrow> 0 < k" "1 < k \<longrightarrow> k \<le> max_records \<and> length (concat (take k wanted)) \<le> max_bytes"
    "k < length wanted \<longrightarrow> max_records \<le> k \<or> max_bytes < length (concat (take (Suc k) wanted))"
    using take_bounded_take[of wanted max_records max_bytes "[]" 0] by auto
  with archive_segments_txns[OF assms(1,2), of from_lsn max_records max_bytes "[]" 0, folded wanted]
  show ?thesis by (intro exI[of _ k]) (simp add: archived_records_from_def)
qed

theorem archived_records_next_witness:
  "\<exists>k. archived_records_from sample_crc (archive_files sample_crc 1 [(1, [sample_txn 1], 4), (2, [sample_txn 2], 0)])
       2 8 1000 = Inr (take k [txn_record sample_crc (sample_txn 2)]) \<and> 0 < k"
proof -
  have "\<not> (2 :: u64) \<le> 1" by (simp add: word_le_nat_alt)
  then show ?thesis
    using archived_records_next[of sample_crc 1 "[(1, [sample_txn 1], 4), (2, [sample_txn 2], 0)]"
        "[txn_record sample_crc (sample_txn 2)]" 2 8 1000]
    by (auto simp: archive_txns_def)
qed

end
