(* ===== verification/ReplicationQuorum.thy ===== *)
theory ReplicationQuorum
  imports ReplicationLog "HOL-Library.AList" "HOL-Library.Multiset"
begin

text \<open>
  The primary's side of synchronous replication, \<open>crates/vyrn-server/src/replication.rs\<close>:
  the table of connected replicas and their durable watermarks, the wait for a quorum, and
  the decision taken when a replica asks to join.  Time is a natural number (the clock's own
  unit); the broadcast channel is the list of shipments sent.  The lemmas show that the
  quorum watermark counts replicas exactly, that a wait is answered positively only when
  enough replicas hold the record and is always answered by its deadline, and that the join
  decision agrees with the check the replica makes for itself.
\<close>

section \<open>The replica table\<close>

record shipment =
  sh_lsn :: u64
  sh_bytes :: bytes

record replication =
  rp_min_acks :: nat
  rp_ack_timeout :: nat
  rp_replicas :: "(u64 \<times> u64) list"
  rp_next_replica :: u64
  rp_progress :: nat
  rp_stream :: "shipment list"
  rp_quorum_failing :: bool
  rp_ack_waits :: u64
  rp_ack_timeouts :: u64
  rp_records_shipped :: u64
  rp_dropped_replicas :: u64

definition replication_new :: "nat \<Rightarrow> nat \<Rightarrow> replication" where
  "replication_new min_acks ack_timeout =
     \<lparr>rp_min_acks = min_acks, rp_ack_timeout = ack_timeout, rp_replicas = [], rp_next_replica = 1,
      rp_progress = 0, rp_stream = [], rp_quorum_failing = False, rp_ack_waits = 0,
      rp_ack_timeouts = 0, rp_records_shipped = 0, rp_dropped_replicas = 0\<rparr>"

definition enabled :: "replication \<Rightarrow> bool" where "enabled r \<longleftrightarrow> 0 < rp_min_acks r"
definition connected :: "replication \<Rightarrow> nat" where "connected r = length (rp_replicas r)"

text \<open>Only called with \<open>min_acks\<close> positive; the subtraction is then exact.\<close>

definition quorum_lsn :: "replication \<Rightarrow> u64" where
  "quorum_lsn r =
     (if length (rp_replicas r) < rp_min_acks r then 0
      else (let watermarks = rev (sort (map snd (rp_replicas r))); i = rp_min_acks r - 1 in
            if i < length watermarks then watermarks ! i else 0))"

definition acked_at_least :: "replication \<Rightarrow> u64 \<Rightarrow> nat" where
  "acked_at_least r lsn = length (filter (\<lambda>(rid, durable). lsn \<le> durable) (rp_replicas r))"

definition register :: "replication \<Rightarrow> replication \<times> u64" where
  "register r =
     (let rid = rp_next_replica r in
      (r\<lparr>rp_next_replica := rid + 1, rp_replicas := AList.update rid 0 (rp_replicas r),
         rp_progress := rp_progress r + 1\<rparr>, rid))"

definition deregister :: "u64 \<Rightarrow> replication \<Rightarrow> replication" where
  "deregister rid r =
     r\<lparr>rp_replicas := AList.delete rid (rp_replicas r), rp_dropped_replicas := rp_dropped_replicas r + 1,
       rp_progress := rp_progress r + 1\<rparr>"

definition acknowledge :: "u64 \<Rightarrow> u64 \<Rightarrow> replication \<Rightarrow> replication" where
  "acknowledge rid durable_lsn r =
     (case map_of (rp_replicas r) rid of
        None \<Rightarrow> r
      | Some held \<Rightarrow>
          r\<lparr>rp_replicas := AList.update rid (max held durable_lsn) (rp_replicas r),
            rp_progress := rp_progress r + 1\<rparr>)"

definition lag :: "replication \<Rightarrow> u64 \<Rightarrow> (u64 \<times> u64) list" where
  "lag r last_lsn =
     map (\<lambda>(rid, durable). (rid, if durable \<le> last_lsn then last_lsn - durable else 0)) (rp_replicas r)"

definition sink_record :: "u64 \<Rightarrow> bytes \<Rightarrow> replication \<Rightarrow> replication" where
  "sink_record lsn rec r =
     r\<lparr>rp_stream := rp_stream r @ [\<lparr>sh_lsn = lsn, sh_bytes = rec\<rparr>],
       rp_records_shipped := rp_records_shipped r + 1\<rparr>"

section \<open>Waiting for a quorum\<close>

datatype quorum_error = QuorumTimeout (qe_required: nat) (qe_achieved: nat) (qe_waited: nat)

text \<open>What other tasks do to the shared state while a waiter sleeps.\<close>

datatype replication_op =
    Register
  | Deregister u64
  | Acknowledge u64 u64
  | Record u64 bytes

fun apply_op :: "replication_op \<Rightarrow> replication \<Rightarrow> replication" where
  "apply_op Register r = fst (register r)"
| "apply_op (Deregister rid) r = deregister rid r"
| "apply_op (Acknowledge rid lsn) r = acknowledge rid lsn r"
| "apply_op (Record lsn rec) r = sink_record lsn rec r"

text \<open>
  One turn of the loop, \<open>elapsed\<close> after the wait began.  A turn is one step: the count
  reported on a timeout is taken from the table that failed the quorum.
\<close>

definition await_turn :: "u64 \<Rightarrow> nat \<Rightarrow> replication \<Rightarrow> replication \<times> (quorum_error + unit) option" where
  "await_turn lsn elapsed r =
     (if lsn \<le> quorum_lsn r then (r\<lparr>rp_quorum_failing := False\<rparr>, Some (Inr ()))
      else if rp_ack_timeout r - elapsed = 0
      then (r\<lparr>rp_ack_timeouts := rp_ack_timeouts r + 1, rp_quorum_failing := True\<rparr>,
            Some (Inl (QuorumTimeout (rp_min_acks r) (acked_at_least r lsn) elapsed)))
      else (r, None))"

text \<open>
  The loop over its turns: each turn comes after some operations of other tasks, at a given
  elapsed time.  A list that ends before an answer is a wait still in progress.
\<close>

fun await_loop :: "u64 \<Rightarrow> (replication_op list \<times> nat) list \<Rightarrow> replication \<Rightarrow>
    replication \<times> (quorum_error + unit) option" where
  "await_loop lsn [] r = (r, None)"
| "await_loop lsn ((ops, elapsed) # turns) r =
     (case await_turn lsn elapsed (fold apply_op ops r) of
        (r, Some answer) \<Rightarrow> (r, Some answer)
      | (r, None) \<Rightarrow> await_loop lsn turns r)"

definition await_quorum :: "u64 \<Rightarrow> (replication_op list \<times> nat) list \<Rightarrow> replication \<Rightarrow>
    replication \<times> (quorum_error + unit) option" where
  "await_quorum lsn turns r =
     (if \<not> enabled r then (r, Some (Inr ()))
      else await_loop lsn turns (r\<lparr>rp_ack_waits := rp_ack_waits r + 1\<rparr>))"

section \<open>Joining\<close>

text \<open>The explanations attached to a rebuild and a refusal are not kept.\<close>

datatype join_decision =
    Stream (jd_first_lsn: u64)
  | Rebuild
  | Refuse

definition decide_join :: "u64 \<Rightarrow> u64 \<Rightarrow> u64 \<Rightarrow> join_decision" where
  "decide_join replica_lsn primary_lsn oldest_available =
     (if primary_lsn < replica_lsn then Refuse
      else (let first_lsn = sat_succ replica_lsn in
            if first_lsn < oldest_available then Rebuild else Stream first_lsn))"

section \<open>The quorum watermark\<close>

lemma sorted_desc_nth_iff:
  fixes xs :: "'a::linorder list"
  assumes "sorted_wrt (\<ge>) xs" "k < length xs"
  shows "a \<le> xs ! k \<longleftrightarrow> k < length (filter (\<lambda>x. a \<le> x) xs)"
  using assms
proof (induction xs arbitrary: k)
  case (Cons x xs)
  show ?case
  proof (cases k)
    case 0
    have "filter (\<lambda>y. a \<le> y) xs = []" if "\<not> a \<le> x"
      using Cons.prems(1) that by (auto simp: filter_empty_conv)
    then show ?thesis using 0 by auto
  next
    case (Suc j)
    have "a \<le> x" if "a \<le> xs ! j"
    proof -
      have "xs ! j \<le> x" using Cons.prems Suc by simp
      then show ?thesis using that by simp
    qed
    moreover have "filter (\<lambda>y. a \<le> y) xs = []" if "\<not> a \<le> x"
      using Cons.prems(1) that by (auto simp: filter_empty_conv)
    ultimately show ?thesis using Cons Suc by auto
  qed
qed simp

lemma length_filter_rev_sort: "length (filter P (rev (sort xs))) = length (filter P xs)"
proof -
  have "mset (filter P (rev (sort xs))) = mset (filter P xs)" by simp
  then show ?thesis by (metis size_mset)
qed

lemma quorum_lsn_iff:
  assumes "0 < rp_min_acks r" "0 < lsn"
  shows "lsn \<le> quorum_lsn r \<longleftrightarrow> rp_min_acks r \<le> acked_at_least r lsn"
proof (cases "length (rp_replicas r) < rp_min_acks r")
  case True
  have "acked_at_least r lsn \<le> length (rp_replicas r)" by (simp add: acked_at_least_def)
  then show ?thesis using True assms by (simp add: quorum_lsn_def)
next
  case False
  define ws where "ws = rev (sort (map snd (rp_replicas r)))"
  have i: "rp_min_acks r - 1 < length ws" using False assms by (simp add: ws_def)
  have q: "quorum_lsn r = ws ! (rp_min_acks r - 1)"
    using False i by (simp add: quorum_lsn_def ws_def Let_def)
  have "sorted_wrt (\<ge>) ws" by (simp add: ws_def sorted_wrt_rev)
  then have "lsn \<le> quorum_lsn r \<longleftrightarrow> rp_min_acks r - 1 < length (filter (\<lambda>x. lsn \<le> x) ws)"
    unfolding q using i by (rule sorted_desc_nth_iff)
  also have "length (filter (\<lambda>x. lsn \<le> x) ws) = acked_at_least r lsn"
    unfolding ws_def length_filter_rev_sort
    by (simp add: acked_at_least_def filter_map comp_def case_prod_unfold)
  finally show ?thesis using assms by linarith
qed

section \<open>The wait\<close>

text \<open>What an answer given in state \<open>r\<close> to a wait for \<open>lsn\<close> promises.\<close>

fun answer_ok :: "nat \<Rightarrow> nat \<Rightarrow> u64 \<Rightarrow> replication \<Rightarrow> quorum_error + unit \<Rightarrow> bool" where
  "answer_ok min_acks ack_timeout lsn r (Inr _) \<longleftrightarrow>
     min_acks \<le> acked_at_least r lsn \<and> \<not> rp_quorum_failing r"
| "answer_ok min_acks ack_timeout lsn r (Inl (QuorumTimeout req got waited)) \<longleftrightarrow>
     req = min_acks \<and> got = acked_at_least r lsn \<and> got < req \<and> ack_timeout \<le> waited \<and>
     rp_quorum_failing r"

text \<open>No operation of another task changes the configured quorum or deadline.\<close>

lemma apply_op_config [simp]:
  "rp_min_acks (apply_op ev r) = rp_min_acks r" "rp_ack_timeout (apply_op ev r) = rp_ack_timeout r"
  by (cases ev; simp add: register_def deregister_def acknowledge_def sink_record_def Let_def
        split: option.split)+

lemma fold_apply_op_config [simp]:
  "rp_min_acks (fold apply_op ops r) = rp_min_acks r"
  "rp_ack_timeout (fold apply_op ops r) = rp_ack_timeout r"
  by (induction ops arbitrary: r) simp_all

lemma acked_at_least_flags [simp]:
  "acked_at_least (r\<lparr>rp_quorum_failing := b\<rparr>) lsn = acked_at_least r lsn"
  "acked_at_least (r\<lparr>rp_ack_timeouts := n\<rparr>) lsn = acked_at_least r lsn"
  by (simp_all add: acked_at_least_def)

lemma await_turn_answer:
  assumes "await_turn lsn elapsed r = (r', Some answer)" "0 < rp_min_acks r" "0 < lsn"
  shows "answer_ok (rp_min_acks r) (rp_ack_timeout r) lsn r' answer"
  using assms quorum_lsn_iff[of r lsn]
  by (auto simp: await_turn_def not_le split: if_splits)

lemma await_loop_answer:
  assumes "await_loop lsn turns r = (r', Some answer)" "0 < rp_min_acks r" "0 < lsn"
  shows "answer_ok (rp_min_acks r) (rp_ack_timeout r) lsn r' answer"
  using assms
proof (induction turns arbitrary: r)
  case (Cons turn turns)
  obtain ops elapsed where turn: "turn = (ops, elapsed)" by fastforce
  obtain r1 a where t: "await_turn lsn elapsed (fold apply_op ops r) = (r1, a)" by fastforce
  show ?case
  proof (cases a)
    case None
    then have "r1 = fold apply_op ops r" using t by (auto simp: await_turn_def split: if_splits)
    then show ?thesis
      using Cons.IH[of "fold apply_op ops r"] Cons.prems t None turn by simp
  next
    case (Some x)
    then show ?thesis using Cons.prems turn t await_turn_answer[OF t[unfolded Some]] by simp
  qed
qed simp

lemma await_loop_ends:
  assumes "(ops, elapsed) \<in> set turns" "rp_ack_timeout r \<le> elapsed"
  shows "snd (await_loop lsn turns r) \<noteq> None"
  using assms
proof (induction turns arbitrary: r)
  case (Cons turn turns)
  obtain ops' elapsed' where turn: "turn = (ops', elapsed')" by fastforce
  obtain r1 a where t: "await_turn lsn elapsed' (fold apply_op ops' r) = (r1, a)" by fastforce
  show ?case
  proof (cases a)
    case None
    then have "r1 = fold apply_op ops' r" "elapsed' < rp_ack_timeout r"
      using t by (auto simp: await_turn_def split: if_splits)
    then show ?thesis
      using Cons.IH[of "fold apply_op ops' r"] Cons.prems t None turn by auto
  qed (use t turn in simp)
qed simp

text \<open>
  C33: A wait for a quorum on a record is answered positively only when at least the
  configured number of connected replicas hold the record durably at that moment, and the
  failing flag is then clear.  A negative answer reports exactly how many do, fewer than
  required, no earlier than the deadline.  Once the deadline has passed at some turn the wait
  has been answered, whatever other tasks did in between.
\<close>

theorem await_quorum_correct:
  assumes "enabled r" "0 < lsn" "await_quorum lsn turns r = (r', result)"
  shows "case result of
      None \<Rightarrow> \<forall>(ops, elapsed) \<in> set turns. elapsed < rp_ack_timeout r
    | Some answer \<Rightarrow> answer_ok (rp_min_acks r) (rp_ack_timeout r) lsn r' answer"
proof (cases result)
  case None
  let ?r = "r\<lparr>rp_ack_waits := rp_ack_waits r + 1\<rparr>"
  have "elapsed < rp_ack_timeout r" if "(ops, elapsed) \<in> set turns" for ops elapsed
  proof (rule ccontr)
    assume "\<not> elapsed < rp_ack_timeout r"
    then have "snd (await_loop lsn turns ?r) \<noteq> None"
      using that by (intro await_loop_ends) (simp_all add: not_less)
    then show False using assms None by (simp add: await_quorum_def)
  qed
  then show ?thesis using None by auto
next
  case (Some answer)
  then have "await_loop lsn turns (r\<lparr>rp_ack_waits := rp_ack_waits r + 1\<rparr>) = (r', Some answer)"
    using assms by (simp add: await_quorum_def)
  from await_loop_answer[OF this] show ?thesis
    using assms Some by (simp add: enabled_def)
qed

theorem await_quorum_correct_witness:
  "enabled (replication_new 1 5) \<and>
   await_quorum 7 [([Register], 0), ([Acknowledge 1 9], 2)] (replication_new 1 5) =
     ((fst (await_quorum 7 [([Register], 0), ([Acknowledge 1 9], 2)] (replication_new 1 5))), Some (Inr ())) \<and>
   1 \<le> acked_at_least (fst (await_quorum 7 [([Register], 0), ([Acknowledge 1 9], 2)] (replication_new 1 5))) 7"
proof -
  let ?turns = "[([Register], 0), ([Acknowledge 1 9], 2)]"
  have s: "snd (await_quorum 7 ?turns (replication_new 1 5)) = Some (Inr ())"
    by code_simp
  then have p: "await_quorum 7 ?turns (replication_new 1 5) =
      (fst (await_quorum 7 ?turns (replication_new 1 5)), Some (Inr ()))"
    by (metis prod.collapse)
  have e: "enabled (replication_new 1 5)" by code_simp
  from await_quorum_correct[OF e _ p] show ?thesis
    using e p by (simp add: replication_new_def)
qed

section \<open>Watermarks\<close>

text \<open>A replica's watermark moves only forward, and only for replicas still connected.\<close>

lemma acknowledge_watermark:
  "map_of (rp_replicas (acknowledge rid lsn r)) j =
     (if j = rid then map_option (max lsn) (map_of (rp_replicas r) rid) else map_of (rp_replicas r) j)"
  by (auto simp: acknowledge_def update_conv' max.commute split: option.split)

lemma deregister_watermark:
  "map_of (rp_replicas (deregister rid r)) j = (if j = rid then None else map_of (rp_replicas r) j)"
  by (simp add: deregister_def delete_conv')

lemma register_watermark:
  "map_of (rp_replicas (fst (register r))) j =
     (if j = rp_next_replica r then Some 0 else map_of (rp_replicas r) j)"
  by (simp add: register_def Let_def update_conv')

section \<open>Join decisions\<close>

text \<open>
  The primary's decision on a joining replica agrees with the replica's own check.  It
  streams exactly when the replica's check accepts a stream starting at the announced LSN and
  the primary still holds that record, the announced LSN then being the one after the
  replica's last; it refuses exactly when the replica is ahead; and it offers a rebuild
  exactly when the next record the replica needs is gone.
\<close>

lemma decide_join_agrees:
  "(decide_join replica_lsn primary_lsn oldest = Stream first_lsn \<longleftrightarrow>
      check_join replica_lsn primary_lsn first_lsn = None \<and>
      first_lsn = sat_succ replica_lsn \<and> oldest \<le> first_lsn) \<and>
   (decide_join replica_lsn primary_lsn oldest = Refuse \<longleftrightarrow>
      check_join replica_lsn primary_lsn first_lsn = Some (ReplicaAhead replica_lsn primary_lsn)) \<and>
   (decide_join replica_lsn primary_lsn oldest = Rebuild \<longleftrightarrow>
      check_join replica_lsn primary_lsn oldest = Some (GapBeforeStream replica_lsn oldest))"
  by (auto simp: decide_join_def check_join_def Let_def not_less)

end
