(* ===== verification/Failover.thy ===== *)
theory Failover
  imports ReplicationQuorum
begin

text \<open>
  A member's failover state, \<open>crates/vyrn-server/src/epoch.rs\<close> and
  \<open>crates/vyrn-server/src/failover.rs\<close>: the persisted epochs, the cluster list, and the
  operations on a member's role.  The epoch file is its bytes, the checksum a parameter, and
  a write of it has one of three outcomes; time is a natural number.  The lemmas show that
  the file round-trips, that epochs and votes only move forward and are on disk before they
  are acted on, and that an accepted cluster list makes every acknowledgement quorum meet
  every election quorum.
\<close>

section \<open>The epoch file\<close>

definition EPOCH_MAGIC :: bytes where "EPOCH_MAGIC = [0x56, 0x45, 0x50, 0x4F]"
definition EPOCH_VERSION :: byte where "EPOCH_VERSION = 1"
definition EPOCH_LEN :: nat where "EPOCH_LEN = 4 + 1 + 8 + 8 + 4"

datatype failover_error =
    BadEpochFile string
  | UnsupportedEpochVersion byte
  | EpochIo
  | EpochOverflow
  | BadClusterEntry rstring
  | DuplicateMember rstring
  | TooFewMembers nat
  | SelfNotInCluster rstring
  | MinAcksTooLow (ma_count: nat) (ma_majority: nat) (ma_given: nat)

record epoch_store =
  es_current :: u64
  es_voted :: u64

definition epoch_bytes :: "(bytes \<Rightarrow> u32) \<Rightarrow> u64 \<Rightarrow> u64 \<Rightarrow> bytes" where
  "epoch_bytes crc current voted =
     (let bs = EPOCH_MAGIC @ [EPOCH_VERSION] @ u64_to_be current @ u64_to_be voted in
      bs @ u32_to_be (crc bs))"

definition epoch_decode :: "(bytes \<Rightarrow> u32) \<Rightarrow> bytes \<Rightarrow> failover_error + (u64 \<times> u64)" where
  "epoch_decode crc bs =
     (if length bs \<noteq> EPOCH_LEN \<or> take 4 bs \<noteq> EPOCH_MAGIC then Inl (BadEpochFile ''wrong length or magic'')
      else if bs ! 4 \<noteq> EPOCH_VERSION then Inl (UnsupportedEpochVersion (bs ! 4))
      else if crc (take (EPOCH_LEN - 4) bs) \<noteq> u32_of_be (drop (EPOCH_LEN - 4) bs)
      then Inl (BadEpochFile ''checksum mismatch'')
      else Inr (u64_of_be (bslice bs 5 8), u64_of_be (bslice bs 13 8)))"

definition epoch_open :: "(bytes \<Rightarrow> u32) \<Rightarrow> bytes option \<Rightarrow> failover_error + epoch_store" where
  "epoch_open crc disk =
     (case disk of
        None \<Rightarrow> Inr \<lparr>es_current = 0, es_voted = 0\<rparr>
      | Some bs \<Rightarrow>
          (case epoch_decode crc bs of
             Inl e \<Rightarrow> Inl e
           | Inr (current, voted) \<Rightarrow> Inr \<lparr>es_current = current, es_voted = voted\<rparr>))"

text \<open>
  A write publishes by rename: it succeeds, fails leaving the old file, or fails after the
  rename, when only the directory's flush is missing.
\<close>

datatype persist_outcome = Persisted | NotPublished | PublishedUnsynced

definition epoch_persist :: "(bytes \<Rightarrow> u32) \<Rightarrow> persist_outcome \<Rightarrow> bytes option \<Rightarrow> u64 \<Rightarrow> u64 \<Rightarrow>
    bytes option \<times> (failover_error + unit)" where
  "epoch_persist crc io disk current voted =
     (case io of
        Persisted \<Rightarrow> (Some (epoch_bytes crc current voted), Inr ())
      | NotPublished \<Rightarrow> (disk, Inl EpochIo)
      | PublishedUnsynced \<Rightarrow> (Some (epoch_bytes crc current voted), Inl EpochIo))"

definition epoch_advance :: "(bytes \<Rightarrow> u32) \<Rightarrow> persist_outcome \<Rightarrow> u64 \<Rightarrow> bool \<Rightarrow>
    bytes option \<times> epoch_store \<Rightarrow> (bytes option \<times> epoch_store) \<times> (failover_error + unit)" where
  "epoch_advance crc io epoch voted_in_it = (\<lambda>(disk, es).
     (let current = max (es_current es) epoch;
          voted = (if voted_in_it then max (es_voted es) epoch else es_voted es) in
      if current = es_current es \<and> voted = es_voted es then ((disk, es), Inr ())
      else
        (case epoch_persist crc io disk current voted of
           (disk, Inl e) \<Rightarrow> ((disk, es), Inl e)
         | (disk, Inr _) \<Rightarrow> ((disk, es\<lparr>es_current := current, es_voted := voted\<rparr>), Inr ()))))"

section \<open>The cluster list\<close>

record cluster_member =
  cm_name :: rstring
  cm_url :: rstring

text \<open>\<open>str::split\<close> and \<open>str::split_once\<close> at an ASCII byte.\<close>

fun split_on :: "byte \<Rightarrow> bytes \<Rightarrow> bytes list" where
  "split_on c [] = [[]]"
| "split_on c (b # bs) =
     (if b = c then [] # split_on c bs
      else (case split_on c bs of [] \<Rightarrow> [[b]] | p # ps \<Rightarrow> (b # p) # ps))"

fun split_once :: "byte \<Rightarrow> bytes \<Rightarrow> (bytes \<times> bytes) option" where
  "split_once c [] = None"
| "split_once c (b # bs) =
     (if b = c then Some ([], bs)
      else (case split_once c bs of None \<Rightarrow> None | Some (l, r) \<Rightarrow> Some (b # l, r)))"

text \<open>\<open>str::trim\<close>: the UTF-8 encodings of the characters with the White_Space property.\<close>

definition white_space :: "bytes list" where
  "white_space =
     map (\<lambda>b. [b]) [0x09, 0x0A, 0x0B, 0x0C, 0x0D, 0x20] @
     [[0xC2, 0x85], [0xC2, 0xA0], [0xE1, 0x9A, 0x80]] @
     map (\<lambda>b. [0xE2, 0x80, b]) [0x80, 0x81, 0x82, 0x83, 0x84, 0x85, 0x86, 0x87, 0x88, 0x89, 0x8A, 0xA8, 0xA9, 0xAF] @
     [[0xE2, 0x81, 0x9F], [0xE3, 0x80, 0x80]]"

text \<open>Strips leading members of \<open>ws\<close>; the fuel is the length, each strip shortening the rest.\<close>

fun strip :: "nat \<Rightarrow> bytes list \<Rightarrow> bytes \<Rightarrow> bytes" where
  "strip 0 ws s = s"
| "strip (Suc n) ws s =
     (case find (\<lambda>w. take (length w) s = w) ws of
        None \<Rightarrow> s
      | Some w \<Rightarrow> strip n ws (drop (length w) s))"

definition trim :: "rstring \<Rightarrow> rstring" where
  "trim s =
     (let s = strip (length s) white_space s in
      List.rev (strip (length s) (map List.rev white_space) (List.rev s)))"

fun parse_entries :: "cluster_member list \<Rightarrow> bytes list \<Rightarrow> failover_error + cluster_member list" where
  "parse_entries members [] = Inr members"
| "parse_entries members (e # es) =
     (let entry = trim e in
      if entry = [] then parse_entries members es
      else
        (case split_once 0x3D entry of
           None \<Rightarrow> Inl (BadClusterEntry entry)
         | Some (name, url) \<Rightarrow>
             if list_ex (\<lambda>m. cm_name m = name) members then Inl (DuplicateMember name)
             else parse_entries (members @ [\<lparr>cm_name = name, cm_url = url\<rparr>]) es))"

definition parse_cluster :: "rstring \<Rightarrow> rstring \<Rightarrow> nat \<Rightarrow> failover_error + cluster_member list" where
  "parse_cluster spec self_name min_acks =
     (case parse_entries [] (split_on 0x2C spec) of
        Inl e \<Rightarrow> Inl e
      | Inr members \<Rightarrow>
          (let count = length members; majority = count div 2 in
           if count < 3 then Inl (TooFewMembers count)
           else if \<not> list_ex (\<lambda>m. cm_name m = self_name) members then Inl (SelfNotInCluster self_name)
           else if min_acks < majority then Inl (MinAcksTooLow count majority min_acks)
           else Inr members))"

definition votes_needed :: "nat \<Rightarrow> nat" where
  "votes_needed member_count = member_count div 2 + 1"

section \<open>A member's state\<close>

datatype role = Primary | Follower

record failover =
  fo_members :: "cluster_member list"
  fo_self_name :: rstring
  fo_disk :: "bytes option"
  fo_epochs :: epoch_store
  fo_current_epoch :: u64
  fo_role :: role
  fo_led_with_quorum :: bool
  fo_last_heard :: nat
  fo_ever_heard :: bool
  fo_lease :: nat
  fo_election_timeout :: nat

definition failover_new :: "cluster_member list \<Rightarrow> rstring \<Rightarrow> bytes option \<Rightarrow> epoch_store \<Rightarrow> bool \<Rightarrow>
    nat \<Rightarrow> nat \<Rightarrow> nat \<Rightarrow> failover" where
  "failover_new members self_name disk epochs starts_as_primary lease election_timeout now =
     \<lparr>fo_members = members, fo_self_name = self_name, fo_disk = disk, fo_epochs = epochs,
      fo_current_epoch = es_current epochs, fo_role = (if starts_as_primary then Primary else Follower),
      fo_led_with_quorum = False, fo_last_heard = now, fo_ever_heard = False, fo_lease = lease,
      fo_election_timeout = election_timeout\<rparr>"

definition heard_from_leader :: "nat \<Rightarrow> failover \<Rightarrow> failover" where
  "heard_from_leader now fo = fo\<lparr>fo_last_heard := now\<rparr>"

definition heard_primary :: "nat \<Rightarrow> failover \<Rightarrow> failover" where
  "heard_primary now fo = heard_from_leader now (fo\<lparr>fo_ever_heard := True\<rparr>)"

definition quorum_held :: "nat \<Rightarrow> failover \<Rightarrow> failover" where
  "quorum_held now fo = heard_from_leader now (fo\<lparr>fo_led_with_quorum := True\<rparr>)"

definition patience :: "failover \<Rightarrow> nat" where
  "patience fo = (if fo_ever_heard fo then fo_election_timeout fo else fo_election_timeout fo * 10)"

definition silence :: "nat \<Rightarrow> failover \<Rightarrow> nat" where
  "silence now fo = now - fo_last_heard fo"

definition demote_if_primary :: "nat \<Rightarrow> failover \<Rightarrow> failover" where
  "demote_if_primary now fo =
     heard_from_leader now
       (if fo_role fo = Primary then fo\<lparr>fo_role := Follower, fo_led_with_quorum := False\<rparr> else fo)"

definition step_down :: "nat \<Rightarrow> failover \<Rightarrow> failover" where
  "step_down now fo = demote_if_primary now fo"

definition promote :: "nat \<Rightarrow> failover \<Rightarrow> failover" where
  "promote now fo = heard_from_leader now (fo\<lparr>fo_role := Primary, fo_led_with_quorum := False\<rparr>)"

text \<open>\<open>epochs.advance(..)?\<close> under the lock, and the store of the cached epoch after it.\<close>

definition advance_epochs :: "(bytes \<Rightarrow> u32) \<Rightarrow> persist_outcome \<Rightarrow> u64 \<Rightarrow> bool \<Rightarrow> failover \<Rightarrow>
    failover \<times> (failover_error + unit)" where
  "advance_epochs crc io epoch voted_in_it fo =
     (case epoch_advance crc io epoch voted_in_it (fo_disk fo, fo_epochs fo) of
        ((disk, es), Inl e) \<Rightarrow> (fo\<lparr>fo_disk := disk, fo_epochs := es\<rparr>, Inl e)
      | ((disk, es), Inr _) \<Rightarrow>
          (fo\<lparr>fo_disk := disk, fo_epochs := es, fo_current_epoch := es_current es\<rparr>, Inr ()))"

definition observe_epoch :: "(bytes \<Rightarrow> u32) \<Rightarrow> persist_outcome \<Rightarrow> nat \<Rightarrow> u64 \<Rightarrow> failover \<Rightarrow>
    failover \<times> (failover_error + unit)" where
  "observe_epoch crc io now epoch fo =
     (if epoch \<le> fo_current_epoch fo then (fo, Inr ())
      else
        (case advance_epochs crc io epoch False fo of
           (fo, Inl e) \<Rightarrow> (fo, Inl e)
         | (fo, Inr _) \<Rightarrow> (demote_if_primary now fo, Inr ())))"

definition consider_vote :: "(bytes \<Rightarrow> u32) \<Rightarrow> persist_outcome \<Rightarrow> persist_outcome \<Rightarrow> nat \<Rightarrow> u64 \<Rightarrow> u64 \<Rightarrow> u64 \<Rightarrow>
    failover \<Rightarrow> failover \<times> (failover_error + bool)" where
  "consider_vote crc io1 io2 now epoch candidate_lsn own_lsn fo =
     (case observe_epoch crc io1 now epoch fo of
        (fo, Inl e) \<Rightarrow> (fo, Inl e)
      | (fo, Inr _) \<Rightarrow>
          (let granted = (es_voted (fo_epochs fo) < epoch \<and> own_lsn \<le> candidate_lsn) in
           if granted
           then (case advance_epochs crc io2 epoch True fo of
                   (fo, Inl e) \<Rightarrow> (fo, Inl e)
                 | (fo, Inr _) \<Rightarrow> (heard_from_leader now fo, Inr granted))
           else (fo, Inr granted)))"

text \<open>The build checks arithmetic overflow, so standing past the last epoch panics.\<close>

definition stand :: "(bytes \<Rightarrow> u32) \<Rightarrow> persist_outcome \<Rightarrow> failover \<Rightarrow> failover \<times> (failover_error + u64)" where
  "stand crc io fo =
     (if es_current (fo_epochs fo) = U64_MAX then (fo, Inl EpochOverflow)
      else
        (let epoch = es_current (fo_epochs fo) + 1 in
         case advance_epochs crc io epoch True fo of
           (fo, Inl e) \<Rightarrow> (fo, Inl e)
         | (fo, Inr _) \<Rightarrow> (fo, Inr epoch)))"

section \<open>The timers\<close>

definition jitter :: "rstring \<Rightarrow> nat" where
  "jitter self_name =
     unat (drop_bit 32 (foldl (\<lambda>hash b. hash * 31 + ucast b) (0 :: u64) self_name * 0x9E3779B97F4A7C15)) mod 1500"

datatype tick_action = Nothing | RenewLease | StepDown | StandForElection

definition coordinator_tick :: "nat \<Rightarrow> replication \<Rightarrow> bool \<Rightarrow> failover \<Rightarrow> tick_action" where
  "coordinator_tick now replication has_credentials fo =
     (case fo_role fo of
        Primary \<Rightarrow>
          if rp_min_acks replication \<le> connected replication then RenewLease
          else if fo_led_with_quorum fo \<and> fo_lease fo < silence now fo then StepDown
          else Nothing
      | Follower \<Rightarrow>
          if \<not> has_credentials then Nothing
          else if silence now fo \<le> patience fo + jitter (fo_self_name fo) then Nothing
          else StandForElection)"

text \<open>
  A follower receiving \<open>PrimaryEpoch\<close> on its stream: the fence.  The result is whether the
  stream goes on.
\<close>

definition receive_primary_epoch :: "(bytes \<Rightarrow> u32) \<Rightarrow> persist_outcome \<Rightarrow> nat \<Rightarrow> u64 \<Rightarrow> failover \<Rightarrow> failover \<times> bool" where
  "receive_primary_epoch crc io now epoch fo =
     (let fo = heard_primary now fo in
      if epoch < fo_current_epoch fo then (fo, False)
      else
        (case observe_epoch crc io now epoch fo of
           (fo, Inl _) \<Rightarrow> (fo, False)
         | (fo, Inr _) \<Rightarrow> (fo, True)))"

section \<open>The epoch file round-trips\<close>

lemma epoch_decode_bytes [simp]: "epoch_decode crc (epoch_bytes crc current voted) = Inr (current, voted)"
  by (simp add: epoch_decode_def epoch_bytes_def EPOCH_LEN_def EPOCH_MAGIC_def EPOCH_VERSION_def
      Let_def bslice_simps bslice_append_left)

lemma epoch_open_bytes [simp]:
  "epoch_open crc (Some (epoch_bytes crc current voted)) = Inr \<lparr>es_current = current, es_voted = voted\<rparr>"
  by (simp add: epoch_open_def)

section \<open>Epochs move forward, and are on disk first\<close>

text \<open>
  The file on disk opens to epochs at or past those in memory, a vote is never past the
  epoch it was cast in, and the cached epoch is the stored one.
\<close>

definition epochs_ok :: "(bytes \<Rightarrow> u32) \<Rightarrow> bytes option \<Rightarrow> epoch_store \<Rightarrow> u64 \<Rightarrow> bool" where
  "epochs_ok crc disk es cached \<longleftrightarrow>
     (case epoch_open crc disk of
        Inl _ \<Rightarrow> False
      | Inr d \<Rightarrow> es_current es \<le> es_current d \<and> es_voted es \<le> es_voted d \<and> es_voted d \<le> es_current d) \<and>
     es_voted es \<le> es_current es \<and> cached = es_current es"

definition fo_ok :: "(bytes \<Rightarrow> u32) \<Rightarrow> failover \<Rightarrow> bool" where
  "fo_ok crc fo \<longleftrightarrow> epochs_ok crc (fo_disk fo) (fo_epochs fo) (fo_current_epoch fo)"

definition epochs_le :: "failover \<Rightarrow> failover \<Rightarrow> bool" where
  "epochs_le fo fo' \<longleftrightarrow>
     es_current (fo_epochs fo) \<le> es_current (fo_epochs fo') \<and>
     es_voted (fo_epochs fo) \<le> es_voted (fo_epochs fo')"

lemma epochs_le_refl [simp]: "epochs_le fo fo"
  by (simp add: epochs_le_def)

lemma epochs_le_trans: "epochs_le a b \<Longrightarrow> epochs_le b c \<Longrightarrow> epochs_le a c"
  by (auto simp: epochs_le_def)

lemmas role_defs = heard_from_leader_def heard_primary_def quorum_held_def demote_if_primary_def
  step_down_def promote_def

text \<open>The operations on the role and the timers leave the epochs alone.\<close>

lemma role_ops_epochs [simp]:
  "fo_epochs (heard_from_leader now fo) = fo_epochs fo"
  "fo_epochs (heard_primary now fo) = fo_epochs fo"
  "fo_epochs (quorum_held now fo) = fo_epochs fo"
  "fo_epochs (demote_if_primary now fo) = fo_epochs fo"
  "fo_epochs (step_down now fo) = fo_epochs fo"
  "fo_epochs (promote now fo) = fo_epochs fo"
  by (simp_all add: role_defs)

lemma role_ops_ok [simp]:
  "fo_ok crc (heard_from_leader now fo) = fo_ok crc fo"
  "fo_ok crc (heard_primary now fo) = fo_ok crc fo"
  "fo_ok crc (quorum_held now fo) = fo_ok crc fo"
  "fo_ok crc (demote_if_primary now fo) = fo_ok crc fo"
  "fo_ok crc (step_down now fo) = fo_ok crc fo"
  "fo_ok crc (promote now fo) = fo_ok crc fo"
  by (simp_all add: fo_ok_def role_defs)

lemma failover_new_ok:
  assumes "epoch_open crc disk = Inr es" "es_voted es \<le> es_current es"
  shows "fo_ok crc (failover_new members self_name disk es p lease timeout now)"
  using assms by (simp add: fo_ok_def epochs_ok_def failover_new_def)

lemma advance_epochs_cases:
  assumes "advance_epochs crc io epoch v fo = (fo', r)"
    and "current = max (es_current (fo_epochs fo)) epoch"
    and "voted = (if v then max (es_voted (fo_epochs fo)) epoch else es_voted (fo_epochs fo))"
  obtains (same) "fo' = fo\<lparr>fo_current_epoch := es_current (fo_epochs fo)\<rparr>" "r = Inr ()"
      "current = es_current (fo_epochs fo)" "voted = es_voted (fo_epochs fo)"
  | (stored) "fo' = fo\<lparr>fo_disk := Some (epoch_bytes crc current voted),
        fo_epochs := (fo_epochs fo)\<lparr>es_current := current, es_voted := voted\<rparr>,
        fo_current_epoch := current\<rparr>" "r = Inr ()"
  | (failed) d where "fo' = fo\<lparr>fo_disk := d\<rparr>" "r = Inl EpochIo"
      "d = fo_disk fo \<or> d = Some (epoch_bytes crc current voted)"
proof (cases "current = es_current (fo_epochs fo) \<and> voted = es_voted (fo_epochs fo)")
  case True
  have "fo' = fo\<lparr>fo_current_epoch := es_current (fo_epochs fo)\<rparr>" "r = Inr ()"
    using assms(1) True unfolding assms(2,3) by (auto simp: advance_epochs_def epoch_advance_def Let_def)
  then show ?thesis using True by (intro same) auto
next
  case False
  have adv: "epoch_advance crc io epoch v (fo_disk fo, fo_epochs fo) =
      (case epoch_persist crc io (fo_disk fo) current voted of
         (disk, Inl e) \<Rightarrow> ((disk, fo_epochs fo), Inl e)
       | (disk, Inr _) \<Rightarrow> ((disk, (fo_epochs fo)\<lparr>es_current := current, es_voted := voted\<rparr>), Inr ()))"
    unfolding epoch_advance_def Let_def prod.case assms(2,3)[symmetric]
    using False by (rule if_not_P)
  note f = assms(1)[unfolded advance_epochs_def adv epoch_persist_def]
  show ?thesis
  proof (cases io)
    case Persisted
    then show ?thesis using stored f by simp
  next
    case NotPublished
    then show ?thesis using failed[of "fo_disk fo"] f by simp
  next
    case PublishedUnsynced
    then show ?thesis using failed[of "Some (epoch_bytes crc current voted)"] f by simp
  qed
qed

lemma advance_epochs_ok:
  assumes ok: "fo_ok crc fo" and adv: "advance_epochs crc io epoch v fo = (fo', r)"
  shows "fo_ok crc fo'" and "epochs_le fo fo'"
    and "r = Inr u \<Longrightarrow> es_current (fo_epochs fo') = max (es_current (fo_epochs fo)) epoch \<and>
           es_voted (fo_epochs fo') = (if v then max (es_voted (fo_epochs fo)) epoch else es_voted (fo_epochs fo))"
    and "r = Inl e \<Longrightarrow> fo_epochs fo' = fo_epochs fo"
    and "\<not> v \<Longrightarrow> es_voted (fo_epochs fo') = es_voted (fo_epochs fo)"
proof -
  define current where "current = max (es_current (fo_epochs fo)) epoch"
  define voted where "voted = (if v then max (es_voted (fo_epochs fo)) epoch else es_voted (fo_epochs fo))"
  have "es_voted (fo_epochs fo) \<le> es_current (fo_epochs fo)" using ok by (simp add: fo_ok_def epochs_ok_def)
  then have le: "es_current (fo_epochs fo) \<le> current" "es_voted (fo_epochs fo) \<le> voted" "voted \<le> current"
    by (auto simp: current_def voted_def le_max_iff_disj)
  note cases = advance_epochs_cases[OF adv current_def voted_def]
  show "fo_ok crc fo'"
    using ok le by (cases rule: cases) (auto simp: fo_ok_def epochs_ok_def split: sum.splits)
  show "epochs_le fo fo'"
    using le by (cases rule: cases) (auto simp: epochs_le_def)
  show "es_current (fo_epochs fo') = max (es_current (fo_epochs fo)) epoch \<and>
      es_voted (fo_epochs fo') = (if v then max (es_voted (fo_epochs fo)) epoch else es_voted (fo_epochs fo))"
    if "r = Inr u"
    unfolding current_def[symmetric] voted_def[symmetric] using that by (cases rule: cases) auto
  show "fo_epochs fo' = fo_epochs fo" if "r = Inl e"
    using that by (cases rule: cases) auto
  show "es_voted (fo_epochs fo') = es_voted (fo_epochs fo)" if "\<not> v"
    using that by (cases rule: cases) (auto simp: voted_def)
qed

lemma observe_epoch_ok:
  assumes "fo_ok crc fo" "observe_epoch crc io now epoch fo = (fo', r)"
  shows "fo_ok crc fo'" and "epochs_le fo fo'"
    and "es_voted (fo_epochs fo') = es_voted (fo_epochs fo)"
    and "r = Inr u \<Longrightarrow> epoch \<le> es_current (fo_epochs fo')"
proof -
  obtain fo1 r1 where a: "advance_epochs crc io epoch False fo = (fo1, r1)" by fastforce
  note adv = advance_epochs_ok[OF assms(1) a]
  have cached: "fo_current_epoch fo = es_current (fo_epochs fo)" using assms(1) by (simp add: fo_ok_def epochs_ok_def)
  show "fo_ok crc fo'" "epochs_le fo fo'" "es_voted (fo_epochs fo') = es_voted (fo_epochs fo)"
    using assms adv(1,2,5) a
    by (auto simp: observe_epoch_def epochs_le_def split: if_splits sum.splits)
  show "epoch \<le> es_current (fo_epochs fo')" if "r = Inr u"
    using assms a adv(3) that cached
    by (cases r1) (auto simp: observe_epoch_def split: if_splits)
qed

text \<open>
  A vote is granted only in an epoch past every earlier vote, to a candidate whose log
  reaches the voter's, and is recorded in memory and on disk by then.
\<close>

lemma consider_vote_ok:
  assumes "fo_ok crc fo" "consider_vote crc io1 io2 now epoch lsn own fo = (fo', r)"
  shows "fo_ok crc fo'" and "epochs_le fo fo'"
    and "r = Inr True \<Longrightarrow> es_voted (fo_epochs fo) < epoch \<and> own \<le> lsn \<and> es_voted (fo_epochs fo') = epoch"
proof -
  obtain fo1 r1 where o: "observe_epoch crc io1 now epoch fo = (fo1, r1)" by fastforce
  note ob = observe_epoch_ok[OF assms(1) o]
  obtain fo2 r2 where a: "advance_epochs crc io2 epoch True fo1 = (fo2, r2)" by fastforce
  note adv = advance_epochs_ok[OF ob(1) a]
  have le: "epochs_le fo fo2" by (rule epochs_le_trans[OF ob(2) adv(2)])
  show "fo_ok crc fo'"
    using assms(2) o a ob(1) adv(1)
    by (auto simp: consider_vote_def Let_def split: sum.splits if_splits)
  show "epochs_le fo fo'"
    using assms(2) o a ob(2) le
    by (auto simp: consider_vote_def Let_def epochs_le_def split: sum.splits if_splits)
  show "es_voted (fo_epochs fo) < epoch \<and> own \<le> lsn \<and> es_voted (fo_epochs fo') = epoch" if "r = Inr True"
    using assms(2) o a ob(3) adv(3) that
    by (auto simp: consider_vote_def Let_def max_def split: sum.splits if_splits)
qed

lemma u64_succ_less: "n \<noteq> U64_MAX \<Longrightarrow> n < (n + 1 :: u64)"
  using sat_succ_max[of n] by (simp add: sat_succ_def word_less_nat_alt)

lemma stand_ok:
  assumes "fo_ok crc fo" "stand crc io fo = (fo', r)"
  shows "fo_ok crc fo'" and "epochs_le fo fo'"
    and "r = Inr epoch \<Longrightarrow> es_voted (fo_epochs fo) < epoch \<and> es_voted (fo_epochs fo') = epoch \<and>
           es_current (fo_epochs fo') = epoch"
proof -
  let ?e = "es_current (fo_epochs fo) + 1"
  obtain fo1 r1 where a: "advance_epochs crc io ?e True fo = (fo1, r1)" by fastforce
  note adv = advance_epochs_ok[OF assms(1) a]
  have le: "es_voted (fo_epochs fo) \<le> es_current (fo_epochs fo)" using assms(1) by (simp add: fo_ok_def epochs_ok_def)
  show "fo_ok crc fo'" "epochs_le fo fo'"
    using assms a adv(1,2) by (auto simp: stand_def Let_def split: if_splits sum.splits)
  show "es_voted (fo_epochs fo) < epoch \<and> es_voted (fo_epochs fo') = epoch \<and>
      es_current (fo_epochs fo') = epoch" if r: "r = Inr epoch"
  proof -
    have n: "es_current (fo_epochs fo) \<noteq> U64_MAX" and e: "epoch = ?e" and "fo' = fo1" "\<exists>u. r1 = Inr u"
      using assms(2) a r by (auto simp: stand_def Let_def split: if_splits sum.splits)
    moreover have "es_current (fo_epochs fo) < epoch" unfolding e using n by (rule u64_succ_less)
    ultimately show ?thesis using adv(3) le by (auto simp: max_def)
  qed
qed

lemma receive_primary_epoch_ok:
  assumes "fo_ok crc fo" "receive_primary_epoch crc io now epoch fo = (fo', go)"
  shows "fo_ok crc fo'" and "epochs_le fo fo'"
    and "es_voted (fo_epochs fo') = es_voted (fo_epochs fo)"
    and "go \<Longrightarrow> es_current (fo_epochs fo) \<le> epoch"
proof -
  obtain fo1 r1 where o: "observe_epoch crc io now epoch (heard_primary now fo) = (fo1, r1)" by fastforce
  have hp: "fo_ok crc (heard_primary now fo)" using assms(1) by simp
  note ob = observe_epoch_ok[OF hp o]
  have c: "fo_current_epoch (heard_primary now fo) = es_current (fo_epochs fo)"
    using assms(1) by (simp add: fo_ok_def epochs_ok_def role_defs)
  show "fo_ok crc fo'" "epochs_le fo fo'" "es_voted (fo_epochs fo') = es_voted (fo_epochs fo)"
    using assms(2) o ob(1,2,3) hp
    by (auto simp: receive_primary_epoch_def Let_def epochs_le_def split: if_splits sum.splits)
  show "es_current (fo_epochs fo) \<le> epoch" if go
    using assms(2) that c by (auto simp: receive_primary_epoch_def Let_def split: if_splits)
qed

section \<open>Accepted clusters\<close>

lemma parse_entries_distinct:
  "parse_entries members es = Inr ms \<Longrightarrow> distinct (map cm_name members) \<Longrightarrow> distinct (map cm_name ms)"
proof (induction es arbitrary: members)
  case (Cons e es)
  show ?case
  proof (cases "trim e = []")
    case False
    then obtain name url where e: "split_once 0x3D (trim e) = Some (name, url)"
        "\<forall>m \<in> set members. cm_name m \<noteq> name"
        "parse_entries (members @ [\<lparr>cm_name = name, cm_url = url\<rparr>]) es = Inr ms"
      using Cons.prems(1) by (auto simp: Let_def list_ex_iff split: if_splits option.splits)
    then show ?thesis using Cons.IH[OF e(3)] Cons.prems(2) by auto
  qed (use Cons in simp)
qed simp

lemma parse_cluster_ok:
  assumes "parse_cluster spec self_name min_acks = Inr members"
  shows "distinct (map cm_name members)" "3 \<le> length members"
    "self_name \<in> set (map cm_name members)" "length members div 2 \<le> min_acks"
proof -
  obtain ms where ms: "parse_entries [] (split_on 0x2C spec) = Inr ms"
    using assms by (auto simp: parse_cluster_def split: sum.splits)
  from parse_entries_distinct[OF this] have "distinct (map cm_name ms)" by simp
  then show "distinct (map cm_name members)" "3 \<le> length members"
    "self_name \<in> set (map cm_name members)" "length members div 2 \<le> min_acks"
    using assms ms by (auto simp: parse_cluster_def Let_def list_ex_iff split: if_splits)
qed

text \<open>An election quorum and an acknowledgement quorum, the primary included, overlap.\<close>

lemma votes_needed_meets_acks:
  "n div 2 \<le> min_acks \<Longrightarrow> n < votes_needed n + (min_acks + 1)"
  by (simp add: votes_needed_def)

lemma votes_needed_majority: "n < votes_needed n + votes_needed n"
  by (simp add: votes_needed_def)

end
