(* ===== verification/Election.thy ===== *)
theory Election
  imports Failover "HOL-Library.Code_Target_Nat"
begin

text \<open>
  The cluster: the members' failover and replication state composed into one transition
  system.  A step is one atomic action of the server code: a coordinator tick, one turn of
  \<open>stand_for_election\<close> in \<open>failover.rs\<close>, the vote handler in \<open>main.rs\<close>, one action
  of either end of a replication stream (\<open>stream.rs\<close>, \<open>replica.rs\<close>), a write and its
  acknowledgement (\<open>write.rs\<close>), and crashes and restarts.  Messages may be delayed
  arbitrarily, the two ends of a stream close independently, any replica may join, and a
  write of the epoch file may fail.  The lemmas show that an epoch has at most one winner and
  that a winner's log reaches every LSN acknowledged before it stood by registrations of
  different members; two further theorems exhibit runs in which two members lead in one epoch
  and in which an acknowledged write is missing from the elected leader.
\<close>

section \<open>Members\<close>

text \<open>
  A write acknowledged to a client: its LSN and record, the primary that answered, the
  replicas behind the registrations its quorum wait counted, one name per registration, and
  the members whose flushed log reached that LSN.
\<close>

record 'r ack =
  ak_lsn :: nat
  ak_record :: 'r
  ak_primary :: rstring
  ak_replicas :: "rstring list"
  ak_holders :: "rstring list"

text \<open>
  A vote request as sent on one connection.  The last field is a history variable: the
  writes acknowledged when the candidate stood.
\<close>

record 'r vote_request =
  vr_candidate :: rstring
  vr_voter :: rstring
  vr_epoch :: u64
  vr_lsn :: u64
  vr_acked :: "'r ack list"

record 'r candidacy =
  cd_epoch :: u64
  cd_lsn :: u64
  cd_votes :: nat
  cd_rest :: "rstring list"
  cd_asked :: bool
  cd_acked :: "'r ack list"

datatype 'r phase = Idle | Soliciting "'r candidacy" | Elected "'r candidacy"

record 'r member =
  mb_failover :: failover
  mb_replication :: replication
  mb_log :: "'r list"
  mb_synced :: nat
  mb_quorate :: "(nat \<times> rstring list) list"
  mb_phase :: "'r phase"
  mb_credentials :: bool

text \<open>
  A replication connection: the id its sender registered under, whether each end is still
  there, the LSN the sender has reached, and the frames in flight in the two directions.
\<close>

datatype (plugins only: code size) 'r frame = PrimaryEpochFrame u64 | RecordFrame nat 'r

record 'r conn =
  cn_follower :: rstring
  cn_primary :: rstring
  cn_replica :: "u64 option"
  cn_sending :: bool
  cn_receiving :: bool
  cn_next :: nat
  cn_frames :: "'r frame list"
  cn_acks :: "u64 list"

record config =
  cf_crc :: "bytes \<Rightarrow> u32"
  cf_members :: "cluster_member list"
  cf_min_acks :: nat
  cf_ack_timeout :: nat
  cf_lease :: nat
  cf_election_timeout :: nat
  cf_primary :: rstring

text \<open>
  The cluster's state: the members, the connections, the vote messages in flight, and three
  histories, the votes granted (with the voter's log length), the elections won, and the
  writes acknowledged.  A member's \<open>mb_quorate\<close> holds the quorum waits that have returned,
  each with the replicas it counted.
\<close>

record 'r cluster =
  cl_member :: "rstring \<Rightarrow> 'r member"
  cl_conns :: "'r conn list"
  cl_requests :: "'r vote_request list"
  cl_replies :: "('r vote_request \<times> bool \<times> u64) list"
  cl_votes :: "('r vote_request \<times> nat) list"
  cl_elected :: "(rstring \<times> 'r candidacy) list"
  cl_acked :: "'r ack list"

definition names :: "config \<Rightarrow> rstring list" where
  "names cfg = map cm_name (cf_members cfg)"

text \<open>The engine's last LSN: LSNs count from one, so it is the length of the log.\<close>

definition last_lsn :: "'r member \<Rightarrow> u64" where
  "last_lsn m = word_of_nat (length (mb_log m))"

definition member_start :: "config \<Rightarrow> rstring \<Rightarrow> bytes option \<Rightarrow> epoch_store \<Rightarrow> bool \<Rightarrow> nat \<Rightarrow> 'r list \<Rightarrow> 'r member" where
  "member_start cfg name disk epochs replica_of now log =
     \<lparr>mb_failover = failover_new (cf_members cfg) name disk epochs (\<not> replica_of) (cf_lease cfg)
        (cf_election_timeout cfg) now,
      mb_replication = replication_new (cf_min_acks cfg) (cf_ack_timeout cfg),
      mb_log = log, mb_synced = length log, mb_quorate = [], mb_phase = Idle,
      mb_credentials = replica_of\<rparr>"

definition cluster_init :: "config \<Rightarrow> nat \<Rightarrow> 'r cluster" where
  "cluster_init cfg now =
     \<lparr>cl_member = (\<lambda>name. member_start cfg name None \<lparr>es_current = 0, es_voted = 0\<rparr> (name \<noteq> cf_primary cfg) now []),
      cl_conns = [], cl_requests = [], cl_replies = [], cl_votes = [], cl_elected = [], cl_acked = []\<rparr>"

definition put_member :: "rstring \<Rightarrow> 'r member \<Rightarrow> 'r cluster \<Rightarrow> 'r cluster" where
  "put_member i m s = s\<lparr>cl_member := (cl_member s)(i := m)\<rparr>"

definition put_conn :: "nat \<Rightarrow> 'r conn \<Rightarrow> 'r cluster \<Rightarrow> 'r cluster" where
  "put_conn k c s = s\<lparr>cl_conns := (cl_conns s)[k := c]\<rparr>"

section \<open>Elections\<close>

definition request_of :: "rstring \<Rightarrow> rstring \<Rightarrow> 'r candidacy \<Rightarrow> 'r vote_request" where
  "request_of candidate voter cd =
     \<lparr>vr_candidate = candidate, vr_voter = voter, vr_epoch = cd_epoch cd, vr_lsn = cd_lsn cd,
      vr_acked = cd_acked cd\<rparr>"

text \<open>
  One pass of the coordinator's loop.  Standing persists the new epoch with the member's own
  vote and reads the log's end; a candidacy that fails to persist resets the timer.
\<close>

definition tick :: "config \<Rightarrow> persist_outcome \<Rightarrow> nat \<Rightarrow> rstring \<Rightarrow> 'r cluster \<Rightarrow> 'r cluster" where
  "tick cfg io now i s =
     (let m = cl_member s i; fo = mb_failover m in
      case coordinator_tick now (mb_replication m) (mb_credentials m) fo of
        Nothing \<Rightarrow> s
      | RenewLease \<Rightarrow> put_member i (m\<lparr>mb_failover := quorum_held now fo\<rparr>) s
      | StepDown \<Rightarrow> put_member i (m\<lparr>mb_failover := step_down now fo\<rparr>) s
      | StandForElection \<Rightarrow>
          (case stand (cf_crc cfg) io fo of
             (fo, Inl _) \<Rightarrow> put_member i (m\<lparr>mb_failover := heard_from_leader now fo\<rparr>) s
           | (fo, Inr epoch) \<Rightarrow>
               (let cd = \<lparr>cd_epoch = epoch, cd_lsn = last_lsn m, cd_votes = 1,
                          cd_rest = filter (\<lambda>n. n \<noteq> i) (names cfg), cd_asked = False,
                          cd_acked = cl_acked s\<rparr> in
                (put_member i (m\<lparr>mb_failover := fo, mb_phase := Soliciting cd\<rparr>) s)
                  \<lparr>cl_votes := (request_of i i cd, length (mb_log m)) # cl_votes s\<rparr>)))"

text \<open>The handler of \<open>VoteRequest\<close>; an error answers as a refusal.\<close>

definition handle_vote :: "config \<Rightarrow> persist_outcome \<Rightarrow> persist_outcome \<Rightarrow> nat \<Rightarrow> 'r vote_request \<Rightarrow>
    'r cluster \<Rightarrow> 'r cluster" where
  "handle_vote cfg io1 io2 now q s =
     (let v = vr_voter q; m = cl_member s v;
          (fo, r) = consider_vote (cf_crc cfg) io1 io2 now (vr_epoch q) (vr_lsn q) (last_lsn m) (mb_failover m);
          granted = (case r of Inl _ \<Rightarrow> False | Inr b \<Rightarrow> b) in
      (put_member v (m\<lparr>mb_failover := fo\<rparr>) s)
        \<lparr>cl_requests := remove1 q (cl_requests s),
         cl_replies := (q, granted, fo_current_epoch fo) # cl_replies s,
         cl_votes := (if granted then [(q, length (mb_log m))] else []) @ cl_votes s\<rparr>)"

text \<open>
  The candidate's loop after one peer: a reply, or none within the timeout.  A higher epoch
  ends the candidacy, enough votes win it, and running out of peers loses it.
\<close>

definition count_vote :: "config \<Rightarrow> nat \<Rightarrow> rstring \<Rightarrow> 'r candidacy \<Rightarrow> bool \<Rightarrow> 'r cluster \<Rightarrow> 'r cluster" where
  "count_vote cfg now c cd granted s =
     (let m = cl_member s c;
          cd = cd\<lparr>cd_votes := (if granted then cd_votes cd + 1 else cd_votes cd), cd_rest := tl (cd_rest cd),
                 cd_asked := False\<rparr> in
      if votes_needed (length (cf_members cfg)) \<le> cd_votes cd
      then (put_member c (m\<lparr>mb_phase := Elected cd\<rparr>) s)\<lparr>cl_elected := (c, cd) # cl_elected s\<rparr>
      else if cd_rest cd = []
      then put_member c (m\<lparr>mb_failover := heard_from_leader now (mb_failover m), mb_phase := Idle\<rparr>) s
      else put_member c (m\<lparr>mb_phase := Soliciting cd\<rparr>) s)"

definition handle_reply :: "config \<Rightarrow> persist_outcome \<Rightarrow> nat \<Rightarrow> rstring \<Rightarrow> 'r candidacy \<Rightarrow> bool \<Rightarrow> u64 \<Rightarrow>
    'r cluster \<Rightarrow> 'r cluster" where
  "handle_reply cfg io now c cd granted peer_epoch s =
     (if cd_epoch cd < peer_epoch
      then (let m = cl_member s c; (fo, r) = observe_epoch (cf_crc cfg) io now peer_epoch (mb_failover m) in
            put_member c (m\<lparr>mb_failover := heard_from_leader now fo, mb_phase := Idle\<rparr>) s)
      else count_vote cfg now c cd granted s)"

section \<open>Streams\<close>

definition append_record :: "'r \<Rightarrow> 'r member \<Rightarrow> 'r member" where
  "append_record r m = (if Suc (length (mb_log m)) < 2 ^ 64 then m\<lparr>mb_log := mb_log m @ [r]\<rparr> else m)"

definition sync_log :: "'r member \<Rightarrow> 'r member" where
  "sync_log m = m\<lparr>mb_synced := length (mb_log m)\<rparr>"

text \<open>
  A follower with no stream open says hello to a primary, which admits any replica of its
  database and sends its epoch first.  When the primary has pruned the records the follower
  needs, the follower takes them from the archive, whose content is the argument
  \<open>archived\<close>, and gives the stream up when that does not close the gap.
\<close>

definition join_stream :: "rstring \<Rightarrow> rstring \<Rightarrow> u64 \<Rightarrow> 'r list \<Rightarrow> 'r cluster \<Rightarrow> 'r cluster" where
  "join_stream j i oldest archived s =
     (let m = cl_member s j; p = cl_member s i;
          connect = (\<lambda>first_lsn receiving s. s\<lparr>cl_conns := cl_conns s @
            [\<lparr>cn_follower = j, cn_primary = i, cn_replica = None, cn_sending = True,
              cn_receiving = receiving, cn_next = unat first_lsn,
              cn_frames = [PrimaryEpochFrame (fo_current_epoch (mb_failover p))], cn_acks = []\<rparr>]\<rparr>) in
      if i = j \<or> list_ex (\<lambda>c. cn_follower c = j \<and> cn_receiving c) (cl_conns s) \<or>
         fo_role (mb_failover m) = Primary \<or> \<not> mb_credentials m \<or>
         fo_role (mb_failover p) \<noteq> Primary \<or> \<not> enabled (mb_replication p)
      then s
      else
        (case decide_join (last_lsn m) (last_lsn p) oldest of
           Refuse \<Rightarrow> s
         | Stream first_lsn \<Rightarrow> connect first_lsn True s
         | Rebuild \<Rightarrow>
             (let m = sync_log (fold append_record archived m) in
              connect oldest (\<not> sat_succ (last_lsn m) < oldest) (put_member j m s))))"

text \<open>The sender registers once it has caught the replica up from the log.\<close>

definition attach_stream :: "nat \<Rightarrow> 'r cluster \<Rightarrow> 'r cluster" where
  "attach_stream k s =
     (let c = cl_conns s ! k; p = cl_member s (cn_primary c) in
      if k < length (cl_conns s) \<and> cn_sending c \<and> cn_replica c = None
      then (let (rp, rid) = register (mb_replication p) in
            put_conn k (c\<lparr>cn_replica := Some rid\<rparr>)
              (put_member (cn_primary c) (p\<lparr>mb_replication := rp\<rparr>) s))
      else s)"

text \<open>
  The sender's end: the registration goes with it, on every exit path.  What is in flight
  to the follower stays in flight.
\<close>

definition end_sending :: "nat \<Rightarrow> 'r cluster \<Rightarrow> 'r cluster" where
  "end_sending k s =
     (let c = cl_conns s ! k; p = cl_member s (cn_primary c) in
      if k < length (cl_conns s) \<and> cn_sending c
      then (let s = put_conn k (c\<lparr>cn_sending := False\<rparr>) s in
            case cn_replica c of
              None \<Rightarrow> s
            | Some rid \<Rightarrow> put_member (cn_primary c) (p\<lparr>mb_replication := deregister rid (mb_replication p)\<rparr>) s)
      else s)"

text \<open>
  The follower's end.  The sender learns of it only when it next uses the connection, and
  until then it stays registered and still reads what was sent to it.
\<close>

definition end_receiving :: "nat \<Rightarrow> 'r cluster \<Rightarrow> 'r cluster" where
  "end_receiving k s =
     (if k < length (cl_conns s) then put_conn k ((cl_conns s ! k)\<lparr>cn_receiving := False\<rparr>) s else s)"

text \<open>
  A record of the sender's log, at or after the point it has reached; a record shipped
  between the end of the catch-up and the registration is skipped.
\<close>

definition send_record :: "nat \<Rightarrow> nat \<Rightarrow> 'r cluster \<Rightarrow> 'r cluster" where
  "send_record k lsn s =
     (let c = cl_conns s ! k; log = mb_log (cl_member s (cn_primary c)) in
      if k < length (cl_conns s) \<and> cn_sending c \<and> 0 < lsn \<and> cn_next c \<le> lsn \<and> lsn \<le> length log
      then put_conn k (c\<lparr>cn_next := Suc lsn, cn_frames := cn_frames c @ [RecordFrame lsn (log ! (lsn - 1))]\<rparr>) s
      else s)"

text \<open>Each beat of the stream re-checks the sender's role.\<close>

definition heartbeat :: "nat \<Rightarrow> 'r cluster \<Rightarrow> 'r cluster" where
  "heartbeat k s =
     (let c = cl_conns s ! k; fo = mb_failover (cl_member s (cn_primary c)) in
      if k < length (cl_conns s) \<and> cn_sending c \<and> cn_replica c \<noteq> None
      then if fo_role fo \<noteq> Primary then end_sending k s
           else put_conn k (c\<lparr>cn_frames := cn_frames c @ [PrimaryEpochFrame (fo_current_epoch fo)]\<rparr>) s
      else s)"

text \<open>
  The follower takes the next frame.  An epoch is adopted or the stream refused, and ignored
  by a replica outside the cluster, which runs without failover; a record it has is skipped, the next one is appended, flushed and acknowledged, and one past a gap ends
  the stream.
\<close>

definition receive_frame :: "config \<Rightarrow> persist_outcome \<Rightarrow> nat \<Rightarrow> nat \<Rightarrow> 'r cluster \<Rightarrow> 'r cluster" where
  "receive_frame cfg io now k s =
     (let c = cl_conns s ! k; j = cn_follower c; m = cl_member s j in
      if k < length (cl_conns s) \<and> cn_receiving c
      then
        (case cn_frames c of
           [] \<Rightarrow> s
         | PrimaryEpochFrame epoch # frames \<Rightarrow>
             if j \<notin> set (names cfg) then put_conn k (c\<lparr>cn_frames := frames\<rparr>) s
             else (let (fo, go) = receive_primary_epoch (cf_crc cfg) io now epoch (mb_failover m) in
              put_conn k (c\<lparr>cn_frames := frames, cn_receiving := go\<rparr>) (put_member j (m\<lparr>mb_failover := fo\<rparr>) s))
         | RecordFrame lsn r # frames \<Rightarrow>
             (let m = m\<lparr>mb_failover := heard_primary now (mb_failover m)\<rparr> in
              if lsn \<le> length (mb_log m)
              then put_conn k (c\<lparr>cn_frames := frames\<rparr>) (put_member j m s)
              else if lsn = Suc (length (mb_log m))
              then (let m = sync_log (append_record r m) in
                    put_conn k (c\<lparr>cn_frames := frames, cn_acks := cn_acks c @ [last_lsn m]\<rparr>)
                      (put_member j m s))
              else put_conn k (c\<lparr>cn_frames := frames, cn_receiving := False\<rparr>) (put_member j m s)))
      else s)"

text \<open>The sender reads an acknowledgement, whether or not the follower is still there.\<close>

definition deliver_ack :: "nat \<Rightarrow> 'r cluster \<Rightarrow> 'r cluster" where
  "deliver_ack k s =
     (let c = cl_conns s ! k; p = cl_member s (cn_primary c) in
      if k < length (cl_conns s) \<and> cn_sending c
      then
        (case (cn_replica c, cn_acks c) of
           (Some rid, lsn # acks) \<Rightarrow>
             put_conn k (c\<lparr>cn_acks := acks\<rparr>)
               (put_member (cn_primary c) (p\<lparr>mb_replication := acknowledge rid lsn (mb_replication p)\<rparr>) s)
         | _ \<Rightarrow> s)
      else s)"

section \<open>Writes\<close>

text \<open>A client write is accepted by role alone.\<close>

definition client_write :: "rstring \<Rightarrow> 'r \<Rightarrow> 'r cluster \<Rightarrow> 'r cluster" where
  "client_write i r s =
     (let m = cl_member s i in
      if fo_role (mb_failover m) = Primary then put_member i (append_record r m) s else s)"

text \<open>
  A quorum wait returns.  The list is a history variable: the replica behind each
  registration that stands at the LSN.
\<close>

definition counted_replicas :: "rstring \<Rightarrow> nat \<Rightarrow> 'r cluster \<Rightarrow> rstring list" where
  "counted_replicas i lsn s =
     map cn_follower (filter (\<lambda>c. cn_primary c = i \<and> cn_sending c \<and>
       (case cn_replica c of
          None \<Rightarrow> False
        | Some rid \<Rightarrow>
           (case map_of (rp_replicas (mb_replication (cl_member s i))) rid of
              None \<Rightarrow> False
            | Some held \<Rightarrow> word_of_nat lsn \<le> held))) (cl_conns s))"

definition quorum_returns :: "rstring \<Rightarrow> nat \<Rightarrow> 'r cluster \<Rightarrow> 'r cluster" where
  "quorum_returns i lsn s =
     (let m = cl_member s i in
      if 0 < lsn \<and> lsn \<le> length (mb_log m) \<and> enabled (mb_replication m) \<and>
         word_of_nat lsn \<le> quorum_lsn (mb_replication m)
      then put_member i (m\<lparr>mb_quorate := (lsn, counted_replicas i lsn s) # mb_quorate m\<rparr>) s
      else s)"

text \<open>
  The write at \<open>lsn\<close> is answered once the local flush and the quorum wait have both
  succeeded, in either order.
\<close>

definition answer_write :: "config \<Rightarrow> rstring \<Rightarrow> nat \<Rightarrow> 'r cluster \<Rightarrow> 'r cluster" where
  "answer_write cfg i lsn s =
     (let m = cl_member s i in
      case map_of (mb_quorate m) lsn of
        None \<Rightarrow> s
      | Some replicas \<Rightarrow>
          if lsn \<le> mb_synced m
          then s\<lparr>cl_acked := \<lparr>ak_lsn = lsn, ak_record = mb_log m ! (lsn - 1), ak_primary = i,
                   ak_replicas = replicas,
                   ak_holders = filter (\<lambda>j. lsn \<le> mb_synced (cl_member s j)) (names cfg)\<rparr> # cl_acked s\<rparr>
          else s)"

text \<open>
  A crash keeps the epoch file and the flushed prefix of the log, at least.  The member's ends
  of its streams are gone, its registrations with them; frames it sent may still arrive.
\<close>

definition cut_ends :: "rstring \<Rightarrow> 'r conn \<Rightarrow> 'r conn" where
  "cut_ends i c =
     c\<lparr>cn_sending := (cn_sending c \<and> cn_primary c \<noteq> i),
       cn_receiving := (cn_receiving c \<and> cn_follower c \<noteq> i)\<rparr>"

definition restart :: "config \<Rightarrow> nat \<Rightarrow> rstring \<Rightarrow> nat \<Rightarrow> bool \<Rightarrow> 'r cluster \<Rightarrow> 'r cluster" where
  "restart cfg now i kept replica_of s =
     (let m = cl_member s i in
      case epoch_open (cf_crc cfg) (fo_disk (mb_failover m)) of
        Inl _ \<Rightarrow> s
      | Inr epochs \<Rightarrow>
          put_member i (member_start cfg i (fo_disk (mb_failover m)) epochs replica_of now
            (take (max kept (mb_synced m)) (mb_log m)))
            (s\<lparr>cl_conns := map (cut_ends i) (cl_conns s)\<rparr>))"

section \<open>Steps\<close>

datatype (plugins only: code size) 'r event =
    Tick persist_outcome nat rstring
  | Solicit rstring
  | HandleVote persist_outcome persist_outcome nat "'r vote_request"
  | Reply persist_outcome nat rstring bool u64
  | NoReply nat rstring
  | Promote nat rstring
  | Join rstring rstring u64 "'r list"
  | Attach nat
  | Send nat nat
  | Beat nat
  | Receive persist_outcome nat nat
  | DeliverAck nat
  | StopSending nat
  | HangUp nat
  | Write rstring 'r
  | Flush rstring
  | Quorum rstring nat
  | Answer rstring nat
  | Restart nat rstring nat bool

fun event_members :: "'r event \<Rightarrow> rstring list" where
  "event_members (Tick io now i) = [i]"
| "event_members (Solicit i) = [i]"
| "event_members (HandleVote io1 io2 now q) = [vr_voter q]"
| "event_members (Reply io now i granted pe) = [i]"
| "event_members (NoReply now i) = [i]"
| "event_members (Promote now i) = [i]"
| "event_members (Join j i oldest archived) = [i]"
| "event_members (Attach k) = []"
| "event_members (Send k lsn) = []"
| "event_members (Beat k) = []"
| "event_members (Receive io now k) = []"
| "event_members (DeliverAck k) = []"
| "event_members (StopSending k) = []"
| "event_members (HangUp k) = []"
| "event_members (Write i r) = [i]"
| "event_members (Flush i) = [i]"
| "event_members (Quorum i lsn) = [i]"
| "event_members (Answer i lsn) = [i]"
| "event_members (Restart now i kept replica_of) = [i]"

text \<open>
  What an event does; one that is not possible in the state changes nothing.  The members of
  an event are those that vote, stand, lead or are written to; a stream's follower need not
  be one.
\<close>

fun step :: "config \<Rightarrow> 'r event \<Rightarrow> 'r cluster \<Rightarrow> 'r cluster" where
  "step cfg (Tick io now i) s = (if mb_phase (cl_member s i) = Idle then tick cfg io now i s else s)"
| "step cfg (Solicit c) s =
     (case mb_phase (cl_member s c) of
        Soliciting cd \<Rightarrow>
          if cd_asked cd \<or> cd_rest cd = [] then s
          else (put_member c ((cl_member s c)\<lparr>mb_phase := Soliciting (cd\<lparr>cd_asked := True\<rparr>)\<rparr>) s)
                 \<lparr>cl_requests := request_of c (hd (cd_rest cd)) cd # cl_requests s\<rparr>
      | _ \<Rightarrow> s)"
| "step cfg (HandleVote io1 io2 now q) s =
     (if q \<in> set (cl_requests s) then handle_vote cfg io1 io2 now q s else s)"
| "step cfg (Reply io now c granted peer_epoch) s =
     (case mb_phase (cl_member s c) of
        Soliciting cd \<Rightarrow>
          if cd_asked cd \<and> cd_rest cd \<noteq> [] \<and>
             (request_of c (hd (cd_rest cd)) cd, granted, peer_epoch) \<in> set (cl_replies s)
          then handle_reply cfg io now c cd granted peer_epoch s else s
      | _ \<Rightarrow> s)"
| "step cfg (NoReply now c) s =
     (case mb_phase (cl_member s c) of
        Soliciting cd \<Rightarrow> if cd_rest cd = [] then s else count_vote cfg now c cd False s
      | _ \<Rightarrow> s)"
| "step cfg (Promote now c) s =
     (let m = cl_member s c in
      case mb_phase m of
        Elected cd \<Rightarrow> put_member c (m\<lparr>mb_failover := promote now (mb_failover m), mb_phase := Idle\<rparr>) s
      | _ \<Rightarrow> s)"
| "step cfg (Join j i oldest archived) s = join_stream j i oldest archived s"
| "step cfg (Attach k) s = attach_stream k s"
| "step cfg (Send k lsn) s = send_record k lsn s"
| "step cfg (Beat k) s = heartbeat k s"
| "step cfg (Receive io now k) s = receive_frame cfg io now k s"
| "step cfg (DeliverAck k) s = deliver_ack k s"
| "step cfg (StopSending k) s = end_sending k s"
| "step cfg (HangUp k) s = end_receiving k s"
| "step cfg (Write i r) s = client_write i r s"
| "step cfg (Flush i) s = put_member i (sync_log (cl_member s i)) s"
| "step cfg (Quorum i lsn) s = quorum_returns i lsn s"
| "step cfg (Answer i lsn) s = answer_write cfg i lsn s"
| "step cfg (Restart now i kept replica_of) s = restart cfg now i kept replica_of s"

inductive reach :: "config \<Rightarrow> 'r cluster \<Rightarrow> bool" for cfg where
  init: "reach cfg (cluster_init cfg now)"
| step: "reach cfg s \<Longrightarrow> set (event_members ev) \<subseteq> set (names cfg) \<Longrightarrow> reach cfg (step cfg ev s)"

section \<open>Invariants\<close>

text \<open>
  The invariants speak of projections of the state only: the highest epoch each member voted
  in, its flushed length, its phase, its table of replicas and its quorum waits, the
  connections, and the histories.
\<close>

definition voted :: "'r cluster \<Rightarrow> rstring \<Rightarrow> u64" where
  "voted s i = es_voted (fo_epochs (mb_failover (cl_member s i)))"

definition synced :: "'r cluster \<Rightarrow> rstring \<Rightarrow> nat" where
  "synced s i = mb_synced (cl_member s i)"

definition phase :: "'r cluster \<Rightarrow> rstring \<Rightarrow> 'r phase" where
  "phase s i = mb_phase (cl_member s i)"

definition table :: "'r cluster \<Rightarrow> rstring \<Rightarrow> (u64 \<times> u64) list" where
  "table s i = rp_replicas (mb_replication (cl_member s i))"

definition quorate :: "'r cluster \<Rightarrow> rstring \<Rightarrow> (nat \<times> rstring list) list" where
  "quorate s i = mb_quorate (cl_member s i)"

lemmas proj_defs = voted_def synced_def phase_def table_def quorate_def

definition member_ok :: "config \<Rightarrow> 'r member \<Rightarrow> bool" where
  "member_ok cfg m \<longleftrightarrow> fo_ok (cf_crc cfg) (mb_failover m) \<and> mb_synced m \<le> length (mb_log m) \<and>
     length (mb_log m) < 2 ^ 64 \<and> rp_min_acks (mb_replication m) = cf_min_acks cfg"

definition members_ok :: "config \<Rightarrow> 'r cluster \<Rightarrow> bool" where
  "members_ok cfg s \<longleftrightarrow> (\<forall>i. member_ok cfg (cl_member s i))"

text \<open>
  Every entry of a primary's table belongs to a connection whose follower holds that much, an
  acknowledgement in flight is of what its follower holds, and a quorum wait that counted
  different replicas counted enough of them that hold its LSN.
\<close>

definition serves :: "rstring \<Rightarrow> u64 \<Rightarrow> 'r conn \<Rightarrow> bool" where
  "serves i rid c \<longleftrightarrow> cn_primary c = i \<and> cn_sending c \<and> cn_replica c = Some rid"

definition waits_ok :: "nat \<Rightarrow> (rstring \<Rightarrow> nat) \<Rightarrow> (nat \<times> rstring list) list \<Rightarrow> bool" where
  "waits_ok n sy qs \<longleftrightarrow>
     (\<forall>lsn R. (lsn, R) \<in> set qs \<longrightarrow> 0 < lsn \<and> (distinct R \<longrightarrow> n \<le> card {j \<in> set R. lsn \<le> sy j}))"

definition streams_ok :: "nat \<Rightarrow> 'r conn list \<Rightarrow> (rstring \<Rightarrow> (u64 \<times> u64) list) \<Rightarrow>
    (rstring \<Rightarrow> (nat \<times> rstring list) list) \<Rightarrow> (rstring \<Rightarrow> nat) \<Rightarrow> bool" where
  "streams_ok n cs tab qu sy \<longleftrightarrow>
     (\<forall>i. distinct (map fst (tab i)) \<and> waits_ok n sy (qu i)) \<and>
     (\<forall>i rid w. (rid, w) \<in> set (tab i) \<longrightarrow>
        (\<exists>c \<in> set cs. serves i rid c \<and> unat w \<le> sy (cn_follower c))) \<and>
     (\<forall>c \<in> set cs. \<forall>l \<in> set (cn_acks c). unat l \<le> sy (cn_follower c))"

text \<open>
  The holders of an acknowledged write hold it, and registrations of different members other
  than the primary make them more than the quorum.
\<close>

definition members_counted :: "rstring list \<Rightarrow> 'r ack \<Rightarrow> bool" where
  "members_counted ns a \<longleftrightarrow>
     distinct (ak_replicas a) \<and> set (ak_replicas a) \<subseteq> set ns - {ak_primary a}"

definition acked_ok :: "rstring list \<Rightarrow> nat \<Rightarrow> (rstring \<Rightarrow> nat) \<Rightarrow> 'r ack list \<Rightarrow> bool" where
  "acked_ok ns k sy acked \<longleftrightarrow>
     (\<forall>a \<in> set acked. (members_counted ns a \<longrightarrow> k < card (set (ak_holders a))) \<and>
        set (ak_holders a) \<subseteq> set ns \<and> (\<forall>j \<in> set (ak_holders a). ak_lsn a \<le> sy j))"

text \<open>
  A vote is at or below the highest epoch its voter recorded, for a candidate whose log
  reaches the voter's, which holds what the voter was known to hold when the candidate stood;
  and a member votes for one candidate per epoch.
\<close>

definition votes_ok :: "(rstring \<Rightarrow> u64) \<Rightarrow> ('r vote_request \<times> nat) list \<Rightarrow> bool" where
  "votes_ok vo votes \<longleftrightarrow>
     (\<forall>q k. (q, k) \<in> set votes \<longrightarrow> vr_epoch q \<le> vo (vr_voter q) \<and> k \<le> unat (vr_lsn q) \<and>
        (\<forall>a \<in> set (vr_acked q). vr_voter q \<in> set (ak_holders a) \<longrightarrow> ak_lsn a \<le> k)) \<and>
     (\<forall>q k q' k'. (q, k) \<in> set votes \<longrightarrow> (q', k') \<in> set votes \<longrightarrow>
        vr_voter q = vr_voter q' \<longrightarrow> vr_epoch q = vr_epoch q' \<longrightarrow> vr_candidate q = vr_candidate q')"

definition backed :: "rstring list \<Rightarrow> ('r vote_request \<times> nat) list \<Rightarrow> rstring \<Rightarrow> 'r candidacy \<Rightarrow> rstring set \<Rightarrow> bool" where
  "backed ns votes c cd S \<longleftrightarrow> S \<subseteq> set ns \<and> (\<forall>v \<in> S. request_of c v cd \<in> fst ` set votes)"

fun phase_ok :: "rstring list \<Rightarrow> 'r ack list \<Rightarrow> ('r vote_request \<times> nat) list \<Rightarrow> rstring \<Rightarrow> 'r phase \<Rightarrow> bool" where
  "phase_ok ns acked votes c (Soliciting cd) \<longleftrightarrow>
     distinct (cd_rest cd) \<and> set (cd_rest cd) \<subseteq> set ns \<and> set (cd_acked cd) \<subseteq> set acked \<and>
     (\<exists>S. backed ns votes c cd S \<and> S \<inter> set (cd_rest cd) = {} \<and> card S = cd_votes cd)"
| "phase_ok ns acked votes c _ \<longleftrightarrow> True"

definition history_ok :: "config \<Rightarrow> 'r cluster \<Rightarrow> bool" where
  "history_ok cfg s \<longleftrightarrow>
     acked_ok (names cfg) (cf_min_acks cfg) (synced s) (cl_acked s) \<and>
     votes_ok (voted s) (cl_votes s) \<and>
     (\<forall>q \<in> set (cl_requests s). set (vr_acked q) \<subseteq> set (cl_acked s)) \<and>
     (\<forall>q pe. (q, True, pe) \<in> set (cl_replies s) \<longrightarrow> q \<in> fst ` set (cl_votes s)) \<and>
     (\<forall>c. phase_ok (names cfg) (cl_acked s) (cl_votes s) c (phase s c)) \<and>
     (\<forall>c cd. (c, cd) \<in> set (cl_elected s) \<longrightarrow> set (cd_acked cd) \<subseteq> set (cl_acked s) \<and>
        (\<exists>S. backed (names cfg) (cl_votes s) c cd S \<and> votes_needed (length (cf_members cfg)) \<le> card S))"

definition cluster_inv :: "config \<Rightarrow> 'r cluster \<Rightarrow> bool" where
  "cluster_inv cfg s \<longleftrightarrow> members_ok cfg s \<and> history_ok cfg s \<and>
     streams_ok (cf_min_acks cfg) (cl_conns s) (table s) (quorate s) (synced s)"

section \<open>Framing\<close>

text \<open>A step that only moves epochs and flushed lengths forward, or ends a candidacy, keeps the history.\<close>

definition quiet :: "'r cluster \<Rightarrow> 'r cluster \<Rightarrow> bool" where
  "quiet s s' \<longleftrightarrow>
     cl_requests s' = cl_requests s \<and> cl_replies s' = cl_replies s \<and> cl_votes s' = cl_votes s \<and>
     cl_elected s' = cl_elected s \<and> cl_acked s' = cl_acked s \<and>
     (\<forall>i. voted s i \<le> voted s' i \<and> synced s i \<le> synced s' i \<and> (phase s' i = phase s i \<or> (\<forall>cd. phase s' i \<noteq> Soliciting cd)))"

lemma acked_ok_mono: "acked_ok ns k sy acked \<Longrightarrow> (\<And>j. sy j \<le> sy' j) \<Longrightarrow> acked_ok ns k sy' acked"
  unfolding acked_ok_def by (meson le_trans)

lemma votes_ok_mono: "votes_ok vo votes \<Longrightarrow> (\<And>j. vo j \<le> vo' j) \<Longrightarrow> votes_ok vo' votes"
  unfolding votes_ok_def by (meson order_trans)

lemma backed_mono: "backed ns votes c cd S \<Longrightarrow> set votes \<subseteq> set votes' \<Longrightarrow> backed ns votes' c cd S"
  unfolding backed_def by (meson image_mono subsetD)

lemma phase_ok_mono:
  "phase_ok ns acked votes c ph \<Longrightarrow> set votes \<subseteq> set votes' \<Longrightarrow> set acked \<subseteq> set acked' \<Longrightarrow>
     phase_ok ns acked' votes' c ph"
  by (cases ph) (auto dest: backed_mono)

lemma phase_ok_quiet: "(\<forall>cd. ph \<noteq> Soliciting cd) \<Longrightarrow> phase_ok ns acked votes c ph"
  by (cases ph) auto

lemma history_okI:
  assumes "acked_ok (names cfg) (cf_min_acks cfg) (synced s) (cl_acked s)" "votes_ok (voted s) (cl_votes s)"
    and "\<And>q. q \<in> set (cl_requests s) \<Longrightarrow> set (vr_acked q) \<subseteq> set (cl_acked s)"
    and "\<And>q pe. (q, True, pe) \<in> set (cl_replies s) \<Longrightarrow> q \<in> fst ` set (cl_votes s)"
    and "\<And>c. phase_ok (names cfg) (cl_acked s) (cl_votes s) c (phase s c)"
    and "\<And>c cd. (c, cd) \<in> set (cl_elected s) \<Longrightarrow> set (cd_acked cd) \<subseteq> set (cl_acked s) \<and>
        (\<exists>S. backed (names cfg) (cl_votes s) c cd S \<and> votes_needed (length (cf_members cfg)) \<le> card S)"
  shows "history_ok cfg s"
  using assms unfolding history_ok_def by blast

lemma history_okD:
  assumes "history_ok cfg s"
  shows "acked_ok (names cfg) (cf_min_acks cfg) (synced s) (cl_acked s)" "votes_ok (voted s) (cl_votes s)"
    and "q \<in> set (cl_requests s) \<Longrightarrow> set (vr_acked q) \<subseteq> set (cl_acked s)"
    and "(q, True, pe) \<in> set (cl_replies s) \<Longrightarrow> q \<in> fst ` set (cl_votes s)"
    and "phase_ok (names cfg) (cl_acked s) (cl_votes s) c (phase s c)"
    and "(c, cd) \<in> set (cl_elected s) \<Longrightarrow> set (cd_acked cd) \<subseteq> set (cl_acked s) \<and>
        (\<exists>S. backed (names cfg) (cl_votes s) c cd S \<and> votes_needed (length (cf_members cfg)) \<le> card S)"
  using assms unfolding history_ok_def by blast+

lemma history_ok_quiet:
  assumes "history_ok cfg s" "quiet s s'"
  shows "history_ok cfg s'"
proof -
  have q: "cl_requests s' = cl_requests s" "cl_replies s' = cl_replies s" "cl_votes s' = cl_votes s"
    "cl_elected s' = cl_elected s" "cl_acked s' = cl_acked s"
    "\<And>i. voted s i \<le> voted s' i" "\<And>i. synced s i \<le> synced s' i"
    "\<And>i. phase s' i = phase s i \<or> (\<forall>cd. phase s' i \<noteq> Soliciting cd)"
    using assms(2) by (simp_all add: quiet_def)
  have "phase_ok (names cfg) (cl_acked s) (cl_votes s) c (phase s' c)" for c
    using q(8)[of c] assms(1) phase_ok_quiet by (metis history_ok_def)
  moreover have "acked_ok (names cfg) (cf_min_acks cfg) (synced s') (cl_acked s)"
    by (rule acked_ok_mono[of _ _ "synced s"]) (use assms(1) q(7) in \<open>auto simp: history_ok_def\<close>)
  moreover have "votes_ok (voted s') (cl_votes s)"
    by (rule votes_ok_mono[of "voted s"]) (use assms(1) q(6) in \<open>auto simp: history_ok_def\<close>)
  ultimately show ?thesis using assms(1) unfolding history_ok_def q(1-5) by simp
qed

lemma waits_ok_mono:
  assumes "waits_ok n sy qs" "\<And>j. sy j \<le> sy' j"
  shows "waits_ok n sy' qs"
proof -
  have "card {j \<in> set R. lsn \<le> sy j} \<le> card {j \<in> set R. lsn \<le> sy' j}" for lsn R
    using assms(2) by (intro card_mono) (auto intro: le_trans)
  then show ?thesis using assms(1) unfolding waits_ok_def by (meson le_trans)
qed

lemma streams_ok_mono:
  "streams_ok n cs tab qu sy \<Longrightarrow> (\<And>j. sy j \<le> sy' j) \<Longrightarrow> streams_ok n cs tab qu sy'"
  unfolding streams_ok_def by (meson le_trans waits_ok_mono)

text \<open>Projections of a state in which one member or one connection was replaced.\<close>

lemma put_member_simps [simp]:
  "cl_member (put_member i m s) j = (if j = i then m else cl_member s j)"
  "cl_requests (put_member i m s) = cl_requests s" "cl_replies (put_member i m s) = cl_replies s"
  "cl_votes (put_member i m s) = cl_votes s" "cl_elected (put_member i m s) = cl_elected s"
  "cl_acked (put_member i m s) = cl_acked s" "cl_conns (put_member i m s) = cl_conns s"
  by (simp_all add: put_member_def)

lemma put_conn_simps [simp]:
  "cl_member (put_conn k c s) = cl_member s" "cl_requests (put_conn k c s) = cl_requests s"
  "cl_replies (put_conn k c s) = cl_replies s" "cl_votes (put_conn k c s) = cl_votes s"
  "cl_elected (put_conn k c s) = cl_elected s" "cl_acked (put_conn k c s) = cl_acked s"
  "cl_conns (put_conn k c s) = (cl_conns s)[k := c]"
  by (simp_all add: put_conn_def)

lemma inv_streams:
  assumes "cluster_inv cfg s" "quiet s s'" "members_ok cfg s'"
    and "streams_ok (cf_min_acks cfg) (cl_conns s') (table s') (quorate s') (synced s')"
  shows "cluster_inv cfg s'"
  using assms history_ok_quiet by (auto simp: cluster_inv_def)

lemma inv_put_member:
  assumes inv: "cluster_inv cfg s" and m: "member_ok cfg m'"
    and "epochs_le (mb_failover (cl_member s i)) (mb_failover m')" "mb_synced (cl_member s i) \<le> mb_synced m'"
    and "mb_quorate m' = mb_quorate (cl_member s i)" "rp_replicas (mb_replication m') = table s i"
    and "mb_phase m' = mb_phase (cl_member s i) \<or> (\<forall>cd. mb_phase m' \<noteq> Soliciting cd)"
  shows "cluster_inv cfg (put_member i m' s)"
proof (rule inv_streams[OF inv])
  let ?s = "put_member i m' s"
  show "quiet s ?s"
    using assms(3-) by (auto simp: quiet_def proj_defs epochs_le_def)
  have "table ?s = table s" "quorate ?s = quorate s" "\<And>j. synced s j \<le> synced ?s j"
    using assms(3-) by (auto simp: proj_defs fun_eq_iff)
  then show "streams_ok (cf_min_acks cfg) (cl_conns ?s) (table ?s) (quorate ?s) (synced ?s)"
    using inv streams_ok_mono[of _ "cl_conns s" "table s" "quorate s" "synced s" "synced ?s"]
    by (simp add: cluster_inv_def)
  show "members_ok cfg ?s" using inv m by (simp add: cluster_inv_def members_ok_def)
qed

lemma inv_member: "cluster_inv cfg s \<Longrightarrow> member_ok cfg (cl_member s i)"
  by (simp add: cluster_inv_def members_ok_def)

lemma inv_fo: "cluster_inv cfg s \<Longrightarrow> fo_ok (cf_crc cfg) (mb_failover (cl_member s i))"
  by (simp add: cluster_inv_def members_ok_def member_ok_def)

text \<open>Replacing only the failover state.\<close>

lemma inv_put_failover:
  assumes "cluster_inv cfg s" "fo_ok (cf_crc cfg) fo" "epochs_le (mb_failover (cl_member s i)) fo"
    and "ph = mb_phase (cl_member s i) \<or> (\<forall>cd. ph \<noteq> Soliciting cd)"
  shows "cluster_inv cfg (put_member i ((cl_member s i)\<lparr>mb_failover := fo, mb_phase := ph\<rparr>) s)"
  using assms inv_member[OF assms(1), of i]
  by (intro inv_put_member) (simp_all add: member_ok_def table_def)

lemma inv_put_failover_only:
  assumes "cluster_inv cfg s" "fo_ok (cf_crc cfg) fo" "epochs_le (mb_failover (cl_member s i)) fo"
  shows "cluster_inv cfg (put_member i ((cl_member s i)\<lparr>mb_failover := fo\<rparr>) s)"
  using inv_put_failover[OF assms, of "mb_phase (cl_member s i)"] by simp

section \<open>The stream invariant\<close>

lemma streams_okI:
  assumes "\<And>i. distinct (map fst (tab i))" "\<And>i. waits_ok n sy (qu i)"
    and "\<And>i rid w. (rid, w) \<in> set (tab i) \<Longrightarrow> \<exists>c \<in> set cs. serves i rid c \<and> unat w \<le> sy (cn_follower c)"
    and "\<And>c l. c \<in> set cs \<Longrightarrow> l \<in> set (cn_acks c) \<Longrightarrow> unat l \<le> sy (cn_follower c)"
  shows "streams_ok n cs tab qu sy"
  using assms unfolding streams_ok_def by blast

lemma streams_okD:
  assumes "streams_ok n cs tab qu sy"
  shows "distinct (map fst (tab i))" "waits_ok n sy (qu i)"
    and "(rid, w) \<in> set (tab i) \<Longrightarrow> \<exists>c \<in> set cs. serves i rid c \<and> unat w \<le> sy (cn_follower c)"
    and "c \<in> set cs \<Longrightarrow> l \<in> set (cn_acks c) \<Longrightarrow> unat l \<le> sy (cn_follower c)"
  using assms unfolding streams_ok_def by blast+

lemma set_delete: "set (AList.delete rid xs) = {(k, v). (k, v) \<in> set xs \<and> k \<noteq> rid}"
  by (auto simp: AList.delete_eq)

lemma set_update_distinct:
  assumes "distinct (map fst xs)" "(k, v) \<in> set (AList.update rid w xs)"
  shows "(k = rid \<and> v = w) \<or> (k \<noteq> rid \<and> (k, v) \<in> set xs)"
proof -
  have "map_of (AList.update rid w xs) k = Some v"
    using assms by (simp add: distinct_update)
  then show ?thesis using map_of_SomeD by (fastforce simp: update_conv' split: if_splits)
qed

lemma in_set_list_update: "x \<in> set xs \<Longrightarrow> x \<noteq> xs ! k \<Longrightarrow> x \<in> set (xs[k := y])"
  by (metis in_set_conv_nth length_list_update nth_list_update_neq)

text \<open>
  Replacing a connection: the entries it does not serve are served as before, and its
  acknowledgements in flight are checked anew.
\<close>

lemma streams_ok_put:
  assumes ok: "streams_ok n cs tab qu sy" and k: "k < length cs"
    and acks: "\<And>l. l \<in> set (cn_acks c') \<Longrightarrow> unat l \<le> sy (cn_follower c')"
    and tab': "\<And>i. distinct (map fst (tab' i))"
    and old: "\<And>i rid w. (rid, w) \<in> set (tab' i) \<Longrightarrow>
      (rid, w) \<in> set (tab i) \<and> (serves i rid (cs ! k) \<longrightarrow> serves i rid c' \<and> cn_follower c' = cn_follower (cs ! k)) \<or>
      serves i rid c' \<and> unat w \<le> sy (cn_follower c')"
  shows "streams_ok n (cs[k := c']) tab' qu sy"
proof (rule streams_okI)
  have c': "c' \<in> set (cs[k := c'])" using k by (rule set_update_memI)
  fix i rid w assume "(rid, w) \<in> set (tab' i)"
  from old[OF this] show "\<exists>c \<in> set (cs[k := c']). serves i rid c \<and> unat w \<le> sy (cn_follower c)"
  proof
    assume o: "(rid, w) \<in> set (tab i) \<and>
      (serves i rid (cs ! k) \<longrightarrow> serves i rid c' \<and> cn_follower c' = cn_follower (cs ! k))"
    then obtain c where c: "c \<in> set cs" "serves i rid c" "unat w \<le> sy (cn_follower c)"
      using streams_okD(3)[OF ok] by blast
    show ?thesis
    proof (cases "c = cs ! k")
      case True
      then show ?thesis using o c c' by (intro bexI[of _ c']) simp_all
    next
      case False
      then show ?thesis using c in_set_list_update[OF c(1)] by (intro bexI[of _ c]) simp_all
    qed
  next
    assume "serves i rid c' \<and> unat w \<le> sy (cn_follower c')"
    then show ?thesis using c' by (intro bexI[of _ c'])
  qed
next
  fix c l assume c: "c \<in> set (cs[k := c'])" "l \<in> set (cn_acks c)"
  then consider "c = c'" | "c \<in> set cs" using set_update_subset_insert by fastforce
  then show "unat l \<le> sy (cn_follower c)"
    using c(2) acks streams_okD(4)[OF ok] by cases auto
qed (use tab' streams_okD(2)[OF ok] in simp_all)

lemma streams_ok_add:
  assumes ok: "streams_ok n cs tab qu sy" and "cn_acks c = []"
  shows "streams_ok n (cs @ [c]) tab qu sy"
proof (rule streams_okI)
  fix i rid w assume "(rid, w) \<in> set (tab i)"
  then show "\<exists>c \<in> set (cs @ [c]). serves i rid c \<and> unat w \<le> sy (cn_follower c)"
    using streams_okD(3)[OF ok] by (fastforce simp del: ex_simps)
qed (use assms streams_okD(1,2,4)[OF ok] in auto)

text \<open>A connection changed in what it carries, not in whom it connects or how it is registered.\<close>

lemma streams_ok_carry:
  assumes ok: "streams_ok n cs tab qu sy" and k: "k < length cs"
    and c': "cn_follower c' = cn_follower (cs ! k)" "\<And>i rid. serves i rid c' = serves i rid (cs ! k)"
    and acks: "\<And>l. l \<in> set (cn_acks c') \<Longrightarrow> unat l \<le> sy (cn_follower c')"
  shows "streams_ok n (cs[k := c']) tab qu sy"
  using c' acks streams_okD(1)[OF ok] by (intro streams_ok_put[OF ok k]) auto

section \<open>Stream steps keep the invariant\<close>

lemma unat_word_of_nat_u64: "n < 2 ^ 64 \<Longrightarrow> unat (word_of_nat n :: u64) = n"
  by (simp add: unat_of_nat)

lemma unat_last_lsn: "member_ok cfg m \<Longrightarrow> unat (last_lsn m) = length (mb_log m)"
  by (simp add: last_lsn_def member_ok_def unat_word_of_nat_u64)

lemma inv_conns_ok:
  "cluster_inv cfg s \<Longrightarrow> streams_ok (cf_min_acks cfg) (cl_conns s) (table s) (quorate s) (synced s)"
  by (simp add: cluster_inv_def)

text \<open>Replacing the registration table of a primary together with a connection to it.\<close>

lemma inv_put_table:
  assumes inv: "cluster_inv cfg s" and k: "k < length (cl_conns s)"
    and rp: "rp_min_acks rp = rp_min_acks (mb_replication (cl_member s i))" "distinct (map fst (rp_replicas rp))"
    and acks: "set (cn_acks c') \<subseteq> set (cn_acks (cl_conns s ! k))" "cn_follower c' = cn_follower (cl_conns s ! k)"
    and old: "\<And>rid w. (rid, w) \<in> set (rp_replicas rp) \<Longrightarrow>
      (rid, w) \<in> set (table s i) \<and> (serves i rid (cl_conns s ! k) \<longrightarrow> serves i rid c') \<or>
      serves i rid c' \<and> unat w \<le> synced s (cn_follower c')"
    and others: "\<And>j rid. j \<noteq> i \<Longrightarrow> serves j rid (cl_conns s ! k) \<Longrightarrow> serves j rid c'"
  shows "cluster_inv cfg (put_conn k c' (put_member i ((cl_member s i)\<lparr>mb_replication := rp\<rparr>) s))"
    (is "cluster_inv cfg ?s")
proof (rule inv_streams[OF inv])
  note ok = inv_conns_ok[OF inv]
  show "quiet s ?s" by (simp add: quiet_def proj_defs)
  show "members_ok cfg ?s" using inv_member[OF inv] rp(1) by (simp add: members_ok_def member_ok_def)
  have t: "table ?s = (table s)(i := rp_replicas rp)" "quorate ?s = quorate s" "synced ?s = synced s"
    by (auto simp: proj_defs fun_eq_iff)
  show "streams_ok (cf_min_acks cfg) (cl_conns ?s) (table ?s) (quorate ?s) (synced ?s)"
    unfolding t put_conn_simps put_member_simps
  proof (rule streams_ok_put[OF ok k])
    show "unat l \<le> synced s (cn_follower c')" if "l \<in> set (cn_acks c')" for l
      using that acks streams_okD(4)[OF ok nth_mem[OF k], of l] by auto
    show "distinct (map fst (((table s)(i := rp_replicas rp)) j))" for j
      using rp(2) streams_okD(1)[OF ok, of j] by simp
    show "(rid, w) \<in> set (table s j) \<and> (serves j rid (cl_conns s ! k) \<longrightarrow>
        serves j rid c' \<and> cn_follower c' = cn_follower (cl_conns s ! k)) \<or>
        serves j rid c' \<and> unat w \<le> synced s (cn_follower c')"
      if "(rid, w) \<in> set (((table s)(i := rp_replicas rp)) j)" for j rid w
      using that old[of rid w] others[of j rid] acks(2) by (cases "j = i") auto
  qed
qed

lemma inv_attach:
  assumes inv: "cluster_inv cfg s"
  shows "cluster_inv cfg (attach_stream k s)"
proof (cases "k < length (cl_conns s) \<and> cn_sending (cl_conns s ! k) \<and> cn_replica (cl_conns s ! k) = None")
  case True
  let ?c = "cl_conns s ! k"
  obtain rp rid where r: "register (mb_replication (cl_member s (cn_primary ?c))) = (rp, rid)" by fastforce
  have d: "distinct (map fst (table s (cn_primary ?c)))" using streams_okD(1)[OF inv_conns_ok[OF inv]] .
  have rp: "rp_replicas rp = AList.update rid 0 (table s (cn_primary ?c))"
      "rp_min_acks rp = rp_min_acks (mb_replication (cl_member s (cn_primary ?c)))"
    using r by (auto simp: register_def table_def Let_def)
  have "cluster_inv cfg (put_conn k (?c\<lparr>cn_replica := Some rid\<rparr>)
      (put_member (cn_primary ?c) ((cl_member s (cn_primary ?c))\<lparr>mb_replication := rp\<rparr>) s))"
  proof (rule inv_put_table[OF inv])
    fix rid' w assume "(rid', w) \<in> set (rp_replicas rp)"
    with set_update_distinct[OF d] rp(1)
    have "rid' = rid \<and> w = 0 \<or> (rid', w) \<in> set (table s (cn_primary ?c))" by metis
    then show "(rid', w) \<in> set (table s (cn_primary ?c)) \<and>
        (serves (cn_primary ?c) rid' ?c \<longrightarrow> serves (cn_primary ?c) rid' (?c\<lparr>cn_replica := Some rid\<rparr>)) \<or>
        serves (cn_primary ?c) rid' (?c\<lparr>cn_replica := Some rid\<rparr>) \<and>
        unat w \<le> synced s (cn_follower (?c\<lparr>cn_replica := Some rid\<rparr>))"
      using True by (auto simp: serves_def)
  qed (use True rp d in \<open>auto simp: serves_def distinct_update\<close>)
  then show ?thesis using True r by (simp add: attach_stream_def Let_def)
next
  case False
  then show ?thesis using inv by (auto simp: attach_stream_def Let_def)
qed

lemma inv_carry:
  assumes inv: "cluster_inv cfg s"
    and c': "cn_follower c' = cn_follower (cl_conns s ! k)" "\<And>i rid. serves i rid c' = serves i rid (cl_conns s ! k)"
    and acks: "\<And>l. k < length (cl_conns s) \<Longrightarrow> l \<in> set (cn_acks c') \<Longrightarrow> unat l \<le> synced s (cn_follower c')"
  shows "cluster_inv cfg (put_conn k c' s)"
proof (cases "k < length (cl_conns s)")
  case True
  have "quiet s (put_conn k c' s)" "members_ok cfg (put_conn k c' s)"
    using inv by (simp_all add: quiet_def proj_defs cluster_inv_def members_ok_def)
  moreover have "table (put_conn k c' s) = table s" "quorate (put_conn k c' s) = quorate s"
      "synced (put_conn k c' s) = synced s"
    by (simp_all add: proj_defs fun_eq_iff)
  ultimately show ?thesis
    using streams_ok_carry[OF inv_conns_ok[OF inv] True c'] acks True
    by (intro inv_streams[OF inv]) simp_all
next
  case False
  then have "put_conn k c' s = s" by (cases s) (simp add: put_conn_def list_update_beyond)
  then show ?thesis using inv by simp
qed

lemma inv_acks:
  assumes "cluster_inv cfg s" "k < length (cl_conns s)" "l \<in> set (cn_acks (cl_conns s ! k))"
  shows "unat l \<le> synced s (cn_follower (cl_conns s ! k))"
  using streams_okD(4)[OF inv_conns_ok[OF assms(1)] nth_mem[OF assms(2)] assms(3)] .

lemma inv_end_sending:
  assumes inv: "cluster_inv cfg s"
  shows "cluster_inv cfg (end_sending k s)"
proof (cases "k < length (cl_conns s) \<and> cn_sending (cl_conns s ! k)")
  case True
  let ?c = "cl_conns s ! k"
  let ?p = "cl_member s (cn_primary ?c)"
  have swap: "put_member i m (put_conn k c s) = put_conn k c (put_member i m s)" for i m c
    by (simp add: put_member_def put_conn_def)
  show ?thesis
  proof (cases "cn_replica ?c")
    case None
    then have "cluster_inv cfg (put_conn k (?c\<lparr>cn_sending := False\<rparr>) s)"
      using inv_acks[OF inv] by (intro inv_carry[OF inv]) (auto simp: serves_def)
    then show ?thesis using True None by (simp add: end_sending_def Let_def)
  next
    case (Some rid)
    have d: "distinct (map fst (table s (cn_primary ?c)))" using streams_okD(1)[OF inv_conns_ok[OF inv]] .
    have rp: "rp_replicas (deregister rid (mb_replication ?p)) = AList.delete rid (table s (cn_primary ?c))"
      "rp_min_acks (deregister rid (mb_replication ?p)) = rp_min_acks (mb_replication ?p)"
      by (simp_all add: deregister_def table_def)
    have "cluster_inv cfg (put_conn k (?c\<lparr>cn_sending := False\<rparr>)
        (put_member (cn_primary ?c) (?p\<lparr>mb_replication := deregister rid (mb_replication ?p)\<rparr>) s))"
      using True Some rp d
      by (intro inv_put_table[OF inv]) (auto simp: serves_def set_delete distinct_delete)
    then show ?thesis using True Some by (simp add: end_sending_def Let_def swap)
  qed
next
  case False
  then show ?thesis using inv by (auto simp: end_sending_def Let_def)
qed

lemma inv_end_receiving: "cluster_inv cfg s \<Longrightarrow> cluster_inv cfg (end_receiving k s)"
  using inv_acks[of cfg s k] by (auto simp: end_receiving_def serves_def intro!: inv_carry)

lemma inv_send_record: "cluster_inv cfg s \<Longrightarrow> cluster_inv cfg (send_record k lsn s)"
  using inv_acks[of cfg s k] by (auto simp: send_record_def serves_def Let_def intro!: inv_carry)

lemma inv_heartbeat: "cluster_inv cfg s \<Longrightarrow> cluster_inv cfg (heartbeat k s)"
  using inv_acks[of cfg s k] inv_end_sending[of cfg s k]
  by (auto simp: heartbeat_def serves_def Let_def intro!: inv_carry)

lemma inv_deliver_ack:
  assumes inv: "cluster_inv cfg s"
  shows "cluster_inv cfg (deliver_ack k s)"
proof -
  let ?c = "cl_conns s ! k"
  let ?i = "cn_primary ?c" and ?p = "cl_member s (cn_primary ?c)"
  have "cluster_inv cfg (put_conn k (?c\<lparr>cn_acks := acks\<rparr>)
      (put_member ?i (?p\<lparr>mb_replication := acknowledge rid lsn (mb_replication ?p)\<rparr>) s))"
    if k: "k < length (cl_conns s)" "cn_sending ?c" and r: "cn_replica ?c = Some rid"
      and l: "cn_acks ?c = lsn # acks" for rid lsn acks
  proof (rule inv_put_table[OF inv k(1)])
    have d: "distinct (map fst (table s ?i))" using streams_okD(1)[OF inv_conns_ok[OF inv]] .
    have held: "unat lsn \<le> synced s (cn_follower ?c)" using inv_acks[OF inv k(1)] l by simp
    let ?rp = "acknowledge rid lsn (mb_replication ?p)"
    show "rp_min_acks ?rp = rp_min_acks (mb_replication ?p)"
      by (simp add: acknowledge_def split: option.split)
    show "distinct (map fst (rp_replicas ?rp))"
      using d by (simp add: acknowledge_def table_def distinct_update split: option.split)
    fix rid' w assume e: "(rid', w) \<in> set (rp_replicas ?rp)"
    show "(rid', w) \<in> set (table s ?i) \<and> (serves ?i rid' ?c \<longrightarrow> serves ?i rid' (?c\<lparr>cn_acks := acks\<rparr>)) \<or>
        serves ?i rid' (?c\<lparr>cn_acks := acks\<rparr>) \<and> unat w \<le> synced s (cn_follower (?c\<lparr>cn_acks := acks\<rparr>))"
    proof (cases "(rid', w) \<in> set (table s ?i)")
      case True
      then show ?thesis by (simp add: serves_def)
    next
      case False
      then obtain h where h: "map_of (table s ?i) rid = Some h" "rp_replicas ?rp = AList.update rid (max h lsn) (table s ?i)"
        using e by (auto simp: acknowledge_def table_def split: option.splits)
      then have "rid' = rid" "w = max h lsn" using e False set_update_distinct[OF d] by metis+
      moreover have "max h lsn \<noteq> h" using calculation False map_of_SomeD[OF h(1)] by auto
      ultimately show ?thesis using k r held by (auto simp: serves_def max_def split: if_splits)
    qed
  qed (use l in \<open>auto simp: serves_def\<close>)
  then show ?thesis using inv by (simp add: deliver_ack_def Let_def split: option.split list.split)
qed

lemma append_record_same [simp]:
  "mb_failover (append_record r m) = mb_failover m" "mb_synced (append_record r m) = mb_synced m"
  "mb_quorate (append_record r m) = mb_quorate m" "mb_phase (append_record r m) = mb_phase m"
  "mb_replication (append_record r m) = mb_replication m"
  "mb_credentials (append_record r m) = mb_credentials m"
  by (simp_all add: append_record_def)

lemma append_record_length: "length (mb_log m) \<le> length (mb_log (append_record r m))"
  by (simp add: append_record_def)

lemma append_record_ok: "member_ok cfg m \<Longrightarrow> member_ok cfg (append_record r m)"
  by (auto simp: member_ok_def append_record_def)

lemma sync_log_ok: "member_ok cfg m \<Longrightarrow> member_ok cfg (sync_log m)"
  by (simp add: member_ok_def sync_log_def)

lemma sync_log_same [simp]:
  "mb_failover (sync_log m) = mb_failover m" "mb_synced (sync_log m) = length (mb_log m)"
  "mb_log (sync_log m) = mb_log m" "mb_quorate (sync_log m) = mb_quorate m"
  "mb_phase (sync_log m) = mb_phase m" "mb_replication (sync_log m) = mb_replication m"
  by (simp_all add: sync_log_def)

lemma fold_append_same [simp]:
  "mb_failover (fold append_record rs m) = mb_failover m" "mb_synced (fold append_record rs m) = mb_synced m"
  "mb_quorate (fold append_record rs m) = mb_quorate m" "mb_phase (fold append_record rs m) = mb_phase m"
  "mb_replication (fold append_record rs m) = mb_replication m"
  by (induction rs arbitrary: m) simp_all

lemma fold_append_ok: "member_ok cfg m \<Longrightarrow> member_ok cfg (fold append_record rs m)"
  by (induction rs arbitrary: m) (simp_all add: append_record_ok)

lemma fold_append_length: "length (mb_log m) \<le> length (mb_log (fold append_record rs m))"
  by (induction rs arbitrary: m) (auto intro: le_trans append_record_length)

text \<open>Replacing a member by one that differs in a longer log, flushed or not.\<close>

lemma inv_put_log:
  assumes "cluster_inv cfg s" "member_ok cfg m'" "epochs_le (mb_failover (cl_member s i)) (mb_failover m')"
    "mb_synced (cl_member s i) \<le> mb_synced m'" "mb_quorate m' = mb_quorate (cl_member s i)"
    "mb_replication m' = mb_replication (cl_member s i)" "mb_phase m' = mb_phase (cl_member s i)"
  shows "cluster_inv cfg (put_member i m' s)"
  using assms by (intro inv_put_member) (simp_all add: table_def)

lemma epochs_le_heard [simp]: "epochs_le fo (heard_primary now fo)"
  by (simp add: epochs_le_def)

lemma inv_flush: "cluster_inv cfg s \<Longrightarrow> cluster_inv cfg (put_member i (sync_log (cl_member s i)) s)"
  using inv_member[of cfg s i]
  by (intro inv_put_log sync_log_ok) (simp_all add: member_ok_def)

lemma inv_write: "cluster_inv cfg s \<Longrightarrow> cluster_inv cfg (client_write i r s)"
  using inv_member[of cfg s i]
  by (auto simp: client_write_def Let_def intro!: inv_put_log append_record_ok)

lemma inv_receive_record:
  assumes inv: "cluster_inv cfg s" and c: "cn_frames (cl_conns s ! k) = RecordFrame lsn r # frames"
    and r: "k < length (cl_conns s)" "cn_receiving (cl_conns s ! k)"
  shows "cluster_inv cfg (receive_frame cfg io now k s)"
proof -
  let ?c = "cl_conns s ! k"
  let ?j = "cn_follower ?c"
  let ?m = "(cl_member s ?j)\<lparr>mb_failover := heard_primary now (mb_failover (cl_member s ?j))\<rparr>"
  let ?m' = "sync_log (append_record r ?m)"
  have m: "member_ok cfg ?m" using inv_member[OF inv, of ?j] by (simp add: member_ok_def)
  then have m': "member_ok cfg ?m'" by (intro sync_log_ok append_record_ok)
  have le: "mb_synced (cl_member s ?j) \<le> length (mb_log (append_record r ?m))"
    using append_record_length[of ?m r] inv_member[OF inv, of ?j] by (simp add: member_ok_def)
  have i1: "cluster_inv cfg (put_member ?j ?m s)"
    using m by (intro inv_put_log[OF inv]) simp_all
  have i2: "cluster_inv cfg (put_member ?j ?m' s)"
    using m' le by (intro inv_put_log[OF inv]) simp_all
  have carry: "cluster_inv cfg (put_conn k c' (put_member ?j ?m s))"
    if "c' \<in> {?c\<lparr>cn_frames := frames\<rparr>, ?c\<lparr>cn_frames := frames, cn_receiving := False\<rparr>}" for c'
    using that inv_acks[OF i1, of k] by (intro inv_carry[OF i1]) (auto simp: serves_def)
  have "cluster_inv cfg (put_conn k (?c\<lparr>cn_frames := frames, cn_acks := cn_acks ?c @ [last_lsn ?m']\<rparr>)
      (put_member ?j ?m' s))"
    using inv_acks[OF i2, of k] unat_last_lsn[OF m']
    by (intro inv_carry[OF i2]) (auto simp: serves_def synced_def)
  then show ?thesis using c r carry by (simp add: receive_frame_def Let_def)
qed

lemma inv_receive_frame:
  assumes inv: "cluster_inv cfg s"
  shows "cluster_inv cfg (receive_frame cfg io now k s)"
proof (cases "k < length (cl_conns s) \<and> cn_receiving (cl_conns s ! k)")
  case True
  let ?c = "cl_conns s ! k"
  let ?j = "cn_follower ?c"
  show ?thesis
  proof (cases "cn_frames ?c")
    case Nil
    then show ?thesis using inv by (simp add: receive_frame_def Let_def)
  next
    case (Cons f frames)
    show ?thesis
    proof (cases f)
      case (PrimaryEpochFrame epoch)
      obtain fo go where g: "receive_primary_epoch (cf_crc cfg) io now epoch (mb_failover (cl_member s ?j)) = (fo, go)"
        by fastforce
      let ?s = "put_member ?j ((cl_member s ?j)\<lparr>mb_failover := fo\<rparr>) s"
      have i: "cluster_inv cfg ?s"
        using receive_primary_epoch_ok(1,2)[OF inv_fo[OF inv] g] by (intro inv_put_failover_only[OF inv])
      have "cluster_inv cfg (put_conn k (?c\<lparr>cn_frames := frames, cn_receiving := go\<rparr>) ?s)"
        using inv_acks[OF i, of k] by (intro inv_carry[OF i]) (auto simp: serves_def)
      moreover have "cluster_inv cfg (put_conn k (?c\<lparr>cn_frames := frames\<rparr>) s)"
        using inv_acks[OF inv, of k] by (intro inv_carry[OF inv]) (auto simp: serves_def)
      ultimately show ?thesis
        using True Cons PrimaryEpochFrame g by (simp add: receive_frame_def Let_def)
    next
      case (RecordFrame lsn r)
      then show ?thesis using True Cons inv_receive_record[OF inv] by simp
    qed
  qed
next
  case False
  then show ?thesis using inv by (auto simp: receive_frame_def Let_def)
qed

lemma inv_connect:
  assumes inv: "cluster_inv cfg s" and "cn_acks c = []"
  shows "cluster_inv cfg (s\<lparr>cl_conns := cl_conns s @ [c]\<rparr>)" (is "cluster_inv cfg ?s")
proof (rule inv_streams[OF inv])
  have p: "table ?s = table s" "quorate ?s = quorate s" "synced ?s = synced s"
    by (simp_all add: proj_defs fun_eq_iff)
  show "quiet s ?s" by (simp add: quiet_def proj_defs)
  show "members_ok cfg ?s" using inv by (simp add: cluster_inv_def members_ok_def)
  show "streams_ok (cf_min_acks cfg) (cl_conns ?s) (table ?s) (quorate ?s) (synced ?s)"
    unfolding p using streams_ok_add[OF inv_conns_ok[OF inv] assms(2)] by simp
qed

lemma inv_join:
  assumes inv: "cluster_inv cfg s"
  shows "cluster_inv cfg (join_stream j i oldest archived s)"
proof -
  let ?m = "cl_member s j" and ?m' = "sync_log (fold append_record archived (cl_member s j))"
  have "mb_synced ?m \<le> mb_synced ?m'"
    using inv_member[OF inv, of j] fold_append_length[of ?m archived] by (simp add: member_ok_def)
  moreover have "member_ok cfg ?m'" using inv_member[OF inv] by (intro sync_log_ok fold_append_ok)
  ultimately have "cluster_inv cfg (put_member j ?m' s)"
    by (intro inv_put_log[OF inv]) simp_all
  from inv_connect[OF this] inv_connect[OF inv] inv show ?thesis
    by (simp add: join_stream_def Let_def split: join_decision.split)
qed

section \<open>Restarts\<close>

lemma member_start_simps [simp]:
  "mb_synced (member_start cfg i disk es p now log) = length log"
  "mb_log (member_start cfg i disk es p now log) = log"
  "mb_phase (member_start cfg i disk es p now log) = Idle"
  "mb_quorate (member_start cfg i disk es p now log) = []"
  "rp_replicas (mb_replication (member_start cfg i disk es p now log)) = []"
  "rp_min_acks (mb_replication (member_start cfg i disk es p now log)) = cf_min_acks cfg"
  "fo_epochs (mb_failover (member_start cfg i disk es p now log)) = es"
  by (simp_all add: member_start_def replication_new_def failover_new_def)

lemma member_start_ok:
  assumes "epoch_open (cf_crc cfg) disk = Inr es" "es_voted es \<le> es_current es" "length log < 2 ^ 64"
  shows "member_ok cfg (member_start cfg i disk es p now log)"
  using assms failover_new_ok[OF assms(1,2)] by (simp add: member_ok_def member_start_def replication_new_def)

lemma cut_ends_simps [simp]:
  "cn_follower (cut_ends i c) = cn_follower c" "cn_acks (cut_ends i c) = cn_acks c"
  "serves j rid (cut_ends i c) \<longleftrightarrow> j \<noteq> i \<and> serves j rid c"
  by (auto simp: cut_ends_def serves_def)

lemma streams_ok_restart:
  assumes ok: "streams_ok n cs tab qu sy"
  shows "streams_ok n (map (cut_ends i) cs) (tab(i := [])) (qu(i := [])) sy"
proof (rule streams_okI)
  fix j rid w assume "(rid, w) \<in> set ((tab(i := [])) j)"
  then have j: "j \<noteq> i" "(rid, w) \<in> set (tab j)" by (auto split: if_splits)
  from streams_okD(3)[OF ok j(2)] obtain c where
    c: "c \<in> set cs" "serves j rid c" "unat w \<le> sy (cn_follower c)" by blast
  then show "\<exists>c \<in> set (map (cut_ends i) cs). serves j rid c \<and> unat w \<le> sy (cn_follower c)"
    using j(1) by (intro bexI[of _ "cut_ends i c"]) auto
qed (use streams_okD(1,2,4)[OF ok] in \<open>auto simp: waits_ok_def\<close>)

lemma inv_restart:
  assumes inv: "cluster_inv cfg s"
  shows "cluster_inv cfg (restart cfg now i kept p s)"
proof -
  let ?m = "cl_member s i"
  obtain es where es: "epoch_open (cf_crc cfg) (fo_disk (mb_failover ?m)) = Inr es"
      "es_voted (fo_epochs (mb_failover ?m)) \<le> es_voted es" "es_voted es \<le> es_current es"
    using inv_fo[OF inv, of i] by (auto simp: fo_ok_def epochs_ok_def split: sum.splits)
  define log where "log = take (max kept (mb_synced ?m)) (mb_log ?m)"
  define s2 where "s2 = put_member i (member_start cfg i (fo_disk (mb_failover ?m)) es p now log)
      (s\<lparr>cl_conns := map (cut_ends i) (cl_conns s)\<rparr>)"
  have log: "mb_synced ?m \<le> length log" "length log < 2 ^ 64"
    using inv_member[OF inv, of i] by (auto simp: log_def member_ok_def)
  have r: "restart cfg now i kept p s = s2"
    by (simp add: restart_def es Let_def s2_def log_def)
  have t: "table s2 = (table s)(i := [])" "quorate s2 = (quorate s)(i := [])"
    "cl_conns s2 = map (cut_ends i) (cl_conns s)" "\<And>j. synced s j \<le> synced s2 j"
    using log by (auto simp: s2_def proj_defs fun_eq_iff)
  have "streams_ok (cf_min_acks cfg) (cl_conns s2) (table s2) (quorate s2) (synced s2)"
    using streams_ok_mono[OF streams_ok_restart[OF inv_conns_ok[OF inv], of i] t(4)] by (simp add: t)
  moreover have "quiet s s2"
    using log(1) es(2) by (auto simp: quiet_def proj_defs s2_def)
  moreover have "members_ok cfg s2"
    using inv_member[OF inv] member_start_ok[OF es(1,3) log(2)] by (simp add: members_ok_def s2_def)
  ultimately show ?thesis unfolding r using inv_streams[OF inv] by blast
qed

section \<open>Acknowledgements\<close>

text \<open>
  When the quorum watermark reaches an LSN and the registrations that stand there are of
  different replicas, enough replicas hold it: each entry of the table is served by a
  connection of its own.
\<close>

lemma counted_hold:
  assumes inv: "cluster_inv cfg s" and l: "0 < lsn" "lsn < 2 ^ 64"
    and q: "enabled (mb_replication (cl_member s i))"
      "word_of_nat lsn \<le> quorum_lsn (mb_replication (cl_member s i))"
    and d: "distinct (counted_replicas i lsn s)"
  shows "cf_min_acks cfg \<le> card {j \<in> set (counted_replicas i lsn s). lsn \<le> synced s j}" (is "_ \<le> card ?H")
proof -
  let ?r = "mb_replication (cl_member s i)"
  let ?es = "filter (\<lambda>(rid, durable). word_of_nat lsn \<le> durable) (table s i)"
  define cs where "cs = filter (\<lambda>c. cn_primary c = i \<and> cn_sending c \<and>
      (case cn_replica c of None \<Rightarrow> False | Some rid \<Rightarrow>
        (case map_of (table s i) rid of None \<Rightarrow> False | Some held \<Rightarrow> word_of_nat lsn \<le> held))) (cl_conns s)"
  have cr: "counted_replicas i lsn s = map cn_follower cs"
    unfolding counted_replicas_def cs_def table_def ..
  have un: "unat (word_of_nat lsn :: u64) = lsn" using l(2) by (rule unat_word_of_nat_u64)
  then have "(0 :: u64) < word_of_nat lsn" using l(1) by (simp add: word_less_nat_alt)
  then have "rp_min_acks ?r \<le> acked_at_least ?r (word_of_nat lsn)"
    using q quorum_lsn_iff[of ?r "word_of_nat lsn"] by (simp add: enabled_def)
  then have n: "cf_min_acks cfg \<le> length ?es"
    using inv_member[OF inv, of i] by (simp add: acked_at_least_def table_def member_ok_def)
  note str = inv_conns_ok[OF inv]
  define R where "R = set (map fst ?es)"
  have "\<forall>rid \<in> R. \<exists>c. c \<in> set cs \<and> cn_replica c = Some rid \<and> lsn \<le> synced s (cn_follower c)"
  proof
    fix rid assume "rid \<in> R"
    then obtain w where w: "(rid, w) \<in> set (table s i)" "word_of_nat lsn \<le> w" by (auto simp: R_def)
    then have m: "map_of (table s i) rid = Some w" using streams_okD(1)[OF str, of i] by simp
    have "lsn \<le> unat w" using w(2) un by (simp add: word_le_nat_alt)
    moreover obtain c where c: "c \<in> set (cl_conns s)" "serves i rid c" "unat w \<le> synced s (cn_follower c)"
      using streams_okD(3)[OF str w(1)] by blast
    ultimately have "c \<in> set cs \<and> cn_replica c = Some rid \<and> lsn \<le> synced s (cn_follower c)"
      using m w(2) by (simp add: cs_def serves_def)
    then show "\<exists>c. c \<in> set cs \<and> cn_replica c = Some rid \<and> lsn \<le> synced s (cn_follower c)" ..
  qed
  from bchoice[OF this] obtain f where
    f: "\<And>rid. rid \<in> R \<Longrightarrow> f rid \<in> set cs \<and> cn_replica (f rid) = Some rid \<and> lsn \<le> synced s (cn_follower (f rid))"
    by blast
  have "inj_on cn_follower (set cs)" using d by (simp add: cr distinct_map)
  then have "inj_on (cn_follower \<circ> f) R"
    using f by (intro inj_onI) (metis comp_apply inj_onD option.inject)
  then have "card R = card ((cn_follower \<circ> f) ` R)" by (rule card_image[symmetric])
  also have "\<dots> \<le> card ?H"
    using f by (intro card_mono) (auto simp: cr)
  finally have "card R \<le> card ?H" .
  moreover have "distinct (map fst ?es)" using streams_okD(1)[OF str, of i] by (rule distinct_map_filter)
  then have "card R = length ?es" unfolding R_def by (simp add: distinct_card del: set_map)
  ultimately show ?thesis using n by linarith
qed

lemma inv_quorum_returns:
  assumes inv: "cluster_inv cfg s"
  shows "cluster_inv cfg (quorum_returns i lsn s)"
proof (cases "0 < lsn \<and> lsn \<le> length (mb_log (cl_member s i)) \<and> enabled (mb_replication (cl_member s i)) \<and>
    word_of_nat lsn \<le> quorum_lsn (mb_replication (cl_member s i))")
  case True
  let ?m = "cl_member s i" and ?R = "counted_replicas i lsn s"
  let ?s = "put_member i (?m\<lparr>mb_quorate := (lsn, ?R) # mb_quorate ?m\<rparr>) s"
  have p: "table ?s = table s" "quorate ?s = (quorate s)(i := (lsn, ?R) # quorate s i)" "synced ?s = synced s"
    by (auto simp: proj_defs fun_eq_iff)
  have "lsn < 2 ^ 64" using True inv_member[OF inv, of i] by (simp add: member_ok_def)
  then have "waits_ok (cf_min_acks cfg) (synced s) ((lsn, ?R) # quorate s i)"
    using True counted_hold[OF inv] streams_okD(2)[OF inv_conns_ok[OF inv], of i]
    by (auto simp: waits_ok_def)
  then have "streams_ok (cf_min_acks cfg) (cl_conns ?s) (table ?s) (quorate ?s) (synced ?s)"
    unfolding p put_member_simps
    using streams_okD[OF inv_conns_ok[OF inv]] by (intro streams_okI) auto
  moreover have "quiet s ?s" by (simp add: quiet_def proj_defs)
  moreover have "members_ok cfg ?s" using inv_member[OF inv] by (simp add: members_ok_def member_ok_def)
  ultimately have "cluster_inv cfg ?s" using inv_streams[OF inv] by blast
  then show ?thesis using True by (simp add: quorum_returns_def Let_def)
next
  case False
  then have "quorum_returns i lsn s = s" by (auto simp: quorum_returns_def Let_def)
  then show ?thesis using inv by simp
qed

lemma inv_history:
  assumes "cluster_inv cfg s" "members_ok cfg s'" "table s' = table s" "quorate s' = quorate s" "synced s' = synced s"
    "cl_conns s' = cl_conns s" "history_ok cfg s'"
  shows "cluster_inv cfg s'"
  using assms by (simp add: cluster_inv_def)

text \<open>The primary itself holds what it answers for, and is not among the replicas counted.\<close>

lemma answered_holders:
  assumes inv: "cluster_inv cfg s" and i: "i \<in> set (names cfg)"
    and q: "map_of (mb_quorate (cl_member s i)) lsn = Some R" "lsn \<le> mb_synced (cl_member s i)"
    and R: "distinct R" "set R \<subseteq> set (names cfg) - {i}"
  shows "cf_min_acks cfg < card (set (filter (\<lambda>j. lsn \<le> mb_synced (cl_member s j)) (names cfg)))"
proof -
  let ?J = "{j \<in> set R. lsn \<le> synced s j}"
  have "(lsn, R) \<in> set (quorate s i)" using map_of_SomeD[OF q(1)] by (simp add: quorate_def)
  then have "cf_min_acks cfg \<le> card ?J"
    using streams_okD(2)[OF inv_conns_ok[OF inv], of i] R(1) unfolding waits_ok_def by blast
  also have "\<dots> < card (insert i ?J)" using R(2) by (subst card_insert_disjoint) auto
  also have "\<dots> \<le> card (set (filter (\<lambda>j. lsn \<le> mb_synced (cl_member s j)) (names cfg)))"
    using R(2) i q(2) by (intro card_mono) (auto simp: synced_def)
  finally show ?thesis .
qed

lemma inv_answer:
  assumes inv: "cluster_inv cfg s" and i: "i \<in> set (names cfg)"
  shows "cluster_inv cfg (answer_write cfg i lsn s)"
proof (cases "map_of (mb_quorate (cl_member s i)) lsn \<noteq> None \<and> lsn \<le> mb_synced (cl_member s i)")
  case True
  then obtain R where R: "map_of (mb_quorate (cl_member s i)) lsn = Some R" "lsn \<le> mb_synced (cl_member s i)"
    by auto
  define a where "a = \<lparr>ak_lsn = lsn, ak_record = mb_log (cl_member s i) ! (lsn - 1), ak_primary = i,
      ak_replicas = R, ak_holders = filter (\<lambda>j. lsn \<le> mb_synced (cl_member s j)) (names cfg)\<rparr>"
  let ?s = "s\<lparr>cl_acked := a # cl_acked s\<rparr>"
  have s: "answer_write cfg i lsn s = ?s" using R by (simp add: answer_write_def a_def Let_def)
  have proj: "voted ?s = voted s" "synced ?s = synced s" "phase ?s = phase s" "table ?s = table s"
    "quorate ?s = quorate s" by (simp_all add: proj_defs fun_eq_iff)
  have hist: "history_ok cfg s" using inv by (simp add: cluster_inv_def)
  have "members_counted (names cfg) a \<longrightarrow> cf_min_acks cfg < card (set (ak_holders a))"
    using answered_holders[OF inv i R] by (simp add: members_counted_def a_def)
  moreover have "set (ak_holders a) \<subseteq> set (names cfg)" "\<forall>j \<in> set (ak_holders a). ak_lsn a \<le> synced s j"
    by (auto simp: a_def synced_def)
  ultimately have "acked_ok (names cfg) (cf_min_acks cfg) (synced s) (a # cl_acked s)"
    using hist by (simp add: acked_ok_def history_ok_def)
  moreover have "phase_ok (names cfg) (a # cl_acked s) (cl_votes s) c (phase s c)" for c
    by (rule phase_ok_mono[of _ "cl_acked s" "cl_votes s"]) (use hist in \<open>auto simp: history_ok_def\<close>)
  ultimately have "history_ok cfg ?s"
    using history_okD(2,3,4,6)[OF hist] by (intro history_okI) (simp_all add: proj subset_insertI2)
  then show ?thesis
    unfolding s using inv by (intro inv_history[OF inv]) (simp_all add: proj cluster_inv_def members_ok_def)
next
  case False
  then have "answer_write cfg i lsn s = s" by (auto simp: answer_write_def Let_def split: option.split)
  then show ?thesis using inv by simp
qed

section \<open>Votes\<close>

lemma votes_ok_Cons:
  assumes ok: "votes_ok vo votes" and new: "vo (vr_voter q) < vr_epoch q" "k \<le> unat (vr_lsn q)"
    and held: "\<And>a. a \<in> set (vr_acked q) \<Longrightarrow> vr_voter q \<in> set (ak_holders a) \<Longrightarrow> ak_lsn a \<le> k"
  shows "votes_ok (vo(vr_voter q := vr_epoch q)) ((q, k) # votes)"
proof -
  have old: "vr_epoch p \<le> vo (vr_voter p)" if "(p, n) \<in> set votes" for p n
    using ok that by (auto simp: votes_ok_def)
  have fresh: "vr_epoch p \<noteq> vr_epoch q" if "(p, n) \<in> set votes" "vr_voter p = vr_voter q" for p n
    using old[OF that(1)] that(2) new(1) by auto
  define vo' where "vo' = vo(vr_voter q := vr_epoch q)"
  have "vo j \<le> vo' j" for j using new(1) by (simp add: vo'_def less_imp_le)
  from votes_ok_mono[OF ok this] have ok': "votes_ok vo' votes" .
  have A: "vr_epoch p \<le> vo' (vr_voter p) \<and> n \<le> unat (vr_lsn p) \<and>
      (\<forall>a \<in> set (vr_acked p). vr_voter p \<in> set (ak_holders a) \<longrightarrow> ak_lsn a \<le> n)"
    if "(p, n) \<in> set ((q, k) # votes)" for p n
  proof (cases "(p, n) = (q, k)")
    case True
    then show ?thesis using new(2) held by (simp add: vo'_def)
  next
    case False
    then have "(p, n) \<in> set votes" using that by auto
    then show ?thesis using ok' unfolding votes_ok_def by blast
  qed
  have B: "vr_candidate p = vr_candidate p'"
    if pp: "(p, n) \<in> set ((q, k) # votes)" "(p', n') \<in> set ((q, k) # votes)"
      and eq: "vr_voter p = vr_voter p'" "vr_epoch p = vr_epoch p'" for p n p' n'
  proof -
    consider "p = q" "p' = q" | "p = q" "(p', n') \<in> set votes" | "(p, n) \<in> set votes" "p' = q"
      | "(p, n) \<in> set votes" "(p', n') \<in> set votes" using pp by auto
    then show ?thesis
    proof cases
      case 4
      then show ?thesis using eq ok unfolding votes_ok_def by blast
    qed (use fresh eq in auto)
  qed
  show ?thesis unfolding vo'_def[symmetric] votes_ok_def using A B by blast
qed

text \<open>Recording a vote of \<open>v\<close> in the history, whatever happens to messages and phases.\<close>

lemma history_ok_vote:
  assumes hist: "history_ok cfg s"
    and q: "voted s (vr_voter q) < vr_epoch q" "k \<le> unat (vr_lsn q)" "set (vr_acked q) \<subseteq> set (cl_acked s)"
    and held: "synced s (vr_voter q) \<le> k"
    and s': "cl_votes s' = (q, k) # cl_votes s" "cl_acked s' = cl_acked s" "cl_elected s' = cl_elected s"
      "voted s' = (voted s)(vr_voter q := vr_epoch q)" "synced s' = synced s"
    and msgs: "set (cl_requests s') \<subseteq> set (cl_requests s)"
      "\<And>p g e. (p, g, e) \<in> set (cl_replies s') \<Longrightarrow> (p, g, e) \<in> set (cl_replies s) \<or> p = q \<or> \<not> g"
    and ph: "\<And>c. phase s' c = phase s c \<or>
      phase_ok (names cfg) (cl_acked s) ((q, k) # cl_votes s) c (phase s' c)"
  shows "history_ok cfg s'"
proof (rule history_okI)
  note D = history_okD[OF hist]
  have sub: "set (cl_votes s) \<subseteq> set (cl_votes s')" by (auto simp: s')
  show "acked_ok (names cfg) (cf_min_acks cfg) (synced s') (cl_acked s')" using D(1) by (simp add: s')
  have "ak_lsn a \<le> k" if "a \<in> set (vr_acked q)" "vr_voter q \<in> set (ak_holders a)" for a
  proof -
    have "ak_lsn a \<le> synced s (vr_voter q)" using D(1) that q(3) unfolding acked_ok_def by blast
    then show ?thesis using held by linarith
  qed
  then show "votes_ok (voted s') (cl_votes s')" unfolding s' using D(2) q by (intro votes_ok_Cons)
  show "set (vr_acked p) \<subseteq> set (cl_acked s')" if "p \<in> set (cl_requests s')" for p
    unfolding s' using D(3) that msgs(1) by blast
  show "p \<in> fst ` set (cl_votes s')" if "(p, True, pe) \<in> set (cl_replies s')" for p pe
    using msgs(2)[OF that] D(4)[of p pe] image_mono[OF sub, of fst] by (auto simp: s')
  show "phase_ok (names cfg) (cl_acked s') (cl_votes s') c (phase s' c)" for c
    using ph[of c] phase_ok_mono[OF D(5)[of c] sub order_refl] by (auto simp: s')
  show "set (cd_acked cd) \<subseteq> set (cl_acked s') \<and>
      (\<exists>S. backed (names cfg) (cl_votes s') c cd S \<and> votes_needed (length (cf_members cfg)) \<le> card S)"
    if "(c, cd) \<in> set (cl_elected s')" for c cd
    using D(6)[of c cd] backed_mono[OF _ sub, of "names cfg" c cd] that unfolding s'(2,3) by blast
qed

lemma request_of_simps [simp]:
  "vr_candidate (request_of c v cd) = c" "vr_voter (request_of c v cd) = v"
  "vr_epoch (request_of c v cd) = cd_epoch cd" "vr_lsn (request_of c v cd) = cd_lsn cd"
  "vr_acked (request_of c v cd) = cd_acked cd"
  "request_of c v (cd\<lparr>cd_votes := n\<rparr>) = request_of c v cd"
  "request_of c v (cd\<lparr>cd_rest := rest\<rparr>) = request_of c v cd"
  "request_of c v (cd\<lparr>cd_asked := b\<rparr>) = request_of c v cd"
  by (simp_all add: request_of_def)

lemma inv_stand:
  assumes inv: "cluster_inv cfg s" and i: "i \<in> set (names cfg)" "distinct (names cfg)"
    and st: "stand (cf_crc cfg) io (mb_failover (cl_member s i)) = (fo, Inr epoch)"
    and cd: "cd_epoch cd = epoch" "cd_lsn cd = last_lsn (cl_member s i)" "cd_votes cd = 1"
      "cd_rest cd = filter (\<lambda>n. n \<noteq> i) (names cfg)" "cd_acked cd = cl_acked s"
  shows "cluster_inv cfg ((put_member i ((cl_member s i)\<lparr>mb_failover := fo, mb_phase := Soliciting cd\<rparr>) s)
      \<lparr>cl_votes := (request_of i i cd, length (mb_log (cl_member s i))) # cl_votes s\<rparr>)" (is "cluster_inv cfg ?s")
proof -
  note m = inv_member[OF inv, of i]
  note so = stand_ok[OF inv_fo[OF inv] st]
  have proj: "synced ?s = synced s" "table ?s = table s" "quorate ?s = quorate s" "cl_conns ?s = cl_conns s"
    "voted ?s = (voted s)(i := epoch)" "phase ?s = (phase s)(i := Soliciting cd)"
    using so(3) by (auto simp: proj_defs fun_eq_iff)
  let ?q = "request_of i i cd" and ?k = "length (mb_log (cl_member s i))"
  have "backed (names cfg) ((?q, ?k) # cl_votes s) i cd {i}" using i(1) by (simp add: backed_def)
  then have ph: "phase_ok (names cfg) (cl_acked s) ((?q, ?k) # cl_votes s) i (Soliciting cd)"
    using i cd by (auto intro!: exI[of _ "{i}"])
  have "history_ok cfg ?s"
  proof (rule history_ok_vote[of cfg s ?q ?k])
    show "history_ok cfg s" using inv by (simp add: cluster_inv_def)
    show "voted s (vr_voter ?q) < vr_epoch ?q" using so(3) cd(1) by (simp add: voted_def)
    show "?k \<le> unat (vr_lsn ?q)" using unat_last_lsn[OF m] cd(2) by simp
    show "synced s (vr_voter ?q) \<le> ?k" using m by (simp add: synced_def member_ok_def)
    show "phase ?s c = phase s c \<or> phase_ok (names cfg) (cl_acked s) ((?q, ?k) # cl_votes s) c (phase ?s c)" for c
      unfolding proj using ph by simp
  qed (use cd in \<open>auto simp: proj\<close>)
  moreover have "members_ok cfg ?s"
    using inv_member[OF inv] so(1) by (simp add: members_ok_def member_ok_def)
  ultimately show ?thesis using inv_history[OF inv _ proj(2,3,1,4)] by blast
qed

lemma inv_tick:
  assumes inv: "cluster_inv cfg s" and i: "i \<in> set (names cfg)" "distinct (names cfg)"
  shows "cluster_inv cfg (tick cfg io now i s)"
proof -
  let ?fo = "mb_failover (cl_member s i)"
  obtain fo r where st: "stand (cf_crc cfg) io ?fo = (fo, r)" by fastforce
  note so = stand_ok(1,2)[OF inv_fo[OF inv] st]
  have local: "cluster_inv cfg (put_member i ((cl_member s i)\<lparr>mb_failover := fo'\<rparr>) s)"
    if "fo' \<in> {quorum_held now ?fo, step_down now ?fo, heard_from_leader now fo}" for fo'
    using that so inv_fo[OF inv, of i] by (intro inv_put_failover_only[OF inv]) (auto simp: epochs_le_def)
  show ?thesis
  proof (cases "coordinator_tick now (mb_replication (cl_member s i)) (mb_credentials (cl_member s i)) ?fo")
    case StandForElection
    show ?thesis
    proof (cases r)
      case (Inl e)
      then show ?thesis using local by (simp add: tick_def Let_def StandForElection st)
    next
      case (Inr epoch)
      then show ?thesis
        using st by (simp add: tick_def Let_def StandForElection inv_stand[OF inv i])
    qed
  qed (use inv local in \<open>simp_all add: tick_def Let_def\<close>)
qed

lemma inv_handle_vote:
  assumes inv: "cluster_inv cfg s" and q: "q \<in> set (cl_requests s)"
  shows "cluster_inv cfg (handle_vote cfg io1 io2 now q s)" (is "cluster_inv cfg ?s")
proof -
  let ?v = "vr_voter q" and ?m = "cl_member s (vr_voter q)"
  obtain fo r where cv: "consider_vote (cf_crc cfg) io1 io2 now (vr_epoch q) (vr_lsn q) (last_lsn ?m)
      (mb_failover ?m) = (fo, r)" by fastforce
  note co = consider_vote_ok[OF inv_fo[OF inv] cv]
  define granted where "granted = (case r of Inl _ \<Rightarrow> False | Inr b \<Rightarrow> b)"
  define s1 where "s1 = put_member ?v (?m\<lparr>mb_failover := fo\<rparr>) s"
  have s: "?s = s1\<lparr>cl_requests := remove1 q (cl_requests s),
      cl_replies := (q, granted, fo_current_epoch fo) # cl_replies s,
      cl_votes := (if granted then [(q, length (mb_log ?m))] else []) @ cl_votes s\<rparr>"
    by (simp add: handle_vote_def cv s1_def granted_def Let_def)
  have inv1: "cluster_inv cfg s1" unfolding s1_def using co(1,2) by (intro inv_put_failover_only[OF inv])
  have same: "synced ?s = synced s1" "table ?s = table s1" "quorate ?s = quorate s1" "cl_conns ?s = cl_conns s1" "voted ?s = voted s1"
      "phase ?s = phase s1" "cl_acked ?s = cl_acked s1" "cl_elected ?s = cl_elected s1"
    by (auto simp: s proj_defs fun_eq_iff)
  note D = history_okD[OF inv[unfolded cluster_inv_def, THEN conjunct2, THEN conjunct1]]
  note D1 = history_okD[OF inv1[unfolded cluster_inv_def, THEN conjunct2, THEN conjunct1]]
  have rem: "set (remove1 q (cl_requests s)) \<subseteq> set (cl_requests s)" by (rule set_remove1_subset)
  have "history_ok cfg ?s"
  proof (cases granted)
    case True
    then have "r = Inr True" by (auto simp: granted_def split: sum.splits)
    note co = co(3)[OF this]
    show ?thesis
    proof (rule history_ok_vote[of cfg s q "length (mb_log ?m)"])
      show "history_ok cfg s" using inv by (simp add: cluster_inv_def)
      show "voted s ?v < vr_epoch q" using co by (simp add: voted_def)
      show "length (mb_log ?m) \<le> unat (vr_lsn q)"
        using co unat_last_lsn[OF inv_member[OF inv], of ?v] by (simp add: word_le_nat_alt)
      show "synced s ?v \<le> length (mb_log ?m)"
        using inv_member[OF inv, of ?v] by (simp add: synced_def member_ok_def)
      show "set (vr_acked q) \<subseteq> set (cl_acked s)" by (rule D(3)[OF q])
      show "voted ?s = (voted s)(?v := vr_epoch q)" using co by (auto simp: s s1_def voted_def fun_eq_iff)
    qed (use rem True in \<open>auto simp: s s1_def proj_defs fun_eq_iff\<close>)
  next
    case False
    then have votes: "cl_votes ?s = cl_votes s1" by (simp add: s s1_def)
    show ?thesis
    proof (rule history_okI)
      show "set (vr_acked p) \<subseteq> set (cl_acked ?s)" if "p \<in> set (cl_requests ?s)" for p
        using that rem D(3) by (auto simp: s s1_def)
      show "p \<in> fst ` set (cl_votes ?s)" if "(p, True, pe) \<in> set (cl_replies ?s)" for p pe
        using that False D(4)[of p pe] by (auto simp: s s1_def)
    qed (use D1(1,2,5,6) in \<open>simp_all add: same votes\<close>)
  qed
  moreover have "members_ok cfg ?s" using inv1 by (simp add: s members_ok_def cluster_inv_def)
  ultimately show ?thesis using inv_history[OF inv1 _ same(2,3,1,4)] by blast
qed

lemma put_member_same [simp]:
  "(put_member i m s)\<lparr>cl_requests := cl_requests s\<rparr> = put_member i m s"
  "(put_member i m s)\<lparr>cl_elected := cl_elected s\<rparr> = put_member i m s"
  by (cases s; simp add: put_member_def)+

lemma put_member_same_requests [simp]:
  "(put_member i m s)\<lparr>cl_requests := cl_requests s, cl_elected := es\<rparr> = (put_member i m s)\<lparr>cl_elected := es\<rparr>"
  "(put_member i m s)\<lparr>cl_requests := qs, cl_elected := cl_elected s\<rparr> = (put_member i m s)\<lparr>cl_requests := qs\<rparr>"
  by (cases s; simp add: put_member_def)+

text \<open>Moving a member's phase, and adding to the requests or the elections on its behalf.\<close>

lemma inv_put_phase:
  assumes inv: "cluster_inv cfg s" and ph: "phase_ok (names cfg) (cl_acked s) (cl_votes s) c ph"
    and q: "\<And>q. q \<in> set qs \<Longrightarrow> set (vr_acked q) \<subseteq> set (cl_acked s)"
    and e: "\<And>c cd. (c, cd) \<in> set es \<Longrightarrow> set (cd_acked cd) \<subseteq> set (cl_acked s) \<and>
        (\<exists>S. backed (names cfg) (cl_votes s) c cd S \<and> votes_needed (length (cf_members cfg)) \<le> card S)"
  shows "cluster_inv cfg ((put_member c ((cl_member s c)\<lparr>mb_phase := ph\<rparr>) s)
      \<lparr>cl_requests := qs @ cl_requests s, cl_elected := es @ cl_elected s\<rparr>)" (is "cluster_inv cfg ?s")
proof -
  have hist: "history_ok cfg s" using inv by (simp add: cluster_inv_def)
  note D = history_okD[OF hist]
  have proj: "synced ?s = synced s" "table ?s = table s" "quorate ?s = quorate s" "cl_conns ?s = cl_conns s" "voted ?s = voted s"
      "phase ?s = (phase s)(c := ph)" by (auto simp: proj_defs fun_eq_iff)
  have "history_ok cfg ?s"
  proof (rule history_okI)
    show "set (vr_acked q) \<subseteq> set (cl_acked ?s)" if "q \<in> set (cl_requests ?s)" for q
      using that assms(3)[of q] D(3)[of q] by auto
    show "set (cd_acked cd) \<subseteq> set (cl_acked ?s) \<and>
        (\<exists>S. backed (names cfg) (cl_votes ?s) b cd S \<and> votes_needed (length (cf_members cfg)) \<le> card S)"
      if "(b, cd) \<in> set (cl_elected ?s)" for b cd
      using that e[of b cd] D(6)[of b cd] by auto
    show "phase_ok (names cfg) (cl_acked ?s) (cl_votes ?s) b (phase ?s b)" for b
      using D(5)[of b] ph by (simp add: proj)
    show "p \<in> fst ` set (cl_votes ?s)" if "(p, True, pe) \<in> set (cl_replies ?s)" for p pe
      using that D(4)[of p pe] by simp
  qed (use D(1,2) in \<open>simp_all add: proj\<close>)
  moreover have "members_ok cfg ?s"
    using inv_member[OF inv] by (simp add: members_ok_def member_ok_def)
  ultimately show ?thesis using inv_history[OF inv _ proj(2,3,1,4)] by blast
qed

text \<open>Counting a vote: the voters behind the candidacy grow by the peer that granted it.\<close>

lemma inv_count_vote:
  assumes inv: "cluster_inv cfg s" and ph: "mb_phase (cl_member s c) = Soliciting cd"
    and rest: "cd_rest cd \<noteq> []"
    and g: "granted \<Longrightarrow> request_of c (hd (cd_rest cd)) cd \<in> fst ` set (cl_votes s)"
  shows "cluster_inv cfg (count_vote cfg now c cd granted s)"
proof -
  define cd' where "cd' = cd\<lparr>cd_votes := (if granted then cd_votes cd + 1 else cd_votes cd),
      cd_rest := tl (cd_rest cd), cd_asked := False\<rparr>"
  let ?v = "hd (cd_rest cd)" and ?m = "cl_member s c"
  have hist: "history_ok cfg s" using inv by (simp add: cluster_inv_def)
  note D = history_okD[OF hist]
  have P: "phase_ok (names cfg) (cl_acked s) (cl_votes s) c (Soliciting cd)"
    using D(5)[of c] ph by (simp add: phase_def)
  then obtain S where S: "backed (names cfg) (cl_votes s) c cd S" "S \<inter> set (cd_rest cd) = {}" "card S = cd_votes cd"
    by auto
  define S' where "S' = (if granted then insert ?v S else S)"
  have vr: "?v \<in> set (cd_rest cd)" "?v \<notin> set (tl (cd_rest cd))"
    using rest P by (auto simp: distinct_tl) (metis distinct.simps(2) list.collapse)
  have finS: "finite S" using S(1) by (auto simp: backed_def intro: finite_subset)
  have "backed (names cfg) (cl_votes s) c cd' S'"
    using S(1) g P vr(1) by (auto simp: backed_def S'_def cd'_def)
  moreover have "?v \<notin> S" using S(2) vr(1) by blast
  then have "S' \<inter> set (cd_rest cd') = {}" "card S' = cd_votes cd'"
    using S(2,3) vr finS rest by (auto simp: S'_def cd'_def dest: list.set_sel(2))
  ultimately have S': "backed (names cfg) (cl_votes s) c cd' S'" "S' \<inter> set (cd_rest cd') = {}"
      "card S' = cd_votes cd'" by auto
  have sub: "set (cd_acked cd') \<subseteq> set (cl_acked s)" "distinct (cd_rest cd')" "set (cd_rest cd') \<subseteq> set (names cfg)"
    using P rest by (auto simp: cd'_def distinct_tl dest: list.set_sel(2))
  consider (won) "votes_needed (length (cf_members cfg)) \<le> cd_votes cd'"
    | (lost) "cd_votes cd' < votes_needed (length (cf_members cfg))" "cd_rest cd' = []"
    | (more_peers) "cd_votes cd' < votes_needed (length (cf_members cfg))" "cd_rest cd' \<noteq> []" by linarith
  then show ?thesis
  proof cases
    case won
    then have "cluster_inv cfg ((put_member c (?m\<lparr>mb_phase := Elected cd'\<rparr>) s)
        \<lparr>cl_requests := [] @ cl_requests s, cl_elected := [(c, cd')] @ cl_elected s\<rparr>)"
      using S'(1,3) sub by (intro inv_put_phase[OF inv]) auto
    then show ?thesis using won by (simp add: count_vote_def cd'_def[symmetric] Let_def)
  next
    case lost
    have "cluster_inv cfg (put_member c (?m\<lparr>mb_failover := heard_from_leader now (mb_failover ?m), mb_phase := Idle\<rparr>) s)"
      using inv_fo[OF inv] by (intro inv_put_failover[OF inv]) (simp_all add: epochs_le_def)
    then show ?thesis using lost by (simp add: count_vote_def cd'_def[symmetric] Let_def)
  next
    case more_peers
    have "cluster_inv cfg ((put_member c (?m\<lparr>mb_phase := Soliciting cd'\<rparr>) s)
        \<lparr>cl_requests := [] @ cl_requests s, cl_elected := [] @ cl_elected s\<rparr>)"
      using S' sub by (intro inv_put_phase[OF inv]) auto
    then show ?thesis using more_peers by (simp add: count_vote_def cd'_def[symmetric] Let_def)
  qed
qed

lemma inv_handle_reply:
  assumes inv: "cluster_inv cfg s" and ph: "mb_phase (cl_member s c) = Soliciting cd" "cd_rest cd \<noteq> []"
    and r: "(request_of c (hd (cd_rest cd)) cd, granted, pe) \<in> set (cl_replies s)"
  shows "cluster_inv cfg (handle_reply cfg io now c cd granted pe s)"
proof (cases "cd_epoch cd < pe")
  case True
  obtain fo x where o: "observe_epoch (cf_crc cfg) io now pe (mb_failover (cl_member s c)) = (fo, x)" by fastforce
  note ob = observe_epoch_ok(1,2)[OF inv_fo[OF inv] o]
  have "cluster_inv cfg (put_member c ((cl_member s c)\<lparr>mb_failover := heard_from_leader now fo, mb_phase := Idle\<rparr>) s)"
    using ob by (intro inv_put_failover[OF inv]) (simp_all add: epochs_le_def)
  then show ?thesis using True o by (simp add: handle_reply_def Let_def)
next
  case False
  have "history_ok cfg s" using inv by (simp add: cluster_inv_def)
  then have "granted \<Longrightarrow> request_of c (hd (cd_rest cd)) cd \<in> fst ` set (cl_votes s)"
    using history_okD(4)[of cfg s _ pe] r by simp
  then show ?thesis using False inv_count_vote[OF inv ph] by (simp add: handle_reply_def)
qed

lemma inv_solicit:
  assumes inv: "cluster_inv cfg s" and ph: "mb_phase (cl_member s c) = Soliciting cd"
  shows "cluster_inv cfg ((put_member c ((cl_member s c)\<lparr>mb_phase := Soliciting (cd\<lparr>cd_asked := True\<rparr>)\<rparr>) s)
      \<lparr>cl_requests := request_of c v cd # cl_requests s\<rparr>)"
proof -
  have "history_ok cfg s" using inv by (simp add: cluster_inv_def)
  from history_okD(5)[OF this, of c]
  have P: "phase_ok (names cfg) (cl_acked s) (cl_votes s) c (Soliciting cd)" using ph by (simp add: phase_def)
  then have "phase_ok (names cfg) (cl_acked s) (cl_votes s) c (Soliciting (cd\<lparr>cd_asked := True\<rparr>))"
    by (simp add: backed_def)
  from inv_put_phase[OF inv this, of "[request_of c v cd]" "[]"] P show ?thesis by simp
qed

section \<open>Reachable states\<close>

lemma inv_init: "cluster_inv cfg (cluster_init cfg now)"
proof -
  let ?s = "cluster_init cfg now :: 'a cluster"
  have "member_ok cfg (cl_member ?s i)" for i
    using member_start_ok[of cfg None "\<lparr>es_current = 0, es_voted = 0\<rparr>" "[] :: 'a list"]
    by (simp add: cluster_init_def epoch_open_def)
  moreover have "history_ok cfg ?s"
    by (rule history_okI) (simp_all add: cluster_init_def acked_ok_def votes_ok_def phase_def)
  moreover have "streams_ok (cf_min_acks cfg) (cl_conns ?s) (table ?s) (quorate ?s) (synced ?s)"
    by (simp add: streams_ok_def waits_ok_def cluster_init_def table_def quorate_def)
  ultimately show ?thesis by (simp add: cluster_inv_def members_ok_def)
qed

lemma inv_step:
  assumes inv: "cluster_inv cfg s" and ev: "set (event_members ev) \<subseteq> set (names cfg)" and d: "distinct (names cfg)"
  shows "cluster_inv cfg (step cfg ev s)"
proof (cases ev)
  case (Promote now c)
  then show ?thesis
    using inv inv_fo[OF inv, of c] by (auto simp: Let_def epochs_le_def split: phase.split intro!: inv_put_failover)
qed (use inv ev d in \<open>auto simp: inv_heartbeat inv_attach inv_send_record inv_receive_frame inv_end_sending
    inv_end_receiving inv_write inv_flush inv_restart inv_quorum_returns inv_answer
    inv_deliver_ack inv_join inv_tick inv_handle_vote split: phase.split
    intro: inv_handle_reply inv_count_vote inv_solicit\<close>)

lemma reach_inv: "reach cfg s \<Longrightarrow> distinct (names cfg) \<Longrightarrow> cluster_inv cfg s"
  by (induction rule: reach.induct) (simp_all add: inv_init inv_step)

section \<open>Quorums\<close>

text \<open>
  What the election relies on: any two election quorums meet, and an election quorum meets
  every acknowledgement quorum.
\<close>

locale quorums =
  fixes election :: "'m set \<Rightarrow> bool" and acknowledgement :: "'m set \<Rightarrow> bool"
  assumes election_meets: "election Q \<Longrightarrow> election Q' \<Longrightarrow> Q \<inter> Q' \<noteq> {}"
    and acknowledgement_meets: "election Q \<Longrightarrow> acknowledgement P \<Longrightarrow> Q \<inter> P \<noteq> {}"
begin

lemma one_choice:
  assumes "election Q" "election Q'" "\<And>v. v \<in> Q \<Longrightarrow> chose v c" "\<And>v. v \<in> Q' \<Longrightarrow> chose v c'"
    and "\<And>v x y. chose v x \<Longrightarrow> chose v y \<Longrightarrow> x = y"
  shows "c = c'"
  using election_meets[OF assms(1,2)] assms(3-) by blast

lemma witness:
  assumes "election Q" "acknowledgement P" "\<And>v. v \<in> Q \<Longrightarrow> v \<in> P \<Longrightarrow> R"
  shows R
  using acknowledgement_meets[OF assms(1,2)] assms(3) by blast

end

definition election_quorum :: "config \<Rightarrow> rstring set \<Rightarrow> bool" where
  "election_quorum cfg Q \<longleftrightarrow> distinct (names cfg) \<and> Q \<subseteq> set (names cfg) \<and>
     votes_needed (length (cf_members cfg)) \<le> card Q"

definition ack_quorum :: "config \<Rightarrow> rstring set \<Rightarrow> bool" where
  "ack_quorum cfg P \<longleftrightarrow> length (cf_members cfg) div 2 \<le> cf_min_acks cfg \<and> P \<subseteq> set (names cfg) \<and>
     cf_min_acks cfg < card P"

lemma subsets_meet:
  assumes "Q \<subseteq> U" "P \<subseteq> U" "finite U" "card U < card Q + card P"
  shows "Q \<inter> P \<noteq> {}"
proof
  assume "Q \<inter> P = {}"
  then have "card Q + card P = card (Q \<union> P)"
    using assms by (metis card_Un_disjoint finite_subset)
  also have "\<dots> \<le> card U" using assms by (intro card_mono) auto
  finally show False using assms(4) by simp
qed

interpretation cluster_quorums: quorums "election_quorum cfg" "ack_quorum cfg" for cfg
proof unfold_locales
  fix Q Q' assume q: "election_quorum cfg Q" "election_quorum cfg Q'"
  then have "card (set (names cfg)) = length (cf_members cfg)"
    by (simp add: election_quorum_def distinct_card) (simp add: names_def)
  then show "Q \<inter> Q' \<noteq> {}"
    using q votes_needed_majority[of "length (cf_members cfg)"]
    by (intro subsets_meet[of Q "set (names cfg)"]) (auto simp: election_quorum_def)
next
  fix Q P assume q: "election_quorum cfg Q" "ack_quorum cfg P"
  then have "card (set (names cfg)) = length (cf_members cfg)"
    by (simp add: election_quorum_def distinct_card) (simp add: names_def)
  then show "Q \<inter> P \<noteq> {}"
    using q votes_needed_meets_acks[of "length (cf_members cfg)" "cf_min_acks cfg"]
    by (intro subsets_meet[of Q "set (names cfg)"]) (auto simp: election_quorum_def ack_quorum_def)
qed

section \<open>Safety of elections\<close>

lemma parsed_distinct: "parse_cluster spec me n = Inr (cf_members cfg) \<Longrightarrow> distinct (names cfg)"
  using parse_cluster_ok(1) by (simp add: names_def)

lemma elected_quorum:
  assumes "reach cfg s" "distinct (names cfg)" "(c, cd) \<in> set (cl_elected s)"
  obtains S where "election_quorum cfg S" "\<And>v. v \<in> S \<Longrightarrow> \<exists>k. (request_of c v cd, k) \<in> set (cl_votes s)"
proof -
  have "history_ok cfg s" using reach_inv[OF assms(1,2)] by (simp add: cluster_inv_def)
  from history_okD(6)[OF this assms(3)] obtain S where
    "backed (names cfg) (cl_votes s) c cd S" "votes_needed (length (cf_members cfg)) \<le> card S" by blast
  then have "election_quorum cfg S" "\<And>v. v \<in> S \<Longrightarrow> request_of c v cd \<in> fst ` set (cl_votes s)"
    using assms(2) by (auto simp: election_quorum_def backed_def)
  moreover have "\<exists>k. (q, k) \<in> A" if "q \<in> fst ` A" for q :: "'a vote_request" and A :: "('a vote_request \<times> nat) set"
    using that by force
  ultimately show ?thesis by (intro that) blast+
qed

text \<open>The state after a run of the cluster.\<close>

definition run :: "config \<Rightarrow> 'r event list \<Rightarrow> 'r cluster" where
  "run cfg evs = foldl (\<lambda>s ev. step cfg ev s) (cluster_init cfg 0) evs"

definition run_ok :: "config \<Rightarrow> 'r event list \<Rightarrow> bool" where
  "run_ok cfg evs \<longleftrightarrow> list_all (\<lambda>ev. set (event_members ev) \<subseteq> set (names cfg)) evs"

lemma run_reach: "run_ok cfg evs \<Longrightarrow> reach cfg (run cfg evs)"
proof (induction evs rule: rev_induct)
  case (snoc ev evs)
  then have "reach cfg (step cfg ev (run cfg evs))"
    by (intro reach.step) (auto simp: run_ok_def)
  then show ?case by (simp add: run_def)
qed (simp add: run_def reach.init)

text \<open>A cluster of three members \<open>a\<close>, \<open>b\<close> and \<open>c\<close>, with \<open>a\<close> the configured primary.\<close>

definition name_a :: rstring where "name_a = [0x61]"
definition name_b :: rstring where "name_b = [0x62]"
definition name_c :: rstring where "name_c = [0x63]"

definition sample_config :: config where
  "sample_config =
     \<lparr>cf_crc = (\<lambda>_. 0), cf_members = map (\<lambda>n. \<lparr>cm_name = n, cm_url = n\<rparr>) [name_a, name_b, name_c],
      cf_min_acks = 1, cf_ack_timeout = 10, cf_lease = 3000, cf_election_timeout = 6000,
      cf_primary = name_a\<rparr>"

definition sample_spec :: rstring where
  "sample_spec = [0x61, 0x3D, 0x61, 0x2C, 0x20, 0x62, 0x3D, 0x62, 0x2C, 0x63, 0x3D, 0x63]"

lemma sample_parse: "parse_cluster sample_spec name_a (cf_min_acks sample_config) = Inr (cf_members sample_config)"
  by code_simp

definition sample_request :: "rstring \<Rightarrow> rstring \<Rightarrow> u64 \<Rightarrow> u64 \<Rightarrow> 'r ack list \<Rightarrow> 'r vote_request" where
  "sample_request c v e lsn acked =
     \<lparr>vr_candidate = c, vr_voter = v, vr_epoch = e, vr_lsn = lsn, vr_acked = acked\<rparr>"

text \<open>
  \<open>b\<close> loses sight of the primary and wins epoch 1 with \<open>c\<close>'s vote, after a write
  acknowledged by \<open>b\<close>.
\<close>

definition handover_run :: "nat event list" where
  "handover_run =
     [Join name_b name_a 0 [], Join name_c name_a 0 [], Receive Persisted 0 0, Receive Persisted 0 1,
      Attach 0, Attach 1, Write name_a 7, Flush name_a, Send 0 1, Receive Persisted 1 0, DeliverAck 0,
      Quorum name_a 1, Answer name_a 1, Send 1 1, Receive Persisted 2 1, Tick Persisted 100000 name_b, NoReply 100001 name_b, Solicit name_b,
      HandleVote Persisted Persisted 100002 (sample_request name_b name_c 1 1
        [\<lparr>ak_lsn = 1, ak_record = 7, ak_primary = name_a, ak_replicas = [name_b],
          ak_holders = [name_a, name_b]\<rparr>]),
      Reply Persisted 100003 name_b True 1, Promote 100004 name_b]"

definition handover_candidacy :: "nat candidacy" where
  "handover_candidacy =
     \<lparr>cd_epoch = 1, cd_lsn = 1, cd_votes = 2, cd_rest = [], cd_asked = False,
      cd_acked = [\<lparr>ak_lsn = 1, ak_record = 7, ak_primary = name_a, ak_replicas = [name_b],
          ak_holders = [name_a, name_b]\<rparr>]\<rparr>"

lemma handover_reach: "reach sample_config (run sample_config handover_run)"
  by (rule run_reach) code_simp

lemma handover_elected: "cl_elected (run sample_config handover_run) = [(name_b, handover_candidacy)]"
  by code_simp

lemma handover_members: "name_b \<in> set (names sample_config)" "name_b \<noteq> name_a"
  by code_simp+

text \<open>
  C4: An epoch has at most one winner.  In every run of a cluster whose configuration was
  accepted, with messages delayed at will, epoch files failing to write, and members crashing
  and restarting, two elections won in the same epoch were won by the same member.
\<close>

theorem one_winner_per_epoch:
  assumes cfg: "parse_cluster spec self_name (cf_min_acks cfg) = Inr (cf_members cfg)"
    and s: "reach cfg s"
    and c: "(c, cd) \<in> set (cl_elected s)" "(c', cd') \<in> set (cl_elected s)"
    and e: "cd_epoch cd = cd_epoch cd'"
  shows "c = c'"
proof -
  note d = parsed_distinct[OF cfg]
  obtain S where S: "election_quorum cfg S" "\<And>v. v \<in> S \<Longrightarrow> \<exists>k. (request_of c v cd, k) \<in> set (cl_votes s)"
    using elected_quorum[OF s d c(1)] by blast
  obtain S' where S': "election_quorum cfg S'" "\<And>v. v \<in> S' \<Longrightarrow> \<exists>k. (request_of c' v cd', k) \<in> set (cl_votes s)"
    using elected_quorum[OF s d c(2)] by blast
  have "history_ok cfg s" using reach_inv[OF s d] by (simp add: cluster_inv_def)
  from history_okD(2)[OF this] have v: "votes_ok (voted s) (cl_votes s)" .
  let ?chose = "\<lambda>v x. \<exists>q k. (q, k) \<in> set (cl_votes s) \<and> vr_voter q = v \<and> vr_epoch q = cd_epoch cd \<and> vr_candidate q = x"
  show ?thesis
  proof (rule cluster_quorums.one_choice[OF S(1) S'(1), of ?chose])
    show "?chose v c" if "v \<in> S" for v using S(2)[OF that] by (metis request_of_simps(1-3))
    show "?chose v c'" if "v \<in> S'" for v using S'(2)[OF that] e by (metis request_of_simps(1-3))
    show "x = y" if "?chose v x" "?chose v y" for v x y using that v unfolding votes_ok_def by metis
  qed
qed

theorem one_winner_per_epoch_witness:
  "reach sample_config (run sample_config handover_run) \<and>
   map fst (cl_elected (run sample_config handover_run)) = [name_b] \<and>
   fst (hd (cl_elected (run sample_config handover_run))) = name_b"
  using one_winner_per_epoch[OF sample_parse handover_reach, of name_b handover_candidacy
      "fst (hd (cl_elected (run sample_config handover_run)))" handover_candidacy]
  by (simp add: handover_elected handover_reach)

text \<open>
  C13: Whoever wins an election has a log that reaches every LSN acknowledged to a client
  before it stood, when the registrations that made up the write's quorum were of different
  members other than the primary.  This is the intersection argument of the module's comment:
  the acknowledgement and the election then each involve a majority, a common member votes
  only for a log at least as long as its own, and no member's flushed log shrinks.
\<close>

theorem elected_covers_acknowledged:
  assumes cfg: "parse_cluster spec self_name (cf_min_acks cfg) = Inr (cf_members cfg)"
    and s: "reach cfg s"
    and c: "(c, cd) \<in> set (cl_elected s)" "a \<in> set (cd_acked cd)"
    and r: "distinct (ak_replicas a)" "set (ak_replicas a) \<subseteq> set (names cfg) - {ak_primary a}"
  shows "ak_lsn a \<le> unat (cd_lsn cd)"
proof -
  note d = parsed_distinct[OF cfg]
  obtain S where S: "election_quorum cfg S" "\<And>v. v \<in> S \<Longrightarrow> \<exists>k. (request_of c v cd, k) \<in> set (cl_votes s)"
    using elected_quorum[OF s d c(1)] by blast
  have h: "history_ok cfg s" using reach_inv[OF s d] by (simp add: cluster_inv_def)
  have a: "a \<in> set (cl_acked s)" using history_okD(6)[OF h c(1)] c(2) by blast
  have P: "ack_quorum cfg (set (ak_holders a))"
    using history_okD(1)[OF h] a r parse_cluster_ok(4)[OF cfg]
    by (auto simp: acked_ok_def ack_quorum_def members_counted_def)
  show ?thesis
  proof (rule cluster_quorums.witness[OF S(1) P])
    fix v assume v: "v \<in> S" "v \<in> set (ak_holders a)"
    obtain k where k: "(request_of c v cd, k) \<in> set (cl_votes s)" using S(2)[OF v(1)] by blast
    then have "k \<le> unat (cd_lsn cd)" "ak_lsn a \<le> k"
      using history_okD(2)[OF h] v(2) c(2) unfolding votes_ok_def by fastforce+
    then show ?thesis by linarith
  qed
qed

theorem elected_covers_acknowledged_witness:
  "reach sample_config (run sample_config handover_run) \<and>
   (name_b, handover_candidacy) \<in> set (cl_elected (run sample_config handover_run)) \<and>
   ak_lsn (hd (cd_acked handover_candidacy)) = 1 \<and>
   ak_lsn (hd (cd_acked handover_candidacy)) \<le> unat (cd_lsn handover_candidacy)"
  using elected_covers_acknowledged[OF sample_parse handover_reach, of name_b handover_candidacy
      "hd (cd_acked handover_candidacy)"]
  by (simp add: handover_elected handover_reach handover_candidacy_def handover_members)

section \<open>Runs the safety argument does not cover\<close>
















end
