(* ===== verification/RowCache.thy ===== *)
theory RowCache
  imports Keyspace OrderedMap
begin

text \<open>
  The cache of hot rows (\<open>crates/vyrn-core/src/row_cache.rs\<close>) and the hasher of
  the engine's caches (\<open>fast_hash.rs\<close>).  The cache is a map with a
  second-chance eviction ring and a byte budget; its eviction loop is a
  recursive function with a termination proof.  The lemmas show that the byte
  count is exact and stays within the budget, that a read through the cache
  answers what the store below it holds as long as every write invalidates its
  key, that the hasher maps distinct ids to distinct hashes, and that the ring,
  unlike the bytes, is not bounded.
\<close>

unbundle bit_operations_syntax

section \<open>The hasher of the caches\<close>

type_synonym u64_hasher = u64

definition write_u64 :: "u64 \<Rightarrow> u64_hasher \<Rightarrow> u64_hasher" where
  "write_u64 v h =
     (let hashed = v * 0x9E3779B97F4A7C15 in hashed XOR drop_bit 32 hashed)"

definition u64_of_le :: "bytes \<Rightarrow> u64" where
  "u64_of_le bs = u64_of_be (rev bs)"

text \<open>\<open>write\<close>: eight bytes at a time, the last chunk padded with zeros.\<close>

fun hasher_write :: "bytes \<Rightarrow> u64_hasher \<Rightarrow> u64_hasher" where
  "hasher_write bs h =
     (if bs = [] then h
      else let chunk = take 8 bs;
               word = chunk @ replicate (8 - length chunk) 0
           in hasher_write (drop 8 bs) (write_u64 (h XOR u64_of_le word) h))"

declare hasher_write.simps [simp del]

section \<open>State\<close>

record cached_row =
  cr_value :: bytes
  cr_referenced :: bool

record row_cache =
  rc_entries :: "cached_row rows"
  rc_clock :: "bytes list"
  rc_bytes :: nat
  rc_budget :: nat

definition with_budget :: "nat \<Rightarrow> row_cache" where
  "with_budget budget = \<lparr> rc_entries = [], rc_clock = [], rc_bytes = 0, rc_budget = budget \<rparr>"

section \<open>Operations\<close>

definition row_cache_get :: "bytes \<Rightarrow> row_cache \<Rightarrow> bytes option \<times> row_cache" where
  "row_cache_get key c =
     (if rc_budget c = 0 then (None, c)
      else case rget (rc_entries c) key of
        None \<Rightarrow> (None, c)
      | Some e \<Rightarrow>
          (Some (cr_value e),
           c\<lparr> rc_entries := rmodify key (\<lambda>r. r\<lparr> cr_referenced := True \<rparr>) (rc_entries c) \<rparr>))"

definition row_bytes :: "bytes \<Rightarrow> bytes \<Rightarrow> nat" where
  "row_bytes key v = length key * 2 + length v"

text \<open>
  The eviction loop.  A referenced victim loses its mark and goes to the back of
  the ring, an unreferenced one is dropped, a key invalidated since it was
  ringed only gives up its slot; the loop also stops on an empty ring.
\<close>

function row_cache_evict :: "nat \<Rightarrow> row_cache \<Rightarrow> row_cache" where
  "row_cache_evict need c =
     (if rc_bytes c + need \<le> rc_budget c then c
      else case rc_clock c of
        [] \<Rightarrow> c
      | victim # rest \<Rightarrow>
         (case rget (rc_entries c) victim of
            Some e \<Rightarrow>
              if cr_referenced e then
                row_cache_evict need
                  (c\<lparr> rc_entries := rmodify victim (\<lambda>r. r\<lparr> cr_referenced := False \<rparr>) (rc_entries c),
                     rc_clock := rest @ [victim] \<rparr>)
              else
                row_cache_evict need
                  (c\<lparr> rc_entries := rdel victim (rc_entries c), rc_clock := rest,
                     rc_bytes := rc_bytes c - row_bytes victim (cr_value e) \<rparr>)
          | None \<Rightarrow> row_cache_evict need (c\<lparr> rc_clock := rest \<rparr>)))"
  by pat_completeness auto

text \<open>
  It ends because each turn either clears a mark, of which there are finitely
  many, or shortens the ring without setting one.
\<close>

definition marked :: "cached_row rows \<Rightarrow> nat" where
  "marked r = length (filter (\<lambda>(k, e). cr_referenced e) r)"

lemma marked_simps [simp]:
  "marked [] = 0"
  "marked ((k, e) # r) = (if cr_referenced e then Suc (marked r) else marked r)"
  by (simp_all add: marked_def)

lemma marked_clear_le: "marked (rmodify k (\<lambda>r. r\<lparr> cr_referenced := False \<rparr>) r) \<le> marked r"
  by (induction r) auto

lemma marked_clear:
  "rget r k = Some e \<Longrightarrow> cr_referenced e \<Longrightarrow>
     marked (rmodify k (\<lambda>r. r\<lparr> cr_referenced := False \<rparr>) r) < marked r"
proof (induction r)
  case (Cons x r)
  then show ?case
    using marked_clear_le[of k r] by (cases x) (auto simp: less_Suc_eq_le split: if_splits)
qed simp

lemma marked_rdel: "marked (rdel k r) \<le> marked r"
  by (induction r) auto

termination row_cache_evict
  by (relation "measures [\<lambda>(n, c). marked (rc_entries c), \<lambda>(n, c). length (rc_clock c)]")
    (auto simp: marked_clear le_neq_implies_less marked_rdel)

declare row_cache_evict.simps [simp del]

definition row_cache_insert :: "bytes \<Rightarrow> bytes \<Rightarrow> row_cache \<Rightarrow> row_cache" where
  "row_cache_insert key v c =
     (let entry_bytes = row_bytes key v
      in if rc_budget c = 0 \<or> rc_budget c div 8 < entry_bytes then c
         else let c = row_cache_evict entry_bytes c;
                  row = \<lparr> cr_value = v, cr_referenced = False \<rparr>
              in case rget (rc_entries c) key of
                   Some previous \<Rightarrow>
                     c\<lparr> rc_entries := rput key row (rc_entries c),
                        rc_bytes := rc_bytes c - length (cr_value previous)
                                    + (entry_bytes - length key * 2) \<rparr>
                 | None \<Rightarrow>
                     c\<lparr> rc_entries := rput key row (rc_entries c),
                        rc_clock := rc_clock c @ [key],
                        rc_bytes := rc_bytes c + entry_bytes \<rparr>)"

definition row_cache_invalidate :: "bytes \<Rightarrow> row_cache \<Rightarrow> row_cache" where
  "row_cache_invalidate key c =
     (if rc_budget c = 0 then c
      else case rget (rc_entries c) key of
        None \<Rightarrow> c
      | Some removed \<Rightarrow>
          c\<lparr> rc_entries := rdel key (rc_entries c),
             rc_bytes := rc_bytes c - row_bytes key (cr_value removed) \<rparr>)"

text \<open>
  The read of \<open>Engine::get\<close> after its checks: the cache first, then the tree,
  whose answer is cached when the key is there.  A commit invalidates the keys it
  wrote once its batch is visible.
\<close>

definition cached_get ::
  "(bytes \<Rightarrow> vyrn_error + bytes option) \<Rightarrow> bytes \<Rightarrow> row_cache
     \<Rightarrow> (vyrn_error + bytes option) \<times> row_cache" where
  "cached_get tree_get key c =
     (case row_cache_get key c of
        (Some hit, c) \<Rightarrow> (Inr (Some hit), c)
      | (None, c) \<Rightarrow>
         (case tree_get key of
            Inl e \<Rightarrow> (Inl e, c)
          | Inr None \<Rightarrow> (Inr None, c)
          | Inr (Some v) \<Rightarrow> (Inr (Some v), row_cache_insert key v c)))"

definition invalidate_batch :: "bytes list \<Rightarrow> row_cache \<Rightarrow> row_cache" where
  "invalidate_batch pending c = fold row_cache_invalidate pending c"

section \<open>The hasher is injective on ids\<close>

lemma xor_shift_involutive: "(x XOR drop_bit 32 x) XOR drop_bit 32 (x XOR drop_bit 32 x) = (x :: u64)"
  by (rule bit_word_eqI) (auto simp: bit_xor_iff bit_drop_bit_eq dest: bit_imp_le_length)

lemma mix_unmix: "(v * 0x9E3779B97F4A7C15) * 0xF1DE83E19937733D = (v :: u64)"
proof -
  have "(0x9E3779B97F4A7C15 * 0xF1DE83E19937733D :: u64) = 1" by simp
  then show ?thesis by (simp only: mult.assoc mult_1_right)
qed

lemma write_u64_inject: "write_u64 a h = write_u64 b h' \<longleftrightarrow> a = b"
  unfolding write_u64_def Let_def by (metis mix_unmix xor_shift_involutive)

section \<open>Invariant\<close>

definition row_weight :: "bytes \<times> cached_row \<Rightarrow> nat" where
  "row_weight = (\<lambda>(k, e). row_bytes k (cr_value e))"

definition row_cache_ok :: "row_cache \<Rightarrow> bool" where
  "row_cache_ok c \<longleftrightarrow>
     sorted_rows (rc_entries c) \<and>
     rc_bytes c = sum_list (map row_weight (rc_entries c)) \<and>
     fst ` set (rc_entries c) \<subseteq> set (rc_clock c) \<and>
     rc_bytes c \<le> rc_budget c"

lemma weight_rmodify:
  assumes "\<And>e. cr_value (f e) = cr_value e"
  shows "map row_weight (rmodify k f r) = map row_weight r"
  using assms by (induction r) (auto simp: row_weight_def)

lemma weight_rdel:
  "rget r k = Some e \<Longrightarrow>
     sum_list (map row_weight r) = row_bytes k (cr_value e) + sum_list (map row_weight (rdel k r))"
  by (induction r) (auto simp: row_weight_def split: if_splits)

lemma weight_rput_new:
  "rget r k = None \<Longrightarrow>
     sum_list (map row_weight (rput k e r)) = row_bytes k (cr_value e) + sum_list (map row_weight r)"
  by (induction k e r rule: rput.induct) (auto simp: row_weight_def split: if_splits)

lemma weight_rput_old:
  "sorted_rows r \<Longrightarrow> rget r k = Some p \<Longrightarrow>
     sum_list (map row_weight (rput k e r)) + length (cr_value p) =
       sum_list (map row_weight r) + length (cr_value e)"
proof (induction k e r rule: rput.induct)
  case (2 k e a w r)
  then have "rget r k = None" if "k < a" using that by (auto simp: rget_None)
  with 2 show ?case by (auto simp: row_weight_def row_bytes_def split: if_splits)
qed simp

lemma weight_le: "rget r k = Some e \<Longrightarrow> row_bytes k (cr_value e) \<le> sum_list (map row_weight r)"
  by (simp add: weight_rdel)

lemma keys_rmodify_set [simp]: "fst ` set (rmodify k f r) = fst ` set r"
  by (metis keys_rmodify list.set_map)

lemma row_cache_ok_with_budget: "row_cache_ok (with_budget b)"
  by (simp add: row_cache_ok_def with_budget_def)

lemma row_cache_get_ok: "row_cache_ok c \<Longrightarrow> row_cache_ok (snd (row_cache_get k c))"
  by (auto simp: row_cache_ok_def row_cache_get_def weight_rmodify split: option.splits)

lemma row_cache_invalidate_ok: "row_cache_ok c \<Longrightarrow> row_cache_ok (row_cache_invalidate k c)"
proof (cases "rc_budget c = 0 \<or> rget (rc_entries c) k = None")
  case False
  then obtain e where "rget (rc_entries c) k = Some e" by auto
  moreover assume "row_cache_ok c"
  ultimately show ?thesis
    using False weight_rdel[of "rc_entries c" k e]
    by (auto simp: row_cache_ok_def row_cache_invalidate_def keys_rdel)
qed (auto simp: row_cache_invalidate_def)

lemma row_cache_evict_budget [simp]: "rc_budget (row_cache_evict n c) = rc_budget c"
  by (induction n c rule: row_cache_evict.induct)
    (subst row_cache_evict.simps, auto split: list.split option.split)

text \<open>One turn of the loop keeps the invariant, so the whole loop does.\<close>

lemma evict_turn_ok:
  assumes "row_cache_ok c" "rc_clock c = victim # rest"
  shows "rget (rc_entries c) victim = None \<Longrightarrow> row_cache_ok (c\<lparr> rc_clock := rest \<rparr>)"
    and "row_cache_ok
      (c\<lparr> rc_entries := rmodify victim (\<lambda>r. r\<lparr> cr_referenced := False \<rparr>) (rc_entries c),
         rc_clock := rest @ [victim] \<rparr>)"
    and "rget (rc_entries c) victim = Some e \<Longrightarrow> row_cache_ok
      (c\<lparr> rc_entries := rdel victim (rc_entries c), rc_clock := rest,
         rc_bytes := rc_bytes c - row_bytes victim (cr_value e) \<rparr>)"
  using assms weight_rdel[of "rc_entries c" victim e]
  by (auto simp: row_cache_ok_def weight_rmodify keys_rdel rget_None)

lemma row_cache_evict_ok: "row_cache_ok c \<Longrightarrow> row_cache_ok (row_cache_evict n c)"
proof (induction n c rule: row_cache_evict.induct)
  case (1 n c)
  show ?case
    by (subst row_cache_evict.simps)
      (auto split: list.split option.split intro!: 1 dest: evict_turn_ok[OF 1(4)])
qed

text \<open>When it stops there is room, or the cache is empty.\<close>

lemma row_cache_evict_room:
  "row_cache_ok c \<Longrightarrow> n \<le> rc_budget c \<Longrightarrow>
     rc_bytes (row_cache_evict n c) + n \<le> rc_budget c"
proof (induction n c rule: row_cache_evict.induct)
  case (1 n c)
  show ?case
  proof (cases "rc_bytes c + n \<le> rc_budget c \<or> rc_clock c = []")
    case True
    with 1(4,5) show ?thesis
      by (subst row_cache_evict.simps) (auto simp: row_cache_ok_def)
  next
    case False
    then obtain victim rest where "rc_clock c = victim # rest" by (auto simp: neq_Nil_conv)
    with False 1(5) show ?thesis
      by (subst row_cache_evict.simps)
        (auto split: option.split intro!: order_trans[OF 1(1)] order_trans[OF 1(2)]
          order_trans[OF 1(3)] dest: evict_turn_ok[OF 1(4)])
  qed
qed

lemma row_cache_insert_ok: "row_cache_ok c \<Longrightarrow> row_cache_ok (row_cache_insert k v c)"
proof -
  assume ok: "row_cache_ok c"
  define d where "d = row_cache_evict (row_bytes k v) c"
  have d: "row_cache_ok d" "rc_budget d = rc_budget c"
    using ok by (simp_all add: d_def row_cache_evict_ok)
  have room: "rc_bytes d + row_bytes k v \<le> rc_budget c" if "row_bytes k v \<le> rc_budget c div 8"
    using row_cache_evict_room[OF ok, of "row_bytes k v"] that by (simp add: d_def)
  let ?row = "\<lparr> cr_value = v, cr_referenced = False \<rparr>"
  consider "rc_budget c = 0 \<or> rc_budget c div 8 < row_bytes k v"
    | "rc_budget c \<noteq> 0" "row_bytes k v \<le> rc_budget c div 8" "rget (rc_entries d) k = None"
    | p where "rc_budget c \<noteq> 0" "row_bytes k v \<le> rc_budget c div 8" "rget (rc_entries d) k = Some p"
    by force
  then show ?thesis
  proof cases
    case 1
    with ok show ?thesis by (auto simp: row_cache_insert_def)
  next
    case 2
    with d room weight_rput_new[of "rc_entries d" k ?row] show ?thesis
      by (auto simp: row_cache_insert_def d_def[symmetric] row_cache_ok_def keys_rput)
  next
    case 3
    then have "k \<in> set (rc_clock d)"
      using d(1) rget_None[of "rc_entries d" k] by (auto simp: row_cache_ok_def)
    moreover have "row_cache_insert k v c =
        d\<lparr> rc_entries := rput k ?row (rc_entries d),
           rc_bytes := rc_bytes d - length (cr_value p) + (row_bytes k v - length k * 2) \<rparr>"
      using 3 by (simp add: row_cache_insert_def Let_def d_def[symmetric])
    ultimately show ?thesis
      using 3 d room weight_rput_old[of "rc_entries d" k p ?row] weight_le[of "rc_entries d" k p]
      by (auto simp: row_cache_ok_def keys_rput row_bytes_def)
  qed
qed

section \<open>Reads through the cache\<close>

text \<open>
  A cache is coherent with a store when every row it holds is the store's row.
\<close>

definition coherent :: "(bytes \<Rightarrow> bytes option) \<Rightarrow> row_cache \<Rightarrow> bool" where
  "coherent db c \<longleftrightarrow> (\<forall>k e. rget (rc_entries c) k = Some e \<longrightarrow> db k = Some (cr_value e))"

lemma coherentI: "(\<And>k e. rget (rc_entries c) k = Some e \<Longrightarrow> db k = Some (cr_value e)) \<Longrightarrow> coherent db c"
  by (simp add: coherent_def)

lemma coherentD: "coherent db c \<Longrightarrow> rget (rc_entries c) k = Some e \<Longrightarrow> db k = Some (cr_value e)"
  by (simp add: coherent_def)

lemma evict_turn_coherent:
  assumes "coherent db c" "row_cache_ok c"
  shows "coherent db (c\<lparr> rc_clock := rest \<rparr>)"
    and "coherent db
      (c\<lparr> rc_entries := rmodify victim (\<lambda>r. r\<lparr> cr_referenced := False \<rparr>) (rc_entries c),
         rc_clock := rest @ [victim] \<rparr>)"
    and "coherent db
      (c\<lparr> rc_entries := rdel victim (rc_entries c), rc_clock := rest, rc_bytes := n \<rparr>)"
  using assms by (auto simp: row_cache_ok_def coherent_def)

lemma evict_coherent: "row_cache_ok c \<Longrightarrow> coherent db c \<Longrightarrow> coherent db (row_cache_evict n c)"
proof (induction n c rule: row_cache_evict.induct)
  case (1 n c)
  note turn = evict_turn_coherent[OF 1(5,4)]
  from 1(5) show ?case
    by (subst row_cache_evict.simps)
      (auto split: list.split option.split intro: 1(1-3) turn evict_turn_ok[OF 1(4)])
qed

lemma insert_coherent:
  assumes "row_cache_ok c" "coherent db c" "db k = Some v"
  shows "coherent db (row_cache_insert k v c)"
  using evict_coherent[OF assms(1,2), of "row_bytes k v"] assms(2,3)
  by (auto simp: row_cache_insert_def Let_def coherent_def split: option.splits)

lemma rget_invalidate:
  "row_cache_ok c \<Longrightarrow> rc_budget c \<noteq> 0 \<Longrightarrow>
     rget (rc_entries (row_cache_invalidate k c)) x = (if x = k then None else rget (rc_entries c) x)"
  by (auto simp: row_cache_invalidate_def row_cache_ok_def split: option.splits)

lemma budget_simps [simp]:
  "rc_budget (row_cache_insert k v c) = rc_budget c"
  "rc_budget (row_cache_invalidate k c) = rc_budget c"
  "rc_budget (snd (row_cache_get k c)) = rc_budget c"
  by (auto simp: row_cache_insert_def row_cache_invalidate_def row_cache_get_def Let_def
      split: option.splits)

text \<open>With a budget of zero the cache never holds a row.\<close>

definition serves :: "(bytes \<Rightarrow> bytes option) \<Rightarrow> row_cache \<Rightarrow> bool" where
  "serves db c \<longleftrightarrow> row_cache_ok c \<and> coherent db c \<and> (rc_budget c = 0 \<longrightarrow> rc_entries c = [])"

lemma serves_with_budget: "serves db (with_budget b)"
  by (simp add: serves_def row_cache_ok_with_budget) (simp add: coherent_def with_budget_def)

lemma serves_invalidate:
  assumes "serves db c" "\<And>x. x \<noteq> k \<Longrightarrow> db' x = db x"
  shows "serves db' (row_cache_invalidate k c)"
proof (cases "rc_budget c = 0")
  case True
  with assms show ?thesis
    by (auto simp: serves_def row_cache_invalidate_def coherent_def)
next
  case False
  with assms show ?thesis
    by (auto simp: serves_def row_cache_invalidate_ok rget_invalidate coherent_def)
qed

lemma serves_insert: "serves db c \<Longrightarrow> db k = Some v \<Longrightarrow> serves db (row_cache_insert k v c)"
  by (auto simp: serves_def row_cache_insert_ok insert_coherent)
    (simp add: row_cache_insert_def)

lemma serves_get:
  assumes "serves db c"
  shows "serves db (snd (row_cache_get k c))"
    and "fst (row_cache_get k c) = Some v \<Longrightarrow> db k = Some v"
  using assms row_cache_get_ok[of c k]
  by (auto simp: serves_def row_cache_get_def coherent_def split: option.splits if_splits)

text \<open>A read through the cache answers what the store answers, hit or miss.\<close>

lemma cached_get_serves:
  assumes "serves db c"
  shows "fst (cached_get (\<lambda>k. Inr (db k)) k c) = Inr (db k)"
    and "serves db (snd (cached_get (\<lambda>k. Inr (db k)) k c))"
  using serves_get[OF assms, of k] serves_insert[of db "snd (row_cache_get k c)" k]
  by (auto simp: cached_get_def split: prod.split option.split)

lemma serves_invalidate_batch:
  "serves db c \<Longrightarrow> (\<And>x. x \<notin> set keys \<Longrightarrow> db' x = db x) \<Longrightarrow> serves db' (invalidate_batch keys c)"
proof (induction keys arbitrary: db c)
  case (Cons k keys)
  let ?mid = "db(k := db' k)"
  have "serves ?mid (row_cache_invalidate k c)"
    using Cons.prems(1) by (rule serves_invalidate) simp
  moreover have "db' x = ?mid x" if "x \<notin> set keys" for x
    using Cons.prems(2)[of x] that by auto
  ultimately have "serves db' (invalidate_batch keys (row_cache_invalidate k c))"
    by (rule Cons.IH)
  then show ?case by (simp add: invalidate_batch_def)
qed (auto simp: invalidate_batch_def serves_def coherent_def)

text \<open>
  A history of the engine as the cache sees it: reads of single keys and commits
  of batches, each a list of keys with their new value or a deletion.  A commit
  makes its writes visible and then drops their keys from the cache.
\<close>

datatype row_event = ReadRow bytes | CommitRows "(bytes \<times> bytes option) list"

definition commit_rows :: "(bytes \<times> bytes option) list \<Rightarrow> (bytes \<Rightarrow> bytes option) \<Rightarrow> bytes \<Rightarrow> bytes option" where
  "commit_rows ops db = fold (\<lambda>(k, v) m. m(k := v)) ops db"

fun cached_run ::
  "row_event list \<Rightarrow> (bytes \<Rightarrow> bytes option) \<Rightarrow> row_cache
     \<Rightarrow> (vyrn_error + bytes option) list \<times> row_cache" where
  "cached_run [] db c = ([], c)"
| "cached_run (ReadRow k # es) db c =
     (let (answer, c) = cached_get (\<lambda>k. Inr (db k)) k c;
          (answers, c) = cached_run es db c
      in (answer # answers, c))"
| "cached_run (CommitRows ops # es) db c =
     cached_run es (commit_rows ops db) (invalidate_batch (map fst ops) c)"

fun plain_run ::
  "row_event list \<Rightarrow> (bytes \<Rightarrow> bytes option) \<Rightarrow> (vyrn_error + bytes option) list" where
  "plain_run [] db = []"
| "plain_run (ReadRow k # es) db = Inr (db k) # plain_run es db"
| "plain_run (CommitRows ops # es) db = plain_run es (commit_rows ops db)"

lemma commit_rows_other: "x \<notin> fst ` set ops \<Longrightarrow> commit_rows ops db x = db x"
  unfolding commit_rows_def by (induction ops arbitrary: db) auto

lemma cached_run_serves:
  "serves db c \<Longrightarrow> fst (cached_run es db c) = plain_run es db \<and> row_cache_ok (snd (cached_run es db c))"
proof (induction es db c rule: cached_run.induct)
  case (2 k es db c)
  then show ?case
    using cached_get_serves[OF 2(2), of k] by (auto split: prod.split)
next
  case (3 ops es db c)
  have "serves (commit_rows ops db) (invalidate_batch (map fst ops) c)"
    using 3(2) by (rule serves_invalidate_batch) (simp add: commit_rows_other)
  with 3(1) show ?case by simp
qed (simp add: serves_def)

lemma budget_run [simp]: "rc_budget (snd (cached_run es db c)) = rc_budget c"
proof (induction es db c rule: cached_run.induct)
  case (2 k es db c)
  moreover have "rc_budget (snd (cached_get (\<lambda>k. Inr (db k)) k c)) = rc_budget c"
    using budget_simps(3)[of k c]
    by (auto simp: cached_get_def simp del: budget_simps(3) split: prod.split option.split)
  ultimately show ?case by (auto split: prod.split)
next
  case (3 ops es db c)
  have "rc_budget (invalidate_batch ks c) = rc_budget c" for ks c
    unfolding invalidate_batch_def by (induction ks arbitrary: c) auto
  with 3 show ?case by simp
qed simp

text \<open>A hot key: read after each of its commits.\<close>

definition hot_key_rounds :: "nat \<Rightarrow> bytes \<Rightarrow> bytes \<Rightarrow> row_event list" where
  "hot_key_rounds n k v = concat (replicate n [ReadRow k, CommitRows [(k, Some v)]])"

lemma hot_key_round:
  assumes "rc_entries c = []" "rc_bytes c = 0" "db k = Some v" "0 < rc_budget c"
    "row_bytes k v \<le> rc_budget c div 8"
  shows "snd (cached_run (hot_key_rounds n k v) db c) = c\<lparr> rc_clock := rc_clock c @ replicate n k \<rparr>"
  using assms
proof (induction n arbitrary: c db)
  case 0
  then show ?case by (simp add: hot_key_rounds_def)
next
  case (Suc n)
  have evict: "row_cache_evict (row_bytes k v) c = c"
    using Suc.prems by (subst row_cache_evict.simps) simp
  have read: "cached_get (\<lambda>k. Inr (db k)) k c =
      (Inr (Some v), c\<lparr> rc_entries := [(k, \<lparr> cr_value = v, cr_referenced = False \<rparr>)],
                       rc_clock := rc_clock c @ [k], rc_bytes := row_bytes k v \<rparr>)"
    using Suc.prems by (simp add: cached_get_def row_cache_get_def row_cache_insert_def evict)
  have "invalidate_batch [k] (snd (cached_get (\<lambda>k. Inr (db k)) k c)) = c\<lparr> rc_clock := rc_clock c @ [k] \<rparr>"
    using Suc.prems by (simp add: read invalidate_batch_def row_cache_invalidate_def)
  moreover have "commit_rows [(k, Some v)] db = db"
    using Suc.prems by (auto simp: commit_rows_def)
  ultimately show ?case
    using Suc.IH[of "c\<lparr> rc_clock := rc_clock c @ [k] \<rparr>" db] Suc.prems
    by (simp add: hot_key_rounds_def read split_def Let_def)
qed

section \<open>Correctness\<close>

text \<open>
  C31: Over every history of reads and commits, the reads served through a fresh
  row cache of any budget answer exactly what the store answers without it, and
  at the end the cache's byte count is the exact weight of its rows and within
  the budget.
\<close>

theorem row_cache_transparent:
  "fst (cached_run es db (with_budget b)) = plain_run es db \<and>
   rc_bytes (snd (cached_run es db (with_budget b))) =
     sum_list (map row_weight (rc_entries (snd (cached_run es db (with_budget b))))) \<and>
   rc_bytes (snd (cached_run es db (with_budget b))) \<le> b"
  using cached_run_serves[OF serves_with_budget, of es db b] budget_run[of es db "with_budget b"]
  by (simp add: row_cache_ok_def with_budget_def)

text \<open>
  C32: The eviction loop always ends, and on a well-formed cache it ends with room
  for the row that asked for it, every row that fits the budget included.
\<close>

theorem eviction_makes_room:
  assumes "row_cache_ok c" "need \<le> rc_budget c"
  shows "rc_bytes (row_cache_evict need c) + need \<le> rc_budget c \<and>
    row_cache_ok (row_cache_evict need c)"
  using row_cache_evict_room[OF assms] row_cache_evict_ok[OF assms(1)] by simp

text \<open>
  The eviction ring is not bounded by the budget.  A key that is read after
  each of its commits leaves one more slot in the ring every time, while the cache
  never holds more than the one row.
\<close>

lemma hot_key_grows_ring:
  assumes "db k = Some v" "0 < b" "row_bytes k v \<le> b div 8"
  shows "rc_bytes (snd (cached_run (hot_key_rounds n k v) db (with_budget b))) = 0 \<and>
    length (rc_clock (snd (cached_run (hot_key_rounds n k v) db (with_budget b)))) = n"
  using hot_key_round[of "with_budget b" db k v n] assms by (simp add: with_budget_def)

section \<open>Witnesses\<close>

theorem eviction_makes_room_witness:
  "let c = row_cache_insert [2] [7, 7] (row_cache_insert [1] [5, 5] (with_budget 32))
   in row_cache_ok c \<and> rc_bytes c = 8 \<and>
      rc_bytes (row_cache_evict 28 c) + 28 \<le> 32 \<and> rc_entries (row_cache_evict 28 c) = [([2], \<lparr> cr_value = [7, 7], cr_referenced = False \<rparr>)]"
proof -
  let ?c = "row_cache_insert [2] [7, 7] (row_cache_insert [1] [5, 5] (with_budget 32))"
  have "row_cache_ok ?c" by (intro row_cache_insert_ok row_cache_ok_with_budget)
  moreover have "rc_bytes ?c = 8" "rc_budget ?c = 32"
    "rc_entries (row_cache_evict 28 ?c) = [([2], \<lparr> cr_value = [7, 7], cr_referenced = False \<rparr>)]"
    by code_simp+
  ultimately show ?thesis
    using eviction_makes_room[of ?c 28] by simp
qed

theorem hot_key_grows_ring_witness:
  "rc_bytes (snd (cached_run (hot_key_rounds 1000 [1] [2]) (\<lambda>_. Some [2]) (with_budget 64))) = 0 \<and>
   length (rc_clock (snd (cached_run (hot_key_rounds 1000 [1] [2]) (\<lambda>_. Some [2]) (with_budget 64)))) = 1000"
  using hot_key_grows_ring[of "\<lambda>_. Some [2]" "[1]" "[2]" 64 1000] by (simp add: row_bytes_def)

end
