(* ===== verification/PageFormat.thy ===== *)
theory PageFormat
  imports ValueLog
begin

text \<open>
  The page format of the copy-on-write tree (\<open>crates/vyrn-core/src/page_tree.rs\<close>):
  4 KiB pages with a checksummed header, and blob chains for long keys.  A store
  is the list of its pages, page \<open>i\<close> at position \<open>i\<close>; pages are only ever
  appended.  The writers are positioned writes into a zeroed page, the readers
  parse bytes at offsets.  The lemmas show that an appended page validates and
  keeps its bytes, that a blob is read back from its chain of pages, and that
  appending pages never changes what an earlier page says.
\<close>

section \<open>Constants and accessors\<close>

type_synonym page = bytes
type_synonym page_store = "page list"

definition PAGE_SIZE :: nat where "PAGE_SIZE = 4 * 1024"
definition HEADER_SIZE :: nat where "HEADER_SIZE = 40"
definition PAGE_MAGIC :: bytes where "PAGE_MAGIC = ascii ''VPGE''"
definition PAGE_VERSION :: byte where "PAGE_VERSION = 5"
definition LEGACY_PAGE_VERSION :: byte where "LEGACY_PAGE_VERSION = 4"
definition SLOT_SIZE :: nat where "SLOT_SIZE = 2"
definition SUPER :: byte where "SUPER = 1"
definition LEAF :: byte where "LEAF = 2"
definition INTERNAL :: byte where "INTERNAL = 3"
definition BLOB :: byte where "BLOB = 4"
definition INLINE_LIMIT :: nat where "INLINE_LIMIT = 1024"
definition LEAF_CELL_HEADER :: nat where "LEAF_CELL_HEADER = 33"
definition INTERNAL_CELL_HEADER :: nat where "INTERNAL_CELL_HEADER = 21"
definition EXTERNAL_KEY :: byte where "EXTERNAL_KEY = 1"
definition EXTERNAL_VALUE :: byte where "EXTERNAL_VALUE = 2"
definition UNDERFULL_BYTES :: nat where "UNDERFULL_BYTES = PAGE_SIZE div 4"
definition MAX_LEAF_ENTRIES :: nat where
  "MAX_LEAF_ENTRIES = (PAGE_SIZE - HEADER_SIZE) div LEAF_CELL_HEADER"
definition MAX_INTERNAL_CHILDREN :: nat where
  "MAX_INTERNAL_CHILDREN = (PAGE_SIZE - HEADER_SIZE) div INTERNAL_CELL_HEADER + 1"
definition MAX_TREE_DEPTH :: nat where "MAX_TREE_DEPTH = 64"

lemmas size_consts = PAGE_SIZE_def HEADER_SIZE_def SLOT_SIZE_def INLINE_LIMIT_def
  LEAF_CELL_HEADER_def INTERNAL_CELL_HEADER_def

lemma count_consts: "MAX_LEAF_ENTRIES = 122" "MAX_INTERNAL_CHILDREN = 194" "UNDERFULL_BYTES = 1024"
  by (simp_all add: MAX_LEAF_ENTRIES_def MAX_INTERNAL_CHILDREN_def UNDERFULL_BYTES_def size_consts)

lemmas tag_consts = SUPER_def LEAF_def INTERNAL_def BLOB_def EXTERNAL_KEY_def EXTERNAL_VALUE_def
  PAGE_VERSION_def LEGACY_PAGE_VERSION_def

definition read_u16 :: "bytes \<Rightarrow> nat \<Rightarrow> u16" where "read_u16 bs offset = u16_of_be (bslice bs offset 2)"
definition read_u32 :: "bytes \<Rightarrow> nat \<Rightarrow> u32" where "read_u32 bs offset = u32_of_be (bslice bs offset 4)"
definition read_u64 :: "bytes \<Rightarrow> nat \<Rightarrow> u64" where "read_u64 bs offset = u64_of_be (bslice bs offset 8)"

text \<open>\<open>copy_from_slice\<close> into a subrange of a page; the \<open>write_u*\<close> accessors are instances.\<close>

definition write_at :: "bytes \<Rightarrow> nat \<Rightarrow> bytes \<Rightarrow> bytes" where
  "write_at p offset bs = take offset p @ bs @ drop (offset + length bs) p"

lemma length_write_at [simp]: "offset + length bs \<le> length p \<Longrightarrow> length (write_at p offset bs) = length p"
  by (simp add: write_at_def)

lemma nth_write_at:
  "offset + length bs \<le> length p \<Longrightarrow> i < length p \<Longrightarrow>
     write_at p offset bs ! i =
       (if i < offset then p ! i else if i < offset + length bs then bs ! (i - offset) else p ! i)"
  by (auto simp: write_at_def nth_append min_def)

lemma bslice_write_same:
  "offset + length bs \<le> length p \<Longrightarrow> n = length bs \<Longrightarrow> bslice (write_at p offset bs) offset n = bs"
  by (simp add: write_at_def bslice_def)

lemma bslice_eqI:
  "length xs = length ys \<Longrightarrow> (\<And>i. a \<le> i \<Longrightarrow> i < a + n \<Longrightarrow> i < length ys \<Longrightarrow> xs ! i = ys ! i) \<Longrightarrow>
     bslice xs a n = bslice ys a n"
  by (rule nth_equalityI) (auto simp: bslice_def)

lemma bslice_write_other:
  "offset + length bs \<le> length p \<Longrightarrow> a + n \<le> offset \<or> offset + length bs \<le> a \<Longrightarrow>
     bslice (write_at p offset bs) a n = bslice p a n"
  by (rule bslice_eqI) (auto simp: nth_write_at)

lemma write_at_seq:
  "offset + length a \<le> length p \<Longrightarrow> m = offset + length a \<Longrightarrow>
     write_at (write_at p offset a) m b = write_at p offset (a @ b)"
  by (simp add: write_at_def ac_simps)

lemma bslice_nth: "n < m \<Longrightarrow> a + n < length p \<Longrightarrow> bslice p a m ! n = p ! (a + n)"
  by (simp add: bslice_def)

section \<open>Page header\<close>

definition new_page :: "byte \<Rightarrow> u64 \<Rightarrow> page" where
  "new_page page_type page_id =
     write_at (write_at (write_at (write_at (replicate PAGE_SIZE 0) 0 PAGE_MAGIC) 4 [PAGE_VERSION])
       5 [page_type]) 8 (u64_to_be page_id)"

definition finalize_page :: "(bytes \<Rightarrow> u32) \<Rightarrow> page \<Rightarrow> page" where
  "finalize_page crc p =
     (let p = write_at p 16 (u32_to_be 0) in write_at p 16 (u32_to_be (crc p)))"

definition validate_page :: "(bytes \<Rightarrow> u32) \<Rightarrow> page \<Rightarrow> u64 \<Rightarrow> vyrn_error + unit" where
  "validate_page crc p page_id =
     (if bslice p 0 4 \<noteq> PAGE_MAGIC \<or> read_u64 p 8 \<noteq> page_id
      then Inl (CorruptPage page_id ''invalid page header'')
      else if p ! 4 \<noteq> PAGE_VERSION \<and> p ! 4 \<noteq> LEGACY_PAGE_VERSION
      then Inl (CorruptPage page_id (''unsupported page format version '' @ show_nat (unat (p ! 4))))
      else if read_u32 p 16 \<noteq> crc (write_at p 16 (u32_to_be 0))
      then Inl (CorruptPage page_id ''checksum mismatch'')
      else Inr ())"

definition unexpected_type :: "u64 \<Rightarrow> byte \<Rightarrow> vyrn_error" where
  "unexpected_type page_id page_type =
     CorruptPage page_id (''unexpected page type '' @ show_nat (unat page_type))"

definition require_type :: "page \<Rightarrow> u64 \<Rightarrow> byte \<Rightarrow> vyrn_error + unit" where
  "require_type p page_id expected =
     (if p ! 5 \<noteq> expected then Inl (unexpected_type page_id (p ! 5)) else Inr ())"

definition excessive_depth :: "u64 \<Rightarrow> vyrn_error" where
  "excessive_depth page_id =
     CorruptPage page_id (''tree descent deeper than '' @ show_nat MAX_TREE_DEPTH @
       '' levels; the page graph is cyclic or forged'')"

definition require_page :: "nat \<Rightarrow> nat \<Rightarrow> u64 \<Rightarrow> vyrn_error + unit" where
  "require_page offset len page_id =
     (if PAGE_SIZE < offset + len then Inl (CorruptPage page_id ''cell exceeds page boundary'')
      else Inr ())"

text \<open>Reading a page of the store and appending one, which stamps its id and checksum.\<close>

definition read_page :: "(bytes \<Rightarrow> u32) \<Rightarrow> page_store \<Rightarrow> u64 \<Rightarrow> vyrn_error + page" where
  "read_page crc ps page_id =
     (if length ps \<le> unat page_id
      then Inl (CorruptPage page_id ''page reference is out of bounds'')
      else let p = ps ! unat page_id
           in ebind (validate_page crc p page_id) (\<lambda>_. Inr p))"

definition append_page :: "(bytes \<Rightarrow> u32) \<Rightarrow> page_store \<Rightarrow> page \<Rightarrow> page_store \<times> u64" where
  "append_page crc ps p =
     (let page_id = word_of_nat (length ps)
      in (ps @ [finalize_page crc (write_at p 8 (u64_to_be page_id))], page_id))"

section \<open>Blobs\<close>

function blob_chunks :: "bytes \<Rightarrow> bytes list" where
  "blob_chunks bs =
     (if bs = [] then []
      else take (PAGE_SIZE - HEADER_SIZE) bs # blob_chunks (drop (PAGE_SIZE - HEADER_SIZE) bs))"
  by pat_completeness auto
termination
  by (relation "measure length") (auto simp: size_consts)

declare blob_chunks.simps [simp del]

definition blob_page :: "bytes \<Rightarrow> u64 \<Rightarrow> page" where
  "blob_page chunk next =
     write_at (write_at (write_at (new_page BLOB 0) 20 (u32_to_be (word_of_nat (length chunk))))
       24 (u64_to_be next)) HEADER_SIZE chunk"

fun write_blob_pages :: "(bytes \<Rightarrow> u32) \<Rightarrow> page_store \<Rightarrow> bytes list \<Rightarrow> page_store" where
  "write_blob_pages crc ps [] = ps"
| "write_blob_pages crc ps (chunk # chunks) =
     (let page_id = word_of_nat (length ps);
          next = (if chunks = [] then 0 else page_id + 1)
      in write_blob_pages crc (fst (append_page crc ps (blob_page chunk next))) chunks)"

definition write_blob :: "(bytes \<Rightarrow> u32) \<Rightarrow> page_store \<Rightarrow> bytes \<Rightarrow> page_store \<times> u64" where
  "write_blob crc ps bs =
     (if bs = [] then (ps, 0)
      else (write_blob_pages crc ps (blob_chunks bs), word_of_nat (length ps)))"

fun read_blob_pages ::
  "(bytes \<Rightarrow> u32) \<Rightarrow> page_store \<Rightarrow> nat \<Rightarrow> nat \<Rightarrow> u64 \<Rightarrow> bytes \<Rightarrow> vyrn_error + (bytes \<times> u64)" where
  "read_blob_pages crc ps 0 expected_len page_id result = Inr (result, page_id)"
| "read_blob_pages crc ps (Suc n) expected_len page_id result =
     (if page_id = 0 then Inr (result, page_id)
      else ebind (read_page crc ps page_id) (\<lambda>p.
           ebind (require_type p page_id BLOB) (\<lambda>_.
           let chunk_len = unat (read_u32 p 20)
           in if PAGE_SIZE - HEADER_SIZE < chunk_len \<or> expected_len < length result + chunk_len
              then Inl (CorruptPage page_id ''invalid blob chunk length'')
              else read_blob_pages crc ps n expected_len (read_u64 p 24)
                     (result @ bslice p HEADER_SIZE chunk_len))))"

definition read_blob ::
  "(bytes \<Rightarrow> u32) \<Rightarrow> page_store \<Rightarrow> u64 \<Rightarrow> nat \<Rightarrow> vyrn_error + bytes" where
  "read_blob crc ps first_page expected_len =
     (if expected_len = 0
      then if first_page = 0 then Inr []
           else Inl (CorruptPage first_page ''empty blob has a page reference'')
      else let max_pages = (expected_len + (PAGE_SIZE - HEADER_SIZE) - 1) div (PAGE_SIZE - HEADER_SIZE)
           in ebind (read_blob_pages crc ps max_pages expected_len first_page []) (\<lambda>(result, page_id).
              if length result \<noteq> expected_len \<or> page_id \<noteq> 0
              then Inl (CorruptPage first_page ''blob length does not match reference'')
              else Inr result))"

section \<open>Append-only stores\<close>

lemma length_PAGE_MAGIC [simp]: "length PAGE_MAGIC = 4"
  by (simp add: PAGE_MAGIC_def)

lemma length_new_page [simp]: "length (new_page t i) = PAGE_SIZE"
  by (simp add: new_page_def size_consts)

lemma new_page_fields:
  "bslice (new_page t i) 0 4 = PAGE_MAGIC" "new_page t i ! 4 = PAGE_VERSION" "new_page t i ! 5 = t"
  by (simp_all add: new_page_def size_consts bslice_write_other bslice_write_same nth_write_at
      del: bslice_0)

lemma length_finalize_page [simp]: "length p = PAGE_SIZE \<Longrightarrow> length (finalize_page crc p) = PAGE_SIZE"
  by (simp add: finalize_page_def Let_def size_consts)

text \<open>What the stamp leaves alone: every byte outside the id and the checksum.\<close>

lemma stamp_bslice:
  "length p = PAGE_SIZE \<Longrightarrow> a + n \<le> 8 \<or> 20 \<le> a \<Longrightarrow>
     bslice (finalize_page crc (write_at p 8 (u64_to_be i))) a n = bslice p a n"
  by (auto simp: finalize_page_def Let_def size_consts bslice_write_other simp del: bslice_0)

lemma stamp_nth:
  "length p = PAGE_SIZE \<Longrightarrow> k < PAGE_SIZE \<Longrightarrow> k < 8 \<or> 20 \<le> k \<Longrightarrow>
     finalize_page crc (write_at p 8 (u64_to_be i)) ! k = p ! k"
  by (auto simp: finalize_page_def Let_def size_consts nth_write_at)

lemma write_at_twice:
  "offset + length a \<le> length p \<Longrightarrow> length a = length b \<Longrightarrow>
     write_at (write_at p offset a) offset b = write_at p offset b"
  by (simp add: write_at_def)

lemma validate_stamped:
  assumes "length p = PAGE_SIZE" "bslice p 0 4 = PAGE_MAGIC" "p ! 4 = PAGE_VERSION"
  shows "validate_page crc (finalize_page crc (write_at p 8 (u64_to_be i))) i = Inr ()"
proof -
  let ?q = "write_at (write_at p 8 (u64_to_be i)) 16 (u32_to_be 0)"
  have q: "length ?q = PAGE_SIZE" using assms(1) by (simp add: size_consts)
  have f: "finalize_page crc (write_at p 8 (u64_to_be i)) = write_at ?q 16 (u32_to_be (crc ?q))"
    by (simp add: finalize_page_def Let_def)
  have "read_u64 (write_at ?q 16 (u32_to_be (crc ?q))) 8 = i"
    using assms(1) q
    by (simp add: read_u64_def bslice_write_other bslice_write_same size_consts)
  moreover have "read_u32 (write_at ?q 16 (u32_to_be (crc ?q))) 16 = crc ?q"
    using q by (simp add: read_u32_def bslice_write_same size_consts)
  moreover have "write_at (write_at ?q 16 (u32_to_be (crc ?q))) 16 (u32_to_be 0) = ?q"
    using q assms(1) write_at_twice[of 16 "u32_to_be 0" "write_at p 8 (u64_to_be i)" "u32_to_be 0"]
    by (subst write_at_twice) (simp_all add: size_consts)
  ultimately show ?thesis
    using assms stamp_bslice[OF assms(1), of 0 4 crc i] stamp_nth[OF assms(1), of 4 crc i]
    by (simp add: validate_page_def f size_consts del: bslice_0)
qed

definition page_wf :: "page \<Rightarrow> bool" where
  "page_wf p \<longleftrightarrow> length p = PAGE_SIZE \<and> bslice p 0 4 = PAGE_MAGIC \<and> p ! 4 = PAGE_VERSION"

lemma unat_page_id: "length ps < 2 ^ 64 \<Longrightarrow> unat (word_of_nat (length ps) :: u64) = length ps"
  by (simp add: unat_of_nat)

lemma read_page_mono:
  "read_page crc ps i = Inr p \<Longrightarrow> prefix ps qs \<Longrightarrow> read_page crc qs i = Inr p"
  by (auto simp: read_page_def prefix_def nth_append ebind_def Let_def split: if_splits sum.splits)

lemma append_page_fst: "fst (append_page crc ps p) = ps @ [finalize_page crc (write_at p 8 (u64_to_be (word_of_nat (length ps))))]"
  by (simp add: append_page_def Let_def)

lemma append_page_snd: "snd (append_page crc ps p) = word_of_nat (length ps)"
  by (simp add: append_page_def Let_def)

lemma prefix_append_page: "prefix ps (fst (append_page crc ps p))"
  by (simp add: append_page_fst)

lemma read_appended:
  fixes crc :: "bytes \<Rightarrow> u32"
  assumes "page_wf p" "length ps < 2 ^ 64"
  defines "q \<equiv> finalize_page crc (write_at p 8 (u64_to_be (word_of_nat (length ps))))"
  shows "read_page crc (ps @ [q]) (word_of_nat (length ps)) = Inr q"
  using assms validate_stamped[of p crc "word_of_nat (length ps)"]
  by (simp add: read_page_def unat_page_id page_wf_def q_def del: bslice_0)

lemma read_appended_in:
  assumes "page_wf p" "length ps < 2 ^ 64" "prefix (fst (append_page crc ps p)) qs"
  obtains q where "read_page crc qs (word_of_nat (length ps)) = Inr q" "length q = PAGE_SIZE"
    "\<And>a n. a + n \<le> 8 \<or> 20 \<le> a \<Longrightarrow> bslice q a n = bslice p a n"
    "\<And>k. k < PAGE_SIZE \<Longrightarrow> k < 8 \<or> 20 \<le> k \<Longrightarrow> q ! k = p ! k"
proof -
  let ?q = "finalize_page crc (write_at p 8 (u64_to_be (word_of_nat (length ps))))"
  have len: "length p = PAGE_SIZE" using assms(1) by (simp add: page_wf_def)
  have "read_page crc qs (word_of_nat (length ps)) = Inr ?q"
    using read_page_mono[OF read_appended[OF assms(1,2), of crc]] assms(3)
    by (simp add: append_page_fst)
  moreover have "length ?q = PAGE_SIZE" using len by (simp add: size_consts)
  ultimately show ?thesis
    using that[of ?q] stamp_bslice[OF len] stamp_nth[OF len] by blast
qed

lemma page_wf_new [simp]: "page_wf (new_page t i)"
  using new_page_fields[of t i] by (simp add: page_wf_def)

lemma page_wf_write:
  "page_wf p \<Longrightarrow> 5 \<le> offset \<Longrightarrow> offset + length bs \<le> PAGE_SIZE \<Longrightarrow> page_wf (write_at p offset bs)"
  by (simp add: page_wf_def bslice_write_other nth_write_at size_consts del: bslice_0)

section \<open>Blobs are read back\<close>

lemma blob_chunks_Nil [simp]: "blob_chunks [] = []"
  by (simp add: blob_chunks.simps)

lemma blob_chunks_Cons:
  "bs \<noteq> [] \<Longrightarrow> blob_chunks bs = take (PAGE_SIZE - HEADER_SIZE) bs # blob_chunks (drop (PAGE_SIZE - HEADER_SIZE) bs)"
  by (simp add: blob_chunks.simps)

lemma concat_blob_chunks [simp]: "concat (blob_chunks bs) = bs"
  by (induction bs rule: blob_chunks.induct) (subst blob_chunks.simps, simp)

lemma blob_chunks_length:
  "c \<in> set (blob_chunks bs) \<Longrightarrow> 0 < length c \<and> length c \<le> PAGE_SIZE - HEADER_SIZE"
proof (induction bs rule: blob_chunks.induct)
  case (1 bs)
  then show ?case
    by (cases "bs = []") (auto simp: blob_chunks_Cons size_consts)
qed

lemma ceil_div_step: "0 < n \<Longrightarrow> 0 < c \<Longrightarrow> (n + c - 1) div c = Suc ((n - c + c - 1) div c)" for n c :: nat
proof (cases "n \<le> c")
  case True
  moreover assume "0 < n" "0 < c"
  ultimately have "(n + c - 1) div c = 1" by (intro div_nat_eqI) auto
  with True \<open>0 < c\<close> show ?thesis by simp
next
  case False
  assume "0 < c"
  have "n + c - 1 = c + (n - c + c - 1)" using False by simp
  then show ?thesis using \<open>0 < c\<close> by (simp only: div_add_self1)
qed

lemma blob_chunks_count:
  "length (blob_chunks bs) = (length bs + (PAGE_SIZE - HEADER_SIZE) - 1) div (PAGE_SIZE - HEADER_SIZE)"
proof (induction bs rule: blob_chunks.induct)
  case (1 bs)
  show ?case
  proof (cases "bs = []")
    case False
    with 1 ceil_div_step[of "length bs" "PAGE_SIZE - HEADER_SIZE"] show ?thesis
      by (simp add: blob_chunks_Cons size_consts)
  qed (simp add: size_consts)
qed

lemma blob_page_fields:
  assumes "length chunk \<le> PAGE_SIZE - HEADER_SIZE"
  shows "page_wf (blob_page chunk next)" "blob_page chunk next ! 5 = BLOB"
    "unat (read_u32 (blob_page chunk next) 20) = length chunk"
    "read_u64 (blob_page chunk next) 24 = next"
    "bslice (blob_page chunk next) HEADER_SIZE (length chunk) = chunk"
proof -
  have len: "length chunk \<le> 4056" using assms by (simp add: size_consts)
  then show "page_wf (blob_page chunk next)"
    unfolding blob_page_def by (intro page_wf_write) (simp_all add: size_consts)
  show "blob_page chunk next ! 5 = BLOB"
    using len by (simp add: blob_page_def nth_write_at size_consts new_page_fields)
  show "unat (read_u32 (blob_page chunk next) 20) = length chunk"
    using len by (simp add: blob_page_def read_u32_def bslice_write_other bslice_write_same size_consts
        unat_word_of_nat_u32)
  show "read_u64 (blob_page chunk next) 24 = next"
    using len by (simp add: blob_page_def read_u64_def bslice_write_other bslice_write_same size_consts)
  show "bslice (blob_page chunk next) HEADER_SIZE (length chunk) = chunk"
    using len by (simp add: blob_page_def bslice_write_same size_consts)
qed

lemma prefix_write_blob_pages: "prefix ps (write_blob_pages crc ps cs)"
proof (induction cs arbitrary: ps)
  case (Cons c cs)
  then show ?case
    by (auto simp: Let_def intro: prefix_order.trans[OF prefix_append_page])
qed simp

lemma length_write_blob_pages: "length (write_blob_pages crc ps cs) = length ps + length cs"
  by (induction cs arbitrary: ps) (auto simp: Let_def append_page_fst)

lemma read_blob_pages_written:
  assumes "\<forall>c \<in> set cs. 0 < length c \<and> length c \<le> PAGE_SIZE - HEADER_SIZE" "ps \<noteq> []"
    "length ps + length cs < 2 ^ 64" "prefix (write_blob_pages crc ps cs) qs"
    "n = length result + length (concat cs)"
  shows "read_blob_pages crc qs (length cs) n (if cs = [] then 0 else word_of_nat (length ps)) result =
    Inr (result @ concat cs, 0)"
  using assms
proof (induction cs arbitrary: ps result)
  case (Cons c cs)
  let ?id = "word_of_nat (length ps) :: u64"
  let ?next = "if cs = [] then 0 else ?id + 1"
  let ?ps = "fst (append_page crc ps (blob_page c ?next))"
  have c: "length c \<le> PAGE_SIZE - HEADER_SIZE" using Cons.prems(1) by simp
  note fields = blob_page_fields[OF c, of ?next]
  have pre: "prefix (write_blob_pages crc ?ps cs) qs" using Cons.prems(4) by (simp add: Let_def)
  then have "prefix ?ps qs" using prefix_write_blob_pages prefix_order.trans by blast
  then obtain q where q: "read_page crc qs ?id = Inr q" "length q = PAGE_SIZE"
    and same: "\<And>a n. a + n \<le> 8 \<or> 20 \<le> a \<Longrightarrow> bslice q a n = bslice (blob_page c ?next) a n"
      "\<And>k. k < PAGE_SIZE \<Longrightarrow> k < 8 \<or> 20 \<le> k \<Longrightarrow> q ! k = blob_page c ?next ! k"
    using read_appended_in[OF fields(1), of ps crc qs] Cons.prems(3) by auto
  have "unat ?id = length ps" using Cons.prems(3) by (intro unat_page_id) simp
  then have id0: "?id \<noteq> 0" using Cons.prems(2) by auto
  have "read_blob_pages crc qs (length cs) n (if cs = [] then 0 else word_of_nat (length ?ps)) (result @ c) =
      Inr ((result @ c) @ concat cs, 0)"
    using Cons.prems pre by (intro Cons.IH) (auto simp: append_page_fst)
  moreover have "(if cs = [] then 0 else word_of_nat (length ?ps)) = ?next"
    by (simp add: append_page_fst)
  ultimately have "read_blob_pages crc qs (length cs) n ?next (result @ c) =
      Inr ((result @ c) @ concat cs, 0)" by argo
  moreover have "read_u32 q 20 = read_u32 (blob_page c ?next) 20" "read_u64 q 24 = ?next"
      "bslice q HEADER_SIZE (length c) = c"
    using same(1) fields by (simp_all add: read_u32_def read_u64_def HEADER_SIZE_def)
  moreover have "require_type q ?id BLOB = Inr ()"
    using same(2)[of 5] fields by (simp add: require_type_def PAGE_SIZE_def)
  ultimately show ?case
    using q id0 c fields(3) Cons.prems(5) by (simp add: Let_def)
qed simp

lemma prefix_write_blob: "prefix ps (fst (write_blob crc ps bs))"
  by (simp add: write_blob_def prefix_write_blob_pages)

lemma length_write_blob: "length ps \<le> length (fst (write_blob crc ps bs))"
  by (simp add: write_blob_def length_write_blob_pages)

lemma read_written_blob:
  assumes "bs \<noteq> []" "ps \<noteq> []" "prefix (fst (write_blob crc ps bs)) qs"
    "length (fst (write_blob crc ps bs)) < 2 ^ 64"
  shows "read_blob crc qs (snd (write_blob crc ps bs)) (length bs) = Inr bs"
proof -
  have "blob_chunks bs \<noteq> []" using assms(1) by (simp add: blob_chunks_Cons)
  then have "read_blob_pages crc qs (length (blob_chunks bs)) (length bs) (word_of_nat (length ps)) [] =
      Inr (bs, 0)"
    using read_blob_pages_written[of "blob_chunks bs" ps crc qs "length bs" "[]"] assms blob_chunks_length
    by (auto simp: write_blob_def length_write_blob_pages)
  then show ?thesis
    using assms(1) by (simp add: read_blob_def write_blob_def blob_chunks_count)
qed

lemma read_blob_pages_mono:
  "read_blob_pages crc ps n len i r = Inr x \<Longrightarrow> prefix ps qs \<Longrightarrow> read_blob_pages crc qs n len i r = Inr x"
  by (induction n arbitrary: i r) (auto simp: ebind_Inr_iff Let_def dest: read_page_mono split: if_splits)

lemma read_blob_mono:
  "read_blob crc ps i n = Inr bs \<Longrightarrow> prefix ps qs \<Longrightarrow> read_blob crc qs i n = Inr bs"
  by (auto simp: read_blob_def ebind_Inr_iff Let_def dest: read_blob_pages_mono split: if_splits)
end
