(* ===== verification/PageCells.thy ===== *)
theory PageCells
  imports PageFormat
begin

text \<open>
  The cells of leaf and internal pages (\<open>crates/vyrn-core/src/page_tree.rs\<close>): their
  encoders and decoders, the slot directory, the page writers, and every reader
  that looks inside one page: the full decode, the binary search of a leaf, the
  sequential walk of a page without a directory, and the choice of the child that
  owns a key.  The theory holds the definitions; \<open>PageLayout\<close> and
  \<open>InternalLayout\<close> prove that the readers answer from what the writers laid out.
\<close>

unbundle bit_operations_syntax

section \<open>Entries and node references\<close>

datatype entry_value = Inline bytes | External value_ref

record entry =
  en_key :: bytes
  en_value :: entry_value
  en_revision :: u64

record node_ref =
  nr_page_id :: u64
  nr_min_key :: bytes

fun inline_len :: "entry_value \<Rightarrow> nat" where
  "inline_len (Inline v) = length v"
| "inline_len (External r) = 0"

definition leaf_cell_size :: "entry \<Rightarrow> nat" where
  "leaf_cell_size e =
     LEAF_CELL_HEADER + (if length (en_key e) \<le> INLINE_LIMIT then length (en_key e) else 0)
       + inline_len (en_value e)"

definition internal_cell_size :: "bytes \<Rightarrow> nat" where
  "internal_cell_size key =
     INTERNAL_CELL_HEADER + (if length key \<le> INLINE_LIMIT then length key else 0)"

section \<open>The slot directory\<close>

record slots =
  sl_page :: page
  sl_count :: nat
  sl_dir_start :: nat

definition page_slots :: "page \<Rightarrow> nat \<Rightarrow> slots option" where
  "page_slots p count =
     (if p ! 4 = PAGE_VERSION
      then Some \<lparr> sl_page = p, sl_count = count, sl_dir_start = PAGE_SIZE - count * SLOT_SIZE \<rparr>
      else None)"

definition slot_cell :: "slots \<Rightarrow> nat \<Rightarrow> nat \<Rightarrow> u64 \<Rightarrow> vyrn_error + (nat \<times> nat)" where
  "slot_cell sl index header page_id =
     (let offset = unat (read_u16 (sl_page sl) (sl_dir_start sl + index * SLOT_SIZE));
          until = (if index + 1 < sl_count sl
                   then unat (read_u16 (sl_page sl) (sl_dir_start sl + (index + 1) * SLOT_SIZE))
                   else sl_dir_start sl)
      in if offset < HEADER_SIZE \<or> sl_dir_start sl < until \<or> until < offset + header
         then Inl (CorruptPage page_id ''invalid slot directory entry'')
         else Inr (offset, until))"

section \<open>Writing leaf pages\<close>

definition entry_flags :: "entry \<Rightarrow> byte" where
  "entry_flags e =
     (if INLINE_LIMIT < length (en_key e) then EXTERNAL_KEY else 0) OR
     (case en_value e of External _ \<Rightarrow> EXTERNAL_VALUE | Inline _ \<Rightarrow> 0)"

definition entry_value_len :: "entry \<Rightarrow> u32" where
  "entry_value_len e =
     (case en_value e of Inline v \<Rightarrow> word_of_nat (length v) | External r \<Rightarrow> vr_len r)"

definition entry_value_offset :: "entry \<Rightarrow> u64" where
  "entry_value_offset e = (case en_value e of Inline _ \<Rightarrow> 0 | External r \<Rightarrow> vr_offset r)"

definition encode_leaf_cell ::
  "(bytes \<Rightarrow> u32) \<Rightarrow> page_store \<Rightarrow> page \<Rightarrow> nat \<Rightarrow> entry \<Rightarrow> page_store \<times> page \<times> nat" where
  "encode_leaf_cell crc ps p offset e =
     (let key_external = INLINE_LIMIT < length (en_key e);
          p = write_at p offset [entry_flags e];
          p = write_at p (offset + 1) (u32_to_be (word_of_nat (length (en_key e))));
          p = write_at p (offset + 5) (u32_to_be (entry_value_len e));
          (ps, key_page) = (if key_external then write_blob crc ps (en_key e) else (ps, 0));
          p = write_at p (offset + 9) (u64_to_be key_page);
          p = write_at p (offset + 17) (u64_to_be (entry_value_offset e));
          p = write_at p (offset + 25) (u64_to_be (en_revision e));
          offset = offset + LEAF_CELL_HEADER;
          (p, offset) = (if key_external then (p, offset)
                         else (write_at p offset (en_key e), offset + length (en_key e)))
      in case en_value e of
           Inline v \<Rightarrow> (ps, write_at p offset v, offset + length v)
         | External r \<Rightarrow> (ps, p, offset))"

fun write_leaf_cells ::
  "(bytes \<Rightarrow> u32) \<Rightarrow> page_store \<Rightarrow> page \<Rightarrow> nat \<Rightarrow> nat \<Rightarrow> nat \<Rightarrow> entry list \<Rightarrow> page_store \<times> page \<times> nat" where
  "write_leaf_cells crc ps p dir_start index offset [] = (ps, p, offset)"
| "write_leaf_cells crc ps p dir_start index offset (e # es) =
     (let p = write_at p (dir_start + index * SLOT_SIZE) (u16_to_be (word_of_nat offset));
          (ps, p, offset) = encode_leaf_cell crc ps p offset e
      in write_leaf_cells crc ps p dir_start (index + 1) offset es)"

definition write_leaf ::
  "(bytes \<Rightarrow> u32) \<Rightarrow> page_store \<Rightarrow> entry list \<Rightarrow> vyrn_error + (page_store \<times> node_ref)" where
  "write_leaf crc ps entries =
     (case entries of
        [] \<Rightarrow> Inl (CorruptPage 0 ''cannot write an empty leaf'')
      | first # _ \<Rightarrow>
          let p = write_at (new_page LEAF 0) 20 (u32_to_be (word_of_nat (length entries)));
              dir_start = PAGE_SIZE - length entries * SLOT_SIZE;
              (ps, p, offset) = write_leaf_cells crc ps p dir_start 0 HEADER_SIZE entries
          in if dir_start < offset
             then Inl (CorruptPage 0 ''leaf cells overlap the slot directory'')
             else let (ps, page_id) = append_page crc ps p
                  in Inr (ps, \<lparr> nr_page_id = page_id, nr_min_key = en_key first \<rparr>))"

section \<open>Reading leaf pages\<close>

definition leaf_key_meta_ok :: "byte \<Rightarrow> nat \<Rightarrow> bool" where
  "leaf_key_meta_ok flags key_len \<longleftrightarrow>
     key_len \<noteq> 0 \<and> key_len \<le> MAX_STORED_KEY_SIZE \<and>
     flags AND NOT (EXTERNAL_KEY OR EXTERNAL_VALUE) = 0"

definition leaf_meta_ok :: "byte \<Rightarrow> nat \<Rightarrow> nat \<Rightarrow> bool" where
  "leaf_meta_ok flags key_len value_len \<longleftrightarrow>
     leaf_key_meta_ok flags key_len \<and> value_len \<le> MAX_VALUE_SIZE"

definition bad_leaf_cell :: "u64 \<Rightarrow> vyrn_error" where
  "bad_leaf_cell page_id = CorruptPage page_id ''invalid leaf cell metadata''"

definition leaf_claims :: "u64 \<Rightarrow> nat \<Rightarrow> vyrn_error" where
  "leaf_claims page_id count =
     CorruptPage page_id (''leaf claims '' @ show_nat count @ '' entries but a page holds at most ''
       @ show_nat MAX_LEAF_ENTRIES)"

text \<open>
  The walk over cells, in the two steps the readers share: the header with the
  key, and the value behind it.
\<close>

definition leaf_cell_key ::
  "(bytes \<Rightarrow> u32) \<Rightarrow> page_store \<Rightarrow> page \<Rightarrow> u64 \<Rightarrow> nat \<Rightarrow> vyrn_error + (bytes \<times> nat)" where
  "leaf_cell_key crc ps p page_id offset =
     ebind (require_page offset LEAF_CELL_HEADER page_id) (\<lambda>_.
     let flags = p ! offset;
         key_len = unat (read_u32 p (offset + 1));
         value_len = unat (read_u32 p (offset + 5));
         behind = offset + LEAF_CELL_HEADER
     in if \<not> leaf_meta_ok flags key_len value_len then Inl (bad_leaf_cell page_id)
        else if flags AND EXTERNAL_KEY \<noteq> 0
        then ebind (read_blob crc ps (read_u64 p (offset + 9)) key_len) (\<lambda>key. Inr (key, behind))
        else ebind (require_page behind key_len page_id) (\<lambda>_.
             Inr (bslice p behind key_len, behind + key_len)))"

definition leaf_cell_value ::
  "page \<Rightarrow> u64 \<Rightarrow> nat \<Rightarrow> nat \<Rightarrow> vyrn_error + (entry_value \<times> nat)" where
  "leaf_cell_value p page_id cell offset =
     (let value_len = unat (read_u32 p (cell + 5))
      in if (p ! cell) AND EXTERNAL_VALUE \<noteq> 0
         then Inr (External \<lparr> vr_offset = read_u64 p (cell + 17), vr_len = read_u32 p (cell + 5),
                              vr_revision = read_u64 p (cell + 25) \<rparr>, offset)
         else ebind (require_page offset value_len page_id) (\<lambda>_.
              Inr (Inline (bslice p offset value_len), offset + value_len)))"

fun decode_leaf_cells ::
  "(bytes \<Rightarrow> u32) \<Rightarrow> page_store \<Rightarrow> page \<Rightarrow> u64 \<Rightarrow> nat \<Rightarrow> nat \<Rightarrow> vyrn_error + entry list" where
  "decode_leaf_cells crc ps p page_id 0 offset = Inr []"
| "decode_leaf_cells crc ps p page_id (Suc n) offset =
     ebind (leaf_cell_key crc ps p page_id offset) (\<lambda>(key, behind).
     ebind (leaf_cell_value p page_id offset behind) (\<lambda>(v, next).
     ebind (decode_leaf_cells crc ps p page_id n next) (\<lambda>es.
     Inr (\<lparr> en_key = key, en_value = v, en_revision = read_u64 p (offset + 25) \<rparr> # es))))"

definition decode_leaf ::
  "(bytes \<Rightarrow> u32) \<Rightarrow> page_store \<Rightarrow> page \<Rightarrow> u64 \<Rightarrow> vyrn_error + entry list" where
  "decode_leaf crc ps p page_id =
     (let count = unat (read_u32 p 20)
      in if MAX_LEAF_ENTRIES < count then Inl (leaf_claims page_id count)
         else decode_leaf_cells crc ps p page_id count HEADER_SIZE)"

definition first_leaf_key ::
  "(bytes \<Rightarrow> u32) \<Rightarrow> page_store \<Rightarrow> page \<Rightarrow> u64 \<Rightarrow> vyrn_error + bytes" where
  "first_leaf_key crc ps p page_id =
     (let count = unat (read_u32 p 20);
          flags = p ! HEADER_SIZE;
          key_len = unat (read_u32 p (HEADER_SIZE + 1));
          start = HEADER_SIZE + LEAF_CELL_HEADER
      in if count = 0 \<or> MAX_LEAF_ENTRIES < count
         then Inl (CorruptPage page_id ''empty leaf is reachable'')
         else if \<not> leaf_key_meta_ok flags key_len then Inl (bad_leaf_cell page_id)
         else if flags AND EXTERNAL_KEY \<noteq> 0
         then read_blob crc ps (read_u64 p (HEADER_SIZE + 9)) key_len
         else ebind (require_page start key_len page_id) (\<lambda>_. Inr (bslice p start key_len)))"

text \<open>The key of a cell reached through its slot, as the binary search reads it.\<close>

definition slot_leaf_key ::
  "(bytes \<Rightarrow> u32) \<Rightarrow> page_store \<Rightarrow> slots \<Rightarrow> u64 \<Rightarrow> nat \<Rightarrow> vyrn_error + bytes" where
  "slot_leaf_key crc ps sl page_id index =
     ebind (slot_cell sl index LEAF_CELL_HEADER page_id) (\<lambda>(cell, until).
     let p = sl_page sl; flags = p ! cell; key_len = unat (read_u32 p (cell + 1))
     in if \<not> leaf_key_meta_ok flags key_len then Inl (bad_leaf_cell page_id)
        else if flags AND EXTERNAL_KEY \<noteq> 0 then read_blob crc ps (read_u64 p (cell + 9)) key_len
        else if until < cell + LEAF_CELL_HEADER + key_len then Inl (bad_leaf_cell page_id)
        else Inr (bslice p (cell + LEAF_CELL_HEADER) key_len))"

text \<open>
  The binary search both page types use: the first index whose cell is not below
  the target, \<open>below\<close> reading and comparing one cell.
\<close>

function partition_from :: "(nat \<Rightarrow> vyrn_error + bool) \<Rightarrow> nat \<Rightarrow> nat \<Rightarrow> vyrn_error + nat" where
  "partition_from below low high =
     (if low < high
      then let mid = low + (high - low) div 2
           in ebind (below mid) (\<lambda>b.
              if b then partition_from below (mid + 1) high else partition_from below low mid)
      else Inr low)"
  by pat_completeness auto
termination
  by (relation "measure (\<lambda>(below, low, high). high - low)") auto

declare partition_from.simps [simp del]

definition leaf_lower_bound ::
  "(bytes \<Rightarrow> u32) \<Rightarrow> page_store \<Rightarrow> slots \<Rightarrow> u64 \<Rightarrow> bytes \<Rightarrow> vyrn_error + nat" where
  "leaf_lower_bound crc ps sl page_id target =
     partition_from (\<lambda>index. ebind (slot_leaf_key crc ps sl page_id index) (\<lambda>key. Inr (key < target)))
       0 (sl_count sl)"

text \<open>One cell reached through its slot, with its value, as lookups and scans read it.\<close>

definition slot_leaf_entry ::
  "(bytes \<Rightarrow> u32) \<Rightarrow> page_store \<Rightarrow> slots \<Rightarrow> u64 \<Rightarrow> nat
     \<Rightarrow> vyrn_error + (bytes \<times> (vyrn_error + entry_value) \<times> u64)" where
  "slot_leaf_entry crc ps sl page_id index =
     ebind (slot_cell sl index LEAF_CELL_HEADER page_id) (\<lambda>(cell, until).
     let p = sl_page sl; flags = p ! cell;
         key_len = unat (read_u32 p (cell + 1)); value_len = unat (read_u32 p (cell + 5));
         external_key = (flags AND EXTERNAL_KEY \<noteq> 0);
         key_start = cell + LEAF_CELL_HEADER;
         value_start = (if external_key then key_start else key_start + key_len);
         v = (if flags AND EXTERNAL_VALUE \<noteq> 0
              then Inr (External \<lparr> vr_offset = read_u64 p (cell + 17), vr_len = read_u32 p (cell + 5),
                                   vr_revision = read_u64 p (cell + 25) \<rparr>)
              else if until < value_start + value_len then Inl (bad_leaf_cell page_id)
              else Inr (Inline (bslice p value_start value_len)))
     in if \<not> leaf_meta_ok flags key_len value_len then Inl (bad_leaf_cell page_id)
        else ebind (if external_key then read_blob crc ps (read_u64 p (cell + 9)) key_len
                    else if until < key_start + key_len then Inl (bad_leaf_cell page_id)
                    else Inr (bslice p key_start key_len)) (\<lambda>key.
             Inr (key, v, read_u64 p (cell + 25))))"

definition find_in_leaf_slots ::
  "(bytes \<Rightarrow> u32) \<Rightarrow> page_store \<Rightarrow> slots \<Rightarrow> u64 \<Rightarrow> bytes \<Rightarrow> vyrn_error + (entry_value \<times> u64) option" where
  "find_in_leaf_slots crc ps sl page_id key =
     ebind (leaf_lower_bound crc ps sl page_id key) (\<lambda>index.
     if index = sl_count sl then Inr None
     else ebind (slot_leaf_entry crc ps sl page_id index) (\<lambda>(cell_key, v, revision).
          if cell_key \<noteq> key then Inr None
          else ebind v (\<lambda>hit. Inr (Some (hit, revision)))))"

fun find_in_leaf_walk ::
  "(bytes \<Rightarrow> u32) \<Rightarrow> page_store \<Rightarrow> page \<Rightarrow> u64 \<Rightarrow> bytes \<Rightarrow> nat \<Rightarrow> nat
     \<Rightarrow> vyrn_error + (entry_value \<times> u64) option" where
  "find_in_leaf_walk crc ps p page_id key 0 offset = Inr None"
| "find_in_leaf_walk crc ps p page_id key (Suc n) offset =
     ebind (leaf_cell_key crc ps p page_id offset) (\<lambda>(cell_key, behind).
     if key < cell_key then Inr None
     else ebind (leaf_cell_value p page_id offset behind) (\<lambda>(v, next).
          if cell_key = key then Inr (Some (v, read_u64 p (offset + 25)))
          else find_in_leaf_walk crc ps p page_id key n next))"

definition find_in_leaf ::
  "(bytes \<Rightarrow> u32) \<Rightarrow> page_store \<Rightarrow> page \<Rightarrow> u64 \<Rightarrow> bytes \<Rightarrow> vyrn_error + (entry_value \<times> u64) option" where
  "find_in_leaf crc ps p page_id key =
     (let count = unat (read_u32 p 20)
      in if MAX_LEAF_ENTRIES < count then Inl (leaf_claims page_id count)
         else case page_slots p count of
                Some sl \<Rightarrow> find_in_leaf_slots crc ps sl page_id key
              | None \<Rightarrow> find_in_leaf_walk crc ps p page_id key count HEADER_SIZE)"


text \<open>The slot ranges a scan emits: the key range, with the excluded prefix cut out.\<close>

definition prefix_successor :: "bytes \<Rightarrow> bytes option" where
  "prefix_successor p =
     (case rposition (\<lambda>b. b \<noteq> 255) p of
        None \<Rightarrow> None
      | Some i \<Rightarrow> Some (take i p @ [p ! i + 1]))"

definition clamp :: "nat \<Rightarrow> nat \<Rightarrow> nat \<Rightarrow> nat" where
  "clamp x lo hi = (if x < lo then lo else if hi < x then hi else x)"

definition leaf_emit_segments ::
  "(bytes \<Rightarrow> u32) \<Rightarrow> page_store \<Rightarrow> slots \<Rightarrow> u64 \<Rightarrow> bytes option \<Rightarrow> bytes option \<Rightarrow> bytes option
     \<Rightarrow> vyrn_error + ((nat \<times> nat) \<times> (nat \<times> nat))" where
  "leaf_emit_segments crc ps sl page_id start until excluded =
     ebind (case start of Some a \<Rightarrow> leaf_lower_bound crc ps sl page_id a | None \<Rightarrow> Inr 0) (\<lambda>first.
     ebind (case until of Some b \<Rightarrow> ebind (leaf_lower_bound crc ps sl page_id b) (\<lambda>x. Inr (max x first))
            | None \<Rightarrow> Inr (sl_count sl)) (\<lambda>last.
     ebind (case excluded of
              Some p \<Rightarrow>
                ebind (leaf_lower_bound crc ps sl page_id p) (\<lambda>from.
                ebind (case prefix_successor p of
                         Some s \<Rightarrow> leaf_lower_bound crc ps sl page_id s
                       | None \<Rightarrow> Inr (sl_count sl)) (\<lambda>to.
                Inr (clamp from first last, clamp to first last)))
            | None \<Rightarrow> Inr (last, last)) (\<lambda>(skip_from, skip_to).
     Inr ((first, skip_from), (skip_to, last)))))"

section \<open>Internal pages\<close>

definition encode_internal_cell ::
  "(bytes \<Rightarrow> u32) \<Rightarrow> page_store \<Rightarrow> page \<Rightarrow> nat \<Rightarrow> node_ref \<Rightarrow> page_store \<times> page \<times> nat" where
  "encode_internal_cell crc ps p offset child =
     (let external = INLINE_LIMIT < length (nr_min_key child);
          p = write_at p offset [if external then EXTERNAL_KEY else 0];
          p = write_at p (offset + 1) (u32_to_be (word_of_nat (length (nr_min_key child))));
          (ps, key_page) = (if external then write_blob crc ps (nr_min_key child) else (ps, 0));
          p = write_at p (offset + 5) (u64_to_be key_page);
          p = write_at p (offset + 13) (u64_to_be (nr_page_id child));
          offset = offset + INTERNAL_CELL_HEADER
      in if external then (ps, p, offset)
         else (ps, write_at p offset (nr_min_key child), offset + length (nr_min_key child)))"

fun write_internal_cells ::
  "(bytes \<Rightarrow> u32) \<Rightarrow> page_store \<Rightarrow> page \<Rightarrow> nat \<Rightarrow> nat \<Rightarrow> nat \<Rightarrow> node_ref list
     \<Rightarrow> page_store \<times> page \<times> nat" where
  "write_internal_cells crc ps p dir_start index offset [] = (ps, p, offset)"
| "write_internal_cells crc ps p dir_start index offset (c # cs) =
     (let p = write_at p (dir_start + index * SLOT_SIZE) (u16_to_be (word_of_nat offset));
          (ps, p, offset) = encode_internal_cell crc ps p offset c
      in write_internal_cells crc ps p dir_start (index + 1) offset cs)"

definition write_internal ::
  "(bytes \<Rightarrow> u32) \<Rightarrow> page_store \<Rightarrow> node_ref list \<Rightarrow> vyrn_error + (page_store \<times> node_ref)" where
  "write_internal crc ps children =
     (case children of
        [] \<Rightarrow> Inl (CorruptPage 0 ''cannot write an empty internal page'')
      | first # rest \<Rightarrow>
          let p = write_at (new_page INTERNAL 0) 20 (u32_to_be (word_of_nat (length rest)));
              p = write_at p 24 (u64_to_be (nr_page_id first));
              dir_start = PAGE_SIZE - length rest * SLOT_SIZE;
              (ps, p, offset) = write_internal_cells crc ps p dir_start 0 HEADER_SIZE rest
          in if dir_start < offset
             then Inl (CorruptPage 0 ''internal cells overlap the slot directory'')
             else let (ps, page_id) = append_page crc ps p
                  in Inr (ps, \<lparr> nr_page_id = page_id, nr_min_key = nr_min_key first \<rparr>))"

definition internal_meta_ok :: "byte \<Rightarrow> nat \<Rightarrow> bool" where
  "internal_meta_ok flags key_len \<longleftrightarrow>
     key_len \<noteq> 0 \<and> key_len \<le> MAX_STORED_KEY_SIZE \<and> flags AND NOT EXTERNAL_KEY = 0"

definition bad_internal_cell :: "u64 \<Rightarrow> vyrn_error" where
  "bad_internal_cell page_id = CorruptPage page_id ''invalid internal cell metadata''"

definition own_child :: "u64 \<Rightarrow> vyrn_error" where
  "own_child page_id = CorruptPage page_id ''internal page names itself as its own child''"

definition internal_claims :: "u64 \<Rightarrow> nat \<Rightarrow> vyrn_error" where
  "internal_claims page_id count =
     CorruptPage page_id (''internal page claims '' @ show_nat (count + 1)
       @ '' children but a page holds at most '' @ show_nat MAX_INTERNAL_CHILDREN)"

text \<open>
  One cell of the walk: the separator, the child it introduces and the offset
  behind it.  The scans and the descent also refuse a cell that names its own page.
\<close>

definition internal_cell ::
  "bool \<Rightarrow> (bytes \<Rightarrow> u32) \<Rightarrow> page_store \<Rightarrow> page \<Rightarrow> u64 \<Rightarrow> nat \<Rightarrow> vyrn_error + (bytes \<times> u64 \<times> nat)" where
  "internal_cell refuse_own crc ps p page_id offset =
     ebind (require_page offset INTERNAL_CELL_HEADER page_id) (\<lambda>_.
     let flags = p ! offset;
         key_len = unat (read_u32 p (offset + 1));
         child_id = read_u64 p (offset + 13);
         behind = offset + INTERNAL_CELL_HEADER
     in if \<not> internal_meta_ok flags key_len then Inl (bad_internal_cell page_id)
        else if refuse_own \<and> child_id = page_id then Inl (own_child page_id)
        else if flags AND EXTERNAL_KEY \<noteq> 0
        then ebind (read_blob crc ps (read_u64 p (offset + 5)) key_len) (\<lambda>key. Inr (key, child_id, behind))
        else ebind (require_page behind key_len page_id) (\<lambda>_.
             Inr (bslice p behind key_len, child_id, behind + key_len)))"

fun decode_internal_cells ::
  "(bytes \<Rightarrow> u32) \<Rightarrow> page_store \<Rightarrow> page \<Rightarrow> u64 \<Rightarrow> nat \<Rightarrow> nat \<Rightarrow> vyrn_error + node_ref list" where
  "decode_internal_cells crc ps p page_id 0 offset = Inr []"
| "decode_internal_cells crc ps p page_id (Suc n) offset =
     ebind (internal_cell False crc ps p page_id offset) (\<lambda>(key, child_id, next).
     ebind (decode_internal_cells crc ps p page_id n next) (\<lambda>cs.
     Inr (\<lparr> nr_page_id = child_id, nr_min_key = key \<rparr> # cs)))"

text \<open>The separator of a slot, and the partition point of the separators at or below a key.\<close>

definition slot_separator ::
  "(bytes \<Rightarrow> u32) \<Rightarrow> page_store \<Rightarrow> slots \<Rightarrow> u64 \<Rightarrow> nat \<Rightarrow> vyrn_error + bytes" where
  "slot_separator crc ps sl page_id index =
     ebind (slot_cell sl index INTERNAL_CELL_HEADER page_id) (\<lambda>(cell, until).
     let p = sl_page sl; flags = p ! cell; key_len = unat (read_u32 p (cell + 1))
     in if \<not> internal_meta_ok flags key_len then Inl (bad_internal_cell page_id)
        else if flags AND EXTERNAL_KEY \<noteq> 0 then read_blob crc ps (read_u64 p (cell + 5)) key_len
        else if until < cell + INTERNAL_CELL_HEADER + key_len then Inl (bad_internal_cell page_id)
        else Inr (bslice p (cell + INTERNAL_CELL_HEADER) key_len))"

definition separator_bound ::
  "(bytes \<Rightarrow> u32) \<Rightarrow> page_store \<Rightarrow> slots \<Rightarrow> u64 \<Rightarrow> bytes \<Rightarrow> vyrn_error + nat" where
  "separator_bound crc ps sl page_id key =
     partition_from (\<lambda>index. ebind (slot_separator crc ps sl page_id index) (\<lambda>sep. Inr (sep \<le> key)))
       0 (sl_count sl)"

fun child_walk ::
  "(bytes \<Rightarrow> u32) \<Rightarrow> page_store \<Rightarrow> page \<Rightarrow> u64 \<Rightarrow> bytes \<Rightarrow> nat \<Rightarrow> nat \<Rightarrow> nat \<Rightarrow> nat \<times> u64
     \<Rightarrow> vyrn_error + (nat \<times> u64)" where
  "child_walk crc ps p page_id key 0 index offset chosen = Inr chosen"
| "child_walk crc ps p page_id key (Suc n) index offset chosen =
     ebind (internal_cell True crc ps p page_id offset) (\<lambda>(separator, child_id, next).
     if separator \<le> key
     then child_walk crc ps p page_id key n (index + 1) next (index + 1, child_id)
     else Inr chosen)"

definition child_for_key ::
  "(bytes \<Rightarrow> u32) \<Rightarrow> page_store \<Rightarrow> page \<Rightarrow> u64 \<Rightarrow> bytes \<Rightarrow> vyrn_error + (nat \<times> u64)" where
  "child_for_key crc ps p page_id key =
     (let count = unat (read_u32 p 20); first_id = read_u64 p 24
      in if MAX_INTERNAL_CHILDREN \<le> count then Inl (internal_claims page_id count)
         else if first_id = page_id then Inl (own_child page_id)
         else case page_slots p count of
                Some sl \<Rightarrow>
                  ebind (separator_bound crc ps sl page_id key) (\<lambda>low.
                  if low = 0 then Inr (0, first_id)
                  else ebind (slot_cell sl (low - 1) INTERNAL_CELL_HEADER page_id) (\<lambda>(cell, _).
                       let child_id = read_u64 p (cell + 13)
                       in if child_id = page_id then Inl (own_child page_id)
                          else Inr (low, child_id)))
              | None \<Rightarrow> child_walk crc ps p page_id key count 0 HEADER_SIZE (0, first_id))"

section \<open>Used bytes\<close>

definition page_used_bytes :: "(bytes \<Rightarrow> u32) \<Rightarrow> page_store \<Rightarrow> u64 \<Rightarrow> vyrn_error + nat option" where
  "page_used_bytes crc ps page_id =
     ebind (read_page crc ps page_id) (\<lambda>p.
     let count = unat (read_u32 p 20);
         (cell_header, max_count) = (if p ! 5 = LEAF then (LEAF_CELL_HEADER, MAX_LEAF_ENTRIES)
                                     else (INTERNAL_CELL_HEADER, MAX_INTERNAL_CHILDREN - 1))
     in if p ! 5 \<noteq> LEAF \<and> p ! 5 \<noteq> INTERNAL then Inr None
        else if max_count < count then Inr None
        else if count = 0 then Inr (Some HEADER_SIZE)
        else case page_slots p count of
               None \<Rightarrow> Inr None
             | Some sl \<Rightarrow>
                 ebind (slot_cell sl (count - 1) cell_header page_id) (\<lambda>(cell, _).
                 let flags = p ! cell;
                     until = cell + cell_header
                       + (if flags AND EXTERNAL_KEY = 0 then unat (read_u32 p (cell + 1)) else 0)
                       + (if p ! 5 = LEAF \<and> flags AND EXTERNAL_VALUE = 0
                          then unat (read_u32 p (cell + 5)) else 0)
                 in Inr (Some (min (until + count * SLOT_SIZE) PAGE_SIZE))))"

end
