(* ===== verification/PageLayout.thy ===== *)
theory PageLayout
  imports PageCells
begin

text \<open>
  What the leaf pages of the tree hold.  The locale \<open>cell_writer\<close> lays cells into
  a page with a slot directory, for leaf and internal pages alike; \<open>leaf_page\<close>
  says what a page of a store holds, for pages with a directory and for pages of
  the older format without one.  Every leaf reader of \<open>PageCells\<close> is shown to
  answer from that, and \<open>write_leaf\<close> to produce it.
\<close>

unbundle bit_operations_syntax

section \<open>Laying cells into a page\<close>

fun lay_cells ::
  "(page_store \<Rightarrow> 'a \<Rightarrow> page_store \<times> bytes) \<Rightarrow> page_store \<Rightarrow> page \<Rightarrow> nat \<Rightarrow> nat \<Rightarrow> nat \<Rightarrow> 'a list
     \<Rightarrow> page_store \<times> page \<times> nat" where
  "lay_cells enc ps p dir_start index offset [] = (ps, p, offset)"
| "lay_cells enc ps p dir_start index offset (x # xs) =
     (let p = write_at p (dir_start + index * SLOT_SIZE) (u16_to_be (word_of_nat offset));
          (ps, bs) = enc ps x
      in lay_cells enc ps (write_at p offset bs) dir_start (index + 1) (offset + length bs) xs)"

definition span :: "('a \<Rightarrow> nat) \<Rightarrow> 'a list \<Rightarrow> nat" where
  "span f xs = sum_list (map f xs)"

lemma span_simps [simp]:
  "span f [] = 0" "span f (x # xs) = f x + span f xs" "span f (xs @ ys) = span f xs + span f ys"
  by (simp_all add: span_def)

lemma span_take_le: "span f (take i xs) \<le> span f xs"
  by (metis append_take_drop_id le_add1 span_simps(3))

lemma span_take_nth: "i < length xs \<Longrightarrow> span f (take i xs) + f (xs ! i) \<le> span f xs"
  using span_take_le[of f "Suc i" xs] by (simp add: take_Suc_conv_app_nth)

lemma span_take_Suc: "i < length xs \<Longrightarrow> span f (take (Suc i) xs) = span f (take i xs) + f (xs ! i)"
  by (simp add: take_Suc_conv_app_nth)

text \<open>
  What an encoder of cells promises: a fixed size per cell, and no change to the
  pages already in the store.
\<close>

locale cell_writer =
  fixes enc :: "page_store \<Rightarrow> 'a \<Rightarrow> page_store \<times> bytes"
    and size :: "'a \<Rightarrow> nat"
  assumes enc_length: "length (snd (enc ps x)) = size x"
    and enc_prefix: "prefix ps (fst (enc ps x))"
begin

lemma lay_cells_props:
  assumes "length p = PAGE_SIZE" "offset + span size xs \<le> dir"
    "dir + (index + length xs) * SLOT_SIZE \<le> PAGE_SIZE"
    "lay_cells enc ps p dir index offset xs = (ps', p', offset')"
  shows "prefix ps ps' \<and> length p' = PAGE_SIZE \<and> offset' = offset + span size xs \<and>
    (\<forall>k < PAGE_SIZE. k < offset \<or> dir \<le> k \<and> k < dir + index * SLOT_SIZE \<longrightarrow> p' ! k = p ! k) \<and>
    (\<forall>i < length xs. \<exists>s. prefix ps s \<and> prefix (fst (enc s (xs ! i))) ps' \<and>
       bslice p' (offset + span size (take i xs)) (size (xs ! i)) = snd (enc s (xs ! i)) \<and>
       bslice p' (dir + (index + i) * SLOT_SIZE) SLOT_SIZE =
         u16_to_be (word_of_nat (offset + span size (take i xs))))"
  using assms
proof (induction xs arbitrary: ps p index offset)
  case (Cons x xs)
  let ?slot = "u16_to_be (word_of_nat offset)"
  let ?p1 = "write_at p (dir + index * SLOT_SIZE) ?slot"
  obtain ps1 bs where e: "enc ps x = (ps1, bs)" by (cases "enc ps x")
  have bs: "length bs = size x" and ps1: "prefix ps ps1"
    using enc_length[of ps x] enc_prefix[of ps x] e by simp_all
  let ?p2 = "write_at ?p1 offset bs"
  have room: "dir + index * SLOT_SIZE + length ?slot \<le> length p" "offset + length bs \<le> length ?p1"
    using Cons.prems(1-3) bs by (simp_all add: SLOT_SIZE_def)
  then have p2: "length ?p2 = PAGE_SIZE" using Cons.prems(1) by simp
  have rest: "lay_cells enc ps1 ?p2 dir (index + 1) (offset + size x) xs = (ps', p', offset')"
    using Cons.prems(4) by (simp add: e bs Let_def)
  have "offset + size x + span size xs \<le> dir" "dir + (index + 1 + length xs) * SLOT_SIZE \<le> PAGE_SIZE"
    using Cons.prems(2,3) by simp_all
  note IH = Cons.IH[OF p2 this rest]
  have nth2: "?p2 ! k = (if offset \<le> k \<and> k < offset + size x then bs ! (k - offset)
      else if dir + index * SLOT_SIZE \<le> k \<and> k < dir + index * SLOT_SIZE + SLOT_SIZE
      then ?slot ! (k - (dir + index * SLOT_SIZE)) else p ! k)" if "k < PAGE_SIZE" for k
    using room that Cons.prems(1) bs by (simp add: nth_write_at SLOT_SIZE_def)
  have frame: "p' ! k = p ! k"
    if "k < PAGE_SIZE" "k < offset \<or> dir \<le> k \<and> k < dir + index * SLOT_SIZE" for k
  proof -
    have "p' ! k = ?p2 ! k" using IH that by (auto simp: SLOT_SIZE_def)
    then show ?thesis using nth2[OF that(1)] that(2) Cons.prems(2) by auto
  qed
  have cell: "bslice p' offset (size x) = bs"
  proof -
    have "bslice p' offset (size x) = bslice ?p2 offset (size x)"
      using IH p2 by (intro bslice_eqI) auto
    then show ?thesis using room bs by (simp add: bslice_write_same)
  qed
  have slot: "bslice p' (dir + index * SLOT_SIZE) SLOT_SIZE = ?slot"
  proof -
    have "bslice p' (dir + index * SLOT_SIZE) SLOT_SIZE = bslice ?p2 (dir + index * SLOT_SIZE) SLOT_SIZE"
      using IH p2 by (intro bslice_eqI) (auto simp: SLOT_SIZE_def)
    also have "\<dots> = bslice ?p1 (dir + index * SLOT_SIZE) SLOT_SIZE"
      using room Cons.prems(2) bs by (intro bslice_write_other) auto
    finally show ?thesis using room by (simp add: bslice_write_same SLOT_SIZE_def)
  qed
  have each: "\<exists>s. prefix ps s \<and> prefix (fst (enc s ((x # xs) ! i))) ps' \<and>
      bslice p' (offset + span size (take i (x # xs))) (size ((x # xs) ! i)) = snd (enc s ((x # xs) ! i)) \<and>
      bslice p' (dir + (index + i) * SLOT_SIZE) SLOT_SIZE =
        u16_to_be (word_of_nat (offset + span size (take i (x # xs))))"
    if i: "i < length (x # xs)" for i
  proof (cases i)
    case 0
    then show ?thesis using cell slot e IH by (auto intro!: exI[of _ ps])
  next
    case (Suc j)
    then have "j < length xs" using i by simp
    then obtain s where "prefix ps1 s" "prefix (fst (enc s (xs ! j))) ps'"
      "bslice p' (offset + size x + span size (take j xs)) (size (xs ! j)) = snd (enc s (xs ! j))"
      "bslice p' (dir + (index + 1 + j) * SLOT_SIZE) SLOT_SIZE =
         u16_to_be (word_of_nat (offset + size x + span size (take j xs)))"
      using IH by blast
    with ps1 Suc show ?thesis
      by (auto intro!: exI[of _ s] simp: add.assoc intro: prefix_order.trans)
  qed
  show ?case
    using IH ps1 frame each by (auto intro: prefix_order.trans)
qed simp

text \<open>A page of cells behind a header, appended to the store and read back.\<close>

lemma lay_page:
  assumes p0: "page_wf p0" and cost: "HEADER_SIZE + span size xs + length xs * SLOT_SIZE \<le> PAGE_SIZE"
    and lay: "lay_cells enc ps p0 (PAGE_SIZE - length xs * SLOT_SIZE) 0 HEADER_SIZE xs = (ps1, p1, off1)"
    and small: "length ps1 < 2 ^ 64"
  obtains q where "read_page crc (fst (append_page crc ps1 p1)) (word_of_nat (length ps1)) = Inr q"
    "length q = PAGE_SIZE" "q ! 5 = p0 ! 5"
    "\<And>a n. 20 \<le> a \<Longrightarrow> a + n \<le> HEADER_SIZE \<Longrightarrow> bslice q a n = bslice p0 a n"
    "\<And>i. i < length xs \<Longrightarrow> \<exists>s. prefix ps s \<and> prefix (fst (enc s (xs ! i))) ps1 \<and>
       bslice q (HEADER_SIZE + span size (take i xs)) (size (xs ! i)) = snd (enc s (xs ! i))"
    "\<And>i. i < length xs \<Longrightarrow> unat (read_u16 q (PAGE_SIZE - length xs * SLOT_SIZE + i * SLOT_SIZE)) =
       HEADER_SIZE + span size (take i xs)"
proof -
  let ?dir = "PAGE_SIZE - length xs * SLOT_SIZE"
  have len0: "length p0 = PAGE_SIZE" using p0 by (simp add: page_wf_def)
  have props: "prefix ps ps1 \<and> length p1 = PAGE_SIZE \<and> off1 = HEADER_SIZE + span size xs \<and>
    (\<forall>k < PAGE_SIZE. k < HEADER_SIZE \<or> ?dir \<le> k \<and> k < ?dir + 0 * SLOT_SIZE \<longrightarrow> p1 ! k = p0 ! k) \<and>
    (\<forall>i < length xs. \<exists>s. prefix ps s \<and> prefix (fst (enc s (xs ! i))) ps1 \<and>
       bslice p1 (HEADER_SIZE + span size (take i xs)) (size (xs ! i)) = snd (enc s (xs ! i)) \<and>
       bslice p1 (?dir + (0 + i) * SLOT_SIZE) SLOT_SIZE =
         u16_to_be (word_of_nat (HEADER_SIZE + span size (take i xs))))"
    using cost by (intro lay_cells_props[OF len0 _ _ lay]) auto
  have head: "bslice p1 a n = bslice p0 a n" if "a + n \<le> HEADER_SIZE" for a n
    using props len0 that by (intro bslice_eqI) auto
  have wf1: "page_wf p1"
    using p0 head[of 0 4] props by (auto simp: page_wf_def size_consts simp del: bslice_0)
  obtain q where q: "read_page crc (fst (append_page crc ps1 p1)) (word_of_nat (length ps1)) = Inr q"
    "length q = PAGE_SIZE"
    and same: "\<And>a n. a + n \<le> 8 \<or> 20 \<le> a \<Longrightarrow> bslice q a n = bslice p1 a n"
      "\<And>k. k < PAGE_SIZE \<Longrightarrow> k < 8 \<or> 20 \<le> k \<Longrightarrow> q ! k = p1 ! k"
    using read_appended_in[OF wf1 small, of crc "fst (append_page crc ps1 p1)"] by auto
  have q5: "q ! 5 = p0 ! 5" using same(2)[of 5] props by (simp add: size_consts)
  have qh: "bslice q a n = bslice p0 a n" if "20 \<le> a" "a + n \<le> HEADER_SIZE" for a n
    using same(1) head that by simp
  have cells: "\<exists>s. prefix ps s \<and> prefix (fst (enc s (xs ! i))) ps1 \<and>
      bslice q (HEADER_SIZE + span size (take i xs)) (size (xs ! i)) = snd (enc s (xs ! i))"
    if "i < length xs" for i
  proof -
    have "bslice q (HEADER_SIZE + span size (take i xs)) (size (xs ! i)) =
        bslice p1 (HEADER_SIZE + span size (take i xs)) (size (xs ! i))"
      by (intro same(1)) (simp add: HEADER_SIZE_def)
    then show ?thesis using props that by auto
  qed
  have slots: "unat (read_u16 q (?dir + i * SLOT_SIZE)) = HEADER_SIZE + span size (take i xs)"
    if i: "i < length xs" for i
  proof -
    have "20 \<le> ?dir + i * SLOT_SIZE" using cost by (simp add: size_consts)
    then have "bslice q (?dir + i * SLOT_SIZE) SLOT_SIZE = bslice p1 (?dir + (0 + i) * SLOT_SIZE) SLOT_SIZE"
      using same(1) by simp
    also have "\<dots> = u16_to_be (word_of_nat (HEADER_SIZE + span size (take i xs)))"
      using props i by blast
    finally show ?thesis
      using cost span_take_nth[OF i, of size] unat_word_of_nat_u16[of "HEADER_SIZE + span size (take i xs)"]
      by (simp add: read_u16_def SLOT_SIZE_def PAGE_SIZE_def)
  qed
  show ?thesis by (rule that[OF q q5 qh cells slots])
qed

end


section \<open>Leaf cells\<close>

definition leaf_cell_bytes :: "u64 \<Rightarrow> entry \<Rightarrow> bytes" where
  "leaf_cell_bytes key_page e =
     [entry_flags e] @ u32_to_be (word_of_nat (length (en_key e))) @ u32_to_be (entry_value_len e) @
     u64_to_be key_page @ u64_to_be (entry_value_offset e) @ u64_to_be (en_revision e) @
     (if length (en_key e) \<le> INLINE_LIMIT then en_key e else []) @
     (case en_value e of Inline v \<Rightarrow> v | External r \<Rightarrow> [])"

definition leaf_key_page :: "(bytes \<Rightarrow> u32) \<Rightarrow> page_store \<Rightarrow> entry \<Rightarrow> page_store \<times> u64" where
  "leaf_key_page crc ps e =
     (if INLINE_LIMIT < length (en_key e) then write_blob crc ps (en_key e) else (ps, 0))"

definition leaf_enc :: "(bytes \<Rightarrow> u32) \<Rightarrow> page_store \<Rightarrow> entry \<Rightarrow> page_store \<times> bytes" where
  "leaf_enc crc ps e =
     (fst (leaf_key_page crc ps e), leaf_cell_bytes (snd (leaf_key_page crc ps e)) e)"

lemma length_leaf_cell_bytes [simp]: "length (leaf_cell_bytes kp e) = leaf_cell_size e"
  by (auto simp: leaf_cell_bytes_def leaf_cell_size_def LEAF_CELL_HEADER_def split: entry_value.split)

interpretation leaf_cells: cell_writer "leaf_enc crc" leaf_cell_size for crc
  by unfold_locales (simp_all add: leaf_enc_def leaf_key_page_def prefix_write_blob)

lemma encode_leaf_cell_writes:
  assumes "offset + leaf_cell_size e \<le> length p"
  shows "encode_leaf_cell crc ps p offset e =
    (fst (leaf_enc crc ps e), write_at p offset (snd (leaf_enc crc ps e)), offset + leaf_cell_size e)"
proof -
  define kp where "kp = snd (leaf_key_page crc ps e)"
  define fl where "fl = entry_flags e"
  have room: "offset + 33 + (if length (en_key e) \<le> INLINE_LIMIT then length (en_key e) else 0)
      + inline_len (en_value e) \<le> length p"
    using assms by (simp add: leaf_cell_size_def LEAF_CELL_HEADER_def)
  have kp': "(if INLINE_LIMIT < length (en_key e) then write_blob crc ps (en_key e) else (ps, 0)) =
      (fst (leaf_key_page crc ps e), kp)"
    by (simp add: leaf_key_page_def kp_def)
  show ?thesis
    using room
    unfolding encode_leaf_cell_def Let_def kp' leaf_enc_def kp_def[symmetric] leaf_cell_bytes_def
      fl_def[symmetric]
    by (auto simp: write_at_seq LEAF_CELL_HEADER_def leaf_cell_size_def add.assoc not_le
        split: entry_value.split)
qed

lemma write_leaf_cells_lay:
  "offset + span leaf_cell_size es \<le> dir \<Longrightarrow> dir + (index + length es) * SLOT_SIZE \<le> length p \<Longrightarrow>
     write_leaf_cells crc ps p dir index offset es = lay_cells (leaf_enc crc) ps p dir index offset es"
proof (induction es arbitrary: ps p index offset)
  case (Cons e es)
  let ?p = "write_at p (dir + index * SLOT_SIZE) (u16_to_be (word_of_nat offset))"
  have len: "length ?p = length p" using Cons.prems(2) by (simp add: SLOT_SIZE_def)
  have fit: "offset + leaf_cell_size e \<le> length ?p"
    using Cons.prems len by (simp add: SLOT_SIZE_def)
  have len2: "length (write_at ?p offset (snd (leaf_enc crc ps e))) = length p"
    using fit len by (simp add: leaf_cells.enc_length)
  show ?case
    using Cons.prems Cons.IH[of "offset + leaf_cell_size e" "index + 1"
        "write_at ?p offset (snd (leaf_enc crc ps e))"] len2
    by (simp add: encode_leaf_cell_writes[OF fit] Let_def split_def leaf_cells.enc_length
        add.assoc)
qed simp

text \<open>Entries a page can hold, and that a cell of a page holds one.\<close>

definition entry_ok :: "entry \<Rightarrow> bool" where
  "entry_ok e \<longleftrightarrow>
     en_key e \<noteq> [] \<and> length (en_key e) \<le> MAX_STORED_KEY_SIZE \<and>
     (case en_value e of
        Inline v \<Rightarrow> length v \<le> INLINE_LIMIT
      | External r \<Rightarrow> unat (vr_len r) \<le> MAX_VALUE_SIZE \<and> vr_revision r = en_revision e)"

definition leaf_cell_in :: "(bytes \<Rightarrow> u32) \<Rightarrow> page_store \<Rightarrow> page \<Rightarrow> nat \<Rightarrow> entry \<Rightarrow> bool" where
  "leaf_cell_in crc ps p offset e \<longleftrightarrow>
     offset + leaf_cell_size e \<le> length p \<and>
     (\<exists>kp. bslice p offset (leaf_cell_size e) = leaf_cell_bytes kp e \<and>
        (INLINE_LIMIT < length (en_key e) \<longrightarrow> read_blob crc ps kp (length (en_key e)) = Inr (en_key e)))"

lemma leaf_cell_in_mono: "leaf_cell_in crc ps p off e \<Longrightarrow> prefix ps qs \<Longrightarrow> leaf_cell_in crc qs p off e"
  unfolding leaf_cell_in_def using read_blob_mono by blast

lemma key_size_u32: "length k \<le> MAX_STORED_KEY_SIZE \<Longrightarrow> unat (word_of_nat (length k) :: u32) = length k"
  by (rule unat_word_of_nat_u32)
    (simp add: MAX_STORED_KEY_SIZE_def MAX_KEY_SIZE_def TOMBSTONE_PREFIX_def)

lemma entry_flags_bits:
  "entry_flags e AND EXTERNAL_KEY \<noteq> 0 \<longleftrightarrow> INLINE_LIMIT < length (en_key e)"
  "entry_flags e AND EXTERNAL_VALUE \<noteq> 0 \<longleftrightarrow> (\<exists>r. en_value e = External r)"
  "entry_flags e AND NOT (EXTERNAL_KEY OR EXTERNAL_VALUE) = 0"
  by (auto simp: entry_flags_def tag_consts split: entry_value.split)

lemma inline_len_limit: "entry_ok e \<Longrightarrow> inline_len (en_value e) \<le> INLINE_LIMIT"
  by (cases "en_value e") (simp_all add: entry_ok_def)

lemma entry_value_len_ok:
  assumes "entry_ok e"
  shows "unat (entry_value_len e) \<le> MAX_VALUE_SIZE"
    "en_value e = Inline v \<Longrightarrow> unat (entry_value_len e) = length v"
  using assms
  by (auto simp: entry_ok_def entry_value_len_def unat_word_of_nat_u32 INLINE_LIMIT_def
      MAX_VALUE_SIZE_def split: entry_value.splits)

lemma leaf_size_header: "LEAF_CELL_HEADER \<le> leaf_cell_size e"
  by (simp add: leaf_cell_size_def)

text \<open>The fields of a cell, read at their offsets.\<close>

lemma leaf_cell_fields:
  assumes cell: "bslice p off (leaf_cell_size e) = leaf_cell_bytes kp e"
    and room: "off + leaf_cell_size e \<le> length p"
  shows "p ! off = entry_flags e"
    "read_u32 p (off + 1) = word_of_nat (length (en_key e))"
    "read_u32 p (off + 5) = entry_value_len e"
    "read_u64 p (off + 9) = kp"
    "read_u64 p (off + 17) = entry_value_offset e"
    "read_u64 p (off + 25) = en_revision e"
    "length (en_key e) \<le> INLINE_LIMIT \<Longrightarrow> bslice p (off + LEAF_CELL_HEADER) (length (en_key e)) = en_key e"
    "en_value e = Inline v \<Longrightarrow>
       bslice p (off + LEAF_CELL_HEADER + (if length (en_key e) \<le> INLINE_LIMIT then length (en_key e) else 0))
         (length v) = v"
proof -
  have hdr: "33 \<le> leaf_cell_size e" using leaf_size_header[of e] by (simp add: LEAF_CELL_HEADER_def)
  have at: "bslice p (off + a) n = bslice (leaf_cell_bytes kp e) a n" if "a + n \<le> leaf_cell_size e" for a n
    using that cell bslice_within[of a n "leaf_cell_size e" p off] by simp
  have "p ! off = bslice p off (leaf_cell_size e) ! 0"
    using hdr room by (subst bslice_nth) auto
  then show "p ! off = entry_flags e" by (simp add: cell leaf_cell_bytes_def)
  show "read_u32 p (off + 1) = word_of_nat (length (en_key e))" "read_u32 p (off + 5) = entry_value_len e"
    "read_u64 p (off + 9) = kp" "read_u64 p (off + 17) = entry_value_offset e"
    "read_u64 p (off + 25) = en_revision e"
    using hdr at[of 1 4] at[of 5 4] at[of 9 8] at[of 17 8] at[of 25 8]
    by (simp_all add: read_u32_def read_u64_def leaf_cell_bytes_def bslice_simps)
  show "bslice p (off + LEAF_CELL_HEADER) (length (en_key e)) = en_key e" if "length (en_key e) \<le> INLINE_LIMIT"
    using that by (subst at) (simp_all add: leaf_cell_size_def leaf_cell_bytes_def bslice_simps LEAF_CELL_HEADER_def)
  show "bslice p (off + LEAF_CELL_HEADER + (if length (en_key e) \<le> INLINE_LIMIT then length (en_key e) else 0))
      (length v) = v" if "en_value e = Inline v"
    using that unfolding add.assoc
    by (subst at) (simp_all add: leaf_cell_size_def leaf_cell_bytes_def bslice_def drop_Cons' LEAF_CELL_HEADER_def)
qed

definition behind_key :: "nat \<Rightarrow> entry \<Rightarrow> nat" where
  "behind_key off e =
     off + LEAF_CELL_HEADER + (if length (en_key e) \<le> INLINE_LIMIT then length (en_key e) else 0)"

lemma behind_key_size: "behind_key off e + inline_len (en_value e) = off + leaf_cell_size e"
  by (simp add: behind_key_def leaf_cell_size_def)

lemma leaf_meta_okI:
  assumes "entry_ok e"
  shows "leaf_meta_ok (entry_flags e) (length (en_key e)) (unat (entry_value_len e))"
    "leaf_key_meta_ok (entry_flags e) (length (en_key e))"
  using assms entry_value_len_ok(1)[OF assms] entry_flags_bits(3)[of e]
  by (auto simp: leaf_meta_ok_def leaf_key_meta_ok_def entry_ok_def)

lemma leaf_cell_read:
  assumes "leaf_cell_in crc ps p off e" "entry_ok e" "length p = PAGE_SIZE"
  shows "leaf_cell_key crc ps p page_id off = Inr (en_key e, behind_key off e)"
    "leaf_cell_value p page_id off (behind_key off e) = Inr (en_value e, off + leaf_cell_size e)"
    "read_u64 p (off + 25) = en_revision e"
proof -
  obtain kp where cell: "bslice p off (leaf_cell_size e) = leaf_cell_bytes kp e"
    and room: "off + leaf_cell_size e \<le> length p"
    and blob: "INLINE_LIMIT < length (en_key e) \<Longrightarrow> read_blob crc ps kp (length (en_key e)) = Inr (en_key e)"
    using assms(1) unfolding leaf_cell_in_def by blast
  note f = leaf_cell_fields[OF cell room] and f2 = leaf_cell_fields(2)[OF cell room, simplified]
  have klen: "unat (word_of_nat (length (en_key e)) :: u32) = length (en_key e)"
    using assms(2) by (intro key_size_u32) (simp add: entry_ok_def)
  have fits: "behind_key off e + inline_len (en_value e) \<le> PAGE_SIZE"
    using room assms(3) by (simp add: behind_key_size)
  show "read_u64 p (off + 25) = en_revision e" by (rule f(6))
  show "leaf_cell_key crc ps p page_id off = Inr (en_key e, behind_key off e)"
    using fits f(7) blob leaf_meta_okI(1)[OF assms(2)] entry_flags_bits(1)[of e]
    by (auto simp: leaf_cell_key_def require_page_def Let_def f(1,3,4) f2 klen behind_key_def)
  show "leaf_cell_value p page_id off (behind_key off e) = Inr (en_value e, off + leaf_cell_size e)"
  proof (cases "en_value e")
    case (Inline v)
    have "unat (entry_value_len e) = length v"
      using entry_value_len_ok(2)[OF assms(2) Inline] .
    then show ?thesis
      using Inline fits f(8)[OF Inline] entry_flags_bits(2)[of e] behind_key_size[of off e]
      by (simp add: leaf_cell_value_def require_page_def Let_def f(1,3) behind_key_def[symmetric])
  next
    case (External r)
    then show ?thesis
      using assms(2) entry_flags_bits(2)[of e] behind_key_size[of off e]
      by (simp add: leaf_cell_value_def Let_def f(1,3,5,6) entry_value_len_def entry_value_offset_def
          entry_ok_def)
  qed
qed

section \<open>Leaf pages\<close>

definition leaf_off :: "entry list \<Rightarrow> nat \<Rightarrow> nat" where
  "leaf_off es i = HEADER_SIZE + span leaf_cell_size (take i es)"

definition leaf_layout :: "(bytes \<Rightarrow> u32) \<Rightarrow> page_store \<Rightarrow> page \<Rightarrow> entry list \<Rightarrow> bool" where
  "leaf_layout crc ps p es \<longleftrightarrow>
     length p = PAGE_SIZE \<and> p ! 5 = LEAF \<and> unat (read_u32 p 20) = length es \<and>
     length es \<le> MAX_LEAF_ENTRIES \<and> (\<forall>e \<in> set es. entry_ok e) \<and>
     (\<forall>i < length es. leaf_cell_in crc ps p (leaf_off es i) (es ! i)) \<and>
     (p ! 4 = PAGE_VERSION \<longrightarrow>
        leaf_off es (length es) \<le> PAGE_SIZE - length es * SLOT_SIZE \<and>
        (\<forall>i < length es. unat (read_u16 p (PAGE_SIZE - length es * SLOT_SIZE + i * SLOT_SIZE)) = leaf_off es i))"

definition leaf_page :: "(bytes \<Rightarrow> u32) \<Rightarrow> page_store \<Rightarrow> u64 \<Rightarrow> entry list \<Rightarrow> bool" where
  "leaf_page crc ps page_id es \<longleftrightarrow> (\<exists>p. read_page crc ps page_id = Inr p \<and> leaf_layout crc ps p es)"

lemma leaf_layout_mono: "leaf_layout crc ps p es \<Longrightarrow> prefix ps qs \<Longrightarrow> leaf_layout crc qs p es"
  unfolding leaf_layout_def using leaf_cell_in_mono by blast

lemma leaf_page_mono: "leaf_page crc ps i es \<Longrightarrow> prefix ps qs \<Longrightarrow> leaf_page crc qs i es"
  unfolding leaf_page_def using read_page_mono leaf_layout_mono by blast

lemma leaf_off_Suc: "i < length es \<Longrightarrow> leaf_off es (Suc i) = leaf_off es i + leaf_cell_size (es ! i)"
  by (simp add: leaf_off_def span_take_Suc)

lemma leaf_off_le: "i \<le> j \<Longrightarrow> leaf_off es i \<le> leaf_off es j"
  using span_take_le[of leaf_cell_size i "take j es"] by (simp add: leaf_off_def min_absorb1)

lemma leaf_off_header: "HEADER_SIZE \<le> leaf_off es i"
  by (simp add: leaf_off_def)

subsection \<open>Sequential decode\<close>

lemma decode_leaf_cells_read:
  assumes "length p = PAGE_SIZE" "\<forall>e \<in> set es. entry_ok e"
    "\<And>i. i < length es \<Longrightarrow> leaf_cell_in crc ps p (off + span leaf_cell_size (take i es)) (es ! i)"
  shows "decode_leaf_cells crc ps p page_id (length es) off = Inr es"
  using assms
proof (induction es arbitrary: off)
  case (Cons e es)
  have e: "leaf_cell_in crc ps p off e" "entry_ok e"
    using Cons.prems(2) Cons.prems(3)[of 0] by simp_all
  have "leaf_cell_in crc ps p (off + leaf_cell_size e + span leaf_cell_size (take i es)) (es ! i)"
    if "i < length es" for i
    using Cons.prems(3)[of "Suc i"] that by (simp add: add.assoc)
  then have "decode_leaf_cells crc ps p page_id (length es) (off + leaf_cell_size e) = Inr es"
    using Cons.prems by (intro Cons.IH) simp_all
  then show ?case
    using leaf_cell_read[OF e Cons.prems(1)] by simp
qed simp

lemma decode_leaf_read: "leaf_layout crc ps p es \<Longrightarrow> decode_leaf crc ps p page_id = Inr es"
  using decode_leaf_cells_read[of p es crc ps HEADER_SIZE page_id]
  by (simp add: decode_leaf_def leaf_layout_def leaf_off_def)

lemma first_leaf_key_read:
  assumes "leaf_layout crc ps p es" "es \<noteq> []"
  shows "first_leaf_key crc ps p page_id = Inr (en_key (hd es))"
proof -
  obtain e es' where es: "es = e # es'" using assms(2) by (cases es) auto
  have e: "leaf_cell_in crc ps p HEADER_SIZE e" "entry_ok e" "length p = PAGE_SIZE"
    using assms(1) by (auto simp: es leaf_layout_def leaf_off_def dest: spec[of _ 0])
  obtain kp where cell: "bslice p HEADER_SIZE (leaf_cell_size e) = leaf_cell_bytes kp e"
    and room: "HEADER_SIZE + leaf_cell_size e \<le> length p"
    and blob: "INLINE_LIMIT < length (en_key e) \<Longrightarrow> read_blob crc ps kp (length (en_key e)) = Inr (en_key e)"
    using e(1) unfolding leaf_cell_in_def by blast
  note f = leaf_cell_fields[OF cell room] and f2 = leaf_cell_fields(2)[OF cell room, simplified]
  have klen: "unat (word_of_nat (length (en_key e)) :: u32) = length (en_key e)"
    using e(2) by (intro key_size_u32) (simp add: entry_ok_def)
  have "behind_key HEADER_SIZE e + inline_len (en_value e) \<le> PAGE_SIZE"
    using room e(3) by (simp add: behind_key_size)
  then show ?thesis
    using assms(1) f(7) blob leaf_meta_okI(2)[OF e(2)] entry_flags_bits(1)[of e]
    by (auto simp: first_leaf_key_def leaf_layout_def require_page_def Let_def f(1,4) f2 klen es
        behind_key_def split: if_splits)
qed

subsection \<open>Binary search\<close>

lemma partition_from_spec:
  assumes below: "\<And>i. i < n \<Longrightarrow> below i = Inr (P i)"
    and mono: "\<And>i j. i < j \<Longrightarrow> j < n \<Longrightarrow> P j \<Longrightarrow> P i"
  shows "low \<le> high \<Longrightarrow> high \<le> n \<Longrightarrow> \<forall>i < low. P i \<Longrightarrow> \<forall>i < n. high \<le> i \<longrightarrow> \<not> P i \<Longrightarrow>
    \<exists>r. partition_from below low high = Inr r \<and> r \<le> n \<and> (\<forall>i < r. P i) \<and> (\<forall>i < n. r \<le> i \<longrightarrow> \<not> P i)"
proof (induction "high - low" arbitrary: low high rule: less_induct)
  case less
  show ?case
  proof (cases "low < high")
    case False
    with less.prems show ?thesis by (subst partition_from.simps) auto
  next
    case True
    let ?mid = "low + (high - low) div 2"
    have mid: "low \<le> ?mid" "?mid < high" "?mid < n" using True less.prems(2) by auto
    show ?thesis
    proof (cases "P ?mid")
      case P: True
      have "\<forall>i < ?mid + 1. P i"
        using P mono[of _ ?mid] mid(3) by (metis less_Suc_eq Suc_eq_plus1)
      then have "\<exists>r. partition_from below (?mid + 1) high = Inr r \<and> r \<le> n \<and> (\<forall>i < r. P i) \<and>
          (\<forall>i < n. r \<le> i \<longrightarrow> \<not> P i)"
        using mid less.prems(2,4) by (intro less.hyps) auto
      moreover have "partition_from below low high = partition_from below (?mid + 1) high"
        using True P below[OF mid(3)] by (subst partition_from.simps) (simp add: Let_def)
      ultimately show ?thesis by simp
    next
      case nP: False
      have "\<forall>i < n. ?mid \<le> i \<longrightarrow> \<not> P i"
        using nP mono[of ?mid] by (metis le_neq_implies_less)
      then have "\<exists>r. partition_from below low ?mid = Inr r \<and> r \<le> n \<and> (\<forall>i < r. P i) \<and>
          (\<forall>i < n. r \<le> i \<longrightarrow> \<not> P i)"
        using mid less.prems(3) by (intro less.hyps) auto
      moreover have "partition_from below low high = partition_from below low ?mid"
        using True nP below[OF mid(3)] by (subst partition_from.simps) (simp add: Let_def)
      ultimately show ?thesis by simp
    qed
  qed
qed

lemma partition_takeWhile:
  assumes "\<And>i. i < length xs \<Longrightarrow> below i = Inr (P (xs ! i))"
    "\<And>i j. i < j \<Longrightarrow> j < length xs \<Longrightarrow> P (xs ! j) \<Longrightarrow> P (xs ! i)"
  shows "partition_from below 0 (length xs) = Inr (length (takeWhile P xs))"
proof -
  obtain r where r: "partition_from below 0 (length xs) = Inr r" "r \<le> length xs"
    "\<forall>i < r. P (xs ! i)" "\<forall>i < length xs. r \<le> i \<longrightarrow> \<not> P (xs ! i)"
    using partition_from_spec[of "length xs" below "\<lambda>i. P (xs ! i)" 0 "length xs"] assms by auto
  have "takeWhile P xs = take r xs"
    using r by (intro takeWhile_eq_take_P_nth) auto
  with r show ?thesis by simp
qed

subsection \<open>Lookups\<close>

text \<open>The rows of a list of entries, with their values as the page stores them.\<close>

definition entry_row :: "entry \<Rightarrow> bytes \<times> entry_value \<times> u64" where
  "entry_row e = (en_key e, en_value e, en_revision e)"

abbreviation entry_rows :: "entry list \<Rightarrow> (entry_value \<times> u64) rows" where
  "entry_rows es \<equiv> map entry_row es"

definition sorted_entries :: "entry list \<Rightarrow> bool" where
  "sorted_entries es \<longleftrightarrow> sorted_rows (entry_rows es)"

lemma fst_entry_row [simp]: "fst (entry_row e) = en_key e"
  by (simp add: entry_row_def)

lemma sorted_entries_simps [simp]:
  "sorted_entries []"
  "sorted_entries (e # es) \<longleftrightarrow> (\<forall>x \<in> set es. en_key e < en_key x) \<and> sorted_entries es"
  by (auto simp: sorted_entries_def)

lemma sorted_entries_append:
  "sorted_entries (es @ fs) \<longleftrightarrow> sorted_entries es \<and> sorted_entries fs \<and>
     (\<forall>x \<in> set es. \<forall>y \<in> set fs. en_key x < en_key y)"
  by (auto simp: sorted_entries_def sorted_rows_append)

lemma sorted_entries_nth: "sorted_entries es \<Longrightarrow> i < j \<Longrightarrow> j < length es \<Longrightarrow> en_key (es ! i) < en_key (es ! j)"
  using sorted_wrt_nth_less[of "(<)" "map en_key es" i j]
  by (simp add: sorted_entries_def sorted_rows_def comp_def)

lemma leaf_slot:
  assumes "leaf_layout crc ps p es" "p ! 4 = PAGE_VERSION" "i < length es"
  obtains until where
    "slot_cell \<lparr> sl_page = p, sl_count = length es, sl_dir_start = PAGE_SIZE - length es * SLOT_SIZE \<rparr>
       i LEAF_CELL_HEADER page_id = Inr (leaf_off es i, until)"
    "leaf_off es i + leaf_cell_size (es ! i) \<le> until"
proof -
  let ?dir = "PAGE_SIZE - length es * SLOT_SIZE"
  have slot: "unat (read_u16 p (?dir + j * SLOT_SIZE)) = leaf_off es j" if "j < length es" for j
    using assms(1,2) that by (simp add: leaf_layout_def)
  have dir: "leaf_off es (length es) \<le> ?dir" using assms(1,2) by (simp add: leaf_layout_def)
  have nxt: "leaf_off es i + leaf_cell_size (es ! i) = leaf_off es (Suc i)"
    using assms(3) by (simp add: leaf_off_Suc)
  have "leaf_off es (Suc i) \<le> ?dir"
    using leaf_off_le[of "Suc i" "length es" es] assms(3) dir by simp
  moreover have "leaf_off es i + LEAF_CELL_HEADER \<le> leaf_off es (Suc i)"
    using nxt leaf_size_header[of "es ! i"] by simp
  ultimately show ?thesis
    using that[of "if i + 1 < length es then leaf_off es (Suc i) else ?dir"] assms(3) slot[of i]
      slot[of "Suc i"] leaf_off_header[of es i] nxt
    by (cases "Suc i < length es") (auto simp: slot_cell_def Let_def)
qed

lemma leaf_slot_reads:
  assumes "leaf_layout crc ps p es" "p ! 4 = PAGE_VERSION" "i < length es"
  defines "sl \<equiv> \<lparr> sl_page = p, sl_count = length es, sl_dir_start = PAGE_SIZE - length es * SLOT_SIZE \<rparr>"
  shows "slot_leaf_key crc ps sl page_id i = Inr (en_key (es ! i))"
    "slot_leaf_entry crc ps sl page_id i =
       Inr (en_key (es ! i), Inr (en_value (es ! i)), en_revision (es ! i))"
proof -
  let ?e = "es ! i" and ?off = "leaf_off es i"
  obtain until where slot: "slot_cell sl i LEAF_CELL_HEADER page_id = Inr (?off, until)"
    and until: "?off + leaf_cell_size ?e \<le> until"
    using leaf_slot[OF assms(1-3)] unfolding sl_def by blast
  have e: "leaf_cell_in crc ps p ?off ?e" "entry_ok ?e" "length p = PAGE_SIZE"
    using assms(1,3) by (auto simp: leaf_layout_def)
  obtain kp where cell: "bslice p ?off (leaf_cell_size ?e) = leaf_cell_bytes kp ?e"
    and room: "?off + leaf_cell_size ?e \<le> length p"
    and blob: "INLINE_LIMIT < length (en_key ?e) \<Longrightarrow> read_blob crc ps kp (length (en_key ?e)) = Inr (en_key ?e)"
    using e(1) unfolding leaf_cell_in_def by blast
  note f = leaf_cell_fields[OF cell room] and f2 = leaf_cell_fields(2)[OF cell room, simplified]
  have klen: "unat (word_of_nat (length (en_key ?e)) :: u32) = length (en_key ?e)"
    using e(2) by (intro key_size_u32) (simp add: entry_ok_def)
  have fits: "behind_key ?off ?e + inline_len (en_value ?e) \<le> until"
    using until by (simp add: behind_key_size)
  note meta = leaf_meta_okI[OF e(2)]
  have slp: "sl_page sl = p" by (simp add: sl_def)
  show "slot_leaf_key crc ps sl page_id i = Inr (en_key ?e)"
    using fits f(7) blob meta entry_flags_bits(1)[of ?e]
    by (auto simp: slot_leaf_key_def slot Let_def slp f(1,4) f2 klen behind_key_def split: if_splits)
  have v: "(if entry_flags ?e AND EXTERNAL_VALUE \<noteq> 0
      then Inr (External \<lparr> vr_offset = read_u64 p (?off + 17), vr_len = read_u32 p (?off + 5),
                           vr_revision = read_u64 p (?off + 25) \<rparr>)
      else if until < behind_key ?off ?e + unat (read_u32 p (?off + 5)) then Inl (bad_leaf_cell page_id)
      else Inr (Inline (bslice p (behind_key ?off ?e) (unat (read_u32 p (?off + 5)))))) = Inr (en_value ?e)"
  proof (cases "en_value ?e")
    case (Inline v)
    have "unat (entry_value_len ?e) = length v"
      using entry_value_len_ok(2)[OF e(2) Inline] .
    then show ?thesis
      using Inline fits f(8)[OF Inline] entry_flags_bits(2)[of ?e]
      by (simp add: f(3) behind_key_def[symmetric])
  next
    case (External r)
    then show ?thesis
      using e(2) entry_flags_bits(2)[of ?e]
      by (simp add: f(3,5,6) entry_value_len_def entry_value_offset_def entry_ok_def)
  qed
  have start: "(if entry_flags ?e AND EXTERNAL_KEY \<noteq> 0 then ?off + LEAF_CELL_HEADER
      else ?off + LEAF_CELL_HEADER + length (en_key ?e)) = behind_key ?off ?e"
    using entry_flags_bits(1)[of ?e] by (simp add: behind_key_def)
  show "slot_leaf_entry crc ps sl page_id i = Inr (en_key ?e, Inr (en_value ?e), en_revision ?e)"
    using fits f(7) blob meta entry_flags_bits(1)[of ?e] v
    unfolding slot_leaf_entry_def slot ebind_simps Let_def case_prod_conv
    by (auto simp: slp f(1,3,4,6) f2 klen start behind_key_def split: if_splits)
qed

lemma leaf_lower_bound_read:
  assumes "leaf_layout crc ps p es" "p ! 4 = PAGE_VERSION" "sorted_entries es"
  shows "leaf_lower_bound crc ps
      \<lparr> sl_page = p, sl_count = length es, sl_dir_start = PAGE_SIZE - length es * SLOT_SIZE \<rparr> page_id target =
    Inr (length (takeWhile (\<lambda>e. en_key e < target) es))"
  unfolding leaf_lower_bound_def slots.simps
proof (rule partition_takeWhile)
  show "ebind (slot_leaf_key crc ps \<lparr> sl_page = p, sl_count = length es,
        sl_dir_start = PAGE_SIZE - length es * SLOT_SIZE \<rparr> page_id i) (\<lambda>key. Inr (key < target)) =
      Inr (en_key (es ! i) < target)" if "i < length es" for i
    using leaf_slot_reads(1)[OF assms(1,2) that] by simp
  show "en_key (es ! i) < target" if "i < j" "j < length es" "en_key (es ! j) < target" for i j
    using sorted_entries_nth[OF assms(3) that(1,2)] that(3) by order
qed

lemma rget_takeWhile:
  "sorted_entries es \<Longrightarrow>
     rget (entry_rows es) k =
       (let i = length (takeWhile (\<lambda>e. en_key e < k) es)
        in if i < length es \<and> en_key (es ! i) = k then Some (en_value (es ! i), en_revision (es ! i)) else None)"
proof (induction es)
  case (Cons e es)
  show ?case
  proof (cases "en_key e < k")
    case True
    with Cons show ?thesis by (auto simp: entry_row_def[of e] Let_def)
  next
    case False
    then have "rget (entry_rows es) k = None" using Cons.prems by (auto simp: rget_None)
    with False show ?thesis by (auto simp: entry_row_def[of e] Let_def)
  qed
qed simp

lemma find_in_leaf_walk_read:
  assumes "length p = PAGE_SIZE" "\<forall>e \<in> set es. entry_ok e" "sorted_entries es"
    "\<And>i. i < length es \<Longrightarrow> leaf_cell_in crc ps p (off + span leaf_cell_size (take i es)) (es ! i)"
  shows "find_in_leaf_walk crc ps p page_id key (length es) off = Inr (rget (entry_rows es) key)"
  using assms
proof (induction es arbitrary: off)
  case (Cons e es)
  have e: "leaf_cell_in crc ps p off e" "entry_ok e"
    using Cons.prems(2) Cons.prems(4)[of 0] by simp_all
  have "leaf_cell_in crc ps p (off + leaf_cell_size e + span leaf_cell_size (take i es)) (es ! i)"
    if "i < length es" for i
    using Cons.prems(4)[of "Suc i"] that by (simp add: add.assoc)
  then have IH: "find_in_leaf_walk crc ps p page_id key (length es) (off + leaf_cell_size e) =
      Inr (rget (entry_rows es) key)"
    using Cons.prems by (intro Cons.IH) simp_all
  have "rget (entry_rows es) key = None" if "key < en_key e"
    using that Cons.prems(3) by (auto simp: rget_None)
  with IH show ?case
    using leaf_cell_read[OF e Cons.prems(1)] by (auto simp: entry_row_def[of e])
qed simp

lemma find_in_leaf_read:
  assumes "leaf_layout crc ps p es" "sorted_entries es"
  shows "find_in_leaf crc ps p page_id key = Inr (rget (entry_rows es) key)"
proof (cases "p ! 4 = PAGE_VERSION")
  case True
  let ?i = "length (takeWhile (\<lambda>e. en_key e < key) es)"
  have "?i \<le> length es" by (rule length_takeWhile_le)
  then show ?thesis
    using assms(1) leaf_lower_bound_read[OF assms(1) True assms(2), of page_id key]
      leaf_slot_reads(2)[OF assms(1) True, of ?i page_id] rget_takeWhile[OF assms(2), of key]
    by (auto simp: find_in_leaf_def page_slots_def True find_in_leaf_slots_def leaf_layout_def Let_def)
next
  case False
  then show ?thesis
    using assms find_in_leaf_walk_read[of p es crc ps HEADER_SIZE page_id key]
    by (simp add: find_in_leaf_def page_slots_def leaf_layout_def leaf_off_def)
qed

subsection \<open>The writer produces such pages\<close>

definition leaf_cost :: "entry \<Rightarrow> nat" where
  "leaf_cost e = leaf_cell_size e + SLOT_SIZE"

definition leaf_fits :: "entry list \<Rightarrow> bool" where
  "leaf_fits es \<longleftrightarrow> HEADER_SIZE + span leaf_cost es \<le> PAGE_SIZE"

lemma span_leaf_cost: "span leaf_cost es = span leaf_cell_size es + length es * SLOT_SIZE"
  by (induction es) (simp_all add: leaf_cost_def)

lemma span_lower: "(\<And>x. c \<le> f x) \<Longrightarrow> length xs * c \<le> span f xs" for c :: nat
  by (induction xs) (auto intro: add_mono)

lemma leaf_fits_count: "leaf_fits es \<Longrightarrow> length es \<le> MAX_LEAF_ENTRIES"
  using span_lower[of 35 leaf_cost es] leaf_size_header
  by (simp add: leaf_fits_def leaf_cost_def count_consts size_consts)

lemma leaf_enc_cell:
  assumes "s \<noteq> []" "prefix (fst (leaf_enc crc s e)) qs" "length qs < 2 ^ 64" "entry_ok e"
  shows "\<exists>kp. snd (leaf_enc crc s e) = leaf_cell_bytes kp e \<and>
    (INLINE_LIMIT < length (en_key e) \<longrightarrow> read_blob crc qs kp (length (en_key e)) = Inr (en_key e))"
proof (intro exI conjI impI)
  show "snd (leaf_enc crc s e) = leaf_cell_bytes (snd (leaf_key_page crc s e)) e"
    by (simp add: leaf_enc_def)
  assume long: "INLINE_LIMIT < length (en_key e)"
  have "length (fst (write_blob crc s (en_key e))) < 2 ^ 64"
    using assms(2,3) long prefix_length_le by (fastforce simp: leaf_enc_def leaf_key_page_def)
  then show "read_blob crc qs (snd (leaf_key_page crc s e)) (length (en_key e)) = Inr (en_key e)"
    using read_written_blob[of "en_key e" s crc qs] assms long
    by (simp add: leaf_enc_def leaf_key_page_def entry_ok_def)
qed

lemma write_leaf_page:
  assumes "es \<noteq> []" "\<forall>e \<in> set es. entry_ok e" "leaf_fits es" "ps \<noteq> []"
  obtains qs where
    "write_leaf crc ps es = Inr (qs, \<lparr> nr_page_id = word_of_nat (length qs - 1), nr_min_key = en_key (hd es) \<rparr>)"
    "prefix ps qs" "length ps < length qs"
    "length qs < 2 ^ 64 \<Longrightarrow> leaf_page crc qs (word_of_nat (length qs - 1)) es"
proof -
  let ?dir = "PAGE_SIZE - length es * SLOT_SIZE"
  let ?p0 = "write_at (new_page LEAF 0) 20 (u32_to_be (word_of_nat (length es)))"
  have cost: "HEADER_SIZE + span leaf_cell_size es + length es * SLOT_SIZE \<le> PAGE_SIZE"
    using assms(3) by (simp add: leaf_fits_def span_leaf_cost)
  have count: "length es \<le> 122" using leaf_fits_count[OF assms(3)] by (simp add: count_consts)
  have p0: "length ?p0 = PAGE_SIZE" "page_wf ?p0"
    by (simp_all add: page_wf_write size_consts)
  obtain ps1 p1 off1 where lay: "lay_cells (leaf_enc crc) ps ?p0 ?dir 0 HEADER_SIZE es = (ps1, p1, off1)"
    by (rule prod_cases3)
  have props: "prefix ps ps1" "off1 = HEADER_SIZE + span leaf_cell_size es"
    using leaf_cells.lay_cells_props[OF p0(1) _ _ lay] cost by auto
  let ?id = "word_of_nat (length ps1) :: u64"
  let ?qs = "fst (append_page crc ps1 p1)"
  have "write_leaf_cells crc ps ?p0 ?dir 0 HEADER_SIZE es = (ps1, p1, off1)"
    using lay cost p0(1) by (subst write_leaf_cells_lay) auto
  moreover have "\<not> ?dir < off1" using props cost by auto
  moreover have qs: "length ?qs - 1 = length ps1" "prefix ps1 ?qs" by (simp_all add: append_page_fst)
  ultimately have w: "write_leaf crc ps es =
      Inr (?qs, \<lparr> nr_page_id = word_of_nat (length ?qs - 1), nr_min_key = en_key (hd es) \<rparr>)"
    using assms(1) by (cases es) (simp_all add: write_leaf_def Let_def append_page_def)
  have page: "leaf_page crc ?qs ?id es" if small: "length ?qs < 2 ^ 64"
  proof -
    have small1: "length ps1 < 2 ^ 64" using small by (simp add: append_page_fst)
    show ?thesis
    proof (rule leaf_cells.lay_page[OF p0(2) cost lay small1])
      fix q
      assume q: "read_page crc ?qs ?id = Inr q" "length q = PAGE_SIZE" "q ! 5 = ?p0 ! 5"
        and head: "\<And>a n. 20 \<le> a \<Longrightarrow> a + n \<le> HEADER_SIZE \<Longrightarrow> bslice q a n = bslice ?p0 a n"
        and cells: "\<And>i. i < length es \<Longrightarrow> \<exists>s. prefix ps s \<and> prefix (fst (leaf_enc crc s (es ! i))) ps1 \<and>
          bslice q (HEADER_SIZE + span leaf_cell_size (take i es)) (leaf_cell_size (es ! i)) = snd (leaf_enc crc s (es ! i))"
        and slots: "\<And>i. i < length es \<Longrightarrow> unat (read_u16 q (?dir + i * SLOT_SIZE)) =
          HEADER_SIZE + span leaf_cell_size (take i es)"
      have "q ! 5 = LEAF" using q(3) by (simp add: size_consts nth_write_at new_page_fields)
      moreover have "unat (read_u32 q 20) = length es"
        using head[of 20 4] count by (simp add: read_u32_def size_consts bslice_write_same unat_word_of_nat_u32)
      moreover have "leaf_cell_in crc ?qs q (leaf_off es i) (es ! i)" if i: "i < length es" for i
      proof -
        obtain s where s: "prefix ps s" "prefix (fst (leaf_enc crc s (es ! i))) ps1"
          "bslice q (leaf_off es i) (leaf_cell_size (es ! i)) = snd (leaf_enc crc s (es ! i))"
          using cells[OF i] unfolding leaf_off_def by blast
        have "s \<noteq> []" using s(1) assms(4) by auto
        moreover have "prefix (fst (leaf_enc crc s (es ! i))) ?qs" using s(2) qs(2) by (rule prefix_order.trans)
        moreover have "leaf_off es i + leaf_cell_size (es ! i) \<le> length q"
          using cost span_take_nth[OF i, of leaf_cell_size] q(2) by (simp add: leaf_off_def)
        ultimately show ?thesis
          using leaf_enc_cell[of s crc "es ! i" ?qs] small assms(2) i s(3) by (simp add: leaf_cell_in_def)
      qed
      ultimately show ?thesis
        using q(1,2) assms(2) leaf_fits_count[OF assms(3)] cost slots
        by (auto simp: leaf_page_def leaf_layout_def leaf_off_def)
    qed
  qed
  show ?thesis
    using that[OF w] props qs page prefix_length_le[of ps ps1]
    by (auto simp: append_page_fst intro: prefix_order.trans)
qed

end
