(* ===== verification/InternalLayout.thy ===== *)
theory InternalLayout
  imports PageLayout
begin

text \<open>
  What the internal pages of the tree hold: a first child and, behind it, children
  with the separator that introduces each.  The full decode, the binary search
  over the slot directory and the walk of a page without one are shown to answer
  from that description, and \<open>write_internal\<close> to produce it.
\<close>

unbundle bit_operations_syntax

section \<open>Internal cells\<close>

definition node_size :: "node_ref \<Rightarrow> nat" where
  "node_size c = internal_cell_size (nr_min_key c)"

definition internal_flags :: "node_ref \<Rightarrow> byte" where
  "internal_flags c = (if INLINE_LIMIT < length (nr_min_key c) then EXTERNAL_KEY else 0)"

definition internal_cell_bytes :: "u64 \<Rightarrow> node_ref \<Rightarrow> bytes" where
  "internal_cell_bytes key_page c =
     [internal_flags c] @ u32_to_be (word_of_nat (length (nr_min_key c))) @
     u64_to_be key_page @ u64_to_be (nr_page_id c) @
     (if length (nr_min_key c) \<le> INLINE_LIMIT then nr_min_key c else [])"

definition internal_key_page :: "(bytes \<Rightarrow> u32) \<Rightarrow> page_store \<Rightarrow> node_ref \<Rightarrow> page_store \<times> u64" where
  "internal_key_page crc ps c =
     (if INLINE_LIMIT < length (nr_min_key c) then write_blob crc ps (nr_min_key c) else (ps, 0))"

definition internal_enc :: "(bytes \<Rightarrow> u32) \<Rightarrow> page_store \<Rightarrow> node_ref \<Rightarrow> page_store \<times> bytes" where
  "internal_enc crc ps c =
     (fst (internal_key_page crc ps c), internal_cell_bytes (snd (internal_key_page crc ps c)) c)"

lemma length_internal_cell_bytes [simp]: "length (internal_cell_bytes kp c) = node_size c"
  by (simp add: internal_cell_bytes_def node_size_def internal_cell_size_def INTERNAL_CELL_HEADER_def)

interpretation internal_cells: cell_writer "internal_enc crc" node_size for crc
  by unfold_locales (simp_all add: internal_enc_def internal_key_page_def prefix_write_blob)

lemma encode_internal_cell_writes:
  assumes "offset + node_size c \<le> length p"
  shows "encode_internal_cell crc ps p offset c =
    (fst (internal_enc crc ps c), write_at p offset (snd (internal_enc crc ps c)), offset + node_size c)"
proof -
  define kp where "kp = snd (internal_key_page crc ps c)"
  define fl where "fl = internal_flags c"
  have room: "offset + 21 + (if length (nr_min_key c) \<le> INLINE_LIMIT then length (nr_min_key c) else 0) \<le> length p"
    using assms by (simp add: node_size_def internal_cell_size_def INTERNAL_CELL_HEADER_def)
  have kp': "(if INLINE_LIMIT < length (nr_min_key c) then write_blob crc ps (nr_min_key c) else (ps, 0)) =
      (fst (internal_key_page crc ps c), kp)"
    by (simp add: internal_key_page_def kp_def)
  show ?thesis
    using room
    unfolding encode_internal_cell_def Let_def kp' internal_enc_def kp_def[symmetric] internal_cell_bytes_def
      internal_flags_def[symmetric] fl_def[symmetric]
    by (auto simp: write_at_seq INTERNAL_CELL_HEADER_def node_size_def internal_cell_size_def add.assoc not_le)
qed

lemma write_internal_cells_lay:
  "offset + span node_size cs \<le> dir \<Longrightarrow> dir + (index + length cs) * SLOT_SIZE \<le> length p \<Longrightarrow>
     write_internal_cells crc ps p dir index offset cs = lay_cells (internal_enc crc) ps p dir index offset cs"
proof (induction cs arbitrary: ps p index offset)
  case (Cons c cs)
  let ?p = "write_at p (dir + index * SLOT_SIZE) (u16_to_be (word_of_nat offset))"
  have len: "length ?p = length p" using Cons.prems(2) by (simp add: SLOT_SIZE_def)
  have fit: "offset + node_size c \<le> length ?p"
    using Cons.prems len by (simp add: SLOT_SIZE_def)
  have len2: "length (write_at ?p offset (snd (internal_enc crc ps c))) = length p"
    using fit len by (simp add: internal_cells.enc_length)
  show ?case
    using Cons.prems Cons.IH[of "offset + node_size c" "index + 1"
        "write_at ?p offset (snd (internal_enc crc ps c))"] len2
    by (simp add: encode_internal_cell_writes[OF fit] Let_def split_def internal_cells.enc_length
        add.assoc)
qed simp

definition separator_ok :: "bytes \<Rightarrow> bool" where
  "separator_ok k \<longleftrightarrow> k \<noteq> [] \<and> length k \<le> MAX_STORED_KEY_SIZE"

definition internal_cell_in :: "(bytes \<Rightarrow> u32) \<Rightarrow> page_store \<Rightarrow> page \<Rightarrow> nat \<Rightarrow> node_ref \<Rightarrow> bool" where
  "internal_cell_in crc ps p offset c \<longleftrightarrow>
     offset + node_size c \<le> length p \<and>
     (\<exists>kp. bslice p offset (node_size c) = internal_cell_bytes kp c \<and>
        (INLINE_LIMIT < length (nr_min_key c) \<longrightarrow>
           read_blob crc ps kp (length (nr_min_key c)) = Inr (nr_min_key c)))"

lemma internal_cell_in_mono:
  "internal_cell_in crc ps p off c \<Longrightarrow> prefix ps qs \<Longrightarrow> internal_cell_in crc qs p off c"
  unfolding internal_cell_in_def using read_blob_mono by blast

lemma internal_flags_bits:
  "internal_flags c AND EXTERNAL_KEY \<noteq> 0 \<longleftrightarrow> INLINE_LIMIT < length (nr_min_key c)"
  "internal_flags c AND NOT EXTERNAL_KEY = 0"
  by (auto simp: internal_flags_def tag_consts)

lemma node_size_header: "INTERNAL_CELL_HEADER \<le> node_size c"
  by (simp add: node_size_def internal_cell_size_def)

lemma internal_cell_fields:
  assumes cell: "bslice p off (node_size c) = internal_cell_bytes kp c"
    and room: "off + node_size c \<le> length p"
  shows "p ! off = internal_flags c"
    "read_u32 p (off + 1) = word_of_nat (length (nr_min_key c))"
    "read_u64 p (off + 5) = kp"
    "read_u64 p (off + 13) = nr_page_id c"
    "length (nr_min_key c) \<le> INLINE_LIMIT \<Longrightarrow>
       bslice p (off + INTERNAL_CELL_HEADER) (length (nr_min_key c)) = nr_min_key c"
proof -
  have hdr: "21 \<le> node_size c" using node_size_header[of c] by (simp add: INTERNAL_CELL_HEADER_def)
  have at: "bslice p (off + a) n = bslice (internal_cell_bytes kp c) a n" if "a + n \<le> node_size c" for a n
    using that cell bslice_within[of a n "node_size c" p off] by simp
  have "p ! off = bslice p off (node_size c) ! 0"
    using hdr room by (subst bslice_nth) auto
  then show "p ! off = internal_flags c" by (simp add: cell internal_cell_bytes_def)
  show "read_u32 p (off + 1) = word_of_nat (length (nr_min_key c))" "read_u64 p (off + 5) = kp"
    "read_u64 p (off + 13) = nr_page_id c"
    using hdr at[of 1 4] at[of 5 8] at[of 13 8]
    by (simp_all add: read_u32_def read_u64_def internal_cell_bytes_def bslice_simps)
  show "bslice p (off + INTERNAL_CELL_HEADER) (length (nr_min_key c)) = nr_min_key c"
    if "length (nr_min_key c) \<le> INLINE_LIMIT"
    using that by (subst at) (simp_all add: node_size_def internal_cell_size_def internal_cell_bytes_def
        bslice_simps INTERNAL_CELL_HEADER_def)
qed

lemma internal_cell_read:
  assumes "internal_cell_in crc ps p off c" "separator_ok (nr_min_key c)" "length p = PAGE_SIZE"
    "refuse_own \<Longrightarrow> nr_page_id c \<noteq> page_id"
  shows "internal_cell refuse_own crc ps p page_id off = Inr (nr_min_key c, nr_page_id c, off + node_size c)"
proof -
  obtain kp where cell: "bslice p off (node_size c) = internal_cell_bytes kp c"
    and room: "off + node_size c \<le> length p"
    and blob: "INLINE_LIMIT < length (nr_min_key c) \<Longrightarrow>
      read_blob crc ps kp (length (nr_min_key c)) = Inr (nr_min_key c)"
    using assms(1) unfolding internal_cell_in_def by blast
  note f = internal_cell_fields[OF cell room] and f2 = internal_cell_fields(2)[OF cell room, simplified]
  have klen: "unat (word_of_nat (length (nr_min_key c)) :: u32) = length (nr_min_key c)"
    using assms(2) by (intro key_size_u32) (simp add: separator_ok_def)
  have size: "node_size c = INTERNAL_CELL_HEADER +
      (if length (nr_min_key c) \<le> INLINE_LIMIT then length (nr_min_key c) else 0)"
    by (simp add: node_size_def internal_cell_size_def)
  show ?thesis
    using assms(2-4) room f(5) blob internal_flags_bits[of c]
    by (auto simp: internal_cell_def require_page_def Let_def f(1,3,4) f2 klen size internal_meta_ok_def
        separator_ok_def split: if_splits)
qed

section \<open>Internal pages\<close>

definition node_off :: "node_ref list \<Rightarrow> nat \<Rightarrow> nat" where
  "node_off cs i = HEADER_SIZE + span node_size (take i cs)"

definition internal_layout ::
  "(bytes \<Rightarrow> u32) \<Rightarrow> page_store \<Rightarrow> page \<Rightarrow> u64 \<Rightarrow> node_ref list \<Rightarrow> bool" where
  "internal_layout crc ps p first_id cs \<longleftrightarrow>
     length p = PAGE_SIZE \<and> p ! 5 = INTERNAL \<and> unat (read_u32 p 20) = length cs \<and>
     read_u64 p 24 = first_id \<and>
     length cs < MAX_INTERNAL_CHILDREN \<and> (\<forall>c \<in> set cs. separator_ok (nr_min_key c)) \<and>
     (\<forall>i < length cs. internal_cell_in crc ps p (node_off cs i) (cs ! i)) \<and>
     (p ! 4 = PAGE_VERSION \<longrightarrow>
        node_off cs (length cs) \<le> PAGE_SIZE - length cs * SLOT_SIZE \<and>
        (\<forall>i < length cs. unat (read_u16 p (PAGE_SIZE - length cs * SLOT_SIZE + i * SLOT_SIZE)) = node_off cs i))"

definition internal_page ::
  "(bytes \<Rightarrow> u32) \<Rightarrow> page_store \<Rightarrow> u64 \<Rightarrow> u64 \<Rightarrow> node_ref list \<Rightarrow> bool" where
  "internal_page crc ps page_id first_id cs \<longleftrightarrow>
     (\<exists>p. read_page crc ps page_id = Inr p \<and> internal_layout crc ps p first_id cs)"

lemma internal_layout_mono:
  "internal_layout crc ps p f cs \<Longrightarrow> prefix ps qs \<Longrightarrow> internal_layout crc qs p f cs"
  unfolding internal_layout_def using internal_cell_in_mono by blast

lemma internal_page_mono:
  "internal_page crc ps i f cs \<Longrightarrow> prefix ps qs \<Longrightarrow> internal_page crc qs i f cs"
  unfolding internal_page_def using read_page_mono internal_layout_mono by blast

lemma node_off_Suc: "i < length cs \<Longrightarrow> node_off cs (Suc i) = node_off cs i + node_size (cs ! i)"
  by (simp add: node_off_def span_take_Suc)

lemma node_off_le: "i \<le> j \<Longrightarrow> node_off cs i \<le> node_off cs j"
  using span_take_le[of node_size i "take j cs"] by (simp add: node_off_def min_absorb1)

subsection \<open>Sequential walks\<close>

lemma decode_internal_cells_read:
  assumes "length p = PAGE_SIZE" "\<forall>c \<in> set cs. separator_ok (nr_min_key c)"
    "\<And>i. i < length cs \<Longrightarrow> internal_cell_in crc ps p (off + span node_size (take i cs)) (cs ! i)"
  shows "decode_internal_cells crc ps p page_id (length cs) off = Inr cs"
  using assms
proof (induction cs arbitrary: off)
  case (Cons c cs)
  have c: "internal_cell_in crc ps p off c" "separator_ok (nr_min_key c)"
    using Cons.prems(2) Cons.prems(3)[of 0] by simp_all
  have "internal_cell_in crc ps p (off + node_size c + span node_size (take i cs)) (cs ! i)"
    if "i < length cs" for i
    using Cons.prems(3)[of "Suc i"] that by (simp add: add.assoc)
  then have "decode_internal_cells crc ps p page_id (length cs) (off + node_size c) = Inr cs"
    using Cons.prems by (intro Cons.IH) simp_all
  then show ?case
    using internal_cell_read[OF c Cons.prems(1), of False page_id] by simp
qed simp

text \<open>The child a key descends into: the last one whose separator is at or below the key.\<close>

definition child_index :: "node_ref list \<Rightarrow> bytes \<Rightarrow> nat" where
  "child_index cs key = length (takeWhile (\<lambda>c. nr_min_key c \<le> key) cs)"

definition child_at :: "u64 \<Rightarrow> node_ref list \<Rightarrow> nat \<Rightarrow> u64" where
  "child_at first_id cs i = (if i = 0 then first_id else nr_page_id (cs ! (i - 1)))"

lemma child_walk_read:
  assumes "length p = PAGE_SIZE" "\<forall>c \<in> set cs. separator_ok (nr_min_key c)"
    "\<And>i. i < length cs \<Longrightarrow> internal_cell_in crc ps p (off + span node_size (take i cs)) (cs ! i)"
    "\<forall>c \<in> set cs. nr_page_id c \<noteq> page_id"
  shows "child_walk crc ps p page_id key (length cs) index off (index, prev) =
    Inr (index + child_index cs key, child_at prev cs (child_index cs key))"
  using assms
proof (induction cs arbitrary: off index prev)
  case (Cons c cs)
  have c: "internal_cell_in crc ps p off c" "separator_ok (nr_min_key c)"
    using Cons.prems(2) Cons.prems(3)[of 0] by simp_all
  have "internal_cell_in crc ps p (off + node_size c + span node_size (take i cs)) (cs ! i)"
    if "i < length cs" for i
    using Cons.prems(3)[of "Suc i"] that by (simp add: add.assoc)
  then have "child_walk crc ps p page_id key (length cs) (Suc index) (off + node_size c) (Suc index, nr_page_id c) =
      Inr (Suc index + child_index cs key, child_at (nr_page_id c) cs (child_index cs key))"
    using Cons.prems by (intro Cons.IH) simp_all
  then show ?case
    using internal_cell_read[OF c Cons.prems(1), of True page_id] Cons.prems(4)
    by (auto simp: child_index_def child_at_def nth_Cons')
qed (simp add: child_index_def child_at_def)

subsection \<open>Binary search\<close>

lemma internal_slot:
  assumes "internal_layout crc ps p f cs" "p ! 4 = PAGE_VERSION" "i < length cs"
  obtains until where
    "slot_cell \<lparr> sl_page = p, sl_count = length cs, sl_dir_start = PAGE_SIZE - length cs * SLOT_SIZE \<rparr>
       i INTERNAL_CELL_HEADER page_id = Inr (node_off cs i, until)"
    "node_off cs i + node_size (cs ! i) \<le> until"
proof -
  let ?dir = "PAGE_SIZE - length cs * SLOT_SIZE"
  have slot: "unat (read_u16 p (?dir + j * SLOT_SIZE)) = node_off cs j" if "j < length cs" for j
    using assms(1,2) that by (simp add: internal_layout_def)
  have dir: "node_off cs (length cs) \<le> ?dir" using assms(1,2) by (simp add: internal_layout_def)
  have nxt: "node_off cs i + node_size (cs ! i) = node_off cs (Suc i)"
    using assms(3) by (simp add: node_off_Suc)
  have "node_off cs (Suc i) \<le> ?dir"
    using node_off_le[of "Suc i" "length cs" cs] assms(3) dir by simp
  moreover have "node_off cs i + INTERNAL_CELL_HEADER \<le> node_off cs (Suc i)"
    using nxt node_size_header[of "cs ! i"] by simp
  moreover have "HEADER_SIZE \<le> node_off cs i" by (simp add: node_off_def)
  ultimately show ?thesis
    using that[of "if i + 1 < length cs then node_off cs (Suc i) else ?dir"] assms(3) slot[of i]
      slot[of "Suc i"] nxt
    by (cases "Suc i < length cs") (auto simp: slot_cell_def Let_def)
qed

lemma internal_slot_reads:
  assumes "internal_layout crc ps p f cs" "p ! 4 = PAGE_VERSION" "i < length cs"
  defines "sl \<equiv> \<lparr> sl_page = p, sl_count = length cs, sl_dir_start = PAGE_SIZE - length cs * SLOT_SIZE \<rparr>"
  shows "slot_separator crc ps sl page_id i = Inr (nr_min_key (cs ! i))"
    "ebind (slot_cell sl i INTERNAL_CELL_HEADER page_id) (\<lambda>(cell, _). Inr (read_u64 p (cell + 13))) =
       Inr (nr_page_id (cs ! i))"
proof -
  let ?c = "cs ! i" and ?off = "node_off cs i"
  obtain until where slot: "slot_cell sl i INTERNAL_CELL_HEADER page_id = Inr (?off, until)"
    and until: "?off + node_size ?c \<le> until"
    using internal_slot[OF assms(1-3)] unfolding sl_def by blast
  have c: "internal_cell_in crc ps p ?off ?c" "separator_ok (nr_min_key ?c)" "length p = PAGE_SIZE"
    using assms(1,3) by (auto simp: internal_layout_def)
  obtain kp where cell: "bslice p ?off (node_size ?c) = internal_cell_bytes kp ?c"
    and room: "?off + node_size ?c \<le> length p"
    and blob: "INLINE_LIMIT < length (nr_min_key ?c) \<Longrightarrow>
      read_blob crc ps kp (length (nr_min_key ?c)) = Inr (nr_min_key ?c)"
    using c(1) unfolding internal_cell_in_def by blast
  note f = internal_cell_fields[OF cell room] and f2 = internal_cell_fields(2)[OF cell room, simplified]
  have klen: "unat (word_of_nat (length (nr_min_key ?c)) :: u32) = length (nr_min_key ?c)"
    using c(2) by (intro key_size_u32) (simp add: separator_ok_def)
  have slp: "sl_page sl = p" by (simp add: sl_def)
  have "?off + INTERNAL_CELL_HEADER + (if length (nr_min_key ?c) \<le> INLINE_LIMIT then length (nr_min_key ?c) else 0) \<le> until"
    using until by (simp add: node_size_def internal_cell_size_def)
  then show "slot_separator crc ps sl page_id i = Inr (nr_min_key ?c)"
    using f(5) blob c(2) internal_flags_bits[of ?c]
    by (auto simp: slot_separator_def slot Let_def slp f(1,3) f2 klen internal_meta_ok_def separator_ok_def
        split: if_splits)
  show "ebind (slot_cell sl i INTERNAL_CELL_HEADER page_id) (\<lambda>(cell, _). Inr (read_u64 p (cell + 13))) =
      Inr (nr_page_id ?c)"
    by (simp add: slot f(4))
qed

definition sorted_nodes :: "node_ref list \<Rightarrow> bool" where
  "sorted_nodes cs \<longleftrightarrow> sorted_wrt (<) (map nr_min_key cs)"

lemma child_for_key_read:
  assumes "internal_layout crc ps p first_id cs" "sorted_nodes cs"
    "first_id \<noteq> page_id" "\<forall>c \<in> set cs. nr_page_id c \<noteq> page_id"
  shows "child_for_key crc ps p page_id key =
    Inr (child_index cs key, child_at first_id cs (child_index cs key))"
proof (cases "p ! 4 = PAGE_VERSION")
  case True
  let ?sl = "\<lparr> sl_page = p, sl_count = length cs, sl_dir_start = PAGE_SIZE - length cs * SLOT_SIZE \<rparr>"
  have "nr_min_key (cs ! i) \<le> key" if "i < j" "j < length cs" "nr_min_key (cs ! j) \<le> key" for i j
    using sorted_wrt_nth_less[of "(<)" "map nr_min_key cs" i j] assms(2) that
    by (auto simp: sorted_nodes_def)
  then have bound: "separator_bound crc ps ?sl page_id key = Inr (child_index cs key)"
    unfolding separator_bound_def slots.simps child_index_def
    using internal_slot_reads(1)[OF assms(1) True, of _ page_id] by (intro partition_takeWhile) auto
  have hit: "\<exists>cell until. slot_cell ?sl i INTERNAL_CELL_HEADER page_id = Inr (cell, until) \<and>
      read_u64 p (cell + 13) = nr_page_id (cs ! i)" if "i < length cs" for i
    using internal_slot_reads(2)[OF assms(1) True that, of page_id] by (auto simp: ebind_Inr_iff)
  have "child_index cs key \<le> length cs" by (simp add: child_index_def length_takeWhile_le)
  then show ?thesis
    using bound hit[of "child_index cs key - 1"] assms
    by (cases "child_index cs key")
      (auto simp: child_for_key_def page_slots_def True internal_layout_def Let_def child_at_def)
next
  case False
  then show ?thesis
    using assms child_walk_read[of p cs crc ps HEADER_SIZE page_id key 0 first_id]
    by (simp add: child_for_key_def page_slots_def internal_layout_def node_off_def Let_def)
qed

subsection \<open>The writer produces such pages\<close>

definition node_cost :: "node_ref \<Rightarrow> nat" where
  "node_cost c = node_size c + SLOT_SIZE"

definition internal_fits :: "node_ref list \<Rightarrow> bool" where
  "internal_fits cs \<longleftrightarrow> HEADER_SIZE + span node_cost cs \<le> PAGE_SIZE"

lemma span_node_cost: "span node_cost cs = span node_size cs + length cs * SLOT_SIZE"
  by (induction cs) (simp_all add: node_cost_def)

lemma internal_fits_count: "internal_fits cs \<Longrightarrow> length cs < MAX_INTERNAL_CHILDREN"
  using span_lower[of 23 node_cost cs] node_size_header
  by (simp add: internal_fits_def node_cost_def count_consts size_consts)

lemma internal_enc_cell:
  assumes "s \<noteq> []" "prefix (fst (internal_enc crc s c)) qs" "length qs < 2 ^ 64" "separator_ok (nr_min_key c)"
  shows "\<exists>kp. snd (internal_enc crc s c) = internal_cell_bytes kp c \<and>
    (INLINE_LIMIT < length (nr_min_key c) \<longrightarrow> read_blob crc qs kp (length (nr_min_key c)) = Inr (nr_min_key c))"
proof (intro exI conjI impI)
  show "snd (internal_enc crc s c) = internal_cell_bytes (snd (internal_key_page crc s c)) c"
    by (simp add: internal_enc_def)
  assume long: "INLINE_LIMIT < length (nr_min_key c)"
  have "length (fst (write_blob crc s (nr_min_key c))) < 2 ^ 64"
    using assms(2,3) long prefix_length_le by (fastforce simp: internal_enc_def internal_key_page_def)
  then show "read_blob crc qs (snd (internal_key_page crc s c)) (length (nr_min_key c)) = Inr (nr_min_key c)"
    using read_written_blob[of "nr_min_key c" s crc qs] assms long
    by (simp add: internal_enc_def internal_key_page_def separator_ok_def)
qed

lemma write_internal_page:
  assumes "\<forall>c \<in> set cs. separator_ok (nr_min_key c)" "internal_fits cs" "ps \<noteq> []"
  obtains qs where
    "write_internal crc ps (first # cs) =
       Inr (qs, \<lparr> nr_page_id = word_of_nat (length qs - 1), nr_min_key = nr_min_key first \<rparr>)"
    "prefix ps qs" "length ps < length qs"
    "length qs < 2 ^ 64 \<Longrightarrow> internal_page crc qs (word_of_nat (length qs - 1)) (nr_page_id first) cs"
proof -
  let ?dir = "PAGE_SIZE - length cs * SLOT_SIZE"
  let ?p0 = "write_at (write_at (new_page INTERNAL 0) 20 (u32_to_be (word_of_nat (length cs))))
    24 (u64_to_be (nr_page_id first))"
  have cost: "HEADER_SIZE + span node_size cs + length cs * SLOT_SIZE \<le> PAGE_SIZE"
    using assms(2) by (simp add: internal_fits_def span_node_cost)
  have count: "length cs < 194" using internal_fits_count[OF assms(2)] by (simp add: count_consts)
  have p0: "length ?p0 = PAGE_SIZE" "page_wf ?p0"
    by (simp_all add: page_wf_write size_consts)
  obtain ps1 p1 off1 where lay: "lay_cells (internal_enc crc) ps ?p0 ?dir 0 HEADER_SIZE cs = (ps1, p1, off1)"
    by (rule prod_cases3)
  have props: "prefix ps ps1" "off1 = HEADER_SIZE + span node_size cs"
    using internal_cells.lay_cells_props[OF p0(1) _ _ lay] cost by auto
  let ?id = "word_of_nat (length ps1) :: u64"
  let ?qs = "fst (append_page crc ps1 p1)"
  have "write_internal_cells crc ps ?p0 ?dir 0 HEADER_SIZE cs = (ps1, p1, off1)"
    using lay cost p0(1) by (subst write_internal_cells_lay) auto
  moreover have "\<not> ?dir < off1" using props cost by auto
  moreover have qs: "length ?qs - 1 = length ps1" "prefix ps1 ?qs" by (simp_all add: append_page_fst)
  ultimately have w: "write_internal crc ps (first # cs) =
      Inr (?qs, \<lparr> nr_page_id = word_of_nat (length ?qs - 1), nr_min_key = nr_min_key first \<rparr>)"
    by (simp add: write_internal_def Let_def append_page_def)
  have page: "internal_page crc ?qs ?id (nr_page_id first) cs" if small: "length ?qs < 2 ^ 64"
  proof -
    have small1: "length ps1 < 2 ^ 64" using small by (simp add: append_page_fst)
    show ?thesis
    proof (rule internal_cells.lay_page[OF p0(2) cost lay small1])
      fix q
      assume q: "read_page crc ?qs ?id = Inr q" "length q = PAGE_SIZE" "q ! 5 = ?p0 ! 5"
        and head: "\<And>a n. 20 \<le> a \<Longrightarrow> a + n \<le> HEADER_SIZE \<Longrightarrow> bslice q a n = bslice ?p0 a n"
        and cells: "\<And>i. i < length cs \<Longrightarrow> \<exists>s. prefix ps s \<and> prefix (fst (internal_enc crc s (cs ! i))) ps1 \<and>
          bslice q (HEADER_SIZE + span node_size (take i cs)) (node_size (cs ! i)) = snd (internal_enc crc s (cs ! i))"
        and slots: "\<And>i. i < length cs \<Longrightarrow> unat (read_u16 q (?dir + i * SLOT_SIZE)) =
          HEADER_SIZE + span node_size (take i cs)"
      have "q ! 5 = INTERNAL" using q(3) by (simp add: size_consts nth_write_at new_page_fields)
      moreover have "unat (read_u32 q 20) = length cs" "read_u64 q 24 = nr_page_id first"
        using head[of 20 4] head[of 24 8] count
        by (simp_all add: read_u32_def read_u64_def size_consts bslice_write_same bslice_write_other unat_word_of_nat_u32)
      moreover have "internal_cell_in crc ?qs q (node_off cs i) (cs ! i)" if i: "i < length cs" for i
      proof -
        obtain s where s: "prefix ps s" "prefix (fst (internal_enc crc s (cs ! i))) ps1"
          "bslice q (node_off cs i) (node_size (cs ! i)) = snd (internal_enc crc s (cs ! i))"
          using cells[OF i] unfolding node_off_def by blast
        have "s \<noteq> []" using s(1) assms(3) by auto
        moreover have "prefix (fst (internal_enc crc s (cs ! i))) ?qs" using s(2) qs(2) by (rule prefix_order.trans)
        moreover have "node_off cs i + node_size (cs ! i) \<le> length q"
          using cost span_take_nth[OF i, of node_size] q(2) by (simp add: node_off_def)
        ultimately show ?thesis
          using internal_enc_cell[of s crc "cs ! i" ?qs] small assms(1) i s(3) by (simp add: internal_cell_in_def)
      qed
      ultimately show ?thesis
        using q(1,2) assms(1) internal_fits_count[OF assms(2)] cost slots
        by (auto simp: internal_page_def internal_layout_def node_off_def)
    qed
  qed
  show ?thesis
    using that[OF w] props qs page prefix_length_le[of ps ps1]
    by (auto simp: append_page_fst intro: prefix_order.trans)
qed

end
