(* ===== verification/TreeNodes.thy ===== *)
theory TreeNodes
  imports InternalLayout TreeView
begin

text \<open>
  Subtrees of the page tree (\<open>crates/vyrn-core/src/page_tree.rs\<close>): the descent to a
  leaf, the leftmost key of a subtree and the decode of an internal page, and the
  invariant of a subtree, \<open>wf_node\<close>.  A subtree of height \<open>h\<close> holds a sorted,
  nonempty list of entries; the children of an internal page are fenced by their
  separators and have smaller page ids.  Appending pages keeps every subtree.
  The code bounds each descent by \<open>MAX_TREE_DEPTH\<close>; the model counts the same
  bound down, so \<open>depth\<close> in the code is the bound minus the fuel here.
\<close>

section \<open>Descents\<close>

text \<open>The match on the page type every walker of the tree starts with.\<close>

definition on_page ::
  "(bytes \<Rightarrow> u32) \<Rightarrow> page_store \<Rightarrow> u64 \<Rightarrow> (page \<Rightarrow> vyrn_error + 'a) \<Rightarrow> (page \<Rightarrow> vyrn_error + 'a)
     \<Rightarrow> vyrn_error + 'a" where
  "on_page crc ps page_id leaf internal =
     ebind (read_page crc ps page_id) (\<lambda>p.
     if p ! 5 = LEAF then leaf p
     else if p ! 5 = INTERNAL then internal p
     else Inl (unexpected_type page_id (p ! 5)))"

fun node_ref_from ::
  "(bytes \<Rightarrow> u32) \<Rightarrow> page_store \<Rightarrow> u64 \<Rightarrow> nat \<Rightarrow> u64 \<Rightarrow> vyrn_error + node_ref" where
  "node_ref_from crc ps page_id 0 current = Inl (excessive_depth current)"
| "node_ref_from crc ps page_id (Suc n) current =
     on_page crc ps current
       (\<lambda>p. ebind (first_leaf_key crc ps p current) (\<lambda>key.
            Inr \<lparr> nr_page_id = page_id, nr_min_key = key \<rparr>))
       (\<lambda>p. node_ref_from crc ps page_id n (read_u64 p 24))"

definition node_ref_of :: "(bytes \<Rightarrow> u32) \<Rightarrow> page_store \<Rightarrow> u64 \<Rightarrow> vyrn_error + node_ref" where
  "node_ref_of crc ps page_id = node_ref_from crc ps page_id MAX_TREE_DEPTH page_id"

definition decode_internal ::
  "(bytes \<Rightarrow> u32) \<Rightarrow> page_store \<Rightarrow> page \<Rightarrow> u64 \<Rightarrow> vyrn_error + node_ref list" where
  "decode_internal crc ps p page_id =
     (let count = unat (read_u32 p 20); first_id = read_u64 p 24
      in if MAX_INTERNAL_CHILDREN \<le> count then Inl (internal_claims page_id count)
         else ebind (node_ref_of crc ps first_id) (\<lambda>first.
              ebind (decode_internal_cells crc ps p page_id count HEADER_SIZE) (\<lambda>cs.
              Inr (first # cs))))"

definition read_leaf :: "(bytes \<Rightarrow> u32) \<Rightarrow> page_store \<Rightarrow> u64 \<Rightarrow> vyrn_error + entry list" where
  "read_leaf crc ps page_id =
     ebind (read_page crc ps page_id) (\<lambda>p.
     ebind (require_type p page_id LEAF) (\<lambda>_. decode_leaf crc ps p page_id))"

definition read_internal_children ::
  "(bytes \<Rightarrow> u32) \<Rightarrow> page_store \<Rightarrow> u64 \<Rightarrow> vyrn_error + node_ref list" where
  "read_internal_children crc ps page_id =
     ebind (read_page crc ps page_id) (\<lambda>p.
     ebind (require_type p page_id INTERNAL) (\<lambda>_. decode_internal crc ps p page_id))"

text \<open>The leaf that owns a key, with the path to it as a stack of page and child index.\<close>

fun find_leaf ::
  "(bytes \<Rightarrow> u32) \<Rightarrow> page_store \<Rightarrow> bytes \<Rightarrow> nat \<Rightarrow> u64 \<Rightarrow> (u64 \<times> nat) list
     \<Rightarrow> vyrn_error + (u64 \<times> (u64 \<times> nat) list)" where
  "find_leaf crc ps key 0 page_id path = Inl (excessive_depth page_id)"
| "find_leaf crc ps key (Suc n) page_id path =
     on_page crc ps page_id
       (\<lambda>p. Inr (page_id, path))
       (\<lambda>p. ebind (child_for_key crc ps p page_id key) (\<lambda>(index, child).
            find_leaf crc ps key n child ((page_id, index) # path)))"

section \<open>Subtrees\<close>

text \<open>Children with the entries below each, and what their separators promise.\<close>

type_synonym branch = "node_ref \<times> entry list"

abbreviation below :: "branch list \<Rightarrow> entry list" where
  "below bs \<equiv> concat (map snd bs)"

fun fenced :: "branch list \<Rightarrow> bool" where
  "fenced [] \<longleftrightarrow> True"
| "fenced ((c, es) # bs) \<longleftrightarrow>
     (\<forall>e \<in> set es. nr_min_key c \<le> en_key e) \<and>
     (\<forall>e \<in> set es. \<forall>b \<in> set bs. en_key e < nr_min_key (fst b)) \<and> fenced bs"

definition branches_ok :: "(u64 \<Rightarrow> entry list \<Rightarrow> bool) \<Rightarrow> branch list \<Rightarrow> bool" where
  "branches_ok sub bs \<longleftrightarrow>
     (\<forall>b \<in> set bs. sub (nr_page_id (fst b)) (snd b) \<and> snd b \<noteq> [] \<and> separator_ok (nr_min_key (fst b))) \<and>
     fenced bs"

fun wf_node :: "(bytes \<Rightarrow> u32) \<Rightarrow> page_store \<Rightarrow> nat \<Rightarrow> u64 \<Rightarrow> entry list \<Rightarrow> bool" where
  "wf_node crc ps 0 page_id es \<longleftrightarrow> leaf_page crc ps page_id es \<and> es \<noteq> [] \<and> sorted_entries es"
| "wf_node crc ps (Suc h) page_id es \<longleftrightarrow>
     (\<exists>first cs bs. internal_page crc ps page_id (nr_page_id first) cs \<and> map fst bs = first # cs \<and>
        branches_ok (wf_node crc ps h) bs \<and>
        (\<forall>b \<in> set bs. unat (nr_page_id (fst b)) < unat page_id) \<and> es = below bs)"

lemma branches_ok_mono: "branches_ok P bs \<Longrightarrow> (\<And>i es. P i es \<Longrightarrow> Q i es) \<Longrightarrow> branches_ok Q bs"
  by (auto simp: branches_ok_def)

lemma wf_node_mono: "wf_node crc ps h i es \<Longrightarrow> prefix ps qs \<Longrightarrow> wf_node crc qs h i es"
proof (induction h arbitrary: i es)
  case 0
  then show ?case using leaf_page_mono by auto
next
  case (Suc h)
  then show ?case
    using internal_page_mono branches_ok_mono[of "wf_node crc ps h" _ "wf_node crc qs h"]
    unfolding wf_node.simps by metis
qed

lemma fenced_append:
  "fenced (as @ bs) \<longleftrightarrow> fenced as \<and> fenced bs \<and>
     (\<forall>e \<in> set (below as). \<forall>b \<in> set bs. en_key e < nr_min_key (fst b))"
proof (induction as rule: fenced.induct)
  case (2 c es as)
  then show ?case by (simp add: ball_Un) blast
qed simp

lemma fenced_min: "fenced bs \<Longrightarrow> b \<in> set bs \<Longrightarrow> e \<in> set (snd b) \<Longrightarrow> nr_min_key (fst b) \<le> en_key e"
  by (induction bs rule: fenced.induct) auto

lemma fenced_sorted:
  "fenced bs \<Longrightarrow> \<forall>b \<in> set bs. sorted_entries (snd b) \<Longrightarrow> sorted_entries (below bs)"
proof (induction bs rule: fenced.induct)
  case (2 c es bs)
  have "en_key x < en_key y" if x: "x \<in> set es" and y: "y \<in> set (below bs)" for x y
  proof -
    obtain b where b: "b \<in> set bs" "y \<in> set (snd b)" using y by auto
    then show ?thesis
      using x "2.prems"(1) fenced_min[of bs b y] by (auto intro: less_le_trans)
  qed
  with 2 show ?case by (auto simp: sorted_entries_append)
qed simp

lemma branches_ok_Nil [simp]: "branches_ok sub []"
  by (simp add: branches_ok_def)

lemma branches_ok_append:
  "branches_ok sub (as @ bs) \<longleftrightarrow> branches_ok sub as \<and> branches_ok sub bs \<and>
     (\<forall>e \<in> set (below as). \<forall>b \<in> set bs. en_key e < nr_min_key (fst b))"
  by (auto simp: branches_ok_def fenced_append)

lemma branches_ok_single:
  "branches_ok sub [(c, es)] \<longleftrightarrow> sub (nr_page_id c) es \<and> es \<noteq> [] \<and> separator_ok (nr_min_key c) \<and>
     (\<forall>e \<in> set es. nr_min_key c \<le> en_key e)"
  by (auto simp: branches_ok_def)

lemma wf_node_SucE:
  assumes "wf_node crc ps (Suc h) i es"
  obtains first cs bs p where "read_page crc ps i = Inr p" "internal_layout crc ps p (nr_page_id first) cs"
    "map fst bs = first # cs" "branches_ok (wf_node crc ps h) bs" "es = below bs"
    "\<forall>b \<in> set bs. unat (nr_page_id (fst b)) < unat i"
  using assms unfolding wf_node.simps internal_page_def by metis

lemma wf_node_entries:
  "wf_node crc ps h i es \<Longrightarrow> es \<noteq> [] \<and> sorted_entries es \<and> (\<forall>e \<in> set es. entry_ok e)"
proof (induction h arbitrary: i es)
  case 0
  then show ?case by (auto simp: leaf_page_def leaf_layout_def)
next
  case (Suc h)
  obtain first cs bs where bs: "map fst bs = first # cs" "branches_ok (wf_node crc ps h) bs" "es = below bs"
    using wf_node_SucE[OF Suc.prems] by metis
  then have each: "\<forall>b \<in> set bs. snd b \<noteq> [] \<and> sorted_entries (snd b) \<and> (\<forall>e \<in> set (snd b). entry_ok e)"
    using Suc.IH by (auto simp: branches_ok_def)
  then have "sorted_entries es"
    using bs fenced_sorted[of bs] by (simp add: branches_ok_def)
  moreover have "es \<noteq> []" using bs each by (cases bs) auto
  ultimately show ?case using bs(3) each by auto
qed

lemma read_page_bound: "read_page crc ps i = Inr p \<Longrightarrow> unat i < length ps"
  by (auto simp: read_page_def split: if_splits)

lemma wf_node_bound: "wf_node crc ps h i es \<Longrightarrow> unat i < length ps"
  by (cases h) (auto simp: leaf_page_def internal_page_def dest: read_page_bound)

lemma on_page_leaf:
  "read_page crc ps i = Inr p \<Longrightarrow> leaf_layout crc ps p es \<Longrightarrow> on_page crc ps i f g = f p"
  by (simp add: on_page_def leaf_layout_def)

lemma on_page_internal:
  "read_page crc ps i = Inr p \<Longrightarrow> internal_layout crc ps p fid cs \<Longrightarrow> on_page crc ps i f g = g p"
  by (simp add: on_page_def internal_layout_def tag_consts)

lemma node_ref_from_read:
  "wf_node crc ps h i es \<Longrightarrow> h < n \<Longrightarrow>
     node_ref_from crc ps page_id n i = Inr \<lparr> nr_page_id = page_id, nr_min_key = en_key (hd es) \<rparr>"
proof (induction h arbitrary: n i es)
  case 0
  then obtain p m where "read_page crc ps i = Inr p" "leaf_layout crc ps p es" "n = Suc m"
    by (cases n) (auto simp: leaf_page_def)
  with 0 show ?case by (simp add: on_page_leaf first_leaf_key_read)
next
  case (Suc h)
  obtain first cs bs p where p: "read_page crc ps i = Inr p" "internal_layout crc ps p (nr_page_id first) cs"
    and bs: "map fst bs = first # cs" "branches_ok (wf_node crc ps h) bs" "es = below bs"
    using wf_node_SucE[OF Suc.prems(1)] by metis
  obtain m where n: "n = Suc m" "h < m" using Suc.prems(2) by (cases n) auto
  obtain fs bs' where bs': "bs = (first, fs) # bs'" using bs(1) by (cases bs) auto
  then have fs: "wf_node crc ps h (nr_page_id first) fs" "fs \<noteq> []"
    using bs(2) by (auto simp: branches_ok_def)
  have "read_u64 p 24 = nr_page_id first" using p(2) by (simp add: internal_layout_def)
  with p fs bs' bs(3) n Suc.IH[OF fs(1) n(2)] show ?case by (simp add: on_page_internal)
qed

text \<open>
  The children an internal page is decoded to: the first carries the least key
  below it, whatever separator introduced it where it was written.
\<close>

lemma branches_ok_first:
  assumes "branches_ok sub ((c, es) # bs)" "\<forall>e \<in> set es. entry_ok e" "sorted_entries es"
  shows "branches_ok sub ((c\<lparr>nr_min_key := en_key (hd es)\<rparr>, es) # bs)"
proof -
  obtain e es' where "es = e # es'" using assms(1) by (cases es) (auto simp: branches_ok_def)
  with assms show ?thesis
    by (auto simp: branches_ok_def entry_ok_def separator_ok_def intro: less_imp_le)
qed

lemma wf_node_children:
  assumes "wf_node crc ps (Suc h) i es" "h < MAX_TREE_DEPTH"
  obtains p bs where "read_page crc ps i = Inr p" "p ! 5 = INTERNAL"
    "decode_internal crc ps p i = Inr (map fst bs)"
    "branches_ok (wf_node crc ps h) bs" "es = below bs" "bs \<noteq> []"
    "nr_min_key (fst (hd bs)) = en_key (hd es)"
proof -
  obtain first cs bs p where p: "read_page crc ps i = Inr p"
    "internal_layout crc ps p (nr_page_id first) cs"
    and bs: "map fst bs = first # cs" "branches_ok (wf_node crc ps h) bs" "es = below bs"
    using wf_node_SucE[OF assms(1)] by metis
  obtain fs bs' where bs': "bs = (first, fs) # bs'" using bs(1) by (cases bs) auto
  then have fs: "wf_node crc ps h (nr_page_id first) fs" using bs(2) by (auto simp: branches_ok_def)
  note fs' = wf_node_entries[OF fs]
  let ?first = "first\<lparr>nr_min_key := en_key (hd fs)\<rparr>"
  have "node_ref_of crc ps (nr_page_id first) = Inr ?first"
    using node_ref_from_read[OF fs assms(2)] by (simp add: node_ref_of_def)
  moreover have "decode_internal_cells crc ps p i (length cs) HEADER_SIZE = Inr cs"
    using p(2) by (intro decode_internal_cells_read) (auto simp: internal_layout_def node_off_def)
  ultimately have "decode_internal crc ps p i = Inr (map fst ((?first, fs) # bs'))"
    using p(2) bs(1) bs' by (simp add: decode_internal_def internal_layout_def Let_def)
  moreover have "branches_ok (wf_node crc ps h) ((?first, fs) # bs')"
    using branches_ok_first bs(2) bs' fs' by blast
  moreover have "p ! 5 = INTERNAL" using p(2) by (simp add: internal_layout_def)
  ultimately show ?thesis
    using that[of p "(?first, fs) # bs'"] p(1) bs(3) bs' fs' by simp
qed

lemma wf_node_leaf:
  assumes "wf_node crc ps 0 i es"
  obtains p where "read_page crc ps i = Inr p" "p ! 5 = LEAF" "leaf_layout crc ps p es"
  using assms by (auto simp: leaf_page_def leaf_layout_def)

lemma read_leaf_read: "wf_node crc ps 0 i es \<Longrightarrow> read_leaf crc ps i = Inr es"
  by (auto simp: read_leaf_def leaf_page_def require_type_def leaf_layout_def decode_leaf_read)

section \<open>Finding the leaf of a key\<close>

lemma fenced_nodes: "branches_ok sub bs \<Longrightarrow> sorted_nodes (map fst bs)"
proof (induction bs)
  case (Cons b bs)
  have "nr_min_key (fst b) < nr_min_key (fst x)" if "x \<in> set bs" for x
  proof -
    obtain e where "e \<in> set (snd b)" using Cons.prems by (cases "snd b") (auto simp: branches_ok_def)
    then show ?thesis
      using Cons.prems that by (cases b) (auto simp: branches_ok_def intro: le_less_trans)
  qed
  moreover have "branches_ok sub bs" using Cons.prems by (cases b) (auto simp: branches_ok_def)
  ultimately show ?case using Cons.IH by (simp add: sorted_nodes_def)
qed (simp add: sorted_nodes_def)

lemma first_fence:
  assumes "branches_ok sub ((c, es) # bs)" "e \<in> set (es @ below bs)"
  shows "nr_min_key c \<le> en_key e"
proof (cases "e \<in> set es")
  case True
  with assms show ?thesis by (auto simp: branches_ok_def)
next
  case False
  then obtain x where x: "x \<in> set bs" "e \<in> set (snd x)" using assms(2) by auto
  then have "nr_min_key c < nr_min_key (fst x)"
    using fenced_nodes[OF assms(1)] by (auto simp: sorted_nodes_def)
  moreover have "nr_min_key (fst x) \<le> en_key e"
    using assms(1) x fenced_min[of bs x e] by (auto simp: branches_ok_def)
  ultimately show ?thesis by simp
qed

text \<open>The child chosen for a key: everything to its left is below the key, everything to its right above.\<close>

lemma child_split:
  fixes key :: bytes
  assumes "branches_ok sub bs" "map fst bs = first # cs"
  defines "j \<equiv> child_index cs key"
  obtains as b ds where "bs = as @ b # ds" "length as = j" "nr_page_id (fst b) = child_at (nr_page_id first) cs j"
    "\<forall>e \<in> set (below as). en_key e < key" "\<forall>d \<in> set ds. key < nr_min_key (fst d)"
proof -
  have len: "length bs = Suc (length cs)" using arg_cong[OF assms(2), of length] by simp
  have j: "j \<le> length cs" by (simp add: j_def child_index_def length_takeWhile_le)
  let ?as = "take j bs" and ?b = "bs ! j" and ?ds = "drop (Suc j) bs"
  have split: "bs = ?as @ ?b # ?ds" using j len by (simp add: id_take_nth_drop)
  have fst: "fst (bs ! k) = (first # cs) ! k" if "k < length bs" for k
    using that assms(2) by (metis nth_map)
  have page: "nr_page_id (fst ?b) = child_at (nr_page_id first) cs j"
    using fst[of j] j len by (simp add: child_at_def nth_Cons')
  have left: "\<forall>e \<in> set (below ?as). en_key e < key"
  proof (cases j)
    case (Suc k)
    then have "nr_min_key (cs ! k) \<le> key"
      using nth_mem[of k "takeWhile (\<lambda>c. nr_min_key c \<le> key) cs"] takeWhile_nth[of k "\<lambda>c. nr_min_key c \<le> key" cs]
      by (auto simp: j_def child_index_def dest!: set_takeWhileD)
    moreover have "fst ?b = cs ! k" using fst[of j] Suc j len by simp
    moreover have "\<forall>e \<in> set (below ?as). en_key e < nr_min_key (fst ?b)"
      using assms(1) split branches_ok_append[of sub ?as "?b # ?ds"] by auto
    ultimately show ?thesis by (auto intro: less_le_trans)
  qed simp
  have right: "\<forall>d \<in> set ?ds. key < nr_min_key (fst d)"
  proof
    fix d assume "d \<in> set ?ds"
    then obtain m where m: "m < length ?ds" "d = ?ds ! m" by (auto simp: in_set_conv_nth)
    then have d: "fst d = cs ! (j + m)" "j + m < length cs" using fst[of "Suc (j + m)"] len by auto
    have "key < nr_min_key (cs ! j)"
      using nth_length_takeWhile[of "\<lambda>c. nr_min_key c \<le> key" cs] d(2)
      by (simp add: j_def child_index_def not_le)
    moreover have "sorted_nodes cs" using fenced_nodes[OF assms(1)] assms(2) by (simp add: sorted_nodes_def)
    then have "nr_min_key (cs ! j) \<le> nr_min_key (cs ! (j + m))"
      using sorted_wrt_nth_less[of "(<)" "map nr_min_key cs" j "j + m"] d(2)
      by (cases m) (auto simp: sorted_nodes_def)
    ultimately show "key < nr_min_key (fst d)" using d(1) by (simp add: less_le_trans)
  qed
  show ?thesis using that[OF split _ page left right] j len by simp
qed

lemma above_fence:
  "branches_ok sub ds \<Longrightarrow> \<forall>d \<in> set ds. key < nr_min_key (fst d) \<Longrightarrow> \<forall>e \<in> set (below ds). key < en_key e"
  by (fastforce simp: branches_ok_def dest: fenced_min intro: less_le_trans)

text \<open>One step of the descent, on a well-formed internal page.\<close>

lemma wf_node_step:
  assumes "wf_node crc ps (Suc h) i es"
  obtains p as b ds where "read_page crc ps i = Inr p" "p ! 5 = INTERNAL"
    "child_for_key crc ps p i key = Inr (length as, nr_page_id (fst b))"
    "branches_ok (wf_node crc ps h) (as @ b # ds)" "es = below (as @ b # ds)"
    "\<forall>e \<in> set (below as). en_key e < key" "\<forall>d \<in> set ds. key < nr_min_key (fst d)"
proof -
  obtain first cs bs p where p: "read_page crc ps i = Inr p"
    "internal_layout crc ps p (nr_page_id first) cs"
    and bs: "map fst bs = first # cs" "branches_ok (wf_node crc ps h) bs" "es = below bs"
    and small: "\<forall>b \<in> set bs. unat (nr_page_id (fst b)) < unat i"
    using wf_node_SucE[OF assms] by metis
  have "\<forall>c \<in> set (map fst bs). nr_page_id c \<noteq> i" using small by auto
  then have "child_for_key crc ps p i key =
      Inr (child_index cs key, child_at (nr_page_id first) cs (child_index cs key))"
    using bs(1) fenced_nodes[OF bs(2)] p(2)
    by (intro child_for_key_read) (auto simp: sorted_nodes_def)
  moreover obtain as b ds where "bs = as @ b # ds" "length as = child_index cs key"
    "nr_page_id (fst b) = child_at (nr_page_id first) cs (child_index cs key)"
    "\<forall>e \<in> set (below as). en_key e < key" "\<forall>d \<in> set ds. key < nr_min_key (fst d)"
    using child_split[OF bs(2,1)] by blast
  moreover have "p ! 5 = INTERNAL" using p(2) by (simp add: internal_layout_def)
  ultimately show ?thesis using that p(1) bs by metis
qed

lemma rget_entries_append:
  assumes "\<forall>e \<in> set as. en_key e < key" "\<forall>e \<in> set cs. key < en_key e"
  shows "rget (entry_rows (as @ bs @ cs)) key = rget (entry_rows bs) key"
proof -
  have "map_of (entry_rows as) key = None" "map_of (entry_rows cs) key = None"
    using assms by (auto simp: map_of_eq_None_iff)
  then show ?thesis
    by (simp add: rget_map_of map_add_def split: option.splits)
qed

lemma find_leaf_read:
  "wf_node crc ps h i es \<Longrightarrow> h < n \<Longrightarrow>
     \<exists>leaf_id path' fs. find_leaf crc ps key n i path = Inr (leaf_id, path') \<and>
       wf_node crc ps 0 leaf_id fs \<and> rget (entry_rows es) key = rget (entry_rows fs) key"
proof (induction h arbitrary: n i es path)
  case 0
  then obtain p m where "read_page crc ps i = Inr p" "leaf_layout crc ps p es" "n = Suc m"
    by (cases n) (auto simp: leaf_page_def)
  with 0 show ?case by (auto simp: on_page_leaf)
next
  case (Suc h)
  then obtain m where n: "n = Suc m" "h < m" by (cases n) auto
  obtain p as b ds where p: "read_page crc ps i = Inr p" "p ! 5 = INTERNAL"
    "child_for_key crc ps p i key = Inr (length as, nr_page_id (fst b))"
    and ok: "branches_ok (wf_node crc ps h) (as @ b # ds)" "es = below (as @ b # ds)"
    and sides: "\<forall>e \<in> set (below as). en_key e < key" "\<forall>d \<in> set ds. key < nr_min_key (fst d)"
    using wf_node_step[OF Suc.prems(1)] by blast
  have b: "wf_node crc ps h (nr_page_id (fst b)) (snd b)" using ok(1) by (auto simp: branches_ok_def)
  have "\<forall>e \<in> set (below ds). key < en_key e"
    using above_fence[of "wf_node crc ps h" ds key] ok(1) sides(2)
      branches_ok_append[of "wf_node crc ps h" "as @ [b]" ds] by simp
  then have "rget (entry_rows es) key = rget (entry_rows (snd b)) key"
    using rget_entries_append[OF sides(1), of "below ds" "snd b"] ok(2) by simp
  with Suc.IH[OF b n(2), of "(i, length as) # path"] p n(1) show ?case
    by (auto simp: on_page_def tag_consts)
qed

end
