(* ===== verification/ValueRuns.thy ===== *)
theory ValueRuns
  imports ValueLog
begin

text \<open>
  Batched reads of the value log (\<open>read_many\<close> and \<open>read_run\<close> of
  \<open>crates/vyrn-core/src/value_log.rs\<close>): cache hits are answered first, the misses
  are sorted by offset, and runs of exactly adjacent records are fetched with one
  read and validated record by record.  The batch is shown to accept and to return
  what reading each reference alone does.
\<close>

section \<open>Runs\<close>

definition MAX_COALESCED_READ :: nat where "MAX_COALESCED_READ = 1024 * 1024"

definition ref_total :: "value_ref \<Rightarrow> nat" where
  "ref_total r = VALUE_HEADER_LEN + unat (vr_len r) + VALUE_FOOTER_LEN"

text \<open>The records of a run, out of the buffer that holds them all.\<close>

fun run_records ::
  "(bytes \<Rightarrow> u32) \<Rightarrow> value_ref list \<Rightarrow> u64 \<Rightarrow> bytes \<Rightarrow> nat \<Rightarrow> nat list \<Rightarrow> bytes option list \<Rightarrow> value_log
     \<Rightarrow> (vyrn_error + bytes option list) \<times> value_log" where
  "run_records crc references start buffer cursor [] results l = (Inr results, l)"
| "run_records crc references start buffer cursor (slot # slots) results l =
     (let r = references ! slot; record_len = ref_total r;
          rec = bslice buffer cursor record_len; offset = start + word_of_nat cursor in
      case validate_record crc rec offset of
        Inl e \<Rightarrow> (Inl e, l)
      | Inr _ \<Rightarrow>
          if u64_of_be (bslice rec 5 8) \<noteq> vr_revision r \<or> u32_of_be (bslice rec 13 4) \<noteq> vr_len r
          then (Inl (CorruptValue offset ''value reference metadata mismatch''), l)
          else
            (let val = bslice rec VALUE_HEADER_LEN (record_len - VALUE_FOOTER_LEN - VALUE_HEADER_LEN);
                 l = l\<lparr>vl_cache := cache_insert (vl_cache l) (vr_offset r) (vr_revision r) val\<rparr> in
             run_records crc references start buffer (cursor + record_len) slots
               (results[slot := Some val]) l))"

definition read_run ::
  "(bytes \<Rightarrow> u32) \<Rightarrow> value_ref list \<Rightarrow> nat list \<Rightarrow> bytes option list \<Rightarrow> value_log
     \<Rightarrow> (vyrn_error + bytes option list) \<times> value_log" where
  "read_run crc references slots results l =
     (case slots of
        [slot] \<Rightarrow>
          (case vl_read crc l (references ! slot) of
             (Inl e, l) \<Rightarrow> (Inl e, l)
           | (Inr v, l) \<Rightarrow> (Inr (results[slot := Some v]), l))
      | _ \<Rightarrow>
          (let start = vr_offset (references ! hd slots);
               run_len = sum_list (map (\<lambda>s. ref_total (references ! s)) slots) in
           case check_bounds l start run_len of
             (Inl e, l) \<Rightarrow> (Inl e, l)
           | (Inr _, l) \<Rightarrow>
              (case read_exact_at (vl_file l) run_len (unat start) of
                 Inl e \<Rightarrow> (Inl e, l)
               | Inr buffer \<Rightarrow> run_records crc references start buffer 0 slots results l)))"

section \<open>Batches\<close>

fun read_cached ::
  "value_ref list \<Rightarrow> nat \<Rightarrow> bytes option list \<Rightarrow> nat list \<Rightarrow> value_cache
     \<Rightarrow> bytes option list \<times> nat list \<times> value_cache" where
  "read_cached [] slot results order c = (results, order, c)"
| "read_cached (r # rs) slot results order c =
     (case cache_get c (vr_offset r) (vr_revision r) (vr_len r) of
        (Some v, c) \<Rightarrow> read_cached rs (slot + 1) (results[slot := Some v]) order c
      | (None, c) \<Rightarrow> read_cached rs (slot + 1) results (order @ [slot]) c)"

fun read_ordered ::
  "(bytes \<Rightarrow> u32) \<Rightarrow> value_ref list \<Rightarrow> nat list \<Rightarrow> nat list \<Rightarrow> nat \<Rightarrow> u64 \<Rightarrow> bytes option list \<Rightarrow> value_log
     \<Rightarrow> (vyrn_error + bytes option list) \<times> value_log" where
  "read_ordered crc references [] run run_bytes run_end results l =
     (if run = [] then (Inr results, l) else read_run crc references run results l)"
| "read_ordered crc references (slot # order) run run_bytes run_end results l =
     (let r = references ! slot; total = ref_total r;
          extends = (run \<noteq> [] \<and> vr_offset r = run_end \<and> run_bytes + total \<le> MAX_COALESCED_READ);
          next_end = vr_offset r + word_of_nat total in
      if \<not> extends \<and> run \<noteq> [] then
        (case read_run crc references run results l of
           (Inl e, l) \<Rightarrow> (Inl e, l)
         | (Inr results, l) \<Rightarrow> read_ordered crc references order [slot] total next_end results l)
      else read_ordered crc references order (run @ [slot]) (run_bytes + total) next_end results l)"

fun read_each ::
  "(bytes \<Rightarrow> u32) \<Rightarrow> value_ref list \<Rightarrow> value_log \<Rightarrow> (vyrn_error + bytes list) \<times> value_log" where
  "read_each crc [] l = (Inr [], l)"
| "read_each crc (r # rs) l =
     (case vl_read crc l r of
        (Inl e, l) \<Rightarrow> (Inl e, l)
      | (Inr v, l) \<Rightarrow>
         (case read_each crc rs l of
            (Inl e, l) \<Rightarrow> (Inl e, l)
          | (Inr vs, l) \<Rightarrow> (Inr (v # vs), l)))"

definition read_many ::
  "(bytes \<Rightarrow> u32) \<Rightarrow> value_log \<Rightarrow> value_ref list \<Rightarrow> (vyrn_error + bytes list) \<times> value_log" where
  "read_many crc l references =
     (if length references < 2 then read_each crc references l
      else
        (let (results, order, c) =
               read_cached references 0 (replicate (length references) None) [] (vl_cache l);
             order = sort_key (\<lambda>i. vr_offset (references ! i)) order in
         case read_ordered crc references order [] 0 0 results (l\<lparr>vl_cache := c\<rparr>) of
           (Inl e, l) \<Rightarrow> (Inl e, l)
         | (Inr results, l) \<Rightarrow> (Inr (map the results), l)))"

section \<open>A run reads what its records hold\<close>

lemma ref_total_value: "ref_total r = value_total_len (unat (vr_len r))"
  by (simp add: ref_total_def value_total_len_def)

text \<open>Slots whose records lie one behind the other, from an offset up to an end.\<close>

fun adjacent :: "value_ref list \<Rightarrow> nat \<Rightarrow> nat list \<Rightarrow> nat \<Rightarrow> bool" where
  "adjacent refs at [] until \<longleftrightarrow> at = until"
| "adjacent refs at (s # ss) until \<longleftrightarrow>
     unat (vr_offset (refs ! s)) = at \<and> adjacent refs (at + ref_total (refs ! s)) ss until"

lemma adjacent_append:
  "adjacent refs at (ss @ ts) until \<longleftrightarrow> (\<exists>m. adjacent refs at ss m \<and> adjacent refs m ts until)"
  by (induction ss arbitrary: at) auto

lemma adjacent_len:
  "adjacent refs at ss until \<Longrightarrow> until = at + sum_list (map (\<lambda>s. ref_total (refs ! s)) ss)"
proof (induction ss arbitrary: at)
  case (Cons s ss)
  show ?case using Cons.IH[of "at + ref_total (refs ! s)"] Cons.prems by simp
qed simp

text \<open>The outcome of filling slots with what their references denote in a file.\<close>

definition fill_ok :: "(bytes \<Rightarrow> u32) \<Rightarrow> bytes \<Rightarrow> value_ref list \<Rightarrow> nat list \<Rightarrow> bool" where
  "fill_ok crc file refs slots \<longleftrightarrow> (\<forall>s \<in> set slots. \<not> isl (file_read crc file (refs ! s)))"

definition filled ::
  "(bytes \<Rightarrow> u32) \<Rightarrow> bytes \<Rightarrow> value_ref list \<Rightarrow> nat list \<Rightarrow> bytes option list \<Rightarrow> bytes option list" where
  "filled crc file refs slots results =
     fold (\<lambda>s res. res[s := Some (projr (file_read crc file (refs ! s)))]) slots results"

definition fills ::
  "(bytes \<Rightarrow> u32) \<Rightarrow> bytes \<Rightarrow> value_ref list \<Rightarrow> nat list \<Rightarrow> bytes option list
     \<Rightarrow> (vyrn_error + bytes option list) \<times> value_log \<Rightarrow> bool" where
  "fills crc file refs slots results out \<longleftrightarrow>
     (if fill_ok crc file refs slots then fst out = Inr (filled crc file refs slots results) else isl (fst out)) \<and>
     vl_ok crc (snd out) \<and> vl_file (snd out) = file"

lemma fill_simps [simp]:
  "fill_ok crc file refs []"
  "fill_ok crc file refs (s # ss) \<longleftrightarrow> \<not> isl (file_read crc file (refs ! s)) \<and> fill_ok crc file refs ss"
  "fill_ok crc file refs (ss @ ts) \<longleftrightarrow> fill_ok crc file refs ss \<and> fill_ok crc file refs ts"
  "filled crc file refs [] results = results"
  "filled crc file refs (s # ss) results =
     filled crc file refs ss (results[s := Some (projr (file_read crc file (refs ! s)))])"
  "filled crc file refs (ss @ ts) results = filled crc file refs ts (filled crc file refs ss results)"
  by (auto simp: fill_ok_def filled_def)

lemma record_read:
  assumes "unat (vr_offset r) + ref_total r \<le> length file" "unat (vr_offset r) + ref_total r < 2 ^ 64"
  defines "rec \<equiv> bslice file (unat (vr_offset r)) (ref_total r)"
  shows "file_read crc file r =
    (case validate_record crc rec (vr_offset r) of
       Inl e \<Rightarrow> Inl e
     | Inr _ \<Rightarrow>
         if u64_of_be (bslice rec 5 8) \<noteq> vr_revision r \<or> u32_of_be (bslice rec 13 4) \<noteq> vr_len r
         then Inl (CorruptValue (vr_offset r) ''value reference metadata mismatch'')
         else Inr (bslice rec VALUE_HEADER_LEN (ref_total r - VALUE_FOOTER_LEN - VALUE_HEADER_LEN)))"
proof -
  have len: "length rec = ref_total r" using assms(1) by (simp add: rec_def bslice_def)
  have h: "bslice (take VALUE_HEADER_LEN rec) 5 8 = bslice rec 5 8"
    "bslice (take VALUE_HEADER_LEN rec) 13 4 = bslice rec 13 4"
    by (simp_all add: bslice_def drop_take VALUE_HEADER_LEN_def)
  have n: "ref_total r - VALUE_HEADER_LEN - VALUE_FOOTER_LEN = unat (vr_len r)"
    by (simp add: ref_total_def)
  have v: "take (unat (vr_len r)) (drop VALUE_HEADER_LEN rec) =
      bslice rec VALUE_HEADER_LEN (ref_total r - VALUE_FOOTER_LEN - VALUE_HEADER_LEN)"
    by (simp add: bslice_def ref_total_def)
  have "validate_record crc rec (vr_offset r) =
      validate_framing crc (take VALUE_HEADER_LEN rec) (drop (VALUE_HEADER_LEN + unat (vr_len r)) rec)
        (take (unat (vr_len r)) (drop VALUE_HEADER_LEN rec)) (ref_total r) (vr_offset r)"
    using n by (simp add: validate_record_def len Let_def add.commute) (simp add: ref_total_def)
  then show ?thesis
    using assms(1,2) unfolding rec_def ref_total_value
    by (simp add: file_read_def Let_def h[unfolded rec_def ref_total_value] v[unfolded rec_def ref_total_value]
        split: sum.split)
qed

lemma cache_insert_vl_ok:
  assumes "vl_ok crc l" "file_read crc (vl_file l) r = Inr v"
  shows "vl_ok crc (l\<lparr>vl_cache := cache_insert (vl_cache l) (vr_offset r) (vr_revision r) v\<rparr>)"
  using assms cache_insert_props[of "vl_cache l" crc "vl_file l" "vr_offset r" "vr_len r" "vr_revision r" v]
    file_read_len[OF assms(2)]
  by (simp add: vl_ok_def)

lemma run_records_fills:
  assumes "adjacent refs (unat start + cursor) slots until" "until \<le> length file" "until < 2 ^ 64"
    "vl_ok crc l" "vl_file l = file" "n = until - unat start" "buffer = bslice file (unat start) n"
  shows "fills crc file refs slots results (run_records crc refs start buffer cursor slots results l)"
  using assms(1-5)
proof (induction slots arbitrary: cursor results l)
  case (Cons s ss)
  let ?r = "refs ! s"
  have at: "unat (vr_offset ?r) = unat start + cursor" and rest: "adjacent refs (unat start + cursor + ref_total ?r) ss until"
    using Cons.prems(1) by simp_all
  have room: "unat start + cursor + ref_total ?r \<le> until" using adjacent_len[OF rest] by simp
  have off: "start + word_of_nat cursor = vr_offset ?r"
    using at room Cons.prems(3) by (intro word_unat_eq_iff[THEN iffD2]) (simp add: unat_word_ariths unat_of_nat)
  have rec: "bslice buffer cursor (ref_total ?r) = bslice file (unat (vr_offset ?r)) (ref_total ?r)"
    using room assms(6,7) at by (simp add: bslice_within)
  have read: "file_read crc file ?r = (case validate_record crc (bslice buffer cursor (ref_total ?r)) (vr_offset ?r) of
       Inl e \<Rightarrow> Inl e
     | Inr _ \<Rightarrow>
         if u64_of_be (bslice (bslice buffer cursor (ref_total ?r)) 5 8) \<noteq> vr_revision ?r \<or>
            u32_of_be (bslice (bslice buffer cursor (ref_total ?r)) 13 4) \<noteq> vr_len ?r
         then Inl (CorruptValue (vr_offset ?r) ''value reference metadata mismatch'')
         else Inr (bslice (bslice buffer cursor (ref_total ?r)) VALUE_HEADER_LEN
                     (ref_total ?r - VALUE_FOOTER_LEN - VALUE_HEADER_LEN)))"
    unfolding rec using room at Cons.prems(2,3) by (intro record_read) auto
  show ?case
  proof (cases "file_read crc file ?r")
    case (Inl e)
    then show ?thesis
      using read Cons.prems(4,5)
      by (auto simp: fills_def off Let_def split: sum.splits if_splits)
  next
    case (Inr v)
    let ?l = "l\<lparr>vl_cache := cache_insert (vl_cache l) (vr_offset ?r) (vr_revision ?r) v\<rparr>"
    have "run_records crc refs start buffer cursor (s # ss) results l =
        run_records crc refs start buffer (cursor + ref_total ?r) ss (results[s := Some v]) ?l"
      using read Inr by (simp add: off Let_def split: sum.splits if_splits)
    moreover have "fills crc file refs ss (results[s := Some v])
        (run_records crc refs start buffer (cursor + ref_total ?r) ss (results[s := Some v]) ?l)"
      using rest Cons.prems cache_insert_vl_ok[of crc l ?r v] Inr by (intro Cons.IH) (simp_all add: add.assoc)
    ultimately show ?thesis using Inr by (simp add: fills_def)
  qed
qed (simp add: fills_def)

lemma adjacent_fits:
  assumes "adjacent refs at ss until" "fill_ok crc file refs ss" "ss \<noteq> []"
  shows "until \<le> length file" "until < 2 ^ 64"
proof -
  let ?r = "refs ! last ss"
  obtain m where "adjacent refs m [last ss] until"
    using assms(1,3) adjacent_append[of refs at "butlast ss" "[last ss]" until] by auto
  then have "until = unat (vr_offset ?r) + ref_total ?r" by simp
  moreover obtain v where "file_read crc file ?r = Inr v"
    using assms(2) last_in_set[OF assms(3)] by (cases "file_read crc file ?r") (auto simp: fill_ok_def)
  ultimately show "until \<le> length file" "until < 2 ^ 64"
    by (auto simp: file_read_def Let_def ref_total_value split: if_splits)
qed

lemma read_run_fills:
  assumes "vl_ok crc l" "vl_file l = file" "adjacent refs (unat (vr_offset (refs ! hd slots))) slots until" "slots \<noteq> []"
  shows "fills crc file refs slots results (read_run crc refs slots results l)"
proof (cases "\<exists>slot. slots = [slot]")
  case True
  then obtain slot where "slots = [slot]" ..
  then show ?thesis
    using vl_read_file[OF assms(1), of "refs ! slot"] assms(2)
    by (cases "vl_read crc l (refs ! slot)"; cases "file_read crc file (refs ! slot)")
      (simp_all add: fills_def read_run_def)
next
  case False
  let ?start = "vr_offset (refs ! hd slots)"
  let ?n = "sum_list (map (\<lambda>s. ref_total (refs ! s)) slots)"
  have until: "until = unat ?start + ?n" using adjacent_len[OF assms(3)] .
  have len: "vl_len l \<le> length (vl_file l)" using assms(1) by (simp add: vl_ok_def)
  obtain res l1 where cb: "check_bounds l ?start ?n = (res, l1)" by (cases "check_bounds l ?start ?n")
  have l1: "vl_ok crc l1" "vl_file l1 = file"
    using check_bounds_state[OF len, of ?start ?n] cb assms(1,2) by (auto simp: vl_ok_def)
  have eq: "read_run crc refs slots results l =
     (case res of
        Inl e \<Rightarrow> (Inl e, l1)
      | Inr _ \<Rightarrow>
         (case read_exact_at (vl_file l1) ?n (unat ?start) of
            Inl e \<Rightarrow> (Inl e, l1)
          | Inr buffer \<Rightarrow> run_records crc refs ?start buffer 0 slots results l1))"
    using False assms(4) cb by (auto simp: read_run_def Let_def split: list.splits sum.splits)
  show ?thesis
  proof (cases "2 ^ 64 \<le> until \<or> length file < until")
    case True
    then have "isl res" using check_bounds_result[OF len, of ?start ?n] cb until assms(2) by auto
    moreover have "\<not> fill_ok crc file refs slots" using adjacent_fits[OF assms(3) _ assms(4)] True by fastforce
    ultimately show ?thesis using l1 by (auto simp: eq fills_def split: sum.split)
  next
    case ok: False
    then have "res = Inr ()" using check_bounds_result[OF len, of ?start ?n] cb until assms(2) by auto
    moreover have "fills crc file refs slots results
        (run_records crc refs ?start (bslice file (unat ?start) ?n) 0 slots results l1)"
      using assms(3) ok l1 until by (intro run_records_fills[where n = ?n and until = until]) auto
    ultimately show ?thesis using ok l1(2) until by (simp add: eq read_exact_at_def)
  qed
qed

section \<open>A batch reads what its references denote\<close>

lemma read_cached_props:
  assumes "cache_ok c" "cache_sound crc file c" "read_cached rs slot results order c = (results', order', c')"
    "refs = pre @ rs" "slot = length pre" "length results = length refs"
    "\<And>i. i < length refs \<Longrightarrow> i \<in> set order \<or> slot \<le> i \<or> (\<exists>v. results ! i = Some v \<and> file_read crc file (refs ! i) = Inr v)"
    "\<forall>i \<in> set order. i < slot"
  shows "cache_ok c' \<and> cache_sound crc file c' \<and> length results' = length refs \<and>
    (\<forall>i \<in> set order'. i < length refs) \<and>
    (\<forall>i < length refs. i \<in> set order' \<or> (\<exists>v. results' ! i = Some v \<and> file_read crc file (refs ! i) = Inr v))"
  using assms
proof (induction rs arbitrary: pre slot results order c)
  case (Cons r rs)
  obtain ans d where g: "cache_get c (vr_offset r) (vr_revision r) (vr_len r) = (ans, d)" by fastforce
  note snd = cache_get_sound[OF Cons.prems(1,2) g]
  have r: "refs ! slot = r" "slot < length refs" using Cons.prems(4,5) by (simp_all add: nth_append)
  have pre: "refs = (pre @ [r]) @ rs" "slot + 1 = length (pre @ [r])" using Cons.prems(4,5) by simp_all
  show ?case
  proof (cases ans)
    case None
    then have eq: "read_cached rs (slot + 1) results (order @ [slot]) d = (results', order', c')"
      using Cons.prems(3) g by simp
    show ?thesis
    proof (rule Cons.IH[OF snd(1,2) eq pre Cons.prems(6)])
      show "i \<in> set (order @ [slot]) \<or> slot + 1 \<le> i \<or>
          (\<exists>w. results ! i = Some w \<and> file_read crc file (refs ! i) = Inr w)"
        if "i < length refs" for i
        using Cons.prems(7)[OF that] by (cases "i = slot") auto
      show "\<forall>i \<in> set (order @ [slot]). i < slot + 1" using Cons.prems(8) by auto
    qed
  next
    case (Some v)
    then have eq: "read_cached rs (slot + 1) (results[slot := Some v]) order d = (results', order', c')"
      using Cons.prems(3) g by simp
    have v: "file_read crc file (refs ! slot) = Inr v" using snd(3)[OF Some] r by simp
    show ?thesis
    proof (rule Cons.IH[OF snd(1,2) eq pre])
      show "length (results[slot := Some v]) = length refs" using Cons.prems(6) by simp
      show "i \<in> set order \<or> slot + 1 \<le> i \<or>
          (\<exists>w. results[slot := Some v] ! i = Some w \<and> file_read crc file (refs ! i) = Inr w)"
        if "i < length refs" for i
        using Cons.prems(7)[OF that] that v r(2) Cons.prems(6) by (cases "i = slot") auto
      show "\<forall>i \<in> set order. i < slot + 1" using Cons.prems(8) by auto
    qed
  qed
qed auto

lemma read_ordered_fills:
  assumes "vl_ok crc l" "vl_file l = file"
    "run \<noteq> [] \<Longrightarrow> adjacent refs (unat (vr_offset (refs ! hd run))) run until"
    "run \<noteq> [] \<Longrightarrow> run_end = word_of_nat until"
    "run \<noteq> [] \<Longrightarrow> until = unat (vr_offset (refs ! last run)) + ref_total (refs ! last run)"
    "sorted (map (\<lambda>i. vr_offset (refs ! i)) (run @ order))"
  shows "fills crc file refs (run @ order) results (read_ordered crc refs order run run_bytes run_end results l)"
  using assms
proof (induction order arbitrary: run run_bytes run_end results l until)
  case Nil
  then show ?case using read_run_fills[of crc l "file" refs run until results] by (auto simp: fills_def)
next
  case (Cons s order)
  let ?r = "refs ! s"
  let ?stop = "unat (vr_offset ?r) + ref_total ?r"
  have next_end: "vr_offset ?r + word_of_nat (ref_total ?r) = word_of_nat ?stop"
    by simp
  define extends where "extends \<longleftrightarrow> run \<noteq> [] \<and> vr_offset ?r = run_end \<and> run_bytes + ref_total ?r \<le> MAX_COALESCED_READ"
  have single: "adjacent refs (unat (vr_offset (refs ! hd [s]))) [s] ?stop" by simp
  consider (flush) "\<not> extends" "run \<noteq> []" | (start) "run = []" | (extend) "extends" "run \<noteq> []"
    by blast
  then show ?case
  proof cases
    case flush
    obtain res l1 where rr: "read_run crc refs run results l = (res, l1)" by fastforce
    have f: "fills crc file refs run results (res, l1)"
      using read_run_fills[OF Cons.prems(1,2,3) flush(2), of results] flush(2) rr by simp
    then have l1: "vl_ok crc l1" "vl_file l1 = file" by (simp_all add: fills_def)
    have eq: "read_ordered crc refs (s # order) run run_bytes run_end results l =
      (case res of
         Inl e \<Rightarrow> (Inl e, l1)
       | Inr results \<Rightarrow> read_ordered crc refs order [s] (ref_total ?r) (word_of_nat ?stop) results l1)"
      using flush rr next_end by (simp add: Let_def extends_def split: sum.split)
    have "fills crc file refs ([s] @ order) results' (read_ordered crc refs order [s] (ref_total ?r) (word_of_nat ?stop) results' l1)"
      for results'
      using Cons.prems(6) by (intro Cons.IH[OF l1, of _ ?stop]) (auto simp: sorted_append)
    then show ?thesis unfolding eq using f l1 by (cases res) (auto simp: fills_def)
  next
    case start
    have eq: "read_ordered crc refs (s # order) run run_bytes run_end results l =
        read_ordered crc refs order [s] (run_bytes + ref_total ?r) (word_of_nat ?stop) results l"
      using start next_end by (simp add: Let_def)
    have "fills crc file refs ([s] @ order) results
        (read_ordered crc refs order [s] (run_bytes + ref_total ?r) (word_of_nat ?stop) results l)"
      using Cons.prems(6) start by (intro Cons.IH[OF Cons.prems(1,2), of _ ?stop]) auto
    then show ?thesis unfolding eq using start by simp
  next
    case extend
    have eq: "read_ordered crc refs (s # order) run run_bytes run_end results l =
        read_ordered crc refs order (run @ [s]) (run_bytes + ref_total ?r) (word_of_nat ?stop) results l"
      using extend next_end by (simp add: Let_def extends_def)
    have "unat (vr_offset ?r) = until"
    proof -
      let ?p = "refs ! last run"
      have le: "vr_offset ?p \<le> vr_offset ?r"
        using Cons.prems(6) extend(2) last_in_set[OF extend(2)] by (auto simp: sorted_append)
      have off: "vr_offset ?r = word_of_nat until" using extend Cons.prems(4) by (simp add: extends_def)
      have len: "unat (vr_len ?p) < 4294967296" using unsigned_less[where 'a = nat, of "vr_len ?p"] by simp
      have "ref_total ?p = unat (vr_len ?p) + 32" by (simp add: ref_total_def value_consts)
      with len have small: "0 < ref_total ?p" "ref_total ?p \<le> 8589934592" by linarith+
      have "until < 2 ^ 64"
      proof (rule ccontr)
        assume "\<not> until < 2 ^ 64"
        then have big: "2 ^ 64 \<le> until" by simp
        have p64: "unat (vr_offset ?p) < 2 ^ 64" using unsigned_less[where 'a = nat, of "vr_offset ?p"] by simp
        have "unat (vr_offset ?r) = until mod 2 ^ 64" using off by (simp add: unat_of_nat)
        also have "\<dots> = until - 2 ^ 64"
          using big p64 small Cons.prems(5)[OF extend(2)] by (subst mod_if) (simp add: mod_less)
        also have "\<dots> < unat (vr_offset ?p)"
          using big small Cons.prems(5)[OF extend(2)] by simp
        finally show False using le by (simp add: word_le_nat_alt)
      qed
      then show ?thesis using off by (simp add: unat_of_nat)
    qed
    then have "adjacent refs (unat (vr_offset (refs ! hd (run @ [s])))) (run @ [s]) ?stop"
      using Cons.prems(3)[OF extend(2)] extend(2) by (simp add: adjacent_append)
    then have "fills crc file refs ((run @ [s]) @ order) results
        (read_ordered crc refs order (run @ [s]) (run_bytes + ref_total ?r) (word_of_nat ?stop) results l)"
      using Cons.prems(6) by (intro Cons.IH[OF Cons.prems(1,2), of _ ?stop]) auto
    then show ?thesis unfolding eq by simp
  qed
qed

lemma nth_filled:
  "i < length results \<Longrightarrow>
     filled crc file refs slots results ! i =
       (if i \<in> set slots then Some (projr (file_read crc file (refs ! i))) else results ! i)"
proof (induction slots arbitrary: results)
  case (Cons s ss)
  then show ?case using Cons.IH[of "results[s := Some (projr (file_read crc file (refs ! s)))]"]
    by (auto simp: nth_list_update)
qed simp

lemma length_filled [simp]: "length (filled crc file refs slots results) = length results"
  by (induction slots arbitrary: results) simp_all

lemma read_each_file:
  assumes "vl_ok crc l"
  shows "(fst (read_each crc rs l) = Inr vs \<longleftrightarrow> list_all2 (\<lambda>r v. file_read crc (vl_file l) r = Inr v) rs vs) \<and>
    vl_ok crc (snd (read_each crc rs l)) \<and> vl_file (snd (read_each crc rs l)) = vl_file l"
  using assms
proof (induction rs arbitrary: l vs)
  case (Cons r rs)
  obtain res l1 where r: "vl_read crc l r = (res, l1)" by fastforce
  have l1: "file_read crc (vl_file l) r = res" "vl_ok crc l1" "vl_file l1 = vl_file l"
    using vl_read_file[OF Cons.prems, of r] r by simp_all
  obtain res2 l2 where rr: "read_each crc rs l1 = (res2, l2)" by fastforce
  have l2: "vl_ok crc l2" "vl_file l2 = vl_file l"
    "\<And>vs. res2 = Inr vs \<longleftrightarrow> list_all2 (\<lambda>r v. file_read crc (vl_file l) r = Inr v) rs vs"
    using Cons.IH[OF l1(2)] rr l1(3) by simp_all
  show ?case
  proof (cases res)
    case (Inl e)
    with l1 r show ?thesis by (cases vs) simp_all
  next
    case (Inr v)
    with l1(1) r rr l2 show ?thesis by (cases vs; cases res2) auto
  qed
qed auto

lemma read_many_file:
  assumes "vl_ok crc l"
  shows "fst (read_many crc l refs) = Inr vs \<longleftrightarrow>
      list_all2 (\<lambda>r v. file_read crc (vl_file l) r = Inr v) refs vs" (is ?reads)
    and "vl_ok crc (snd (read_many crc l refs)) \<and> vl_file (snd (read_many crc l refs)) = vl_file l" (is ?keeps)
proof -
  let ?file = "vl_file l"
  have "?reads \<and> ?keeps"
  proof (cases "length refs < 2")
    case True
    then show ?thesis using read_each_file[OF assms, of refs vs] by (simp add: read_many_def)
  next
    case False
    obtain results order c where rc: "read_cached refs 0 (replicate (length refs) None) [] (vl_cache l) = (results, order, c)"
      by (rule prod_cases3)
    have "cache_ok (vl_cache l)" "cache_sound crc ?file (vl_cache l)" using assms by (simp_all add: vl_ok_def)
    then have c: "cache_ok c" "cache_sound crc ?file c" "length results = length refs" "\<forall>i \<in> set order. i < length refs"
      "\<forall>i < length refs. i \<in> set order \<or> (\<exists>v. results ! i = Some v \<and> file_read crc ?file (refs ! i) = Inr v)"
      using read_cached_props[OF _ _ rc, of crc ?file refs "[]"] by auto
    define order' where "order' = sort_key (\<lambda>i. vr_offset (refs ! i)) order"
    obtain res l1 where ro: "read_ordered crc refs order' [] 0 0 results (l\<lparr>vl_cache := c\<rparr>) = (res, l1)" by fastforce
    have "vl_ok crc (l\<lparr>vl_cache := c\<rparr>)" using assms c(1,2) by (simp add: vl_ok_def)
    then have f: "fills crc ?file refs order' results (res, l1)"
      using read_ordered_fills[of crc "l\<lparr>vl_cache := c\<rparr>" ?file "[]" refs 0 0 order' results 0] ro
      by (simp add: order'_def)
    have eq: "read_many crc l refs = (case res of Inl e \<Rightarrow> (Inl e, l1) | Inr results \<Rightarrow> (Inr (map the results), l1))"
      using False rc ro by (simp add: read_many_def order'_def Let_def)
    have keeps: ?keeps using f by (auto simp: eq fills_def split: sum.splits)
    show ?thesis
    proof (cases "fill_ok crc ?file refs order'")
      case True
      have all: "file_read crc ?file (refs ! i) = Inr (the (filled crc ?file refs order' results ! i))"
        if i: "i < length refs" for i
      proof -
        have "i \<in> set order \<or> (\<exists>v. results ! i = Some v \<and> file_read crc ?file (refs ! i) = Inr v)"
          using c(5) i by blast
        moreover have "\<exists>v. file_read crc ?file (refs ! i) = Inr v" if "i \<in> set order"
          using True that by (cases "file_read crc ?file (refs ! i)") (auto simp: fill_ok_def order'_def)
        ultimately show ?thesis using i c(3) by (auto simp: nth_filled order'_def)
      qed
      have "fst (read_many crc l refs) = Inr (map the (filled crc ?file refs order' results))"
        using f True by (simp add: eq fills_def)
      moreover have "list_all2 (\<lambda>r v. file_read crc ?file r = Inr v) refs vs \<longleftrightarrow>
          vs = map the (filled crc ?file refs order' results)"
        using all c(3) by (auto simp: list_all2_conv_all_nth intro: nth_equalityI)
      ultimately show ?thesis using keeps by auto
    next
      case bad: False
      then obtain s where s: "s < length refs" "isl (file_read crc ?file (refs ! s))"
        using c(4) by (auto simp: fill_ok_def order'_def)
      have "\<not> list_all2 (\<lambda>r v. file_read crc ?file r = Inr v) refs vs"
        using s by (auto simp: list_all2_conv_all_nth)
      moreover have "isl (fst (read_many crc l refs))"
        using f bad by (auto simp: eq fills_def split: sum.splits)
      ultimately show ?thesis using keeps by auto
    qed
  qed
  then show ?reads ?keeps by simp_all
qed

text \<open>
  C18: a batched read returns what reading each reference on its own returns, in the
  order of the request, and fails when one of them fails; the log and its cache
  stay consistent.
\<close>

theorem read_many_exact:
  assumes "vl_ok crc l"
  shows "(fst (read_many crc l refs) = Inr vs \<longleftrightarrow> list_all2 (\<lambda>r v. fst (vl_read crc l r) = Inr v) refs vs) \<and>
    vl_ok crc (snd (read_many crc l refs)) \<and> vl_file (snd (read_many crc l refs)) = vl_file l"
  using read_many_file[OF assms] vl_read_file[OF assms] by simp

theorem read_many_exact_witness:
  "\<exists>r l. vl_append sample_crc (empty_log 64) [7] 1 = Inr (r, l) \<and> fst (read_many sample_crc l [r, r]) = Inr [[7], [7]]"
proof -
  obtain r l where a: "vl_append sample_crc (empty_log 64) [7] 1 = Inr (r, l)"
    by (simp add: vl_append_def empty_log_def Let_def value_total_len_def value_consts)
  then have len: "length (vl_file l) < 2 ^ 64"
    by (auto simp: vl_append_def empty_log_def Let_def value_total_len_def value_consts split: if_splits)
  have l: "vl_ok sample_crc l" "file_read sample_crc (vl_file l) r = Inr [7]"
    using vl_append_props[OF empty_log_ok a _ len] by (auto simp: MAX_VALUE_SIZE_def)
  then have "fst (vl_read sample_crc l r) = Inr [7]" using vl_read_file by simp
  then show ?thesis
    using a read_many_exact[OF l(1), of "[r, r]" "[[7], [7]]"] by auto
qed

end
