(* ===== verification/TreeRead.thy ===== *)
theory TreeRead
  imports TreeNodes ValueRuns
begin

text \<open>
  Reads of the page tree that do not scan (\<open>crates/vyrn-core/src/page_tree.rs\<close>): point
  lookups, batched lookups, the last key of a range, the change check of a range
  and the entry count.  Reads leave the tree alone; the page cache and the value
  cache they go through are shown transparent where they are modelled, so a read
  here is a function of the pages and of the value log.  Each read is shown to
  answer as the rows of the tree do.
\<close>

section \<open>The tree and point lookups\<close>

record page_tree =
  pt_pages :: page_store
  pt_values :: value_log
  pt_root :: u64
  pt_len :: u64

definition read_value :: "(bytes \<Rightarrow> u32) \<Rightarrow> page_tree \<Rightarrow> entry_value \<Rightarrow> vyrn_error + bytes" where
  "read_value crc t v =
     (case v of Inline b \<Rightarrow> Inr b | External r \<Rightarrow> fst (vl_read crc (pt_values t) r))"

definition find_key ::
  "(bytes \<Rightarrow> u32) \<Rightarrow> page_tree \<Rightarrow> bytes \<Rightarrow> vyrn_error + (entry_value \<times> u64) option" where
  "find_key crc t key =
     ebind (find_leaf crc (pt_pages t) key MAX_TREE_DEPTH (pt_root t) []) (\<lambda>(leaf_id, _).
     ebind (read_page crc (pt_pages t) leaf_id) (\<lambda>p.
     ebind (require_type p leaf_id LEAF) (\<lambda>_.
     find_in_leaf crc (pt_pages t) p leaf_id key)))"

definition get_with_revision ::
  "(bytes \<Rightarrow> u32) \<Rightarrow> page_tree \<Rightarrow> bytes \<Rightarrow> vyrn_error + (bytes \<times> u64) option" where
  "get_with_revision crc t key =
     (if pt_root t = 0 then Inr None
      else ebind (find_key crc t key) (\<lambda>hit.
           case hit of
             Some (v, revision) \<Rightarrow> ebind (read_value crc t v) (\<lambda>b. Inr (Some (b, revision)))
           | None \<Rightarrow> Inr None))"

definition pt_get :: "(bytes \<Rightarrow> u32) \<Rightarrow> page_tree \<Rightarrow> bytes \<Rightarrow> vyrn_error + bytes option" where
  "pt_get crc t key = ebind (get_with_revision crc t key) (\<lambda>found. Inr (map_option fst found))"

definition pt_revision :: "(bytes \<Rightarrow> u32) \<Rightarrow> page_tree \<Rightarrow> bytes \<Rightarrow> vyrn_error + u64 option" where
  "pt_revision crc t key = ebind (get_with_revision crc t key) (\<lambda>found. Inr (map_option snd found))"

definition get_shared :: "(bytes \<Rightarrow> u32) \<Rightarrow> page_tree \<Rightarrow> bytes \<Rightarrow> vyrn_error + bytes option" where
  "get_shared crc t key =
     (if pt_root t = 0 then Inr None
      else ebind (find_key crc t key) (\<lambda>hit.
           case hit of
             Some (v, _) \<Rightarrow> ebind (read_value crc t v) (\<lambda>b. Inr (Some b))
           | None \<Rightarrow> Inr None))"

section \<open>Batched lookups\<close>

type_synonym maybe_valued = "(bytes option \<times> u64) option"

definition wanted_value ::
  "(bytes \<Rightarrow> u32) \<Rightarrow> page_tree \<Rightarrow> bool \<Rightarrow> entry_value \<Rightarrow> vyrn_error + bytes option" where
  "wanted_value crc t want v =
     (if want then ebind (read_value crc t v) (\<lambda>b. Inr (Some b)) else Inr None)"

text \<open>A sparse batch on a leaf: each key by binary search.\<close>

fun collect_sparse ::
  "(bytes \<Rightarrow> u32) \<Rightarrow> page_tree \<Rightarrow> bool \<Rightarrow> slots \<Rightarrow> u64 \<Rightarrow> bytes list \<Rightarrow> vyrn_error + maybe_valued list" where
  "collect_sparse crc t want sl page_id [] = Inr []"
| "collect_sparse crc t want sl page_id (key # keys) =
     ebind (find_in_leaf_slots crc (pt_pages t) sl page_id key) (\<lambda>hit.
     ebind (case hit of
              None \<Rightarrow> Inr None
            | Some (v, revision) \<Rightarrow> ebind (wanted_value crc t want v) (\<lambda>b. Inr (Some (b, revision)))) (\<lambda>r.
     ebind (collect_sparse crc t want sl page_id keys) (\<lambda>rs. Inr (r # rs))))"

text \<open>
  A dense batch: one pass over the cells beside the sorted keys.  Keys below a cell
  are absent, and the pass stops when no key is left.
\<close>

fun collect_dense ::
  "(bytes \<Rightarrow> u32) \<Rightarrow> page_tree \<Rightarrow> bool \<Rightarrow> page \<Rightarrow> u64 \<Rightarrow> nat \<Rightarrow> nat \<Rightarrow> bytes list
     \<Rightarrow> vyrn_error + maybe_valued list" where
  "collect_dense crc t want p page_id 0 offset keys = Inr (map (\<lambda>_. None) keys)"
| "collect_dense crc t want p page_id (Suc n) offset keys =
     (if keys = [] then Inr []
      else
        ebind (leaf_cell_key crc (pt_pages t) p page_id offset) (\<lambda>(cell_key, behind).
        let absent = takeWhile (\<lambda>key. key < cell_key) keys;
            rest = dropWhile (\<lambda>key. key < cell_key) keys;
            hit = (rest \<noteq> [] \<and> hd rest = cell_key)
        in ebind (leaf_cell_value p page_id offset behind) (\<lambda>(v, next).
           ebind (if hit
                  then ebind (wanted_value crc t want v) (\<lambda>b.
                       Inr [Some (b, read_u64 p (offset + 25))])
                  else Inr []) (\<lambda>found.
           ebind (collect_dense crc t want p page_id n next (if hit then tl rest else rest)) (\<lambda>rs.
           Inr (map (\<lambda>_. None) absent @ found @ rs))))))"

definition collect_leaf ::
  "(bytes \<Rightarrow> u32) \<Rightarrow> page_tree \<Rightarrow> bool \<Rightarrow> page \<Rightarrow> u64 \<Rightarrow> bytes list \<Rightarrow> vyrn_error + maybe_valued list" where
  "collect_leaf crc t want p page_id keys =
     (let count = unat (read_u32 p 20)
      in if MAX_LEAF_ENTRIES < count then Inl (leaf_claims page_id count)
         else case (if length keys * 4 < count then page_slots p count else None) of
                Some sl \<Rightarrow> collect_sparse crc t want sl page_id keys
              | None \<Rightarrow> collect_dense crc t want p page_id count HEADER_SIZE keys)"

text \<open>An internal page hands each child the keys below the next separator.\<close>

fun collect_cells ::
  "(bytes \<Rightarrow> u32) \<Rightarrow> page_store \<Rightarrow> (u64 \<Rightarrow> bytes list \<Rightarrow> vyrn_error + 'r list) \<Rightarrow> page \<Rightarrow> u64 \<Rightarrow> nat \<Rightarrow> nat
     \<Rightarrow> u64 \<Rightarrow> bytes list \<Rightarrow> vyrn_error + 'r list" where
  "collect_cells crc ps descend p page_id 0 offset child_id keys =
     (if keys = [] then Inr [] else descend child_id keys)"
| "collect_cells crc ps descend p page_id (Suc n) offset child_id keys =
     ebind (internal_cell False crc ps p page_id offset) (\<lambda>(boundary, next_child, next).
     let low = takeWhile (\<lambda>key. key < boundary) keys; rest = dropWhile (\<lambda>key. key < boundary) keys
     in ebind (if low = [] then Inr [] else descend child_id low) (\<lambda>rs.
        ebind (collect_cells crc ps descend p page_id n next next_child rest) (\<lambda>rs'.
        Inr (rs @ rs'))))"

fun collect_many ::
  "(bytes \<Rightarrow> u32) \<Rightarrow> page_tree \<Rightarrow> bool \<Rightarrow> nat \<Rightarrow> u64 \<Rightarrow> bytes list \<Rightarrow> vyrn_error + maybe_valued list" where
  "collect_many crc t want 0 page_id keys = Inl (excessive_depth page_id)"
| "collect_many crc t want (Suc n) page_id keys =
     on_page crc (pt_pages t) page_id
       (\<lambda>p. collect_leaf crc t want p page_id keys)
       (\<lambda>p. let count = unat (read_u32 p 20)
            in if MAX_INTERNAL_CHILDREN \<le> count then Inl (internal_claims page_id count)
               else collect_cells crc (pt_pages t) (collect_many crc t want n) p page_id count HEADER_SIZE
                      (read_u64 p 24) keys)"

definition collect_root ::
  "(bytes \<Rightarrow> u32) \<Rightarrow> page_tree \<Rightarrow> bool \<Rightarrow> bytes list \<Rightarrow> vyrn_error + maybe_valued list" where
  "collect_root crc t want keys =
     (if pt_root t \<noteq> 0 \<and> keys \<noteq> [] then collect_many crc t want MAX_TREE_DEPTH (pt_root t) keys
      else Inr (map (\<lambda>_. None) keys))"

definition get_many_with_revision ::
  "(bytes \<Rightarrow> u32) \<Rightarrow> page_tree \<Rightarrow> bytes list \<Rightarrow> vyrn_error + (bytes \<times> u64) option list" where
  "get_many_with_revision crc t keys =
     ebind (collect_root crc t True keys) (\<lambda>rs.
     Inr (map (map_option (\<lambda>(v, revision). (case v of Some b \<Rightarrow> b | None \<Rightarrow> [], revision))) rs))"

definition get_many_revisions ::
  "(bytes \<Rightarrow> u32) \<Rightarrow> page_tree \<Rightarrow> bytes list \<Rightarrow> vyrn_error + u64 option list" where
  "get_many_revisions crc t keys =
     ebind (collect_root crc t False keys) (\<lambda>rs. Inr (map (map_option snd) rs))"

section \<open>The last key of a range, changes in a range, and the count\<close>

text \<open>The children of a page, each with the least key of the next one.\<close>

definition with_next :: "node_ref list \<Rightarrow> (node_ref \<times> bytes option) list" where
  "with_next cs = zip cs (map (Some \<circ> nr_min_key) (tl cs) @ [None])"

fun last_key_children ::
  "(u64 \<Rightarrow> vyrn_error + bytes option) \<Rightarrow> bytes \<Rightarrow> bytes option \<Rightarrow> (node_ref \<times> bytes option) list
     \<Rightarrow> vyrn_error + bytes option" where
  "last_key_children descend start until [] = Inr None"
| "last_key_children descend start until ((child, child_end) # rest) =
     (if (case until of Some e \<Rightarrow> e \<le> nr_min_key child | None \<Rightarrow> False)
      then last_key_children descend start until rest
      else if (case child_end of Some e \<Rightarrow> e \<le> start | None \<Rightarrow> False)
      then last_key_children descend start until rest
      else ebind (descend (nr_page_id child)) (\<lambda>found.
           case found of
             Some k \<Rightarrow> Inr (Some k)
           | None \<Rightarrow> last_key_children descend start until rest))"

fun last_key_in_node ::
  "(bytes \<Rightarrow> u32) \<Rightarrow> page_store \<Rightarrow> bytes \<Rightarrow> bytes option \<Rightarrow> nat \<Rightarrow> u64 \<Rightarrow> vyrn_error + bytes option" where
  "last_key_in_node crc ps start until 0 page_id = Inl (excessive_depth page_id)"
| "last_key_in_node crc ps start until (Suc n) page_id =
     on_page crc ps page_id
       (\<lambda>p. ebind (decode_leaf crc ps p page_id) (\<lambda>es.
            let hits = filter (\<lambda>e. in_range (Some start) until (en_key e)) es
            in Inr (if hits = [] then None else Some (en_key (last hits)))))
       (\<lambda>p. ebind (decode_internal crc ps p page_id) (\<lambda>children.
            last_key_children (last_key_in_node crc ps start until n) start until (rev (with_next children))))"

definition last_key_in ::
  "(bytes \<Rightarrow> u32) \<Rightarrow> page_tree \<Rightarrow> bytes \<Rightarrow> bytes option \<Rightarrow> vyrn_error + bytes option" where
  "last_key_in crc t start until =
     (if pt_root t = 0 then Inr None
      else last_key_in_node crc (pt_pages t) start until MAX_TREE_DEPTH (pt_root t))"

fun changed_children ::
  "(u64 \<Rightarrow> vyrn_error + bool) \<Rightarrow> bytes option \<Rightarrow> bytes option \<Rightarrow> (node_ref \<times> bytes option) list
     \<Rightarrow> vyrn_error + bool" where
  "changed_children descend start until [] = Inr False"
| "changed_children descend start until ((child, child_end) # rest) =
     (if (case (start, child_end) of (Some a, Some e) \<Rightarrow> e \<le> a | _ \<Rightarrow> False) \<or>
         (case until of Some e \<Rightarrow> e \<le> nr_min_key child | None \<Rightarrow> False)
      then changed_children descend start until rest
      else ebind (descend (nr_page_id child)) (\<lambda>changed.
           if changed then Inr True else changed_children descend start until rest))"

fun node_changed_since ::
  "(bytes \<Rightarrow> u32) \<Rightarrow> page_store \<Rightarrow> bytes option \<Rightarrow> bytes option \<Rightarrow> u64 \<Rightarrow> bytes option \<Rightarrow> nat \<Rightarrow> u64
     \<Rightarrow> vyrn_error + bool" where
  "node_changed_since crc ps start until revision excluded 0 page_id = Inl (excessive_depth page_id)"
| "node_changed_since crc ps start until revision excluded (Suc n) page_id =
     on_page crc ps page_id
       (\<lambda>p. ebind (decode_leaf crc ps p page_id) (\<lambda>es.
            Inr (list_ex (\<lambda>e. wanted excluded (en_key e) \<and> in_range start until (en_key e) \<and>
                          revision < en_revision e) es)))
       (\<lambda>p. ebind (decode_internal crc ps p page_id) (\<lambda>children.
            changed_children (node_changed_since crc ps start until revision excluded n) start until
              (with_next children)))"

definition changed_since ::
  "(bytes \<Rightarrow> u32) \<Rightarrow> page_tree \<Rightarrow> bytes option \<Rightarrow> bytes option \<Rightarrow> u64 \<Rightarrow> bytes option \<Rightarrow> vyrn_error + bool" where
  "changed_since crc t start until revision excluded =
     (if pt_root t = 0 then Inr False
      else node_changed_since crc (pt_pages t) start until revision excluded MAX_TREE_DEPTH (pt_root t))"

fun count_children :: "(u64 \<Rightarrow> vyrn_error + nat) \<Rightarrow> node_ref list \<Rightarrow> vyrn_error + nat" where
  "count_children descend [] = Inr 0"
| "count_children descend (child # rest) =
     ebind (descend (nr_page_id child)) (\<lambda>n.
     ebind (count_children descend rest) (\<lambda>m. Inr (n + m)))"

fun count_node_excluding_prefix ::
  "(bytes \<Rightarrow> u32) \<Rightarrow> page_store \<Rightarrow> bytes \<Rightarrow> nat \<Rightarrow> u64 \<Rightarrow> vyrn_error + nat" where
  "count_node_excluding_prefix crc ps pfx 0 page_id = Inl (excessive_depth page_id)"
| "count_node_excluding_prefix crc ps pfx (Suc n) page_id =
     on_page crc ps page_id
       (\<lambda>p. ebind (decode_leaf crc ps p page_id) (\<lambda>es.
            Inr (length (filter (\<lambda>e. \<not> starts_with (en_key e) pfx) es))))
       (\<lambda>p. ebind (decode_internal crc ps p page_id) (\<lambda>children.
            count_children (count_node_excluding_prefix crc ps pfx n) children))"

definition count_excluding_prefix :: "(bytes \<Rightarrow> u32) \<Rightarrow> page_tree \<Rightarrow> bytes \<Rightarrow> vyrn_error + nat" where
  "count_excluding_prefix crc t pfx =
     (if pt_root t = 0 then Inr 0
      else count_node_excluding_prefix crc (pt_pages t) pfx MAX_TREE_DEPTH (pt_root t))"

section \<open>The rows of a tree\<close>

text \<open>
  A tree represents rows when its entries do, with each external value read from
  the log; the entry count is the length field, and page 0 is the super page, so
  that a page id of zero can stand for the empty tree.
\<close>

definition store_ok :: "page_store \<Rightarrow> bool" where
  "store_ok ps \<longleftrightarrow> ps \<noteq> [] \<and> hd ps ! 5 = SUPER \<and> length ps < 2 ^ 64"

definition resolves :: "(bytes \<Rightarrow> u32) \<Rightarrow> bytes \<Rightarrow> entry \<Rightarrow> bytes \<times> bytes \<times> u64 \<Rightarrow> bool" where
  "resolves crc file e row \<longleftrightarrow>
     fst row = en_key e \<and> snd (snd row) = en_revision e \<and>
     (case en_value e of Inline v \<Rightarrow> fst (snd row) = v | External r \<Rightarrow> file_read crc file r = Inr (fst (snd row)))"

definition tree_entries :: "(bytes \<Rightarrow> u32) \<Rightarrow> page_tree \<Rightarrow> nat \<Rightarrow> entry list \<Rightarrow> bool" where
  "tree_entries crc t h es \<longleftrightarrow>
     store_ok (pt_pages t) \<and> unat (pt_len t) = length es \<and>
     (if pt_root t = 0 then es = [] else wf_node crc (pt_pages t) h (pt_root t) es)"

definition tree_rep :: "(bytes \<Rightarrow> u32) \<Rightarrow> page_tree \<Rightarrow> nat \<Rightarrow> tree_rows \<Rightarrow> bool" where
  "tree_rep crc t h rows \<longleftrightarrow>
     vl_ok crc (pt_values t) \<and>
     (\<exists>es. tree_entries crc t h es \<and> list_all2 (resolves crc (vl_file (pt_values t))) es rows)"

lemma resolves_keys: "list_all2 (resolves crc f) es rows \<Longrightarrow> map fst rows = map en_key es"
  by (induction rule: list_all2_induct) (auto simp: resolves_def)

lemma resolves_sorted: "list_all2 (resolves crc f) es rows \<Longrightarrow> sorted_rows rows \<longleftrightarrow> sorted_entries es"
  using resolves_keys[of crc f es rows] by (simp add: sorted_rows_def sorted_entries_def comp_def)

lemma tree_rep_sorted: "tree_rep crc t h rows \<Longrightarrow> sorted_rows rows"
  unfolding tree_rep_def tree_entries_def
  using resolves_sorted wf_node_entries sorted_entries_simps(1) by metis

lemma read_value_file:
  "vl_ok crc (pt_values t) \<Longrightarrow>
     read_value crc t v = (case v of Inline b \<Rightarrow> Inr b | External r \<Rightarrow> file_read crc (vl_file (pt_values t)) r)"
  using vl_read_file by (auto simp: read_value_def split: entry_value.split)

text \<open>A lookup among the entries, resolved, is a lookup among the rows.\<close>

lemma rget_resolves:
  assumes "vl_ok crc (pt_values t)"
  shows "list_all2 (resolves crc (vl_file (pt_values t))) es rows \<Longrightarrow>
    (case rget (entry_rows es) k of
       None \<Rightarrow> rget rows k = None
     | Some (v, r) \<Rightarrow> \<exists>b. read_value crc t v = Inr b \<and> rget rows k = Some (b, r))"
proof (induction rule: list_all2_induct)
  case (Cons e es row rows)
  then show ?case
    using read_value_file[OF assms, of "en_value e"]
    by (cases row) (auto simp: resolves_def entry_row_def[of e] split: entry_value.splits option.splits)
qed simp

section \<open>Point lookups answer from the rows\<close>

lemma find_key_read:
  assumes "wf_node crc (pt_pages t) h (pt_root t) es" "h < MAX_TREE_DEPTH"
  shows "find_key crc t key = Inr (rget (entry_rows es) key)"
proof -
  obtain leaf_id path fs where f: "find_leaf crc (pt_pages t) key MAX_TREE_DEPTH (pt_root t) [] = Inr (leaf_id, path)"
    "wf_node crc (pt_pages t) 0 leaf_id fs" "rget (entry_rows es) key = rget (entry_rows fs) key"
    using find_leaf_read[OF assms, of key "[]"] by blast
  obtain p where p: "read_page crc (pt_pages t) leaf_id = Inr p" "p ! 5 = LEAF" "leaf_layout crc (pt_pages t) p fs"
    using wf_node_leaf[OF f(2)] .
  then show ?thesis
    using f find_in_leaf_read[OF p(3)] by (simp add: find_key_def require_type_def)
qed

lemma get_with_revision_read:
  assumes "tree_rep crc t h rows" "h < MAX_TREE_DEPTH"
  shows "get_with_revision crc t key = Inr (rget rows key)"
proof -
  obtain es where es: "tree_entries crc t h es" "list_all2 (resolves crc (vl_file (pt_values t))) es rows"
    and ok: "vl_ok crc (pt_values t)" using assms(1) by (auto simp: tree_rep_def)
  note r = rget_resolves[OF ok es(2), of key]
  show ?thesis
  proof (cases "pt_root t = 0")
    case False
    then have "find_key crc t key = Inr (rget (entry_rows es) key)"
      using es(1) assms(2) find_key_read[of crc t h es key] by (simp add: tree_entries_def)
    then show ?thesis
      using False r by (auto simp: get_with_revision_def split: option.splits)
  qed (use r es in \<open>auto simp: get_with_revision_def tree_entries_def\<close>)
qed

lemma get_shared_get: "get_shared crc t key = pt_get crc t key"
  by (auto simp: get_shared_def pt_get_def get_with_revision_def ebind_def split: sum.split option.split)

section \<open>Batched lookups answer from the rows\<close>

definition answers :: "(bytes \<Rightarrow> u32) \<Rightarrow> page_tree \<Rightarrow> bool \<Rightarrow> entry list \<Rightarrow> bytes \<Rightarrow> maybe_valued" where
  "answers crc t want es key =
     map_option (\<lambda>(v, r). (if want then Some (projr (read_value crc t v)) else None, r))
       (rget (entry_rows es) key)"

definition readable :: "(bytes \<Rightarrow> u32) \<Rightarrow> page_tree \<Rightarrow> entry list \<Rightarrow> bool" where
  "readable crc t es \<longleftrightarrow> (\<forall>e \<in> set es. \<exists>b. read_value crc t (en_value e) = Inr b)"

lemma readable_simps [simp]:
  "readable crc t []"
  "readable crc t (e # es) \<longleftrightarrow> (\<exists>b. read_value crc t (en_value e) = Inr b) \<and> readable crc t es"
  "readable crc t (es @ fs) \<longleftrightarrow> readable crc t es \<and> readable crc t fs"
  by (auto simp: readable_def)

lemma wanted_value_read:
  "read_value crc t v = Inr b \<Longrightarrow>
     wanted_value crc t want v = Inr (if want then Some (projr (read_value crc t v)) else None)"
  by (simp add: wanted_value_def)

lemma readable_hit:
  "readable crc t es \<Longrightarrow> rget (entry_rows es) key = Some (v, r) \<Longrightarrow> \<exists>b. read_value crc t v = Inr b"
  by (auto simp: readable_def rget_map_of entry_row_def dest!: map_of_SomeD)

lemma answers_hit:
  assumes "readable crc t es"
  shows "(case rget (entry_rows es) key of
            None \<Rightarrow> Inr None
          | Some (v, r) \<Rightarrow> ebind (wanted_value crc t want v) (\<lambda>b. Inr (Some (b, r)))) =
         Inr (answers crc t want es key)"
proof (cases "rget (entry_rows es) key")
  case (Some vr)
  then obtain v r where "vr = (v, r)" by (cases vr)
  with Some readable_hit[OF assms, of key v r] show ?thesis
    by (auto simp: answers_def wanted_value_read)
qed (simp add: answers_def)

lemma collect_sparse_read:
  assumes "leaf_layout crc (pt_pages t) p es" "sorted_entries es" "readable crc t es" "p ! 4 = PAGE_VERSION"
  shows "collect_sparse crc t want
      \<lparr> sl_page = p, sl_count = length es, sl_dir_start = PAGE_SIZE - length es * SLOT_SIZE \<rparr> page_id keys =
    Inr (map (answers crc t want es) keys)"
proof (induction keys)
  case (Cons key keys)
  have "find_in_leaf_slots crc (pt_pages t)
      \<lparr> sl_page = p, sl_count = length es, sl_dir_start = PAGE_SIZE - length es * SLOT_SIZE \<rparr> page_id key =
      Inr (rget (entry_rows es) key)"
    using find_in_leaf_read[OF assms(1,2), of page_id key] assms(1,4)
    by (simp add: find_in_leaf_def page_slots_def leaf_layout_def Let_def)
  with Cons answers_hit[OF assms(3), of want key] show ?case by simp
qed simp

lemma sorted_split_keys:
  assumes "sorted_wrt (<) keys"
  shows "sorted_wrt (<) (takeWhile P keys)" "sorted_wrt (<) (dropWhile P keys)"
  using assms takeWhile_dropWhile_id[of P keys] by (metis sorted_wrt_append)+

lemma sorted_tl_keys: "sorted_wrt R keys \<Longrightarrow> sorted_wrt R (tl keys)"
  by (cases keys) auto

lemma dropWhile_less:
  "sorted_wrt (<) keys \<Longrightarrow> key \<in> set (dropWhile (\<lambda>k. k < b) keys) \<Longrightarrow> b \<le> key" for b :: "'a :: linorder"
  by (induction keys) (auto split: if_splits simp: not_less intro: order_trans less_imp_le)

lemma answers_Cons:
  "answers crc t want (e # es) key =
     (if key = en_key e
      then Some (if want then Some (projr (read_value crc t (en_value e))) else None, en_revision e)
      else answers crc t want es key)"
  by (auto simp: answers_def entry_row_def[of e])

lemma answers_None: "\<forall>e \<in> set es. en_key e \<noteq> key \<Longrightarrow> answers crc t want es key = None"
  using rget_None[of "entry_rows es" key] by (auto simp: answers_def)

lemma collect_dense_read:
  assumes "length p = PAGE_SIZE" "\<forall>e \<in> set es. entry_ok e" "sorted_entries es" "readable crc t es"
    "\<And>i. i < length es \<Longrightarrow> leaf_cell_in crc (pt_pages t) p (off + span leaf_cell_size (take i es)) (es ! i)"
    "sorted_wrt (<) keys"
  shows "collect_dense crc t want p page_id (length es) off keys = Inr (map (answers crc t want es) keys)"
  using assms
proof (induction es arbitrary: off keys)
  case Nil
  then show ?case by (simp add: answers_None)
next
  case (Cons e es)
  have e: "leaf_cell_in crc (pt_pages t) p off e" "entry_ok e"
    using Cons.prems(2) Cons.prems(5)[of 0] by simp_all
  obtain b where b: "read_value crc t (en_value e) = Inr b" using Cons.prems(4) by auto
  define low where "low = takeWhile (\<lambda>k. k < en_key e) keys"
  define rest where "rest = dropWhile (\<lambda>k. k < en_key e) keys"
  define hit where "hit \<longleftrightarrow> rest \<noteq> [] \<and> hd rest = en_key e"
  define rest' where "rest' = (if hit then tl rest else rest)"
  have sorted: "sorted_wrt (<) rest" and above: "\<forall>k \<in> set rest. en_key e \<le> k"
    using sorted_split_keys(2)[OF Cons.prems(6)] dropWhile_less[OF Cons.prems(6)] by (auto simp: rest_def)
  have "leaf_cell_in crc (pt_pages t) p (off + leaf_cell_size e + span leaf_cell_size (take i es)) (es ! i)"
    if "i < length es" for i
    using Cons.prems(5)[of "Suc i"] that by (simp add: add.assoc)
  moreover have "sorted_wrt (<) rest'" using sorted sorted_tl_keys[OF sorted] by (simp add: rest'_def)
  ultimately have IH: "collect_dense crc t want p page_id (length es) (off + leaf_cell_size e) rest' =
      Inr (map (answers crc t want es) rest')"
    using Cons.prems by (intro Cons.IH) simp_all
  have "answers crc t want (e # es) k = None" if "k \<in> set low" for k
  proof (rule answers_None)
    have "k < en_key e" using that by (auto simp: low_def dest: set_takeWhileD)
    then show "\<forall>x \<in> set (e # es). en_key x \<noteq> k" using Cons.prems(3) by auto
  qed
  then have "map (answers crc t want (e # es)) low = map (\<lambda>_. None) low" by simp
  moreover have "map (answers crc t want (e # es)) rest =
      (if hit then [Some (if want then Some (projr (read_value crc t (en_value e))) else None, en_revision e)] else [])
        @ map (answers crc t want es) rest'"
    using sorted above by (cases rest) (auto simp: answers_Cons hit_def rest'_def)
  moreover have "keys = low @ rest" by (simp add: low_def rest_def)
  ultimately have "map (answers crc t want (e # es)) keys = map (\<lambda>_. None) low @
      (if hit then [Some (if want then Some (projr (read_value crc t (en_value e))) else None, en_revision e)] else [])
        @ map (answers crc t want es) rest'"
    by (metis map_append)
  moreover have "collect_dense crc t want p page_id (length (e # es)) off keys =
      (if keys = [] then Inr []
       else ebind (if hit then ebind (wanted_value crc t want (en_value e)) (\<lambda>b. Inr [Some (b, en_revision e)]) else Inr [])
              (\<lambda>found. ebind (collect_dense crc t want p page_id (length es) (off + leaf_cell_size e) rest')
              (\<lambda>rs. Inr (map (\<lambda>_. None) low @ found @ rs))))"
    unfolding hit_def rest'_def
    by (simp add: Let_def leaf_cell_read[OF e Cons.prems(1)] del: dropWhile_eq_Nil_conv
        flip: low_def rest_def)
  ultimately show ?case
    using IH by (cases "keys = []") (simp_all add: wanted_value_read[OF b])
qed

lemma collect_leaf_read:
  assumes "leaf_layout crc (pt_pages t) p es" "sorted_entries es" "readable crc t es" "sorted_wrt (<) keys"
  shows "collect_leaf crc t want p page_id keys = Inr (map (answers crc t want es) keys)"
  using assms collect_sparse_read[OF assms(1-3), of want page_id keys]
    collect_dense_read[of p es crc t HEADER_SIZE keys want page_id]
  by (auto simp: collect_leaf_def page_slots_def leaf_layout_def leaf_off_def Let_def)

lemma answers_append:
  "\<forall>e \<in> set fs. key < en_key e \<Longrightarrow> answers crc t want (es @ fs) key = answers crc t want es key"
  "\<forall>e \<in> set es. en_key e < key \<Longrightarrow> answers crc t want (es @ fs) key = answers crc t want fs key"
  using rget_entries_append[of "[]" key fs es] rget_entries_append[of es key "[]" fs]
  by (simp_all add: answers_def)

lemma collect_cells_read:
  assumes "length p = PAGE_SIZE" "branches_ok sub ((c, es) # bs)"
    "\<And>i. i < length bs \<Longrightarrow> internal_cell_in crc ps p (off + span node_size (take i (map fst bs))) (fst (bs ! i))"
    "\<And>b ks. b \<in> set ((c, es) # bs) \<Longrightarrow> ks \<noteq> [] \<Longrightarrow> sorted_wrt (<) ks \<Longrightarrow>
       descend (nr_page_id (fst b)) ks = Inr (map (answers crc t want (snd b)) ks)"
    "sorted_wrt (<) keys"
  shows "collect_cells crc ps descend p page_id (length bs) off (nr_page_id c) keys =
    Inr (map (answers crc t want (es @ below bs)) keys)"
  using assms
proof (induction bs arbitrary: off c es keys)
  case Nil
  then show ?case by simp
next
  case (Cons b bs)
  obtain d fs where b: "b = (d, fs)" by (cases b)
  have d: "internal_cell_in crc ps p off d" "separator_ok (nr_min_key d)"
    using Cons.prems(2) Cons.prems(3)[of 0] by (simp_all add: b branches_ok_def)
  have ok: "branches_ok sub ((d, fs) # bs)" using Cons.prems(2) by (auto simp: branches_ok_def b)
  let ?low = "takeWhile (\<lambda>k. k < nr_min_key d) keys" and ?rest = "dropWhile (\<lambda>k. k < nr_min_key d) keys"
  note split = sorted_split_keys[OF Cons.prems(5), of "\<lambda>k. k < nr_min_key d"]
  have "internal_cell_in crc ps p (off + node_size d + span node_size (take i (map fst bs))) (fst (bs ! i))"
    if "i < length bs" for i
    using Cons.prems(3)[of "Suc i"] that by (simp add: add.assoc b)
  then have IH: "collect_cells crc ps descend p page_id (length bs) (off + node_size d) (nr_page_id d) ?rest =
      Inr (map (answers crc t want (fs @ below bs)) ?rest)"
    using Cons.prems split ok by (intro Cons.IH) (auto simp: b)
  have right: "nr_min_key d \<le> en_key e" if "e \<in> set (fs @ below bs)" for e
    using first_fence[OF ok] that by simp
  have low: "map (answers crc t want (es @ fs @ below bs)) ?low = map (answers crc t want es) ?low"
    using right by (auto intro!: answers_append(1) dest!: set_takeWhileD intro: less_le_trans)
  have left: "\<forall>e \<in> set es. en_key e < nr_min_key d" using Cons.prems(2) by (auto simp: branches_ok_def b)
  have rest: "map (answers crc t want (es @ fs @ below bs)) ?rest = map (answers crc t want (fs @ below bs)) ?rest"
    using left dropWhile_less[OF Cons.prems(5)] by (auto intro!: answers_append(2) intro: less_le_trans)
  have "map (answers crc t want (es @ fs @ below bs)) keys =
      map (answers crc t want (es @ fs @ below bs)) ?low @ map (answers crc t want (es @ fs @ below bs)) ?rest"
    by (metis map_append takeWhile_dropWhile_id)
  moreover have "?low \<noteq> [] \<Longrightarrow> descend (nr_page_id c) ?low = Inr (map (answers crc t want es) ?low)"
    using Cons.prems(4)[of "(c, es)" ?low] split(1) by simp
  ultimately show ?case
    using IH low rest internal_cell_read[OF d Cons.prems(1), of False page_id]
    by (auto simp: Let_def b)
qed

lemma collect_many_read:
  "wf_node crc (pt_pages t) h i es \<Longrightarrow> h < n \<Longrightarrow> readable crc t es \<Longrightarrow> sorted_wrt (<) keys \<Longrightarrow>
     collect_many crc t want n i keys = Inr (map (answers crc t want es) keys)"
proof (induction h arbitrary: n i es keys)
  case 0
  then obtain m p where "n = Suc m" "read_page crc (pt_pages t) i = Inr p" "leaf_layout crc (pt_pages t) p es"
    by (cases n) (auto simp: leaf_page_def)
  with 0 collect_leaf_read show ?case by (simp add: on_page_leaf)
next
  case (Suc h)
  obtain first cs bs p where p: "read_page crc (pt_pages t) i = Inr p"
    "internal_layout crc (pt_pages t) p (nr_page_id first) cs"
    and bs: "map fst bs = first # cs" "branches_ok (wf_node crc (pt_pages t) h) bs" "es = below bs"
    using wf_node_SucE[OF Suc.prems(1)] by metis
  obtain m where n: "n = Suc m" "h < m" using Suc.prems(2) by (cases n) auto
  obtain fs bs' where bs': "bs = (first, fs) # bs'" "cs = map fst bs'" using bs(1) by (cases bs) auto
  have each: "collect_many crc t want m (nr_page_id (fst b)) ks = Inr (map (answers crc t want (snd b)) ks)"
    if "b \<in> set bs" "sorted_wrt (<) ks" for b ks
    using that bs(2,3) Suc.prems(3) n(2) by (intro Suc.IH) (auto simp: branches_ok_def readable_def)
  have "collect_cells crc (pt_pages t) (collect_many crc t want m) p i (length bs') HEADER_SIZE (nr_page_id first) keys =
      Inr (map (answers crc t want (fs @ below bs')) keys)"
    using p(2) bs(2) bs' each Suc.prems(4)
    by (intro collect_cells_read[where sub = "wf_node crc (pt_pages t) h"])
      (auto simp: internal_layout_def node_off_def)
  with p n(1) bs(3) bs' show ?case by (simp add: on_page_internal) (simp add: internal_layout_def)
qed

lemma tree_entries_readable:
  assumes "vl_ok crc (pt_values t)" "list_all2 (resolves crc (vl_file (pt_values t))) es rows"
  shows "readable crc t es"
  using assms(2) read_value_file[OF assms(1)]
  by (induction rule: list_all2_induct) (auto simp: resolves_def split: entry_value.splits)

lemma collect_root_read:
  assumes "tree_rep crc t h rows" "h < MAX_TREE_DEPTH" "sorted_wrt (<) keys"
  shows "collect_root crc t want keys =
    Inr (map (\<lambda>k. map_option (\<lambda>(v, r). (if want then Some v else None, r)) (rget rows k)) keys)"
proof -
  obtain es where es: "tree_entries crc t h es" "list_all2 (resolves crc (vl_file (pt_values t))) es rows"
    and ok: "vl_ok crc (pt_values t)" using assms(1) by (auto simp: tree_rep_def)
  have ans: "answers crc t want es k = map_option (\<lambda>(v, r). (if want then Some v else None, r)) (rget rows k)" for k
    using rget_resolves[OF ok es(2), of k] by (auto simp: answers_def split: option.splits)
  show ?thesis
  proof (cases "pt_root t = 0")
    case True
    with es show ?thesis by (simp add: collect_root_def tree_entries_def)
  next
    case False
    then have "collect_many crc t want MAX_TREE_DEPTH (pt_root t) keys = Inr (map (answers crc t want es) keys)"
      using es assms(2,3) tree_entries_readable[OF ok es(2)]
      by (intro collect_many_read) (auto simp: tree_entries_def)
    with False show ?thesis by (simp add: collect_root_def ans)
  qed
qed

section \<open>Ranges answer from the rows\<close>

lemma with_next_simps [simp]:
  "with_next [] = []" "with_next [c] = [(c, None)]"
  "with_next (c # d # cs) = (c, Some (nr_min_key d)) # with_next (d # cs)"
  by (simp_all add: with_next_def)

lemma length_with_next [simp]: "length (with_next cs) = length cs"
  by (cases cs) (simp_all add: with_next_def)

text \<open>What a child and the least key of the next one say about the entries below it.\<close>

definition within :: "(node_ref \<times> bytes option) \<times> entry list \<Rightarrow> bool" where
  "within x \<longleftrightarrow> (\<forall>e \<in> set (snd x). nr_min_key (fst (fst x)) \<le> en_key e \<and>
     (case snd (fst x) of None \<Rightarrow> True | Some k \<Rightarrow> en_key e < k))"

lemma with_next_within:
  "fenced bs \<Longrightarrow> x \<in> set (zip (with_next (map fst bs)) (map snd bs)) \<Longrightarrow> within x"
proof (induction bs rule: fenced.induct)
  case (2 c es bs)
  then show ?case by (cases bs) (auto simp: within_def)
qed simp

lemma fst_zip_next: "map fst (zip (with_next (map fst bs)) (map snd bs)) = with_next (map fst bs)"
  "map snd (zip (with_next (map fst bs)) (map snd bs)) = map snd bs"
  by (simp_all add: map_fst_zip_take map_snd_zip_take)

lemma zip_next_child:
  "x \<in> set (zip (with_next (map fst bs)) (map snd bs)) \<Longrightarrow> (fst (fst x), snd x) \<in> set bs"
  for bs :: "branch list"
proof (induction bs rule: fenced.induct)
  case (2 c es bs)
  then show ?case by (cases bs) auto
qed simp

subsection \<open>The last key\<close>

text \<open>Only the keys matter.\<close>

lemma tv_last_key_in_alt:
  "tv_last_key_in r start until =
     (let ks = filter (in_range (Some start) until) (map fst r) in if ks = [] then None else Some (last ks))"
proof -
  have "filter (in_range (Some start) until) (map fst r) = map fst (rrange (Some start) until r)"
    by (induction r) (auto simp: rrange_def)
  then show ?thesis by (auto simp: tv_last_key_in_def Let_def last_map split: list.split)
qed

lemma tv_last_key_in_append:
  "tv_last_key_in (r @ s) start until =
     (case tv_last_key_in s start until of Some k \<Rightarrow> Some k | None \<Rightarrow> tv_last_key_in r start until)"
  by (simp add: tv_last_key_in_alt Let_def)

lemma tv_last_key_in_None':
  "\<forall>k \<in> set (map fst r). \<not> in_range (Some start) until k \<Longrightarrow> tv_last_key_in r start until = None"
  by (simp add: tv_last_key_in_alt filter_empty_conv)

lemma last_key_children_read:
  assumes "\<And>x. x \<in> set xs \<Longrightarrow> within x"
    "\<And>x. x \<in> set xs \<Longrightarrow>
       descend (nr_page_id (fst (fst x))) = Inr (tv_last_key_in (entry_rows (snd x)) start until)"
  shows "last_key_children descend start until (map fst xs) =
    Inr (tv_last_key_in (entry_rows (concat (map snd (rev xs)))) start until)"
  using assms
proof (induction xs)
  case Nil
  then show ?case by (simp add: tv_last_key_in_alt)
next
  case (Cons x xs)
  obtain c ce es where x: "x = ((c, ce), es)" by (cases x) auto
  have IH: "last_key_children descend start until (map fst xs) =
      Inr (tv_last_key_in (entry_rows (concat (map snd (rev xs)))) start until)"
    using Cons.prems by (intro Cons.IH) auto
  have w: "within ((c, ce), es)" using Cons.prems(1)[of x] x by simp
  let ?past = "case until of Some e \<Rightarrow> e \<le> nr_min_key c | None \<Rightarrow> False"
  let ?short = "case ce of Some e \<Rightarrow> e \<le> start | None \<Rightarrow> False"
  have none: "tv_last_key_in (entry_rows es) start until = None" if "?past \<or> ?short"
    using that w by (intro tv_last_key_in_None')
      (fastforce simp: in_range_def within_def split: option.splits)
  show ?case
    using IH none Cons.prems(2)[of x]
    by (auto simp: x tv_last_key_in_append split: option.split)
qed

lemma last_key_in_node_read:
  "wf_node crc ps h i es \<Longrightarrow> h < n \<Longrightarrow> n \<le> MAX_TREE_DEPTH \<Longrightarrow>
     last_key_in_node crc ps start until n i = Inr (tv_last_key_in (entry_rows es) start until)"
proof (induction h arbitrary: n i es)
  case 0
  then obtain m p where "n = Suc m" "read_page crc ps i = Inr p" "leaf_layout crc ps p es"
    by (cases n) (auto simp: leaf_page_def)
  moreover have "filter (in_range (Some start) until) (map en_key es) =
      map en_key (filter (\<lambda>e. in_range (Some start) until (en_key e)) es)"
    by (induction es) auto
  ultimately show ?case
    by (simp add: on_page_leaf decode_leaf_read tv_last_key_in_alt comp_def Let_def last_map)
next
  case (Suc h)
  obtain m where n: "n = Suc m" "h < m" "m \<le> MAX_TREE_DEPTH" using Suc.prems by (cases n) auto
  have "h < MAX_TREE_DEPTH" using Suc.prems by simp
  then obtain p bs where p: "read_page crc ps i = Inr p" "p ! 5 = INTERNAL"
    "decode_internal crc ps p i = Inr (map fst bs)"
    and bs: "branches_ok (wf_node crc ps h) bs" "es = below bs"
    using wf_node_children[OF Suc.prems(1)] by metis
  let ?xs = "zip (with_next (map fst bs)) (map snd bs)"
  have xs: "within x" "last_key_in_node crc ps start until m (nr_page_id (fst (fst x))) =
      Inr (tv_last_key_in (entry_rows (snd x)) start until)" if "x \<in> set ?xs" for x
    using with_next_within[OF _ that] zip_next_child[OF that] bs(1) n Suc.IH
    by (auto simp: branches_ok_def)
  have "last_key_children (last_key_in_node crc ps start until m) start until (map fst (rev ?xs)) =
      Inr (tv_last_key_in (entry_rows (concat (map snd (rev (rev ?xs))))) start until)"
    using xs by (intro last_key_children_read) auto
  then show ?case
    using p n(1) bs(2) by (simp add: on_page_def tag_consts fst_zip_next flip: rev_map)
qed

lemma last_key_in_read:
  assumes "tree_rep crc t h rows" "h < MAX_TREE_DEPTH"
  shows "last_key_in crc t start until = Inr (tv_last_key_in rows start until)"
proof -
  obtain es where es: "tree_entries crc t h es" "list_all2 (resolves crc (vl_file (pt_values t))) es rows"
    using assms(1) by (auto simp: tree_rep_def)
  have "tv_last_key_in rows start until = tv_last_key_in (entry_rows es) start until"
    using resolves_keys[OF es(2)] by (simp add: tv_last_key_in_alt comp_def)
  then show ?thesis
    using es(1) assms(2) last_key_in_node_read[of crc "pt_pages t" h "pt_root t" es MAX_TREE_DEPTH start until]
    by (auto simp: last_key_in_def tree_entries_def tv_last_key_in_alt split: if_splits)
qed

subsection \<open>Changes\<close>

abbreviation entry_changed :: "bytes option \<Rightarrow> bytes option \<Rightarrow> u64 \<Rightarrow> bytes option \<Rightarrow> entry \<Rightarrow> bool" where
  "entry_changed start until revision excluded e \<equiv>
     wanted excluded (en_key e) \<and> in_range start until (en_key e) \<and> revision < en_revision e"

lemma changed_children_read:
  assumes "\<And>x. x \<in> set xs \<Longrightarrow> within x"
    "\<And>x. x \<in> set xs \<Longrightarrow>
       descend (nr_page_id (fst (fst x))) = Inr (list_ex (entry_changed start until revision excluded) (snd x))"
  shows "changed_children descend start until (map fst xs) =
    Inr (list_ex (entry_changed start until revision excluded) (concat (map snd xs)))"
  using assms
proof (induction xs)
  case (Cons x xs)
  obtain c ce es where x: "x = ((c, ce), es)" by (cases x) auto
  have IH: "changed_children descend start until (map fst xs) =
      Inr (list_ex (entry_changed start until revision excluded) (concat (map snd xs)))"
    using Cons.prems by (intro Cons.IH) auto
  have w: "within ((c, ce), es)" using Cons.prems(1)[of x] x by simp
  let ?skip = "(case (start, ce) of (Some a, Some e) \<Rightarrow> e \<le> a | _ \<Rightarrow> False) \<or>
    (case until of Some e \<Rightarrow> e \<le> nr_min_key c | None \<Rightarrow> False)"
  have none: "\<not> list_ex (entry_changed start until revision excluded) es" if "?skip"
    using that w by (fastforce simp: in_range_def within_def list_ex_iff split: option.splits)
  show ?case
    using IH none Cons.prems(2)[of x] by (auto simp: x)
qed simp

lemma node_changed_since_read:
  "wf_node crc ps h i es \<Longrightarrow> h < n \<Longrightarrow> n \<le> MAX_TREE_DEPTH \<Longrightarrow>
     node_changed_since crc ps start until revision excluded n i =
       Inr (list_ex (entry_changed start until revision excluded) es)"
proof (induction h arbitrary: n i es)
  case 0
  then obtain m p where "n = Suc m" "read_page crc ps i = Inr p" "leaf_layout crc ps p es"
    by (cases n) (auto simp: leaf_page_def)
  then show ?case by (simp add: on_page_leaf decode_leaf_read)
next
  case (Suc h)
  obtain m where n: "n = Suc m" "h < m" "m \<le> MAX_TREE_DEPTH" using Suc.prems by (cases n) auto
  have "h < MAX_TREE_DEPTH" using Suc.prems by simp
  then obtain p bs where p: "read_page crc ps i = Inr p" "p ! 5 = INTERNAL"
    "decode_internal crc ps p i = Inr (map fst bs)"
    and bs: "branches_ok (wf_node crc ps h) bs" "es = below bs"
    using wf_node_children[OF Suc.prems(1)] by metis
  let ?xs = "zip (with_next (map fst bs)) (map snd bs)"
  have xs: "within x" "node_changed_since crc ps start until revision excluded m (nr_page_id (fst (fst x))) =
      Inr (list_ex (entry_changed start until revision excluded) (snd x))" if "x \<in> set ?xs" for x
    using with_next_within[OF _ that] zip_next_child[OF that] bs(1) n Suc.IH
    by (auto simp: branches_ok_def)
  have "changed_children (node_changed_since crc ps start until revision excluded m) start until (map fst ?xs) =
      Inr (list_ex (entry_changed start until revision excluded) (concat (map snd ?xs)))"
    using xs by (intro changed_children_read) auto
  then show ?case
    using p n(1) bs(2) by (simp add: on_page_def tag_consts fst_zip_next)
qed

lemma changed_since_read:
  assumes "tree_rep crc t h rows" "h < MAX_TREE_DEPTH"
  shows "changed_since crc t start until revision excluded =
    Inr (tv_changed_since rows start until revision excluded)"
proof -
  obtain es where es: "tree_entries crc t h es" "list_all2 (resolves crc (vl_file (pt_values t))) es rows"
    using assms(1) by (auto simp: tree_rep_def)
  have "tv_changed_since rows start until revision excluded =
      list_ex (entry_changed start until revision excluded) es"
    using es(2) by (induction rule: list_all2_induct)
      (auto simp: tv_changed_since_def tv_range_filter resolves_def)
  then show ?thesis
    using es(1) assms(2) node_changed_since_read[of crc "pt_pages t" h "pt_root t" es MAX_TREE_DEPTH]
    by (auto simp: changed_since_def tree_entries_def)
qed

subsection \<open>The count\<close>

lemma count_children_read:
  assumes "\<And>b. b \<in> set bs \<Longrightarrow> descend (nr_page_id (fst b)) = Inr (length (filter P (snd b)))"
  shows "count_children descend (map fst bs) = Inr (length (filter P (below bs)))"
  using assms by (induction bs) auto

lemma count_node_read:
  "wf_node crc ps h i es \<Longrightarrow> h < n \<Longrightarrow> n \<le> MAX_TREE_DEPTH \<Longrightarrow>
     count_node_excluding_prefix crc ps pfx n i = Inr (length (filter (\<lambda>e. \<not> starts_with (en_key e) pfx) es))"
proof (induction h arbitrary: n i es)
  case 0
  then obtain m p where "n = Suc m" "read_page crc ps i = Inr p" "leaf_layout crc ps p es"
    by (cases n) (auto simp: leaf_page_def)
  then show ?case by (simp add: on_page_leaf decode_leaf_read)
next
  case (Suc h)
  obtain m where n: "n = Suc m" "h < m" "m \<le> MAX_TREE_DEPTH" using Suc.prems by (cases n) auto
  have "h < MAX_TREE_DEPTH" using Suc.prems by simp
  then obtain p bs where p: "read_page crc ps i = Inr p" "p ! 5 = INTERNAL"
    "decode_internal crc ps p i = Inr (map fst bs)"
    and bs: "branches_ok (wf_node crc ps h) bs" "es = below bs"
    using wf_node_children[OF Suc.prems(1)] by metis
  have "count_children (count_node_excluding_prefix crc ps pfx m) (map fst bs) =
      Inr (length (filter (\<lambda>e. \<not> starts_with (en_key e) pfx) (below bs)))"
    using bs(1) n Suc.IH by (intro count_children_read) (auto simp: branches_ok_def)
  then show ?case
    using p n(1) bs(2) by (simp add: on_page_def tag_consts)
qed

lemma count_excluding_prefix_read:
  assumes "tree_rep crc t h rows" "h < MAX_TREE_DEPTH"
  shows "count_excluding_prefix crc t pfx = Inr (tv_count rows (Some pfx))"
proof -
  obtain es where es: "tree_entries crc t h es" "list_all2 (resolves crc (vl_file (pt_values t))) es rows"
    using assms(1) by (auto simp: tree_rep_def)
  have "tv_count rows (Some pfx) = length (filter (\<lambda>e. \<not> starts_with (en_key e) pfx) es)"
    using es(2) by (induction rule: list_all2_induct) (auto simp: tv_count_def wanted_def resolves_def)
  then show ?thesis
    using es(1) assms(2) count_node_read[of crc "pt_pages t" h "pt_root t" es MAX_TREE_DEPTH]
    by (auto simp: count_excluding_prefix_def tree_entries_def)
qed

end
