(* ===== verification/TreeLevels.thy ===== *)
theory TreeLevels
  imports TreeRead
begin

text \<open>
  The packers that write one level of the page tree
  (\<open>crates/vyrn-core/src/page_tree.rs\<close>): \<open>write_leaf_level\<close> and
  \<open>write_internal_level\<close> split a sorted sequence greedily into pages and append
  them, and the loop that grows a root above the replacements of a batch.  The
  lemmas show that what they are given is what the new pages hold, that the pages
  an operation appends are bounded by the entries it writes, and that the root
  loop ends because every level is shorter than the one below it.
\<close>

section \<open>Packing a level\<close>

fun leaf_chunks :: "nat \<Rightarrow> entry list \<Rightarrow> entry list \<Rightarrow> vyrn_error + entry list list" where
  "leaf_chunks used cur [] = Inr [cur]"
| "leaf_chunks used cur (e # es) =
     (let size = leaf_cell_size e + SLOT_SIZE
      in if PAGE_SIZE - HEADER_SIZE < size then Inl (CorruptPage 0 ''leaf cell exceeds page size'')
         else if PAGE_SIZE < used + size \<and> cur \<noteq> []
         then ebind (leaf_chunks (HEADER_SIZE + size) [e] es) (\<lambda>chunks. Inr (cur # chunks))
         else leaf_chunks (used + size) (cur @ [e]) es)"

fun node_chunks :: "nat \<Rightarrow> node_ref list \<Rightarrow> node_ref list \<Rightarrow> node_ref list list" where
  "node_chunks used cur [] = [cur]"
| "node_chunks used cur (c # cs) =
     (if cur \<noteq> []
      then let size = internal_cell_size (nr_min_key c) + SLOT_SIZE
           in if PAGE_SIZE < used + size then cur # node_chunks (HEADER_SIZE + 8) [c] cs
              else node_chunks (used + size) (cur @ [c]) cs
      else node_chunks used [c] cs)"

fun write_chunks ::
  "(page_store \<Rightarrow> 'a \<Rightarrow> vyrn_error + (page_store \<times> node_ref)) \<Rightarrow> page_store \<Rightarrow> 'a list
     \<Rightarrow> vyrn_error + (page_store \<times> node_ref list)" where
  "write_chunks w ps [] = Inr (ps, [])"
| "write_chunks w ps (c # cs) =
     ebind (w ps c) (\<lambda>(ps, node).
     ebind (write_chunks w ps cs) (\<lambda>(ps, nodes). Inr (ps, node # nodes)))"

definition write_leaf_level ::
  "(bytes \<Rightarrow> u32) \<Rightarrow> page_store \<Rightarrow> entry list \<Rightarrow> vyrn_error + (page_store \<times> node_ref list)" where
  "write_leaf_level crc ps entries =
     ebind (leaf_chunks HEADER_SIZE [] entries) (write_chunks (write_leaf crc) ps)"

definition write_internal_level ::
  "(bytes \<Rightarrow> u32) \<Rightarrow> page_store \<Rightarrow> node_ref list \<Rightarrow> vyrn_error + (page_store \<times> node_ref list)" where
  "write_internal_level crc ps children =
     write_chunks (write_internal crc) ps (node_chunks (HEADER_SIZE + 8) [] children)"

text \<open>The loop that grows a root: it ends because a level of two nodes or more is packed into fewer.\<close>

lemma ebind_cong [fundef_cong]:
  "r = r' \<Longrightarrow> (\<And>x. r' = Inr x \<Longrightarrow> f x = g x) \<Longrightarrow> ebind r f = ebind r' g"
  by (cases r') simp_all

lemma write_chunks_length: "write_chunks w ps cs = Inr (qs, nodes) \<Longrightarrow> length nodes = length cs"
  by (induction cs arbitrary: ps nodes) (auto simp: ebind_Inr_iff)

lemma node_cost_bound: "node_cost c \<le> 1047"
  by (simp add: node_cost_def node_size_def internal_cell_size_def size_consts)

lemma node_chunks_halve:
  "cur \<noteq> [] \<Longrightarrow> used = HEADER_SIZE + 8 + span node_cost (tl cur) \<Longrightarrow>
     2 * length (node_chunks used cur cs) \<le> length cur + length cs + 1"
proof (induction cs arbitrary: used cur)
  case (Cons c cs)
  let ?size = "internal_cell_size (nr_min_key c) + SLOT_SIZE"
  have size: "node_cost c = ?size" by (simp add: node_cost_def node_size_def)
  show ?case
  proof (cases "PAGE_SIZE < used + ?size")
    case True
    then have "tl cur \<noteq> []"
      using Cons.prems(2) node_cost_bound[of c] size
      by (cases "tl cur") (simp_all add: size_consts)
    then have "2 \<le> length cur" by (cases cur rule: list.exhaust) (auto simp: Suc_le_eq)
    then show ?thesis
      using True Cons.prems Cons.IH[of "[c]" "HEADER_SIZE + 8"] by (simp add: Let_def)
  next
    case False
    then show ?thesis
      using Cons.prems Cons.IH[of "cur @ [c]" "used + ?size"] size by (simp add: Let_def)
  qed
qed (simp add: Suc_le_eq)

lemma write_internal_level_halves:
  assumes "write_internal_level crc ps children = Inr (qs, nodes)" "children \<noteq> []"
  shows "2 * length nodes \<le> length children + 1"
  using assms write_chunks_length[of "write_internal crc" ps] node_chunks_halve[of "[hd children]" "HEADER_SIZE + 8" "tl children"]
  by (cases children) (auto simp: write_internal_level_def)

function grow_root ::
  "(bytes \<Rightarrow> u32) \<Rightarrow> page_store \<Rightarrow> node_ref list \<Rightarrow> vyrn_error + (page_store \<times> node_ref list)" where
  "grow_root crc ps replacements =
     (if 1 < length replacements
      then ebind (write_internal_level crc ps replacements) (\<lambda>(ps, replacements). grow_root crc ps replacements)
      else Inr (ps, replacements))"
  by pat_completeness auto
termination
  by (relation "measure (\<lambda>(crc, ps, replacements). length replacements)")
    (auto dest!: write_internal_level_halves)

declare grow_root.simps [simp del]

section \<open>Pages appended\<close>

text \<open>An entry costs at most its share of a page and the blob pages of its key.\<close>

definition ITEM_PAGES :: nat where "ITEM_PAGES = 18"

lemma write_blob_growth:
  assumes "length bs \<le> MAX_STORED_KEY_SIZE"
  shows "length (fst (write_blob crc ps bs)) \<le> length ps + 17"
proof -
  have page: "PAGE_SIZE - HEADER_SIZE = 4056" by (simp add: size_consts)
  have "(length bs + (PAGE_SIZE - HEADER_SIZE) - 1) div (PAGE_SIZE - HEADER_SIZE) \<le> (65552 + 4055) div 4056"
    using assms unfolding page
    by (intro div_le_mono) (simp add: MAX_STORED_KEY_SIZE_def MAX_KEY_SIZE_def prefix_defs ascii_def)
  then show ?thesis by (simp add: write_blob_def length_write_blob_pages blob_chunks_count)
qed

lemma encode_leaf_cell_growth:
  "length (en_key e) \<le> MAX_STORED_KEY_SIZE \<Longrightarrow>
     length (fst (encode_leaf_cell crc ps p offset e)) \<le> length ps + 17"
  using write_blob_growth[of "en_key e" crc ps]
  by (auto simp: encode_leaf_cell_def Let_def split: entry_value.splits prod.splits)

lemma write_leaf_cells_growth:
  "\<forall>e \<in> set es. length (en_key e) \<le> MAX_STORED_KEY_SIZE \<Longrightarrow>
     length (fst (write_leaf_cells crc ps p dir index offset es)) \<le> length ps + 17 * length es"
proof (induction es arbitrary: ps p index offset)
  case (Cons e es)
  let ?p = "write_at p (dir + index * SLOT_SIZE) (u16_to_be (word_of_nat offset))"
  obtain qs q off where c: "encode_leaf_cell crc ps ?p offset e = (qs, q, off)" by (rule prod_cases3)
  have "length qs \<le> length ps + 17" using encode_leaf_cell_growth[of e crc ps ?p offset] Cons.prems c by simp
  with c Cons.prems Cons.IH[of qs q "index + 1" off] show ?case by (simp add: Let_def)
qed simp

lemma write_leaf_growth:
  assumes "write_leaf crc ps es = Inr (qs, n)" "\<forall>e \<in> set es. length (en_key e) \<le> MAX_STORED_KEY_SIZE"
  shows "length qs \<le> length ps + ITEM_PAGES * length es"
proof -
  obtain e es' where es: "es = e # es'" using assms(1) by (cases es) (auto simp: write_leaf_def)
  show ?thesis
    using assms(1) es write_leaf_cells_growth[OF assms(2), of crc ps
        "write_at (new_page LEAF 0) 20 (u32_to_be (word_of_nat (length es)))"
        "PAGE_SIZE - length es * SLOT_SIZE" 0 HEADER_SIZE]
    by (auto simp: write_leaf_def Let_def append_page_def ITEM_PAGES_def split: prod.splits if_splits)
qed

lemma encode_internal_cell_growth:
  "length (nr_min_key c) \<le> MAX_STORED_KEY_SIZE \<Longrightarrow>
     length (fst (encode_internal_cell crc ps p offset c)) \<le> length ps + 17"
  using write_blob_growth[of "nr_min_key c" crc ps]
  by (auto simp: encode_internal_cell_def Let_def split: prod.splits)

lemma write_internal_cells_growth:
  "\<forall>c \<in> set cs. length (nr_min_key c) \<le> MAX_STORED_KEY_SIZE \<Longrightarrow>
     length (fst (write_internal_cells crc ps p dir index offset cs)) \<le> length ps + 17 * length cs"
proof (induction cs arbitrary: ps p index offset)
  case (Cons c cs)
  let ?p = "write_at p (dir + index * SLOT_SIZE) (u16_to_be (word_of_nat offset))"
  obtain qs q off where e: "encode_internal_cell crc ps ?p offset c = (qs, q, off)" by (rule prod_cases3)
  have "length qs \<le> length ps + 17" using encode_internal_cell_growth[of c crc ps ?p offset] Cons.prems e by simp
  with e Cons.prems Cons.IH[of qs q "index + 1" off] show ?case by (simp add: Let_def)
qed simp

lemma write_internal_growth:
  assumes "write_internal crc ps cs = Inr (qs, n)"
    "\<forall>c \<in> set cs. length (nr_min_key c) \<le> MAX_STORED_KEY_SIZE"
  shows "length qs \<le> length ps + ITEM_PAGES * length cs"
proof -
  obtain c cs' where cs: "cs = c # cs'" using assms(1) by (cases cs) (auto simp: write_internal_def)
  then show ?thesis
    using assms(1) write_internal_cells_growth[of cs' crc ps
        "write_at (write_at (new_page INTERNAL 0) 20 (u32_to_be (word_of_nat (length cs')))) 24 (u64_to_be (nr_page_id c))"
        "PAGE_SIZE - length cs' * SLOT_SIZE" 0 HEADER_SIZE] assms(2)
    by (auto simp: write_internal_def Let_def append_page_def ITEM_PAGES_def split: prod.splits if_splits)
qed

section \<open>Chunks\<close>

lemma leaf_cost_bound: "entry_ok e \<Longrightarrow> leaf_cost e \<le> PAGE_SIZE - HEADER_SIZE"
  using inline_len_limit[of e] by (simp add: leaf_cost_def leaf_cell_size_def size_consts)

lemma leaf_chunks_ok:
  "\<forall>e \<in> set (cur @ es). entry_ok e \<Longrightarrow> used = HEADER_SIZE + span leaf_cost cur \<Longrightarrow> leaf_fits cur \<Longrightarrow>
   cur @ es \<noteq> [] \<Longrightarrow>
     \<exists>chunks. leaf_chunks used cur es = Inr chunks \<and> concat chunks = cur @ es \<and>
       (\<forall>c \<in> set chunks. c \<noteq> [] \<and> leaf_fits c)"
proof (induction es arbitrary: used cur)
  case (Cons e es)
  let ?size = "leaf_cell_size e + SLOT_SIZE"
  have e: "entry_ok e" "\<not> PAGE_SIZE - HEADER_SIZE < ?size"
    using Cons.prems(1) leaf_cost_bound[of e] by (auto simp: leaf_cost_def)
  show ?case
  proof (cases "PAGE_SIZE < used + ?size \<and> cur \<noteq> []")
    case True
    have "leaf_fits [e]" using leaf_cost_bound[OF e(1)] by (simp add: leaf_fits_def size_consts)
    then obtain chunks where "leaf_chunks (HEADER_SIZE + ?size) [e] es = Inr chunks" "concat chunks = [e] @ es"
      "\<forall>c \<in> set chunks. c \<noteq> [] \<and> leaf_fits c"
      using Cons.IH[of "[e]" "HEADER_SIZE + ?size"] Cons.prems(1) by (auto simp: leaf_cost_def)
    with True e Cons.prems(3) show ?thesis by (simp add: Let_def)
  next
    case False
    have "leaf_fits (cur @ [e])"
      using False Cons.prems(2) leaf_cost_bound[OF e(1)] leaf_cost_def[of e]
      by (cases "cur = []") (auto simp: leaf_fits_def size_consts)
    then have "\<exists>chunks. leaf_chunks (used + ?size) (cur @ [e]) es = Inr chunks \<and> concat chunks = cur @ e # es \<and>
        (\<forall>c \<in> set chunks. c \<noteq> [] \<and> leaf_fits c)"
      using Cons.IH[of "cur @ [e]" "used + ?size"] Cons.prems(1,2) leaf_cost_def[of e] by simp
    moreover have "leaf_chunks used cur (e # es) = leaf_chunks (used + ?size) (cur @ [e]) es"
      using False e(2) by (simp only: leaf_chunks.simps Let_def if_False)
    ultimately show ?thesis by simp
  qed
qed simp

text \<open>Behind the first child of a page, which lies in the header, its cells fit; a page that is not the last has two children.\<close>

lemma node_chunks_ok:
  "cur \<noteq> [] \<Longrightarrow> used = HEADER_SIZE + 8 + span node_cost (tl cur) \<Longrightarrow> internal_fits (tl cur) \<Longrightarrow>
     concat (node_chunks used cur cs) = cur @ cs \<and>
     (\<forall>c \<in> set (node_chunks used cur cs). c \<noteq> [] \<and> internal_fits (tl c)) \<and>
     node_chunks used cur cs \<noteq> []"
proof (induction cs arbitrary: used cur)
  case (Cons c cs)
  let ?size = "internal_cell_size (nr_min_key c) + SLOT_SIZE"
  have size: "node_cost c = ?size" by (simp add: node_cost_def node_size_def)
  show ?case
  proof (cases "PAGE_SIZE < used + ?size")
    case True
    have "internal_fits []" by (simp add: internal_fits_def size_consts)
    with True Cons.prems Cons.IH[of "[c]" "HEADER_SIZE + 8"] show ?thesis by (auto simp: Let_def)
  next
    case False
    then have "internal_fits (tl cur @ [c])"
      using Cons.prems(2) size by (simp add: internal_fits_def)
    then have IH: "concat (node_chunks (used + ?size) (cur @ [c]) cs) = (cur @ [c]) @ cs \<and>
        (\<forall>x \<in> set (node_chunks (used + ?size) (cur @ [c]) cs). x \<noteq> [] \<and> internal_fits (tl x)) \<and>
        node_chunks (used + ?size) (cur @ [c]) cs \<noteq> []"
      using Cons.prems(1,2) size by (intro Cons.IH) simp_all
    have step: "node_chunks used cur (c # cs) = node_chunks (used + ?size) (cur @ [c]) cs"
      using False Cons.prems(1) by (simp add: Let_def)
    show ?thesis unfolding step using IH by simp
  qed
qed auto

section \<open>A level of nodes\<close>

text \<open>
  Nodes of height \<open>h\<close> that hold the entries \<open>es\<close>, none with a separator below
  \<open>lo\<close>, in a store that extends an earlier one by at most \<open>n\<close> pages.
\<close>

definition level_of ::
  "(bytes \<Rightarrow> u32) \<Rightarrow> page_store \<Rightarrow> nat \<Rightarrow> bytes \<Rightarrow> entry list \<Rightarrow> nat \<Rightarrow> page_store \<Rightarrow> node_ref list \<Rightarrow> bool" where
  "level_of crc ps h lo es n qs nodes \<longleftrightarrow>
     prefix ps qs \<and> length qs \<le> length ps + n \<and>
     (\<exists>bs. map fst bs = nodes \<and> branches_ok (wf_node crc qs h) bs \<and> below bs = es \<and>
        (\<forall>b \<in> set bs. lo \<le> nr_min_key (fst b)))"

fun fence :: "(bytes \<times> entry list) list \<Rightarrow> bool" where
  "fence [] \<longleftrightarrow> True"
| "fence ((k, es) # ks) \<longleftrightarrow>
     (\<forall>e \<in> set es. k \<le> en_key e) \<and> (\<forall>e \<in> set es. \<forall>x \<in> set ks. en_key e < fst x) \<and> fence ks"

lemma fenced_fence: "fenced bs \<longleftrightarrow> fence (map (\<lambda>b. (nr_min_key (fst b), snd b)) bs)"
  by (induction bs rule: fenced.induct) auto

lemma fence_chunks:
  "sorted_entries (concat cs) \<Longrightarrow> \<forall>c \<in> set cs. c \<noteq> [] \<Longrightarrow> fence (map (\<lambda>c. (en_key (hd c), c)) cs)"
proof (induction cs)
  case (Cons c cs)
  have "en_key (hd c) \<le> en_key e" if "e \<in> set c" for e
    using that Cons.prems by (cases c) (auto simp: sorted_entries_append intro: less_imp_le)
  moreover have "en_key e < en_key (hd d)" if "e \<in> set c" "d \<in> set cs" for e d
    using that Cons.prems hd_in_set[of d] by (auto simp: sorted_entries_append)
  ultimately show ?case using Cons by (auto simp: sorted_entries_append)
qed simp

lemma fence_groups:
  "branches_ok sub (concat gs) \<Longrightarrow> \<forall>g \<in> set gs. g \<noteq> [] \<Longrightarrow>
     fence (map (\<lambda>g. (nr_min_key (fst (hd g)), below g)) gs)"
proof (induction gs)
  case (Cons g gs)
  have ok: "branches_ok sub g" "branches_ok sub (concat gs)"
    "\<forall>e \<in> set (below g). \<forall>b \<in> set (concat gs). en_key e < nr_min_key (fst b)"
    using Cons.prems(1) branches_ok_append[of sub g "concat gs"] by simp_all
  obtain c es g' where g: "g = (c, es) # g'" using Cons.prems(2) by (cases g) auto
  have "nr_min_key (fst (hd g)) \<le> en_key e" if "e \<in> set (below g)" for e
    using first_fence[of sub c es g' e] ok(1) that g by simp
  moreover have "en_key e < nr_min_key (fst (hd d))" if "e \<in> set (below g)" "d \<in> set gs" for e d
  proof -
    have "hd d \<in> set (concat gs)" using that(2) Cons.prems(2) by (auto intro!: bexI[of _ d])
    then show ?thesis using ok(3) that(1) by blast
  qed
  ultimately show ?case using Cons.IH[OF ok(2)] Cons.prems(2) by auto
qed simp

lemma write_chunks_map: "write_chunks w ps (map f xs) = write_chunks (\<lambda>ps x. w ps (f x)) ps xs"
  by (induction xs arbitrary: ps) simp_all

lemma write_chunks_nodes:
  assumes step: "\<And>ps c. c \<in> set cs \<Longrightarrow> prefix ps0 ps \<Longrightarrow> length ps + cost c < 2 ^ 64 \<Longrightarrow>
    \<exists>qs n. w ps c = Inr (qs, n) \<and> prefix ps qs \<and> length qs \<le> length ps + cost c \<and>
      nr_min_key n = key c \<and> wf_node crc qs h (nr_page_id n) (ent c)"
  shows "prefix ps0 ps \<Longrightarrow> length ps + sum_list (map cost cs) < 2 ^ 64 \<Longrightarrow>
    \<exists>qs ns. write_chunks w ps cs = Inr (qs, ns) \<and> prefix ps qs \<and>
      length qs \<le> length ps + sum_list (map cost cs) \<and> map nr_min_key ns = map key cs \<and>
      list_all2 (\<lambda>n c. wf_node crc qs h (nr_page_id n) (ent c)) ns cs"
  using step
proof (induction cs arbitrary: ps)
  case (Cons c cs)
  obtain ps1 n where n: "w ps c = Inr (ps1, n)" "prefix ps ps1" "length ps1 \<le> length ps + cost c"
    "nr_min_key n = key c" "wf_node crc ps1 h (nr_page_id n) (ent c)"
    using Cons.prems(3)[of c ps] Cons.prems(1,2) by auto
  obtain qs ns where ns: "write_chunks w ps1 cs = Inr (qs, ns)" "prefix ps1 qs"
    "length qs \<le> length ps1 + sum_list (map cost cs)" "map nr_min_key ns = map key cs"
    "list_all2 (\<lambda>n c. wf_node crc qs h (nr_page_id n) (ent c)) ns cs"
    using Cons.IH[of ps1] Cons.prems n(2,3) by (fastforce intro: prefix_order.trans)
  show ?case
    using n ns wf_node_mono[OF n(5) ns(2)] by (auto intro: prefix_order.trans)
qed simp

lemma level_ofI:
  assumes "prefix ps qs" "length qs \<le> length ps + n" "map nr_min_key ns = map key cs"
    "list_all2 (\<lambda>n c. wf_node crc qs h (nr_page_id n) (ent c)) ns cs"
    "fence (map (\<lambda>c. (key c, ent c)) cs)" "\<forall>c \<in> set cs. separator_ok (key c) \<and> lo \<le> key c"
  shows "level_of crc ps h lo (concat (map ent cs)) n qs ns"
proof -
  let ?bs = "zip ns (map ent cs)"
  have len: "length ns = length cs" using assms(4) by (rule list_all2_lengthD)
  have keys: "nr_min_key (ns ! i) = key (cs ! i)" if "i < length cs" for i
    using arg_cong[OF assms(3), of "\<lambda>ks. ks ! i"] that len by simp
  have "map (\<lambda>b. (nr_min_key (fst b), snd b)) ?bs = map (\<lambda>c. (key c, ent c)) cs"
    using len keys by (auto intro!: nth_equalityI)
  then have "fenced ?bs" using assms(5) by (simp add: fenced_fence)
  moreover have each: "wf_node crc qs h (nr_page_id (fst b)) (snd b) \<and> separator_ok (nr_min_key (fst b)) \<and>
      lo \<le> nr_min_key (fst b)" if "b \<in> set ?bs" for b
    using that assms(4,6) len keys by (auto simp: set_zip list_all2_conv_all_nth)
  moreover have "snd b \<noteq> []" if "b \<in> set ?bs" for b
    using each[OF that] wf_node_entries by blast
  ultimately have "branches_ok (wf_node crc qs h) ?bs" "\<forall>b \<in> set ?bs. lo \<le> nr_min_key (fst b)"
    by (simp_all add: branches_ok_def)
  then show ?thesis
    using assms(1,2) len by (auto simp: level_of_def intro!: exI[of _ ?bs])
qed

lemma write_leaf_node:
  assumes "c \<noteq> []" "\<forall>e \<in> set c. entry_ok e" "leaf_fits c" "sorted_entries c" "ps \<noteq> []"
    "length ps + ITEM_PAGES * length c < 2 ^ 64"
  shows "\<exists>qs n. write_leaf crc ps c = Inr (qs, n) \<and> prefix ps qs \<and>
    length qs \<le> length ps + ITEM_PAGES * length c \<and> nr_min_key n = en_key (hd c) \<and>
    wf_node crc qs 0 (nr_page_id n) c"
proof -
  obtain qs where qs: "write_leaf crc ps c = Inr (qs, \<lparr> nr_page_id = word_of_nat (length qs - 1), nr_min_key = en_key (hd c) \<rparr>)"
    "prefix ps qs" "length qs < 2 ^ 64 \<Longrightarrow> leaf_page crc qs (word_of_nat (length qs - 1)) c"
    using write_leaf_page[OF assms(1,2,3,5)] by metis
  moreover have "length qs \<le> length ps + ITEM_PAGES * length c"
    using write_leaf_growth[OF qs(1)] assms(2) by (auto simp: entry_ok_def)
  ultimately show ?thesis using assms(1,4,6) by auto
qed

lemma write_leaf_level_ok:
  assumes "es \<noteq> []" "\<forall>e \<in> set es. entry_ok e" "sorted_entries es" "ps \<noteq> []"
    "length ps + ITEM_PAGES * length es < 2 ^ 64" "\<forall>e \<in> set es. lo \<le> en_key e"
  obtains qs nodes where "write_leaf_level crc ps es = Inr (qs, nodes)"
    "level_of crc ps 0 lo es (ITEM_PAGES * length es) qs nodes"
proof -
  have "leaf_fits []" by (simp add: leaf_fits_def size_consts)
  then obtain cs where cs: "leaf_chunks HEADER_SIZE [] es = Inr cs" "concat cs = es"
    "\<forall>c \<in> set cs. c \<noteq> [] \<and> leaf_fits c"
    using leaf_chunks_ok[of "[]" es HEADER_SIZE] assms(1,2) by auto
  have each: "sorted_entries c \<and> (\<forall>e \<in> set c. entry_ok e)" if c: "c \<in> set cs" for c
  proof -
    obtain as bs where "cs = as @ c # bs" using split_list[OF c] by blast
    then show ?thesis using assms(2,3) cs(2) by (auto simp: sorted_entries_append)
  qed
  have sum: "sum_list (map (\<lambda>c. ITEM_PAGES * length c) cs) = ITEM_PAGES * length es"
    using cs(2) by (auto simp: length_concat sum_list_const_mult)
  have "\<exists>qs ns. write_chunks (write_leaf crc) ps cs = Inr (qs, ns) \<and> prefix ps qs \<and>
      length qs \<le> length ps + sum_list (map (\<lambda>c. ITEM_PAGES * length c) cs) \<and>
      map nr_min_key ns = map (\<lambda>c. en_key (hd c)) cs \<and>
      list_all2 (\<lambda>n c. wf_node crc qs 0 (nr_page_id n) c) ns cs"
    using assms(4,5) sum each cs(3)
    by (intro write_chunks_nodes[where ps0 = ps] write_leaf_node) (auto simp: prefix_def)
  then obtain qs ns where w: "write_chunks (write_leaf crc) ps cs = Inr (qs, ns)" "prefix ps qs"
    "length qs \<le> length ps + ITEM_PAGES * length es" "map nr_min_key ns = map (\<lambda>c. en_key (hd c)) cs"
    "list_all2 (\<lambda>n c. wf_node crc qs 0 (nr_page_id n) c) ns cs"
    using sum by auto
  have "\<forall>c \<in> set cs. separator_ok (en_key (hd c)) \<and> lo \<le> en_key (hd c)"
    using cs(2,3) assms(2,6) hd_in_set by (fastforce simp: entry_ok_def separator_ok_def)
  moreover have "fence (map (\<lambda>c. (en_key (hd c), c)) cs)"
    using assms(3) cs by (intro fence_chunks) auto
  ultimately have "level_of crc ps 0 lo (concat (map (\<lambda>c. c) cs)) (ITEM_PAGES * length es) qs ns"
    using w by (intro level_ofI[where key = "\<lambda>c. en_key (hd c)"]) auto
  then show ?thesis using that[of qs ns] w(1) cs by (simp add: write_leaf_level_def)
qed

lemma below_count: "branches_ok sub bs \<Longrightarrow> length bs \<le> length (below bs)"
proof (induction bs)
  case (Cons b bs)
  then have "branches_ok sub bs" "snd b \<noteq> []"
    using branches_ok_append[of sub "[b]" bs] by (auto simp: branches_ok_def)
  with Cons.IH show ?case by (cases "snd b") auto
qed simp

lemma below_Nil: "branches_ok sub bs \<Longrightarrow> below bs = [] \<longleftrightarrow> bs = []"
  using below_count[of sub bs] by (cases "below bs") auto

lemma regroup: "map f xs = concat cs \<Longrightarrow> \<exists>gs. map (map f) gs = cs \<and> concat gs = xs"
proof (induction cs arbitrary: xs)
  case (Cons c cs)
  then obtain us vs where "xs = us @ vs" "c = map f us" "map f vs = concat cs"
    by (auto simp: map_eq_append_conv)
  then show ?case using Cons.IH[of vs] by (metis concat.simps(2) list.simps(9))
qed simp

lemma below_concat: "below (concat gs) = concat (map below gs)"
  by (induction gs) simp_all

lemma write_internal_node:
  assumes "branches_ok (wf_node crc ps h) g" "g \<noteq> []" "internal_fits (map fst (tl g))"
    "length ps + ITEM_PAGES * length g < 2 ^ 64"
  shows "\<exists>qs n. write_internal crc ps (map fst g) = Inr (qs, n) \<and> prefix ps qs \<and>
    length qs \<le> length ps + ITEM_PAGES * length g \<and> nr_min_key n = nr_min_key (fst (hd g)) \<and>
    wf_node crc qs (Suc h) (nr_page_id n) (below g)"
proof -
  obtain c es g' where g: "g = (c, es) # g'" using assms(2) by (cases g) auto
  have ids: "\<forall>b \<in> set g. unat (nr_page_id (fst b)) < length ps"
    using assms(1) wf_node_bound by (auto simp: branches_ok_def)
  have seps: "\<forall>b \<in> set g. separator_ok (nr_min_key (fst b))" using assms(1) by (auto simp: branches_ok_def)
  have "ps \<noteq> []" using ids g by auto
  moreover have "internal_fits (map fst g')" "\<forall>c \<in> set (map fst g'). separator_ok (nr_min_key c)"
    using assms(3) seps g by auto
  ultimately obtain qs where qs: "write_internal crc ps (map fst g) =
      Inr (qs, \<lparr> nr_page_id = word_of_nat (length qs - 1), nr_min_key = nr_min_key c \<rparr>)"
    "prefix ps qs" "length ps < length qs"
    "length qs < 2 ^ 64 \<Longrightarrow> internal_page crc qs (word_of_nat (length qs - 1)) (nr_page_id c) (map fst g')"
    using write_internal_page[of "map fst g'" ps crc c] g by auto
  have len: "length qs \<le> length ps + ITEM_PAGES * length g"
    using write_internal_growth[OF qs(1)] seps by (auto simp: separator_ok_def)
  have "unat (word_of_nat (length qs - 1) :: u64) = length qs - 1"
    using len assms(4) by (simp add: unat_of_nat)
  then have "\<forall>b \<in> set g. unat (nr_page_id (fst b)) < unat (word_of_nat (length qs - 1) :: u64)"
    using ids qs(3) by fastforce
  moreover have "branches_ok (wf_node crc qs h) g"
    using branches_ok_mono[OF assms(1)] wf_node_mono qs(2) by blast
  ultimately have "wf_node crc qs (Suc h) (word_of_nat (length qs - 1)) (below g)"
    using qs(4) len assms(4) g
    by (auto simp only: wf_node.simps intro!: exI[of _ c] exI[of _ "map fst g'"] exI[of _ g]) auto
  then show ?thesis using qs len g by auto
qed

lemma write_internal_level_ok:
  assumes "branches_ok (wf_node crc ps h) bs" "bs \<noteq> []" "length ps + ITEM_PAGES * length bs < 2 ^ 64"
    "\<forall>b \<in> set bs. lo \<le> nr_min_key (fst b)"
  obtains qs nodes where "write_internal_level crc ps (map fst bs) = Inr (qs, nodes)"
    "level_of crc ps (Suc h) lo (below bs) (ITEM_PAGES * length bs) qs nodes"
proof -
  obtain c cs where map: "map fst bs = c # cs" using assms(2) by (cases bs) auto
  let ?cs = "node_chunks (HEADER_SIZE + 8) [c] cs"
  have chunks: "concat ?cs = map fst bs" "\<forall>x \<in> set ?cs. x \<noteq> [] \<and> internal_fits (tl x)"
    using node_chunks_ok[of "[c]" "HEADER_SIZE + 8" cs] map by (auto simp: internal_fits_def size_consts)
  obtain gs where gs: "map (map fst) gs = ?cs" "concat gs = bs"
    using regroup[of fst bs ?cs] chunks(1) by auto
  have fits: "g \<noteq> [] \<and> internal_fits (map fst (tl g))" if "g \<in> set gs" for g
  proof -
    have "map fst g \<in> set ?cs" using that gs(1) by (metis image_eqI list.set_map)
    then show ?thesis using chunks(2) by (auto simp: map_tl)
  qed
  have each: "branches_ok (wf_node crc ps h) g" if g: "g \<in> set gs" for g
  proof -
    obtain as ds where "gs = as @ g # ds" using split_list[OF g] by blast
    then have "bs = concat as @ g @ concat ds" using gs(2) by auto
    then show ?thesis using assms(1) by (simp add: branches_ok_append)
  qed
  have sum: "sum_list (map (\<lambda>g. ITEM_PAGES * length g) gs) = ITEM_PAGES * length bs"
    using gs(2) by (auto simp: length_concat sum_list_const_mult)
  have node: "\<exists>qs' n. write_internal crc qs (map fst g) = Inr (qs', n) \<and> prefix qs qs' \<and>
      length qs' \<le> length qs + ITEM_PAGES * length g \<and> nr_min_key n = nr_min_key (fst (hd g)) \<and>
      wf_node crc qs' (Suc h) (nr_page_id n) (below g)"
    if "g \<in> set gs" "prefix ps qs" "length qs + ITEM_PAGES * length g < 2 ^ 64" for qs g
    using fits[OF that(1)] that(3)
    by (intro write_internal_node branches_ok_mono[OF each[OF that(1)]] wf_node_mono[OF _ that(2)]) auto
  have "\<exists>qs ns. write_chunks (\<lambda>ps g. write_internal crc ps (map fst g)) ps gs = Inr (qs, ns) \<and> prefix ps qs \<and>
      length qs \<le> length ps + sum_list (map (\<lambda>g. ITEM_PAGES * length g) gs) \<and>
      map nr_min_key ns = map (\<lambda>g. nr_min_key (fst (hd g))) gs \<and>
      list_all2 (\<lambda>n g. wf_node crc qs (Suc h) (nr_page_id n) (below g)) ns gs"
    using assms(3) sum node by (intro write_chunks_nodes[where ps0 = ps]) auto
  then obtain qs ns where w: "write_chunks (\<lambda>ps g. write_internal crc ps (map fst g)) ps gs = Inr (qs, ns)"
    "prefix ps qs" "length qs \<le> length ps + ITEM_PAGES * length bs"
    "map nr_min_key ns = map (\<lambda>g. nr_min_key (fst (hd g))) gs"
    "list_all2 (\<lambda>n g. wf_node crc qs (Suc h) (nr_page_id n) (below g)) ns gs"
    using sum by auto
  have "hd g \<in> set bs" if "g \<in> set gs" for g
    using that fits[OF that] gs(2) by (auto intro!: bexI[of _ g])
  then have "\<forall>g \<in> set gs. separator_ok (nr_min_key (fst (hd g))) \<and> lo \<le> nr_min_key (fst (hd g))"
    using assms(1,4) by (auto simp: branches_ok_def)
  moreover have "fence (map (\<lambda>g. (nr_min_key (fst (hd g)), below g)) gs)"
    using assms(1) gs(2) fits by (intro fence_groups) auto
  ultimately have "level_of crc ps (Suc h) lo (concat (map below gs)) (ITEM_PAGES * length bs) qs ns"
    using w by (intro level_ofI[where key = "\<lambda>g. nr_min_key (fst (hd g))"]) auto
  moreover have "concat (map below gs) = below bs"
    using gs(2) below_concat[of gs] by simp
  moreover have "write_internal_level crc ps (map fst bs) = Inr (qs, ns)"
    using w(1) gs(1) map write_chunks_map[of "write_internal crc" ps "map fst" gs]
    by (simp add: write_internal_level_def)
  ultimately show ?thesis using that by metis
qed

lemma grow_root_ok:
  "branches_ok (wf_node crc ps h) bs \<Longrightarrow> bs \<noteq> [] \<Longrightarrow> length ps + 4 * ITEM_PAGES * length bs < 2 ^ 64 \<Longrightarrow>
     \<exists>qs node h'. grow_root crc ps (map fst bs) = Inr (qs, [node]) \<and> prefix ps qs \<and>
       length qs \<le> length ps + 4 * ITEM_PAGES * length bs \<and>
       wf_node crc qs h' (nr_page_id node) (below bs) \<and> h \<le> h' \<and> (h' = h \<or> 2 ^ (h' - Suc h) < length bs)"
proof (induction "length bs" arbitrary: ps h bs rule: less_induct)
  case less
  show ?case
  proof (cases "length bs = 1")
    case True
    then obtain b where "bs = [b]" by (auto simp: length_Suc_conv)
    then show ?thesis using less.prems by (auto simp: grow_root.simps[of crc ps] branches_ok_def)
  next
    case False
    then have n: "2 \<le> length bs" using less.prems(2) by (cases bs rule: list.exhaust) (auto simp: Suc_le_eq)
    obtain qs nodes where w: "write_internal_level crc ps (map fst bs) = Inr (qs, nodes)"
      "level_of crc ps (Suc h) [] (below bs) (ITEM_PAGES * length bs) qs nodes"
      using write_internal_level_ok[OF less.prems(1,2), of "[]"] less.prems(3) by auto
    then obtain bs' where bs': "map fst bs' = nodes" "branches_ok (wf_node crc qs (Suc h)) bs'" "below bs' = below bs"
      and qs: "prefix ps qs" "length qs \<le> length ps + ITEM_PAGES * length bs"
      by (auto simp: level_of_def)
    have half: "2 * length bs' \<le> length bs + 1"
      using write_internal_level_halves[OF w(1)] less.prems(2) bs'(1) by auto
    have "bs' \<noteq> []" using less.prems(2) bs'(3) below_Nil[OF bs'(2)] below_Nil[OF less.prems(1)] by simp
    moreover have room: "length qs + 4 * ITEM_PAGES * length bs' \<le> length ps + 4 * ITEM_PAGES * length bs"
      using qs(2) half n by (simp add: ITEM_PAGES_def)
    ultimately obtain rs node h' where g: "grow_root crc qs (map fst bs') = Inr (rs, [node])" "prefix qs rs"
      "length rs \<le> length qs + 4 * ITEM_PAGES * length bs'" "wf_node crc rs h' (nr_page_id node) (below bs)"
      "Suc h \<le> h'" "h' = Suc h \<or> 2 ^ (h' - Suc (Suc h)) < length bs'"
      using less.hyps[of bs' qs "Suc h"] bs' half n less.prems(3) by auto
    have "2 ^ (h' - Suc h) < length bs"
    proof (cases "h' = Suc h")
      case False
      then obtain k where "h' = Suc (Suc h) + k" using g(5) by (metis Suc_leI le_Suc_ex le_neq_implies_less)
      then show ?thesis using g(6) half by simp
    qed (use n in auto)
    moreover have "grow_root crc ps (map fst bs) = Inr (rs, [node])"
      using n w(1) g(1) bs'(1) by (simp add: grow_root.simps[of crc ps])
    ultimately show ?thesis
      using g room qs(1) by (auto intro: prefix_order.trans)
  qed
qed

end
