(* ===== verification/TreeMutations.thy ===== *)
theory TreeMutations
  imports TreeLevels
begin

text \<open>
  The mutations of a batch against sorted entries
  (\<open>crates/vyrn-core/src/page_tree.rs\<close>): the prepared mutation, the merge of a
  sorted run of them into a leaf's entries with the report of which keys existed,
  and the change of the entry count.  The merge is shown to apply the mutations
  one after the other, the report to name the keys present before the batch, and
  the count to follow the entries.
\<close>

section \<open>Definitions\<close>

record prepared =
  pm_key :: bytes
  pm_value :: "(entry_value \<times> u64) option"
  pm_index :: nat

function merge_entries :: "entry list \<Rightarrow> prepared list \<Rightarrow> bool list \<Rightarrow> entry list \<times> bool list" where
  "merge_entries es [] marks = (es, marks)"
| "merge_entries es (m # ms) marks =
     (let key = pm_key m;
          before = takeWhile (\<lambda>e. en_key e < key) es;
          rest = dropWhile (\<lambda>e. en_key e < key) es;
          present = (rest \<noteq> [] \<and> en_key (hd rest) = key);
          rest = (if present then tl rest else rest);
          run = m # takeWhile (\<lambda>x. pm_key x = key) ms;
          later = dropWhile (\<lambda>x. pm_key x = key) ms;
          marks = fold (\<lambda>x ex. ex[pm_index x := present]) run marks;
          put = (case pm_value (last run) of
                   Some (v, revision) \<Rightarrow> [\<lparr> en_key = key, en_value = v, en_revision = revision \<rparr>]
                 | None \<Rightarrow> []);
          (merged, marks) = merge_entries rest later marks
      in (before @ put @ merged, marks))"
  by pat_completeness auto
termination
  by (relation "measure (\<lambda>(es, ms, ex). length ms)") (auto simp: le_imp_less_Suc length_dropWhile_le)

text \<open>One change of the entry count per distinct key of the sorted mutations.\<close>

function batch_delta :: "prepared list \<Rightarrow> bool list \<Rightarrow> int" where
  "batch_delta [] marks = 0"
| "batch_delta (m # ms) marks =
     (let final = last (m # takeWhile (\<lambda>x. pm_key x = pm_key m) ms);
          change = (case (pm_value final, marks ! pm_index m) of
                      (Some _, False) \<Rightarrow> 1 | (None, True) \<Rightarrow> - 1 | _ \<Rightarrow> 0)
      in change + batch_delta (dropWhile (\<lambda>x. pm_key x = pm_key m) ms) marks)"
  by pat_completeness auto
termination
  by (relation "measure (\<lambda>(ms, ex). length ms)") (auto simp: le_imp_less_Suc length_dropWhile_le)

section \<open>Mutations of sorted entries\<close>

fun pm_apply :: "prepared \<Rightarrow> (entry_value \<times> u64) rows \<Rightarrow> (entry_value \<times> u64) rows" where
  "pm_apply m r = (case pm_value m of Some x \<Rightarrow> rput (pm_key m) x r | None \<Rightarrow> rdel (pm_key m) r)"

definition row_entry :: "bytes \<times> entry_value \<times> u64 \<Rightarrow> entry" where
  "row_entry = (\<lambda>(k, v, r). \<lparr> en_key = k, en_value = v, en_revision = r \<rparr>)"

definition mutated :: "prepared list \<Rightarrow> entry list \<Rightarrow> entry list" where
  "mutated ms es = map row_entry (fold pm_apply ms (entry_rows es))"

lemma row_entry_inverse [simp]: "row_entry (entry_row e) = e" "entry_row (row_entry x) = x"
  by (simp_all add: row_entry_def entry_row_def split: prod.splits)

lemma en_key_row_entry [simp]: "en_key (row_entry x) = fst x"
  by (simp add: row_entry_def split: prod.splits)

lemma entry_rows_mutated [simp]: "entry_rows (mutated ms es) = fold pm_apply ms (entry_rows es)"
  by (simp add: mutated_def comp_def)

lemma mutated_Nil [simp]: "mutated [] es = es"
  by (simp add: mutated_def comp_def)

lemma mutated_append: "mutated (ms @ ns) es = mutated ns (mutated ms es)"
  by (simp add: mutated_def comp_def)

lemma rput_append:
  "\<forall>x \<in> set as. fst x < k \<Longrightarrow> rput k v (as @ bs) = as @ rput k v bs"
  by (induction as) auto

lemma rput_before: "\<forall>x \<in> set bs. k < fst x \<Longrightarrow> rput k v (as @ bs) = rput k v as @ bs"
  by (induction k v as rule: rput.induct) (cases bs, auto)+

lemma rdel_append: "\<forall>x \<in> set as. fst x < k \<Longrightarrow> rdel k (as @ bs) = as @ rdel k bs"
  by (induction as) auto

lemma rdel_before: "\<forall>x \<in> set bs. k < fst x \<Longrightarrow> rdel k (as @ bs) = rdel k as @ bs"
proof (induction as)
  case Nil
  then show ?case by (simp add: rdel_absent)
qed auto

lemma fold_pm_after:
  "\<forall>x \<in> set as. \<forall>m \<in> set ms. fst x < pm_key m \<Longrightarrow> fold pm_apply ms (as @ bs) = as @ fold pm_apply ms bs"
  by (induction ms arbitrary: bs) (auto simp: rput_append rdel_append split: option.splits)

lemma fold_pm_before:
  "\<forall>x \<in> set bs. \<forall>m \<in> set ms. pm_key m < fst x \<Longrightarrow> fold pm_apply ms (as @ bs) = fold pm_apply ms as @ bs"
  by (induction ms arbitrary: as) (auto simp: rput_before rdel_before split: option.splits)

lemma keys_fold_pm: "fst ` set (fold pm_apply ms r) \<subseteq> fst ` set r \<union> pm_key ` set ms"
proof (induction ms arbitrary: r)
  case (Cons m ms)
  have "fst ` set (pm_apply m r) \<subseteq> fst ` set r \<union> {pm_key m}"
    using image_mono[OF set_rdel_subset[of "pm_key m" r], of fst]
    by (cases "pm_value m") (auto simp: keys_rput)
  with Cons.IH[of "pm_apply m r"] show ?case by auto
qed simp

lemma mutated_keys: "e \<in> set (mutated ms es) \<Longrightarrow> en_key e \<in> en_key ` set es \<union> pm_key ` set ms"
  using keys_fold_pm[of ms "entry_rows es"] by (fastforce simp: mutated_def image_iff)

lemma mutated_after:
  "\<forall>e \<in> set as. \<forall>m \<in> set ms. en_key e < pm_key m \<Longrightarrow> mutated ms (as @ bs) = as @ mutated ms bs"
  by (simp add: mutated_def fold_pm_after comp_def)

text \<open>Mutations on both sides of a fence act on each side alone.\<close>

lemma mutated_split:
  assumes "\<forall>e \<in> set as. en_key e < f" "\<forall>m \<in> set ms. pm_key m < f"
    "\<forall>e \<in> set bs. f \<le> en_key e" "\<forall>m \<in> set ns. f \<le> pm_key m"
  shows "mutated (ms @ ns) (as @ bs) = mutated ms as @ mutated ns bs"
proof -
  have "fold pm_apply ms (entry_rows as @ entry_rows bs) = fold pm_apply ms (entry_rows as) @ entry_rows bs"
    using assms(2,3) by (intro fold_pm_before) (auto intro: less_le_trans)
  moreover have "\<forall>x \<in> set (fold pm_apply ms (entry_rows as)). \<forall>n \<in> set ns. fst x < pm_key n"
  proof (intro ballI)
    fix x n assume x: "x \<in> set (fold pm_apply ms (entry_rows as))" and n: "n \<in> set ns"
    have "fst x \<in> fst ` set (entry_rows as) \<union> pm_key ` set ms"
      using keys_fold_pm[of ms "entry_rows as"] x by blast
    then have "fst x < f" using assms(1,2) by auto
    then show "fst x < pm_key n" using assms(4) n by (auto intro: less_le_trans)
  qed
  ultimately show ?thesis by (simp add: mutated_def fold_pm_after)
qed

lemma sorted_mutated [simp]: "sorted_entries es \<Longrightarrow> sorted_entries (mutated ms es)"
proof -
  have "sorted_rows r \<Longrightarrow> sorted_rows (fold pm_apply ms r)" for r
    by (induction ms arbitrary: r) (auto split: option.splits)
  then show "sorted_entries es \<Longrightarrow> ?thesis" by (simp add: sorted_entries_def)
qed

definition prepared_ok :: "prepared \<Rightarrow> bool" where
  "prepared_ok m \<longleftrightarrow> (case pm_value m of None \<Rightarrow> True | Some x \<Rightarrow> entry_ok (row_entry (pm_key m, x)))"

lemma mutated_ok:
  assumes "\<forall>e \<in> set es. entry_ok e" "\<forall>m \<in> set ms. prepared_ok m"
  shows "\<forall>e \<in> set (mutated ms es). entry_ok e"
proof -
  have "\<forall>x \<in> set r. entry_ok (row_entry x) \<Longrightarrow> \<forall>m \<in> set ms. prepared_ok m \<Longrightarrow>
      \<forall>x \<in> set (fold pm_apply ms r). entry_ok (row_entry x)" for r
  proof (induction ms arbitrary: r)
    case (Cons m ms)
    have "\<forall>x \<in> set (pm_apply m r). entry_ok (row_entry x)"
    proof (cases "pm_value m")
      case None
      then show ?thesis using Cons.prems(1) set_rdel_subset[of "pm_key m" r] by auto
    next
      case (Some x)
      then show ?thesis
        using Cons.prems set_rput_subset[of "pm_key m" x r] by (auto simp: prepared_ok_def)
    qed
    with Cons show ?case by simp
  qed simp
  from this[of "entry_rows es"] show ?thesis using assms by (auto simp: mutated_def)
qed

lemma length_mutated: "length (mutated ms es) \<le> length es + length ms"
proof -
  have put: "length (rput k v r) \<le> Suc (length r)" for k :: bytes and v :: "entry_value \<times> u64" and r
    by (induction k v r rule: rput.induct) auto
  have del: "length (rdel k r) \<le> length r" for k :: bytes and r :: "(entry_value \<times> u64) rows"
    by (induction k r rule: rdel.induct) auto
  have "length (fold pm_apply ms r) \<le> length r + length ms" for r
  proof (induction ms arbitrary: r)
    case (Cons m ms)
    have "length (pm_apply m r) \<le> Suc (length r)"
      using put del by (auto split: option.splits intro: le_SucI)
    with Cons[of "pm_apply m r"] show ?case by simp
  qed simp
  from this[of "entry_rows es"] show ?thesis by (simp add: mutated_def)
qed

section \<open>The merge applies the mutations\<close>

definition mark_existing :: "entry list \<Rightarrow> prepared list \<Rightarrow> bool list \<Rightarrow> bool list" where
  "mark_existing es ms marks = fold (\<lambda>m ex. ex[pm_index m := (pm_key m \<in> en_key ` set es)]) ms marks"

lemma mark_existing_append:
  "mark_existing es (ms @ ns) marks = mark_existing es ns (mark_existing es ms marks)"
  by (simp add: mark_existing_def)

lemma mark_existing_cong:
  "(\<And>m. m \<in> set ms \<Longrightarrow> pm_key m \<in> en_key ` set es \<longleftrightarrow> pm_key m \<in> en_key ` set fs) \<Longrightarrow>
     mark_existing es ms marks = mark_existing fs ms marks"
  unfolding mark_existing_def by (intro fold_cong) auto

text \<open>A run of mutations of one key leaves what the last of them says.\<close>

lemma fold_pm_run:
  assumes "run \<noteq> []" "\<forall>m \<in> set run. pm_key m = key" "sorted_rows r" "\<forall>x \<in> set r. key \<le> fst x"
  shows "fold pm_apply run r =
    (case pm_value (last run) of Some x \<Rightarrow> [(key, x)] | None \<Rightarrow> []) @ filter (\<lambda>x. fst x \<noteq> key) r"
  using assms
proof (induction run arbitrary: r)
  case (Cons m run)
  have one: "pm_apply m r = (case pm_value m of Some x \<Rightarrow> [(key, x)] | None \<Rightarrow> []) @ filter (\<lambda>x. fst x \<noteq> key) r"
  proof (cases r)
    case (Cons x r')
    then have above: "\<forall>y \<in> set r'. key < fst y" using Cons.prems(3,4) by (auto intro: le_less_trans)
    then have "filter (\<lambda>x. fst x \<noteq> key) r' = r'" "rdel key r' = r'"
      by (auto intro!: filter_True rdel_absent)
    then show ?thesis
      using Cons Cons.prems by (cases x) (auto split: option.splits)
  qed (use Cons.prems(2) in \<open>auto split: option.splits\<close>)
  show ?case
  proof (cases "run = []")
    case True
    with one show ?thesis by simp
  next
    case False
    have "sorted_rows (pm_apply m r)" "\<forall>x \<in> set (pm_apply m r). key \<le> fst x"
      "filter (\<lambda>x. fst x \<noteq> key) (pm_apply m r) = filter (\<lambda>x. fst x \<noteq> key) r"
      using one Cons.prems(3,4) by (auto split: option.splits simp: order_le_less)
    with Cons.IH[of "pm_apply m r"] Cons.prems(2) False show ?thesis by (simp del: pm_apply.simps)
  qed
qed simp

text \<open>The entries around a key, and the mutations of it that lead a sorted list.\<close>

lemma entries_around:
  fixes key :: bytes and es :: "entry list"
  assumes "sorted_entries es"
  defines "before \<equiv> takeWhile (\<lambda>e. en_key e < key) es" and "rest \<equiv> dropWhile (\<lambda>e. en_key e < key) es"
  shows "es = before @ rest" "\<forall>e \<in> set before. en_key e < key" "\<forall>e \<in> set rest. key \<le> en_key e"
    "sorted_entries rest" "key \<in> en_key ` set es \<longleftrightarrow> rest \<noteq> [] \<and> en_key (hd rest) = key"
    "(if rest \<noteq> [] \<and> en_key (hd rest) = key then tl rest else rest) = filter (\<lambda>e. en_key e \<noteq> key) rest"
proof -
  show split: "es = before @ rest" by (simp add: before_def rest_def)
  show below: "\<forall>e \<in> set before. en_key e < key" by (auto simp: before_def dest: set_takeWhileD)
  show sorted: "sorted_entries rest" using assms(1) split by (metis sorted_entries_append)
  have above: "\<forall>e \<in> set rest. key \<le> en_key e \<and> (e \<noteq> hd rest \<longrightarrow> key < en_key e)"
  proof (cases rest)
    case (Cons x xs)
    then have "key \<le> en_key x" using hd_dropWhile[of "\<lambda>e. en_key e < key" es] by (simp add: rest_def not_less)
    then show ?thesis using sorted Cons by (auto intro: le_less_trans less_imp_le)
  qed simp
  then show "\<forall>e \<in> set rest. key \<le> en_key e" by blast
  show "key \<in> en_key ` set es \<longleftrightarrow> rest \<noteq> [] \<and> en_key (hd rest) = key"
    using split below above by (cases rest) (auto simp: image_iff)
  show "(if rest \<noteq> [] \<and> en_key (hd rest) = key then tl rest else rest) = filter (\<lambda>e. en_key e \<noteq> key) rest"
  proof (cases rest)
    case (Cons x xs)
    then have "filter (\<lambda>e. en_key e \<noteq> key) xs = xs" using above sorted by (intro filter_True) auto
    with Cons show ?thesis by simp
  qed simp
qed

lemma run_of_key:
  fixes m :: prepared and ms :: "prepared list"
  assumes "sorted (map pm_key (m # ms))"
  defines "run \<equiv> m # takeWhile (\<lambda>x. pm_key x = pm_key m) ms" and "later \<equiv> dropWhile (\<lambda>x. pm_key x = pm_key m) ms"
  shows "m # ms = run @ later" "\<forall>x \<in> set run. pm_key x = pm_key m" "\<forall>x \<in> set later. pm_key m < pm_key x"
    "sorted (map pm_key later)"
proof -
  show split: "m # ms = run @ later" by (simp add: run_def later_def)
  show "\<forall>x \<in> set run. pm_key x = pm_key m" by (auto simp: run_def dest: set_takeWhileD)
  show sorted: "sorted (map pm_key later)" using assms(1) split by (metis map_append sorted_append)
  show "\<forall>x \<in> set later. pm_key m < pm_key x"
  proof (cases later)
    case (Cons x xs)
    then have "pm_key x \<noteq> pm_key m" using hd_dropWhile[of "\<lambda>x. pm_key x = pm_key m" ms] by (simp add: later_def)
    moreover have "pm_key m \<le> pm_key x" using assms(1) split Cons by (cases run) (auto simp: run_def)
    ultimately have "pm_key m < pm_key x" by simp
    then show ?thesis using sorted Cons by (auto intro: less_le_trans)
  qed simp
qed

lemma mutated_run:
  assumes "sorted_entries rest" "\<forall>e \<in> set rest. key \<le> en_key e" "\<forall>m \<in> set run. pm_key m = key" "run \<noteq> []"
  shows "mutated run rest =
    (case pm_value (last run) of
       Some (v, revision) \<Rightarrow> [\<lparr> en_key = key, en_value = v, en_revision = revision \<rparr>] | None \<Rightarrow> [])
     @ filter (\<lambda>e. en_key e \<noteq> key) rest"
proof -
  have "map row_entry (filter (\<lambda>x. fst x \<noteq> key) (entry_rows rest)) = filter (\<lambda>e. en_key e \<noteq> key) rest"
    by (simp add: filter_map comp_def)
  then show ?thesis
    using fold_pm_run[OF assms(4,3), of "entry_rows rest"] assms(1,2)
    by (auto simp: mutated_def sorted_entries_def row_entry_def split: option.splits)
qed

lemma sorted_entries_filter: "sorted_entries es \<Longrightarrow> sorted_entries (filter P es)"
  by (induction es) auto

text \<open>One round of the merge: the entries below the key, what its run leaves, and the rest.\<close>

definition put_entry :: "bytes \<Rightarrow> (entry_value \<times> u64) option \<Rightarrow> entry list" where
  "put_entry key x = (case x of
     Some (v, revision) \<Rightarrow> [\<lparr> en_key = key, en_value = v, en_revision = revision \<rparr>] | None \<Rightarrow> [])"

lemma mutated_step:
  fixes es :: "entry list" and m :: prepared and ms :: "prepared list"
  assumes "sorted_entries es" "sorted (map pm_key (m # ms))"
  defines "key \<equiv> pm_key m"
  defines "before \<equiv> takeWhile (\<lambda>e. en_key e < key) es" and "rest \<equiv> dropWhile (\<lambda>e. en_key e < key) es"
    and "run \<equiv> m # takeWhile (\<lambda>x. pm_key x = key) ms" and "later \<equiv> dropWhile (\<lambda>x. pm_key x = key) ms"
  shows "mutated (m # ms) es =
      before @ put_entry key (pm_value (last run)) @ mutated later (filter (\<lambda>e. en_key e \<noteq> key) rest)"
    "\<And>x. x \<in> set later \<Longrightarrow>
      pm_key x \<in> en_key ` set (filter (\<lambda>e. en_key e \<noteq> key) rest) \<longleftrightarrow> pm_key x \<in> en_key ` set es"
proof -
  note es = entries_around[OF assms(1), of key, folded before_def rest_def]
  have run: "m # ms = run @ later" "\<forall>x \<in> set run. pm_key x = key" "\<forall>x \<in> set later. key < pm_key x"
    using run_of_key[OF assms(2)] unfolding run_def later_def key_def by blast+
  let ?rest = "filter (\<lambda>e. en_key e \<noteq> key) rest" and ?put = "put_entry key (pm_value (last run))"
  have "mutated run (before @ rest) = before @ mutated run rest"
    using es(2) run(2) by (intro mutated_after) auto
  moreover have "mutated run rest = ?put @ ?rest"
    unfolding put_entry_def by (intro mutated_run es run(2)) (simp add: run_def)
  ultimately have "mutated run es = before @ ?put @ ?rest" unfolding es(1)[symmetric] by simp
  moreover have "mutated later ((before @ ?put) @ ?rest) = (before @ ?put) @ mutated later ?rest"
  proof (rule mutated_after, intro ballI)
    fix e x assume e: "e \<in> set (before @ ?put)" and x: "x \<in> set later"
    have "\<forall>e \<in> set ?put. en_key e = key" by (auto simp: put_entry_def split: option.splits)
    then have "en_key e \<le> key" using e es(2) by auto
    then show "en_key e < pm_key x" using run(3) x by (auto intro: le_less_trans)
  qed
  ultimately show "mutated (m # ms) es = before @ ?put @ mutated later ?rest"
    unfolding run(1) mutated_append[of run later es] by simp
  show "pm_key x \<in> en_key ` set ?rest \<longleftrightarrow> pm_key x \<in> en_key ` set es" if "x \<in> set later" for x
    using es(1,2) run(3) that by (fastforce simp: image_iff)
qed

lemma merge_entries_mutated:
  "sorted_entries es \<Longrightarrow> sorted (map pm_key ms) \<Longrightarrow>
     merge_entries es ms marks = (mutated ms es, mark_existing es ms marks)"
proof (induction "length ms" arbitrary: es ms marks rule: less_induct)
  case less
  show ?case
  proof (cases ms)
    case Nil
    then show ?thesis by (simp add: mark_existing_def)
  next
    case ms: (Cons m ms')
    define key where "key = pm_key m"
    define before where "before = takeWhile (\<lambda>e. en_key e < key) es"
    define rest where "rest = dropWhile (\<lambda>e. en_key e < key) es"
    define run where "run = m # takeWhile (\<lambda>x. pm_key x = key) ms'"
    define later where "later = dropWhile (\<lambda>x. pm_key x = key) ms'"
    note defs = key_def before_def rest_def run_def later_def
    let ?rest = "filter (\<lambda>e. en_key e \<noteq> key) rest"
    let ?marks = "fold (\<lambda>x ex. ex[pm_index x := (rest \<noteq> [] \<and> en_key (hd rest) = key)]) run marks"
    note es = entries_around[OF less.prems(1), of key, folded before_def rest_def]
    have run: "ms = run @ later" "\<forall>x \<in> set run. pm_key x = key" "sorted (map pm_key later)"
      using run_of_key[OF less.prems(2)[unfolded ms]] unfolding defs ms by blast+
    note step = mutated_step[OF less.prems(1) less.prems(2)[unfolded ms], folded key_def,
        folded before_def rest_def run_def later_def, folded ms]
    have "length later < length ms" by (simp add: ms later_def length_dropWhile_le le_imp_less_Suc)
    then have IH: "merge_entries ?rest later ?marks = (mutated later ?rest, mark_existing ?rest later ?marks)"
      by (intro less.hyps sorted_entries_filter es(4) run(3))
    have "merge_entries es ms marks =
        (before @ put_entry key (pm_value (last run)) @ mutated later ?rest, mark_existing ?rest later ?marks)"
      unfolding ms merge_entries.simps Let_def key_def[symmetric] before_def[symmetric] rest_def[symmetric]
        run_def[symmetric] later_def[symmetric] es(6) IH put_entry_def by simp
    moreover have "mark_existing ?rest later ?marks = mark_existing es ms marks"
    proof -
      have "mark_existing es run marks = ?marks"
        unfolding mark_existing_def using run(2) es(5) by (intro fold_cong) auto
      moreover have "mark_existing ?rest later ?marks = mark_existing es later ?marks"
        by (intro mark_existing_cong step(2))
      ultimately show ?thesis using run(1) mark_existing_append[of es run later marks] by simp
    qed
    ultimately show ?thesis using step(1) by simp
  qed
qed

section \<open>The count follows the entries\<close>

lemma mark_existing_other: "i \<notin> pm_index ` set ms \<Longrightarrow> mark_existing es ms marks ! i = marks ! i"
  by (induction ms arbitrary: marks) (auto simp: mark_existing_def)

lemma length_mark_existing [simp]: "length (mark_existing es ms marks) = length marks"
  by (induction ms arbitrary: marks) (auto simp: mark_existing_def)

lemma mark_existing_nth:
  "distinct (map pm_index ms) \<Longrightarrow> \<forall>m \<in> set ms. pm_index m < length marks \<Longrightarrow> m \<in> set ms \<Longrightarrow>
     mark_existing es ms marks ! pm_index m \<longleftrightarrow> pm_key m \<in> en_key ` set es"
proof (induction ms arbitrary: marks)
  case (Cons x ms)
  let ?marks = "marks[pm_index x := (pm_key x \<in> en_key ` set es)]"
  have step: "mark_existing es (x # ms) marks = mark_existing es ms ?marks" by (simp add: mark_existing_def)
  show ?case
  proof (cases "m = x")
    case True
    then show ?thesis using Cons.prems step mark_existing_other[of "pm_index x" ms es ?marks] by auto
  next
    case False
    then show ?thesis using Cons.prems Cons.IH[of ?marks] step by simp
  qed
qed simp

lemma batch_delta_length:
  "sorted_entries es \<Longrightarrow> sorted (map pm_key ms) \<Longrightarrow>
   \<forall>m \<in> set ms. marks ! pm_index m \<longleftrightarrow> pm_key m \<in> en_key ` set es \<Longrightarrow>
     int (length (mutated ms es)) = int (length es) + batch_delta ms marks"
proof (induction "length ms" arbitrary: es ms rule: less_induct)
  case less
  show ?case
  proof (cases ms)
    case ms: (Cons m ms')
    define key where "key = pm_key m"
    define before where "before = takeWhile (\<lambda>e. en_key e < key) es"
    define rest where "rest = dropWhile (\<lambda>e. en_key e < key) es"
    define run where "run = m # takeWhile (\<lambda>x. pm_key x = key) ms'"
    define later where "later = dropWhile (\<lambda>x. pm_key x = key) ms'"
    let ?rest = "filter (\<lambda>e. en_key e \<noteq> key) rest" and ?present = "key \<in> en_key ` set es"
    note es = entries_around[OF less.prems(1), of key, folded before_def rest_def]
    have run: "ms = run @ later" "sorted (map pm_key later)"
      using run_of_key[OF less.prems(2)[unfolded ms]] unfolding run_def later_def key_def ms by blast+
    note step = mutated_step[OF less.prems(1) less.prems(2)[unfolded ms], folded key_def,
        folded before_def rest_def run_def later_def, folded ms]
    have "length later < length ms" by (simp add: ms later_def length_dropWhile_le le_imp_less_Suc)
    moreover have "\<forall>x \<in> set later. marks ! pm_index x \<longleftrightarrow> pm_key x \<in> en_key ` set ?rest"
      using less.prems(3) step(2) run(1) by simp
    ultimately have IH: "int (length (mutated later ?rest)) = int (length ?rest) + batch_delta later marks"
      using sorted_entries_filter[OF es(4)] run(2) by (intro less.hyps)
    have "length ?rest = length rest - (if ?present then 1 else 0)" "?present \<Longrightarrow> rest \<noteq> []"
      using es(5) by (auto simp: es(6)[symmetric])
    then have "int (length es) = int (length before) + int (length ?rest) + (if ?present then 1 else 0)"
      using arg_cong[OF es(1), of length] by (cases rest) auto
    moreover have "marks ! pm_index m \<longleftrightarrow> ?present" using less.prems(3) ms by (simp add: key_def)
    ultimately show ?thesis
      using IH step(1) unfolding ms
      by (auto simp: put_entry_def key_def[symmetric] run_def[symmetric] later_def[symmetric] Let_def
          split: option.splits)
  qed simp
qed

end
