(* ===== verification/TreeMerge.thy ===== *)
theory TreeMerge
  imports TreeMutations
begin

text \<open>
  The merge of underfull siblings after a rewrite
  (\<open>crates/vyrn-core/src/page_tree.rs\<close>): \<open>merge_underfull_children\<close> with
  \<open>pair_fits\<close> and \<open>rewrite_siblings\<close>.  Whatever runs it picks, the children it
  returns hold the entries of the children it was given, and it appends pages for
  each entry at most twice.
\<close>

section \<open>Definitions\<close>

fun gather :: "(u64 \<Rightarrow> vyrn_error + 'a list) \<Rightarrow> node_ref list \<Rightarrow> vyrn_error + 'a list" where
  "gather f [] = Inr []"
| "gather f (c # cs) =
     ebind (f (nr_page_id c)) (\<lambda>xs. ebind (gather f cs) (\<lambda>ys. Inr (xs @ ys)))"

definition rewrite_siblings ::
  "(bytes \<Rightarrow> u32) \<Rightarrow> page_store \<Rightarrow> node_ref list \<Rightarrow> vyrn_error + (page_store \<times> node_ref list)" where
  "rewrite_siblings crc ps run =
     (case run of
        [] \<Rightarrow> Inl (CorruptPage 0 ''cannot merge an empty run'')
      | first # _ \<Rightarrow>
          on_page crc ps (nr_page_id first)
            (\<lambda>_. ebind (gather (read_leaf crc ps) run) (write_leaf_level crc ps))
            (\<lambda>_. ebind (gather (read_internal_children crc ps) run) (write_internal_level crc ps)))"

definition pair_fits ::
  "(bytes \<Rightarrow> u32) \<Rightarrow> page_store \<Rightarrow> nat \<Rightarrow> node_ref \<Rightarrow> node_ref \<Rightarrow> vyrn_error + bool" where
  "pair_fits crc ps own neighbor right =
     ebind (page_used_bytes crc ps (nr_page_id neighbor)) (\<lambda>u.
     case u of
       None \<Rightarrow> Inr False
     | Some n \<Rightarrow>
         let promoted = internal_cell_size (nr_min_key right) + SLOT_SIZE
         in Inr (own + n + promoted \<le> PAGE_SIZE + HEADER_SIZE))"

definition underfull :: "nat option \<Rightarrow> bool" where
  "underfull u = (case u of None \<Rightarrow> False | Some n \<Rightarrow> n < UNDERFULL_BYTES)"

datatype absorption = AbsorbRight | AbsorbLeft | StayAlone

definition lone_child ::
  "(bytes \<Rightarrow> u32) \<Rightarrow> page_store \<Rightarrow> nat \<Rightarrow> node_ref list \<Rightarrow> node_ref \<Rightarrow> (node_ref \<times> nat option) list
     \<Rightarrow> vyrn_error + absorption" where
  "lone_child crc ps own merged child after =
     ebind (case after of (right, _) # _ \<Rightarrow> pair_fits crc ps own right right | [] \<Rightarrow> Inr False) (\<lambda>absorbs_right.
     if absorbs_right then Inr AbsorbRight
     else ebind (if merged = [] then Inr False else pair_fits crc ps own (last merged) child) (\<lambda>absorbs_left.
          Inr (if absorbs_left then AbsorbLeft else StayAlone)))"

function merge_runs ::
  "(bytes \<Rightarrow> u32) \<Rightarrow> page_store \<Rightarrow> node_ref list \<Rightarrow> (node_ref \<times> nat option) list
     \<Rightarrow> vyrn_error + (page_store \<times> node_ref list)" where
  "merge_runs crc ps merged [] = Inr (ps, merged)"
| "merge_runs crc ps merged ((child, used) # rest) =
     (if \<not> underfull used then merge_runs crc ps (merged @ [child]) rest
      else
        let run = takeWhile (\<lambda>x. underfull (snd x)) rest; after = dropWhile (\<lambda>x. underfull (snd x)) rest
        in if run \<noteq> []
           then ebind (rewrite_siblings crc ps (child # map fst run)) (\<lambda>(ps, nodes).
                merge_runs crc ps (merged @ nodes) after)
           else ebind (lone_child crc ps (the used) merged child after) (\<lambda>a.
                case a of
                  AbsorbRight \<Rightarrow>
                    ebind (rewrite_siblings crc ps [child, fst (hd after)]) (\<lambda>(ps, nodes).
                    merge_runs crc ps (merged @ nodes) (tl after))
                | AbsorbLeft \<Rightarrow>
                    ebind (rewrite_siblings crc ps [last merged, child]) (\<lambda>(ps, nodes).
                    merge_runs crc ps (butlast merged @ nodes) after)
                | StayAlone \<Rightarrow> merge_runs crc ps (merged @ [child]) after))"
  by pat_completeness auto
termination
  by (relation "measure (\<lambda>(crc, ps, merged, rest). length rest)")
    (auto simp: less_Suc_eq_le length_dropWhile_le intro: le_trans[OF diff_le_self] length_dropWhile_le)

fun measure_children ::
  "(bytes \<Rightarrow> u32) \<Rightarrow> page_store \<Rightarrow> (node_ref \<times> bool) list \<Rightarrow> vyrn_error + (node_ref \<times> nat option) list" where
  "measure_children crc ps [] = Inr []"
| "measure_children crc ps ((child, flag) # cs) =
     ebind (if flag then page_used_bytes crc ps (nr_page_id child) else Inr None) (\<lambda>used.
     ebind (measure_children crc ps cs) (\<lambda>rest. Inr ((child, used) # rest)))"

definition merge_underfull_children ::
  "(bytes \<Rightarrow> u32) \<Rightarrow> page_store \<Rightarrow> (node_ref \<times> bool) list \<Rightarrow> vyrn_error + (page_store \<times> node_ref list)" where
  "merge_underfull_children crc ps children =
     (if length children < 2 \<or> \<not> list_ex snd children then Inr (ps, map fst children)
      else ebind (measure_children crc ps children) (merge_runs crc ps []))"

declare wf_node.simps [simp del]

section \<open>Measuring never fails on well-formed pages\<close>

lemma page_used_bytes_read:
  assumes "wf_node crc ps h i es"
  shows "\<exists>u. page_used_bytes crc ps i = Inr u"
proof (cases h)
  case 0
  then obtain p where p: "read_page crc ps i = Inr p" "leaf_layout crc ps p es"
    using assms wf_node_leaf by metis
  show ?thesis
  proof (cases "p ! 4 = PAGE_VERSION \<and> es \<noteq> []")
    case True
    then obtain until where "slot_cell \<lparr> sl_page = p, sl_count = length es, sl_dir_start = PAGE_SIZE - length es * SLOT_SIZE \<rparr>
        (length es - 1) LEAF_CELL_HEADER i = Inr (leaf_off es (length es - 1), until)"
      using leaf_slot[OF p(2), of "length es - 1"] by auto
    with True p show ?thesis
      by (simp add: page_used_bytes_def leaf_layout_def page_slots_def Let_def)
  qed (use p in \<open>auto simp: page_used_bytes_def leaf_layout_def page_slots_def Let_def\<close>)
next
  case (Suc h')
  then obtain first cs p where p: "read_page crc ps i = Inr p" "internal_layout crc ps p first cs"
    using assms by (metis wf_node_SucE)
  show ?thesis
  proof (cases "p ! 4 = PAGE_VERSION \<and> cs \<noteq> []")
    case True
    then obtain until where "slot_cell \<lparr> sl_page = p, sl_count = length cs, sl_dir_start = PAGE_SIZE - length cs * SLOT_SIZE \<rparr>
        (length cs - 1) INTERNAL_CELL_HEADER i = Inr (node_off cs (length cs - 1), until)"
      using internal_slot[OF p(2), of "length cs - 1"] by auto
    with True p show ?thesis
      by (simp add: page_used_bytes_def internal_layout_def page_slots_def Let_def tag_consts)
  qed (use p in \<open>auto simp: page_used_bytes_def internal_layout_def page_slots_def Let_def tag_consts\<close>)
qed

lemma pair_fits_read: "wf_node crc ps h (nr_page_id n) es \<Longrightarrow> \<exists>x. pair_fits crc ps own n right = Inr x"
  using page_used_bytes_read[of crc ps h "nr_page_id n" es]
  by (auto simp: pair_fits_def Let_def split: option.split)

section \<open>Rewriting a run of siblings\<close>

lemma level_of_mono: "level_of crc ps h lo es n qs nodes \<Longrightarrow> n \<le> m \<Longrightarrow> level_of crc ps h lo es m qs nodes"
  by (auto simp: level_of_def)

lemma below_eq_Nil:
  "branches_ok sub as \<Longrightarrow> branches_ok sub' bs \<Longrightarrow> below as = below bs \<Longrightarrow> as = [] \<longleftrightarrow> bs = []"
  by (metis below_Nil)

lemma branches_ok_Cons:
  "branches_ok sub (b # bs) \<longleftrightarrow> branches_ok sub [b] \<and> branches_ok sub bs \<and>
     (\<forall>e \<in> set (snd b). \<forall>d \<in> set bs. en_key e < nr_min_key (fst d))"
  using branches_ok_append[of sub "[b]" bs] by simp

lemma branches_ok_hd:
  "branches_ok sub (b # bs) \<Longrightarrow> d \<in> set (b # bs) \<Longrightarrow> nr_min_key (fst b) \<le> nr_min_key (fst d)"
  using fenced_nodes[of sub "b # bs"] by (auto simp: sorted_nodes_def intro: less_imp_le)

lemma gather_leaves:
  "branches_ok (wf_node crc ps 0) run \<Longrightarrow> gather (read_leaf crc ps) (map fst run) = Inr (below run)"
proof (induction run)
  case (Cons b run)
  then have "read_leaf crc ps (nr_page_id (fst b)) = Inr (snd b)" "branches_ok (wf_node crc ps 0) run"
    using branches_ok_Cons[of "wf_node crc ps 0" b run] branches_ok_single[of "wf_node crc ps 0" "fst b" "snd b"]
    by (simp_all add: read_leaf_read)
  with Cons.IH show ?case by simp
qed simp

lemma gather_children:
  "branches_ok (wf_node crc ps (Suc h)) run \<Longrightarrow> h < MAX_TREE_DEPTH \<Longrightarrow>
     \<exists>bs. gather (read_internal_children crc ps) (map fst run) = Inr (map fst bs) \<and>
       branches_ok (wf_node crc ps h) bs \<and> below bs = below run \<and>
       (run \<noteq> [] \<longrightarrow> (\<forall>b \<in> set bs. nr_min_key (fst (hd run)) \<le> nr_min_key (fst b)))"
proof (induction run)
  case (Cons b run)
  have ok: "branches_ok (wf_node crc ps (Suc h)) run" "wf_node crc ps (Suc h) (nr_page_id (fst b)) (snd b)"
    "\<forall>e \<in> set (snd b). nr_min_key (fst b) \<le> en_key e" "\<forall>e \<in> set (snd b). \<forall>d \<in> set run. en_key e < nr_min_key (fst d)"
    using Cons.prems(1) branches_ok_Cons[of "wf_node crc ps (Suc h)" b run]
      branches_ok_single[of "wf_node crc ps (Suc h)" "fst b" "snd b"] by simp_all
  obtain p as where p: "read_page crc ps (nr_page_id (fst b)) = Inr p" "p ! 5 = INTERNAL"
    "decode_internal crc ps p (nr_page_id (fst b)) = Inr (map fst as)"
    and as: "branches_ok (wf_node crc ps h) as" "snd b = below as" "as \<noteq> []"
    "nr_min_key (fst (hd as)) = en_key (hd (snd b))"
    using wf_node_children[OF ok(2) Cons.prems(2)] by metis
  obtain ds where ds: "gather (read_internal_children crc ps) (map fst run) = Inr (map fst ds)"
    "branches_ok (wf_node crc ps h) ds" "below ds = below run"
    "run \<noteq> [] \<longrightarrow> (\<forall>d \<in> set ds. nr_min_key (fst (hd run)) \<le> nr_min_key (fst d))"
    using Cons.IH[OF ok(1) Cons.prems(2)] by blast
  have "read_internal_children crc ps (nr_page_id (fst b)) = Inr (map fst as)"
    using p by (simp add: read_internal_children_def require_type_def)
  moreover have apart: "\<forall>e \<in> set (below as). \<forall>d \<in> set ds. en_key e < nr_min_key (fst d)"
  proof (cases run)
    case Nil
    then show ?thesis using ds(1) by simp
  next
    case (Cons r rs)
    then have "\<forall>e \<in> set (below as). en_key e < nr_min_key (fst r)" using ok(4) as(2) by simp
    then show ?thesis using ds(4) Cons by (auto intro: less_le_trans)
  qed
  moreover have "nr_min_key (fst b) \<le> nr_min_key (fst d)" if "d \<in> set (as @ ds)" for d
  proof -
    have hd: "hd (snd b) \<in> set (snd b)" using wf_node_entries[OF ok(2)] by simp
    have first: "nr_min_key (fst b) \<le> nr_min_key (fst (hd as))" using ok(3) hd as(4) by simp
    show ?thesis
    proof (cases "d \<in> set as")
      case True
      then show ?thesis using branches_ok_hd[of "wf_node crc ps h" "hd as" "tl as" d] as(1,3) first by simp
    next
      case False
      then have "en_key (hd (snd b)) < nr_min_key (fst d)" using that apart hd as(2) by auto
      then show ?thesis using first as(4) by simp
    qed
  qed
  ultimately show ?case
    using as ds by (auto intro!: exI[of _ "as @ ds"] simp: branches_ok_append)
qed simp

lemma rewrite_siblings_ok:
  assumes "branches_ok (wf_node crc ps h) run" "run \<noteq> []" "h \<le> MAX_TREE_DEPTH" "ps \<noteq> []"
    "length ps + ITEM_PAGES * length (below run) < 2 ^ 64"
  obtains qs nodes where "rewrite_siblings crc ps (map fst run) = Inr (qs, nodes)"
    "level_of crc ps h (nr_min_key (fst (hd run))) (below run) (ITEM_PAGES * length (below run)) qs nodes"
proof -
  obtain b run' where run: "run = b # run'" using assms(2) by (cases run) auto
  have b: "wf_node crc ps h (nr_page_id (fst b)) (snd b)"
    using assms(1) run by (auto simp: branches_ok_def)
  show ?thesis
  proof (cases h)
    case 0
    have each: "\<forall>d \<in> set run. sorted_entries (snd d) \<and> (\<forall>e \<in> set (snd d). entry_ok e)"
      using assms(1) wf_node_entries by (auto simp: branches_ok_def)
    have es: "below run \<noteq> []" "\<forall>e \<in> set (below run). entry_ok e" "sorted_entries (below run)"
      using below_Nil[OF assms(1)] assms(2) each fenced_sorted[of run] assms(1) by (auto simp: branches_ok_def)
    have "\<forall>e \<in> set (below run). nr_min_key (fst b) \<le> en_key e"
      using first_fence[of "wf_node crc ps h" "fst b" "snd b" run'] assms(1) run by simp
    then obtain qs nodes where w: "write_leaf_level crc ps (below run) = Inr (qs, nodes)"
      "level_of crc ps 0 (nr_min_key (fst b)) (below run) (ITEM_PAGES * length (below run)) qs nodes"
      using write_leaf_level_ok[OF es assms(4,5)] by blast
    obtain p where p: "read_page crc ps (nr_page_id (fst b)) = Inr p" "p ! 5 = LEAF"
      using wf_node_leaf b 0 by metis
    then have "rewrite_siblings crc ps (map fst run) = Inr (qs, nodes)"
      using gather_leaves[of crc ps run] assms(1) w(1) run 0 by (simp add: rewrite_siblings_def on_page_def)
    then show ?thesis using that w(2) run 0 by simp
  next
    case (Suc h')
    obtain bs where bs: "gather (read_internal_children crc ps) (map fst run) = Inr (map fst bs)"
      "branches_ok (wf_node crc ps h') bs" "below bs = below run"
      "\<forall>d \<in> set bs. nr_min_key (fst b) \<le> nr_min_key (fst d)"
      using gather_children[of crc ps h' run] assms(1,3) run Suc by auto
    have count: "length bs \<le> length (below run)" using below_count[OF bs(2)] bs(3) by simp
    have "bs \<noteq> []" using below_eq_Nil[OF bs(2) assms(1) bs(3)] assms(2) by blast
    moreover have "length ps + ITEM_PAGES * length bs < 2 ^ 64"
      using count assms(5) by (simp add: ITEM_PAGES_def)
    ultimately obtain qs nodes where w: "write_internal_level crc ps (map fst bs) = Inr (qs, nodes)"
      "level_of crc ps (Suc h') (nr_min_key (fst b)) (below bs) (ITEM_PAGES * length bs) qs nodes"
      using write_internal_level_ok[OF bs(2)] bs(4) by metis
    obtain p where p: "read_page crc ps (nr_page_id (fst b)) = Inr p" "p ! 5 = INTERNAL"
      using wf_node_children[of crc ps h'] b Suc assms(3) by (metis Suc_le_lessD)
    then have "rewrite_siblings crc ps (map fst run) = Inr (qs, nodes)"
      using bs(1) w(1) run by (simp add: rewrite_siblings_def on_page_def tag_consts)
    moreover have "ITEM_PAGES * length bs \<le> ITEM_PAGES * length (below run)" using count by simp
    ultimately show ?thesis using that level_of_mono[OF w(2)] run Suc bs(3) by simp
  qed
qed

lemma replace_run:
  assumes "branches_ok (wf_node crc ps h) (as @ run @ ds)" "run \<noteq> []"
    "level_of crc ps h (nr_min_key (fst (hd run))) (below run) n qs nodes"
  obtains bs where "map fst bs = nodes" "branches_ok (wf_node crc qs h) (as @ bs @ ds)" "below bs = below run"
    "\<forall>b \<in> set bs. nr_min_key (fst (hd run)) \<le> nr_min_key (fst b)"
proof -
  obtain bs where bs: "map fst bs = nodes" "branches_ok (wf_node crc qs h) bs" "below bs = below run"
    "\<forall>b \<in> set bs. nr_min_key (fst (hd run)) \<le> nr_min_key (fst b)" and qs: "prefix ps qs"
    using assms(3) by (auto simp: level_of_def)
  have old: "branches_ok (wf_node crc qs h) (as @ run @ ds)"
    using branches_ok_mono[OF assms(1)] wf_node_mono qs by blast
  have parts: "branches_ok (wf_node crc qs h) as" "branches_ok (wf_node crc qs h) ds"
    "\<forall>e \<in> set (below as). \<forall>b \<in> set (run @ ds). en_key e < nr_min_key (fst b)"
    "\<forall>e \<in> set (below run). \<forall>b \<in> set ds. en_key e < nr_min_key (fst b)"
    using old branches_ok_append[of "wf_node crc qs h" as "run @ ds"] branches_ok_append[of "wf_node crc qs h" run ds]
    by blast+
  have "\<forall>e \<in> set (below as). \<forall>b \<in> set (bs @ ds). en_key e < nr_min_key (fst b)"
  proof (intro ballI)
    fix e b assume e: "e \<in> set (below as)" and b: "b \<in> set (bs @ ds)"
    show "en_key e < nr_min_key (fst b)"
    proof (cases "b \<in> set bs")
      case True
      have "hd run \<in> set (run @ ds)" using assms(2) by simp
      then have "en_key e < nr_min_key (fst (hd run))" using parts(3) e by blast
      also have "\<dots> \<le> nr_min_key (fst b)" using bs(4) True by blast
      finally show ?thesis .
    qed (use parts(3) e b in auto)
  qed
  then have "branches_ok (wf_node crc qs h) (as @ bs @ ds)"
    unfolding branches_ok_append using parts bs(2,3) by simp
  then show ?thesis using that bs by blast
qed

section \<open>Merging keeps the entries\<close>

text \<open>
  What a pass over the remaining children can still append: each of their entries
  twice, and those of the last merged child once when the next child may absorb it.
\<close>

definition pend :: "nat \<Rightarrow> (node_ref \<times> nat option) list \<Rightarrow> nat" where
  "pend n rest = (if rest \<noteq> [] \<and> underfull (snd (hd rest)) then n else 0)"

definition last_size :: "branch list \<Rightarrow> nat" where
  "last_size ms = (if ms = [] then 0 else length (snd (last ms)))"

definition merge_pages :: "branch list \<Rightarrow> branch list \<Rightarrow> (node_ref \<times> nat option) list \<Rightarrow> nat" where
  "merge_pages ms rs rest = ITEM_PAGES * (2 * length (below rs) + pend (last_size ms) rest)"

lemma pend_simps [simp]: "pend n [] = 0" "pend n ((c, u) # rest) = (if underfull u then n else 0)"
  by (simp_all add: pend_def)

lemma pend_le: "pend n rest \<le> n"
  by (simp add: pend_def)

lemma last_size_append: "bs \<noteq> [] \<Longrightarrow> last_size (ms @ bs) \<le> length (below bs)"
  by (cases bs rule: rev_cases) (simp_all add: last_size_def)

definition merges ::
  "(bytes \<Rightarrow> u32) \<Rightarrow> nat \<Rightarrow> bytes \<Rightarrow> (node_ref \<times> nat option) list \<Rightarrow> bool" where
  "merges crc h lo rest \<longleftrightarrow> (\<forall>ps ms rs.
     branches_ok (wf_node crc ps h) (ms @ rs) \<longrightarrow> map fst rs = map fst rest \<longrightarrow> ps \<noteq> [] \<longrightarrow>
     (\<forall>b \<in> set (ms @ rs). lo \<le> nr_min_key (fst b)) \<longrightarrow> length ps + merge_pages ms rs rest < 2 ^ 64 \<longrightarrow>
     (\<exists>qs nodes. merge_runs crc ps (map fst ms) rest = Inr (qs, nodes) \<and>
        level_of crc ps h lo (below (ms @ rs)) (merge_pages ms rs rest) qs nodes))"

text \<open>One rewrite, and the rest of the pass.\<close>

lemma merges_rewrite:
  assumes "merges crc h lo rest" "branches_ok (wf_node crc ps h) (ms @ run @ ds)" "run \<noteq> []"
    "map fst ds = map fst rest" "h \<le> MAX_TREE_DEPTH" "ps \<noteq> []"
    "\<forall>b \<in> set (ms @ run @ ds). lo \<le> nr_min_key (fst b)" "length ps + n < 2 ^ 64"
    "ITEM_PAGES * (length (below run) + 2 * length (below ds) + pend (length (below run)) rest) \<le> n"
  shows "\<exists>qs nodes. ebind (rewrite_siblings crc ps (map fst run))
      (\<lambda>(ps, nodes). merge_runs crc ps (map fst ms @ nodes) rest) = Inr (qs, nodes) \<and>
    level_of crc ps h lo (below (ms @ run @ ds)) n qs nodes"
proof -
  have run: "branches_ok (wf_node crc ps h) run"
    using assms(2) branches_ok_append[of "wf_node crc ps h" ms "run @ ds"] branches_ok_append[of "wf_node crc ps h" run ds]
    by blast
  have "ITEM_PAGES * length (below run) \<le> n"
    using assms(9) by (rule order_trans[rotated]) simp
  then have room: "length ps + ITEM_PAGES * length (below run) < 2 ^ 64" using assms(8) by linarith
  obtain ps1 nodes1 where w: "rewrite_siblings crc ps (map fst run) = Inr (ps1, nodes1)"
    "level_of crc ps h (nr_min_key (fst (hd run))) (below run) (ITEM_PAGES * length (below run)) ps1 nodes1"
    by (rule rewrite_siblings_ok[OF run assms(3,5,6) room])
  obtain bs where bs: "map fst bs = nodes1" "branches_ok (wf_node crc ps1 h) (ms @ bs @ ds)" "below bs = below run"
    "\<forall>b \<in> set bs. nr_min_key (fst (hd run)) \<le> nr_min_key (fst b)"
    using replace_run[OF assms(2,3) w(2)] by blast
  have ps1: "prefix ps ps1" "length ps1 \<le> length ps + ITEM_PAGES * length (below run)" "ps1 \<noteq> []"
    using w(2) assms(6) by (auto simp: level_of_def)
  have "bs \<noteq> []"
    using below_eq_Nil[OF _ run bs(3)] bs(2) assms(3) branches_ok_append[of "wf_node crc ps1 h" ms "bs @ ds"]
      branches_ok_append[of "wf_node crc ps1 h" bs ds] by blast
  then have "pend (last_size (ms @ bs)) rest \<le> pend (length (below run)) rest"
    using last_size_append[of bs ms] bs(3) by (simp add: pend_def)
  then have pages: "ITEM_PAGES * length (below run) + merge_pages (ms @ bs) ds rest \<le> n"
    unfolding merge_pages_def using assms(9) by (simp add: algebra_simps ITEM_PAGES_def)
  have "lo \<le> nr_min_key (fst (hd run))" using assms(3,7) by simp
  then have "\<forall>b \<in> set ((ms @ bs) @ ds). lo \<le> nr_min_key (fst b)"
    using bs(4) assms(7) by (auto intro: order_trans)
  moreover have "length ps1 + merge_pages (ms @ bs) ds rest < 2 ^ 64"
    using assms(8) ps1(2) pages by linarith
  moreover have "branches_ok (wf_node crc ps1 h) ((ms @ bs) @ ds)" using bs(2) by simp
  ultimately obtain qs nodes where "merge_runs crc ps1 (map fst (ms @ bs)) rest = Inr (qs, nodes)"
    "level_of crc ps1 h lo (below ((ms @ bs) @ ds)) (merge_pages (ms @ bs) ds rest) qs nodes"
    using assms(1)[unfolded merges_def] assms(4) ps1(3) by blast
  then show ?thesis
    using w(1) bs(1,3) ps1 pages by (auto simp: level_of_def intro: prefix_order.trans)
qed

lemma merges_push:
  assumes "merges crc h lo rest" "branches_ok (wf_node crc ps h) (ms @ b # ds)" "map fst ds = map fst rest" "ps \<noteq> []"
    "\<forall>d \<in> set (ms @ b # ds). lo \<le> nr_min_key (fst d)" "length ps + n < 2 ^ 64"
    "ITEM_PAGES * (length (snd b) + 2 * length (below ds)) \<le> n"
  shows "\<exists>qs nodes. merge_runs crc ps (map fst ms @ [fst b]) rest = Inr (qs, nodes) \<and>
    level_of crc ps h lo (below (ms @ b # ds)) n qs nodes"
proof -
  have "merge_pages (ms @ [b]) ds rest \<le> ITEM_PAGES * (length (snd b) + 2 * length (below ds))"
    by (simp add: merge_pages_def last_size_def ITEM_PAGES_def pend_le)
  then have pages: "merge_pages (ms @ [b]) ds rest \<le> n" using assms(7) by linarith
  then have "length ps + merge_pages (ms @ [b]) ds rest < 2 ^ 64" using assms(6) by linarith
  moreover have "branches_ok (wf_node crc ps h) ((ms @ [b]) @ ds)" "\<forall>d \<in> set ((ms @ [b]) @ ds). lo \<le> nr_min_key (fst d)"
    using assms(2,5) by simp_all
  ultimately obtain qs nodes where "merge_runs crc ps (map fst (ms @ [b])) rest = Inr (qs, nodes)"
    "level_of crc ps h lo (below ((ms @ [b]) @ ds)) (merge_pages (ms @ [b]) ds rest) qs nodes"
    using assms(1)[unfolded merges_def] assms(3,4) by blast
  then show ?thesis using level_of_mono[OF _ pages] by auto
qed

lemma lone_child_read:
  assumes "branches_ok (wf_node crc ps h) (ms @ b # ds)" "map fst ds = map fst after"
  obtains a where "lone_child crc ps own (map fst ms) child after = Inr a"
    "a = AbsorbRight \<Longrightarrow> after \<noteq> []" "a = AbsorbLeft \<Longrightarrow> ms \<noteq> []"
proof -
  have each: "wf_node crc ps h (nr_page_id (fst d)) (snd d)" if "d \<in> set (ms @ ds)" for d
    using assms(1) that by (auto simp: branches_ok_def)
  obtain r where r: "(case after of (right, _) # _ \<Rightarrow> pair_fits crc ps own right right | [] \<Rightarrow> Inr False) = Inr r"
    "r \<Longrightarrow> after \<noteq> []"
  proof (cases after)
    case (Cons x xs)
    then obtain d ds' where "ds = d # ds'" "fst d = fst x" using assms(2) by (cases ds) auto
    then show ?thesis using that Cons each[of d] pair_fits_read[of crc ps h "fst x" "snd d" own "fst x"]
      by (cases x) auto
  qed (use that in auto)
  obtain l where l: "(if map fst ms = [] then Inr False else pair_fits crc ps own (last (map fst ms)) child) = Inr l"
    "l \<Longrightarrow> ms \<noteq> []"
  proof (cases "ms = []")
    case False
    then show ?thesis
      using that each[of "last ms"] pair_fits_read[of crc ps h "fst (last ms)" "snd (last ms)" own child]
      by (auto simp: last_map)
  qed (use that in auto)
  have "lone_child crc ps own (map fst ms) child after =
      Inr (if r then AbsorbRight else if l then AbsorbLeft else StayAlone)"
    unfolding lone_child_def r(1) l(1) by simp
  then show ?thesis by (rule that) (use r(2) l(2) in \<open>auto split: if_splits\<close>)
qed

lemma merges_underfull:
  assumes IH: "\<And>r. length r \<le> length rest \<Longrightarrow> merges crc h lo r" and u: "underfull u" and h: "h \<le> MAX_TREE_DEPTH"
  shows "merges crc h lo ((c, u) # rest)"
  unfolding merges_def
proof (intro allI impI)
  fix ps ms rs
  let ?n = "merge_pages ms rs ((c, u) # rest)"
  assume ok: "branches_ok (wf_node crc ps h) (ms @ rs)" and rs: "map fst rs = map fst ((c, u) # rest)" and ps: "ps \<noteq> []"
    and lo: "\<forall>b \<in> set (ms @ rs). lo \<le> nr_min_key (fst b)" and room: "length ps + ?n < 2 ^ 64"
  define run where "run = takeWhile (\<lambda>x. underfull (snd x)) rest"
  define after where "after = dropWhile (\<lambda>x. underfull (snd x)) rest"
  obtain b rs' where b: "rs = b # rs'" "fst b = c" "map fst rs' = map fst run @ map fst after"
    using rs by (cases rs) (auto simp: run_def after_def simp flip: map_append)
  then obtain rr ds where rr: "rs' = rr @ ds" "map fst rr = map fst run" "map fst ds = map fst after"
    by (auto simp: map_eq_append_conv)
  have none: "pend k after = 0" for k
    using hd_dropWhile[of "\<lambda>x. underfull (snd x)" rest] by (auto simp: pend_def after_def)
  have pages: "?n = ITEM_PAGES * (2 * (length (snd b) + length (below rr) + length (below ds)) + last_size ms)"
    using u by (simp add: merge_pages_def b(1) rr(1))
  have after: "merges crc h lo after" "merges crc h lo (tl after)"
    using IH[of after] IH[of "tl after"] length_dropWhile_le[of "\<lambda>x. underfull (snd x)" rest]
    by (simp_all add: after_def)
  have step: "merge_runs crc ps (map fst ms) ((c, u) # rest) =
    (if run \<noteq> []
     then ebind (rewrite_siblings crc ps (c # map fst run)) (\<lambda>(ps, nodes). merge_runs crc ps (map fst ms @ nodes) after)
     else ebind (lone_child crc ps (the u) (map fst ms) c after) (\<lambda>a.
          case a of
            AbsorbRight \<Rightarrow>
              ebind (rewrite_siblings crc ps [c, fst (hd after)]) (\<lambda>(ps, nodes).
              merge_runs crc ps (map fst ms @ nodes) (tl after))
          | AbsorbLeft \<Rightarrow>
              ebind (rewrite_siblings crc ps [last (map fst ms), c]) (\<lambda>(ps, nodes).
              merge_runs crc ps (butlast (map fst ms) @ nodes) after)
          | StayAlone \<Rightarrow> merge_runs crc ps (map fst ms @ [c]) after))"
    unfolding merge_runs.simps Let_def run_def after_def using u by simp
  let ?goal = "\<lambda>r. \<exists>qs nodes. r = Inr (qs, nodes) \<and> level_of crc ps h lo (below (ms @ rs)) ?n qs nodes"
  show "?goal (merge_runs crc ps (map fst ms) ((c, u) # rest))"
  proof (cases "run = []")
    case False
    have "ITEM_PAGES * (length (below (b # rr)) + 2 * length (below ds) + pend (length (below (b # rr))) after) \<le> ?n"
      unfolding pages none by (simp add: ITEM_PAGES_def)
    from merges_rewrite[OF after(1) _ _ rr(3) h ps _ room this, of ms] show ?thesis
      using False ok lo b rr unfolding step by simp
  next
    case True
    then have rr0: "rr = []" using rr(2) by simp
    have split: "ms @ rs = ms @ b # ds" using b rr rr0 by simp
    obtain a where a: "lone_child crc ps (the u) (map fst ms) c after = Inr a"
      "a = AbsorbRight \<Longrightarrow> after \<noteq> []" "a = AbsorbLeft \<Longrightarrow> ms \<noteq> []"
      using lone_child_read[OF _ rr(3)] ok split by metis
    show ?thesis
    proof (cases a)
      case AbsorbRight
      then obtain d ds' where d: "ds = d # ds'" "fst d = fst (hd after)" "map fst ds' = map fst (tl after)"
        using a(2) rr(3) by (cases ds; cases after) auto
      have "ITEM_PAGES * (length (below [b, d]) + 2 * length (below ds') + pend (length (below [b, d])) (tl after)) \<le> ?n"
        unfolding pages using pend_le[of "length (below [b, d])" "tl after"] by (simp add: ITEM_PAGES_def d(1))
      from merges_rewrite[OF after(2) _ _ d(3) h ps _ room this, of ms] show ?thesis
        using AbsorbRight True ok lo b(2) d split unfolding step a(1) by simp
    next
      case AbsorbLeft
      then obtain m ms' where m: "ms = ms' @ [m]" using a(3) by (cases ms rule: rev_cases) auto
      have "ITEM_PAGES * (length (below [m, b]) + 2 * length (below ds) + pend (length (below [m, b])) after) \<le> ?n"
        unfolding pages none by (simp add: ITEM_PAGES_def m last_size_def)
      from merges_rewrite[OF after(1) _ _ rr(3) h ps _ room this, of ms'] show ?thesis
        using AbsorbLeft True ok lo b(2) m split unfolding step a(1) by simp
    next
      case StayAlone
      have "ITEM_PAGES * (length (snd b) + 2 * length (below ds)) \<le> ?n"
        unfolding pages by (simp add: ITEM_PAGES_def)
      from merges_push[OF after(1) _ rr(3) ps _ room this, of ms] show ?thesis
        using StayAlone True ok lo b(2) split unfolding step a(1) by simp
    qed
  qed
qed

lemma merges_all: "h \<le> MAX_TREE_DEPTH \<Longrightarrow> merges crc h lo rest"
proof (induction "length rest" arbitrary: rest rule: less_induct)
  case less
  show ?case
  proof (cases rest)
    case Nil
    then show ?thesis by (auto simp: merges_def level_of_def)
  next
    case (Cons x rest')
    then have IH: "merges crc h lo r" if "length r \<le> length rest'" for r
      using less that by (simp add: le_imp_less_Suc)
    obtain c u where x: "x = (c, u)" by (cases x)
    show ?thesis
    proof (cases "underfull u")
      case True
      then show ?thesis using merges_underfull[OF IH True less.prems] Cons x by simp
    next
      case False
      show ?thesis unfolding merges_def Cons x
      proof (intro allI impI)
        fix ps ms rs
        let ?n = "merge_pages ms rs ((c, u) # rest')"
        assume ok: "branches_ok (wf_node crc ps h) (ms @ rs)" and rs: "map fst rs = map fst ((c, u) # rest')"
          and ps: "ps \<noteq> []" and lo: "\<forall>b \<in> set (ms @ rs). lo \<le> nr_min_key (fst b)" and room: "length ps + ?n < 2 ^ 64"
        obtain b rs' where b: "rs = b # rs'" "fst b = c" "map fst rs' = map fst rest'" using rs by (cases rs) auto
        have "ITEM_PAGES * (length (snd b) + 2 * length (below rs')) \<le> ?n"
          by (simp add: merge_pages_def b(1) ITEM_PAGES_def)
        from merges_push[OF IH[OF order_refl] _ b(3) ps _ room this, of ms] ok lo False b show
          "\<exists>qs nodes. merge_runs crc ps (map fst ms) ((c, u) # rest') = Inr (qs, nodes) \<and>
            level_of crc ps h lo (below (ms @ rs)) ?n qs nodes" by simp
      qed
    qed
  qed
qed

lemma measure_children_read:
  "\<forall>c \<in> set cs. \<exists>es. wf_node crc ps h (nr_page_id (fst c)) es \<Longrightarrow>
     \<exists>used. measure_children crc ps cs = Inr used \<and> map fst used = map fst cs"
proof (induction cs)
  case (Cons x cs)
  obtain c flag where x: "x = (c, flag)" by (cases x)
  obtain u where "page_used_bytes crc ps (nr_page_id c) = Inr u"
    using Cons.prems x page_used_bytes_read by fastforce
  with Cons x show ?case by (cases flag) auto
qed simp

lemma merge_underfull_children_ok:
  assumes "branches_ok (wf_node crc ps h) bs" "map fst children = map fst bs" "h \<le> MAX_TREE_DEPTH" "ps \<noteq> []"
    "length ps + 2 * ITEM_PAGES * length (below bs) < 2 ^ 64" "\<forall>b \<in> set bs. lo \<le> nr_min_key (fst b)"
  obtains qs nodes where "merge_underfull_children crc ps children = Inr (qs, nodes)"
    "level_of crc ps h lo (below bs) (2 * ITEM_PAGES * length (below bs)) qs nodes"
proof (cases "length children < 2 \<or> \<not> list_ex snd children")
  case True
  then show ?thesis
    using that[of ps "map fst children"] assms by (auto simp: merge_underfull_children_def level_of_def)
next
  case False
  have "\<forall>c \<in> fst ` set bs. \<exists>es. wf_node crc ps h (nr_page_id c) es"
    using assms(1) by (auto simp: branches_ok_def)
  moreover have "fst ` set bs = fst ` set children" using arg_cong[OF assms(2), of set] by simp
  ultimately have "\<forall>c \<in> set children. \<exists>es. wf_node crc ps h (nr_page_id (fst c)) es" by simp
  then obtain used where used: "measure_children crc ps children = Inr used" "map fst bs = map fst used"
    using measure_children_read[of children crc ps h] assms(2) by auto
  have pages: "merge_pages [] bs used = 2 * ITEM_PAGES * length (below bs)"
    by (simp add: merge_pages_def last_size_def pend_def)
  obtain qs nodes where "merge_runs crc ps [] used = Inr (qs, nodes)"
    "level_of crc ps h lo (below bs) (merge_pages [] bs used) qs nodes"
    using merges_all[OF assms(3), of crc lo used, unfolded merges_def, rule_format, of ps "[]" bs] used(2) assms pages
    by auto
  then show ?thesis
    using that used(1) False pages by (simp add: merge_underfull_children_def)
qed

end
