(* ===== verification/TreeBatch.thy ===== *)
theory TreeBatch
  imports TreeMerge
begin

text \<open>
  Batched mutation of the page tree (\<open>crates/vyrn-core/src/page_tree.rs\<close>): the
  copy-on-write rewrite of one subtree, the preparation of a batch and of a single
  delete, and publication.  A batch is shown to succeed, to leave the tree it was
  prepared on readable as before, and to publish the rows that applying its
  mutations one after the other gives, with the entry count that goes with them.
\<close>

section \<open>Rewriting a subtree\<close>

fun apply_children ::
  "(page_store \<Rightarrow> u64 \<Rightarrow> prepared list \<Rightarrow> bool list \<Rightarrow> vyrn_error + (page_store \<times> node_ref list \<times> bool list))
     \<Rightarrow> page_store \<Rightarrow> node_ref list \<Rightarrow> prepared list \<Rightarrow> bool list
     \<Rightarrow> vyrn_error + (page_store \<times> (node_ref \<times> bool) list \<times> bool list)" where
  "apply_children f ps [] ms marks = Inr (ps, [], marks)"
| "apply_children f ps (child # cs) ms marks =
     (let now = (case cs of [] \<Rightarrow> ms | next_child # _ \<Rightarrow> takeWhile (\<lambda>m. pm_key m < nr_min_key next_child) ms);
          later = drop (length now) ms
      in if now \<noteq> []
         then ebind (f ps (nr_page_id child) now marks) (\<lambda>(ps, replacements, marks).
              ebind (apply_children f ps cs later marks) (\<lambda>(ps, new, marks).
              Inr (ps, map (\<lambda>c. (c, True)) replacements @ new, marks)))
         else ebind (apply_children f ps cs later marks) (\<lambda>(ps, new, marks).
              Inr (ps, (child, False) # new, marks)))"

fun apply_node ::
  "(bytes \<Rightarrow> u32) \<Rightarrow> nat \<Rightarrow> page_store \<Rightarrow> u64 \<Rightarrow> prepared list \<Rightarrow> bool \<Rightarrow> bool list
     \<Rightarrow> vyrn_error + (page_store \<times> node_ref list \<times> bool list)" where
  "apply_node crc 0 ps page_id ms is_root marks = Inl (excessive_depth page_id)"
| "apply_node crc (Suc n) ps page_id ms is_root marks =
     on_page crc ps page_id
       (\<lambda>p. ebind (decode_leaf crc ps p page_id) (\<lambda>es.
            let (es, marks) = merge_entries es ms marks
            in if es = [] then Inr (ps, [], marks)
               else ebind (write_leaf_level crc ps es) (\<lambda>(ps, nodes). Inr (ps, nodes, marks))))
       (\<lambda>p. ebind (decode_internal crc ps p page_id) (\<lambda>children.
            ebind (apply_children (\<lambda>ps c ms marks. apply_node crc n ps c ms False marks) ps children ms marks)
              (\<lambda>(ps, new, marks).
            if new = [] then Inr (ps, [], marks)
            else ebind (merge_underfull_children crc ps new) (\<lambda>(ps, new).
                 if is_root \<and> length new = 1 then Inr (ps, new, marks)
                 else ebind (write_internal_level crc ps new) (\<lambda>(ps, nodes). Inr (ps, nodes, marks))))))"

section \<open>A rewritten subtree holds the mutated entries\<close>

lemma level_of_append:
  assumes "level_of crc ps h lo es n qs nodes" "level_of crc qs h k fs m rs nodes'"
    "\<forall>e \<in> set es. en_key e < k" "lo \<le> k"
  shows "level_of crc ps h lo (es @ fs) (n + m) rs (nodes @ nodes')"
proof -
  obtain as where as: "map fst as = nodes" "branches_ok (wf_node crc qs h) as" "below as = es"
    "\<forall>b \<in> set as. lo \<le> nr_min_key (fst b)" and qs: "prefix ps qs" "length qs \<le> length ps + n"
    using assms(1) by (auto simp: level_of_def)
  obtain bs where bs: "map fst bs = nodes'" "branches_ok (wf_node crc rs h) bs" "below bs = fs"
    "\<forall>b \<in> set bs. k \<le> nr_min_key (fst b)" and rs: "prefix qs rs" "length rs \<le> length qs + m"
    using assms(2) by (auto simp: level_of_def)
  have "branches_ok (wf_node crc rs h) as" using branches_ok_mono[OF as(2)] wf_node_mono rs(1) by blast
  moreover have "\<forall>e \<in> set (below as). \<forall>b \<in> set bs. en_key e < nr_min_key (fst b)"
    unfolding as(3) using assms(3) bs(4) by (auto intro: less_le_trans)
  ultimately have "branches_ok (wf_node crc rs h) (as @ bs)"
    unfolding branches_ok_append using bs(2) by blast
  moreover have "\<forall>b \<in> set (as @ bs). lo \<le> nr_min_key (fst b)" using as(4) bs(4) assms(4) by (auto intro: order_trans)
  ultimately show ?thesis
    unfolding level_of_def using as bs qs rs
    by (intro conjI exI[of _ "as @ bs"]) (auto intro: prefix_order.trans)
qed

definition applies ::
  "(bytes \<Rightarrow> u32) \<Rightarrow> nat \<Rightarrow> nat
     \<Rightarrow> (page_store \<Rightarrow> u64 \<Rightarrow> prepared list \<Rightarrow> bool list \<Rightarrow> vyrn_error + (page_store \<times> node_ref list \<times> bool list))
     \<Rightarrow> bool" where
  "applies crc h n f \<longleftrightarrow> (\<forall>ps i es ms marks lo.
     wf_node crc ps h i es \<longrightarrow> sorted (map pm_key ms) \<longrightarrow> (\<forall>m \<in> set ms. prepared_ok m \<and> lo \<le> pm_key m) \<longrightarrow>
     (\<forall>e \<in> set es. lo \<le> en_key e) \<longrightarrow> length ps + n * (length es + length ms) < 2 ^ 64 \<longrightarrow>
     (\<exists>qs nodes. f ps i ms marks = Inr (qs, nodes, mark_existing es ms marks) \<and>
        level_of crc ps h lo (mutated ms es) (n * (length es + length ms)) qs nodes))"

lemma route:
  fixes k :: bytes and ms :: "prepared list"
  assumes "sorted (map pm_key ms)"
  defines "now \<equiv> takeWhile (\<lambda>m. pm_key m < k) ms"
  defines "later \<equiv> drop (length now) ms"
  shows "ms = now @ later" "\<forall>m \<in> set now. pm_key m < k" "\<forall>m \<in> set later. k \<le> pm_key m"
    "sorted (map pm_key now)" "sorted (map pm_key later)"
proof -
  have later: "later = dropWhile (\<lambda>m. pm_key m < k) ms" by (simp add: later_def now_def dropWhile_eq_drop)
  show split: "ms = now @ later" by (simp add: later now_def)
  show "\<forall>m \<in> set now. pm_key m < k" by (auto simp: now_def dest: set_takeWhileD)
  show sorted: "sorted (map pm_key now)" "sorted (map pm_key later)"
    using assms(1) split by (metis map_append sorted_append)+
  show "\<forall>m \<in> set later. k \<le> pm_key m"
  proof (cases later)
    case (Cons x xs)
    then have "k \<le> pm_key x" using hd_dropWhile[of "\<lambda>m. pm_key m < k" ms] later by (simp add: not_less)
    then show ?thesis using sorted(2) Cons by (auto intro: order_trans)
  qed simp
qed

lemma level_of_refl: "branches_ok (wf_node crc ps h) bs \<Longrightarrow> \<forall>b \<in> set bs. lo \<le> nr_min_key (fst b) \<Longrightarrow>
    level_of crc ps h lo (below bs) n ps (map fst bs)"
  by (auto simp: level_of_def)

text \<open>One child with the mutations routed to it: rewritten, or kept when there are none.\<close>

lemma apply_child_ok:
  assumes "applies crc h n f" "branches_ok (wf_node crc ps h) [b]" "sorted (map pm_key ms)"
    "\<forall>m \<in> set ms. prepared_ok m \<and> lo \<le> pm_key m" "lo \<le> nr_min_key (fst b)"
    "length ps + n * (length (snd b) + length ms) < 2 ^ 64"
  obtains qs new where
    "(if ms \<noteq> []
      then ebind (f ps (nr_page_id (fst b)) ms marks) (\<lambda>(ps, replacements, marks).
           Inr (ps, map (\<lambda>c. (c, True)) replacements, marks))
      else Inr (ps, [(fst b, False)], marks)) = Inr (qs, new, mark_existing (snd b) ms marks)"
    "level_of crc ps h lo (mutated ms (snd b)) (n * (length (snd b) + length ms)) qs (map fst new)"
proof (cases "ms = []")
  case True
  then show ?thesis
    using that[of ps "[(fst b, False)]"] assms(2,5) level_of_refl[of crc ps h "[b]" lo]
    by (simp add: mark_existing_def)
next
  case False
  have "wf_node crc ps h (nr_page_id (fst b)) (snd b)" "\<forall>e \<in> set (snd b). lo \<le> en_key e"
    using assms(2,5) branches_ok_single[of "wf_node crc ps h" "fst b" "snd b"] by (auto intro: order_trans)
  then obtain qs nodes where "f ps (nr_page_id (fst b)) ms marks = Inr (qs, nodes, mark_existing (snd b) ms marks)"
    "level_of crc ps h lo (mutated ms (snd b)) (n * (length (snd b) + length ms)) qs nodes"
    using assms(1,3,4,6) unfolding applies_def by blast
  then show ?thesis using that[of qs "map (\<lambda>c. (c, True)) nodes"] False by (simp add: comp_def)
qed

lemma apply_children_Cons:
  "apply_children f ps (child # cs) ms marks =
     (let now = (case cs of [] \<Rightarrow> ms | next_child # _ \<Rightarrow> takeWhile (\<lambda>m. pm_key m < nr_min_key next_child) ms);
          later = drop (length now) ms
      in ebind (if now \<noteq> []
                then ebind (f ps (nr_page_id child) now marks) (\<lambda>(ps, replacements, marks).
                     Inr (ps, map (\<lambda>c. (c, True)) replacements, marks))
                else Inr (ps, [(child, False)], marks)) (\<lambda>(ps, first, marks).
         ebind (apply_children f ps cs later marks) (\<lambda>(ps, new, marks). Inr (ps, first @ new, marks))))"
  by (auto simp: Let_def ebind_def split: sum.splits)

lemma apply_children_ok:
  assumes f: "applies crc h n f"
  shows "branches_ok (wf_node crc ps h) bs \<Longrightarrow> bs \<noteq> [] \<Longrightarrow> sorted (map pm_key ms) \<Longrightarrow>
    \<forall>m \<in> set ms. prepared_ok m \<and> lo \<le> pm_key m \<Longrightarrow> \<forall>b \<in> set bs. lo \<le> nr_min_key (fst b) \<Longrightarrow>
    length ps + n * (length (below bs) + length ms) < 2 ^ 64 \<Longrightarrow>
    \<exists>qs new. apply_children f ps (map fst bs) ms marks = Inr (qs, new, mark_existing (below bs) ms marks) \<and>
      level_of crc ps h lo (mutated ms (below bs)) (n * (length (below bs) + length ms)) qs (map fst new)"
proof (induction bs arbitrary: ps ms marks lo)
  case (Cons b bs)
  have b: "branches_ok (wf_node crc ps h) [b]" "branches_ok (wf_node crc ps h) bs"
    "\<forall>e \<in> set (snd b). \<forall>d \<in> set bs. en_key e < nr_min_key (fst d)"
    using Cons.prems(1) branches_ok_Cons[of "wf_node crc ps h" b bs] by blast+
  show ?case
  proof (cases bs)
    case Nil
    obtain qs new where
      "(if ms \<noteq> [] then ebind (f ps (nr_page_id (fst b)) ms marks) (\<lambda>(ps, replacements, marks).
           Inr (ps, map (\<lambda>c. (c, True)) replacements, marks))
        else Inr (ps, [(fst b, False)], marks)) = Inr (qs, new, mark_existing (snd b) ms marks)"
      "level_of crc ps h lo (mutated ms (snd b)) (n * (length (snd b) + length ms)) qs (map fst new)"
      using apply_child_ok[OF f b(1) Cons.prems(3,4)] Cons.prems(5,6) Nil by auto
    then show ?thesis unfolding Nil list.map apply_children_Cons by (simp add: Let_def)
  next
    case bs: (Cons d ds)
    define k where "k = nr_min_key (fst d)"
    define now where "now = takeWhile (\<lambda>m. pm_key m < k) ms"
    define later where "later = drop (length now) ms"
    have r: "ms = now @ later" "\<forall>m \<in> set now. pm_key m < k" "\<forall>m \<in> set later. k \<le> pm_key m"
      "sorted (map pm_key now)" "sorted (map pm_key later)"
      using route[OF Cons.prems(3), of k] unfolding later_def now_def by blast+
    have low: "\<forall>e \<in> set (snd b). en_key e < k" using b(3) bs by (simp add: k_def)
    have high: "\<forall>e \<in> set (below bs). k \<le> en_key e"
      using first_fence[of "wf_node crc ps h" "fst d" "snd d" ds] b(2) by (simp add: bs k_def)
    have mins: "\<forall>x \<in> set bs. k \<le> nr_min_key (fst x)" "lo \<le> k"
      using branches_ok_hd[of "wf_node crc ps h" d ds] b(2) Cons.prems(5) by (auto simp: bs k_def)
    let ?n1 = "n * (length (snd b) + length now)" and ?n2 = "n * (length (below bs) + length later)"
    have sum: "n * (length (below (b # bs)) + length ms) = ?n1 + ?n2"
      using arg_cong[OF r(1), of length] by (simp add: algebra_simps)
    have "length ps + ?n1 < 2 ^ 64" using Cons.prems(6) unfolding sum by linarith
    then obtain qs1 new1 where one:
      "(if now \<noteq> [] then ebind (f ps (nr_page_id (fst b)) now marks) (\<lambda>(ps, replacements, marks).
           Inr (ps, map (\<lambda>c. (c, True)) replacements, marks))
        else Inr (ps, [(fst b, False)], marks)) = Inr (qs1, new1, mark_existing (snd b) now marks)"
      "level_of crc ps h lo (mutated now (snd b)) ?n1 qs1 (map fst new1)"
      using apply_child_ok[OF f b(1) r(4)] Cons.prems(4,5) r(1) by (metis Un_iff list.set_intros(1) set_append)
    have qs1: "prefix ps qs1" "length qs1 \<le> length ps + ?n1" using one(2) by (auto simp: level_of_def)
    let ?marks = "mark_existing (snd b) now marks"
    have "branches_ok (wf_node crc qs1 h) bs" using branches_ok_mono[OF b(2)] wf_node_mono qs1(1) by blast
    moreover have "length qs1 + ?n2 < 2 ^ 64" using Cons.prems(6) qs1(2) unfolding sum by linarith
    moreover have "\<forall>m \<in> set later. prepared_ok m \<and> k \<le> pm_key m" using Cons.prems(4) r(1,3) by simp
    ultimately obtain qs new where two:
      "apply_children f qs1 (map fst bs) later ?marks = Inr (qs, new, mark_existing (below bs) later ?marks)"
      "level_of crc qs1 h k (mutated later (below bs)) ?n2 qs (map fst new)"
      using Cons.IH[OF _ _ r(5) _ mins(1)] bs by blast
    have "mutated ms (below (b # bs)) = mutated now (snd b) @ mutated later (below bs)"
      using mutated_split[OF low r(2) high r(3)] r(1) by simp
    moreover have "\<forall>e \<in> set (mutated now (snd b)). en_key e < k"
      using mutated_keys[of _ now "snd b"] low r(2) by fastforce
    moreover have "mark_existing (below bs) later ?marks = mark_existing (below (b # bs)) ms marks"
    proof -
      have "mark_existing (below (b # bs)) now marks = ?marks"
        using high r(2) by (intro mark_existing_cong) (fastforce simp: image_iff)
      moreover have "mark_existing (below (b # bs)) later ?marks = mark_existing (below bs) later ?marks"
        using low r(3) by (intro mark_existing_cong) (fastforce simp: image_iff)
      ultimately show ?thesis unfolding r(1) mark_existing_append by simp
    qed
    moreover have "apply_children f ps (map fst (b # bs)) ms marks =
        Inr (qs, new1 @ new, mark_existing (below bs) later ?marks)"
    proof -
      have "(case map fst bs of [] \<Rightarrow> ms | c # _ \<Rightarrow> takeWhile (\<lambda>m. pm_key m < nr_min_key c) ms) = now"
        by (simp add: bs now_def k_def)
      then show ?thesis
        unfolding list.map apply_children_Cons Let_def by (simp only: one(1) later_def[symmetric]) (simp add: two(1))
    qed
    ultimately show ?thesis
      using level_of_append[OF one(2) two(2) _ mins(2)] unfolding sum by simp
  qed
qed simp

lemma apply_leaf_ok:
  assumes "wf_node crc ps 0 i es" "sorted (map pm_key ms)" "\<forall>m \<in> set ms. prepared_ok m \<and> lo \<le> pm_key m"
    "\<forall>e \<in> set es. lo \<le> en_key e" "length ps + ITEM_PAGES * (length es + length ms) < 2 ^ 64"
  shows "\<exists>qs nodes. apply_node crc (Suc n) ps i ms is_root marks = Inr (qs, nodes, mark_existing es ms marks) \<and>
    level_of crc ps 0 lo (mutated ms es) (ITEM_PAGES * (length es + length ms)) qs nodes"
proof -
  obtain p where p: "read_page crc ps i = Inr p" "p ! 5 = LEAF" "leaf_layout crc ps p es"
    using wf_node_leaf[OF assms(1)] .
  note es = wf_node_entries[OF assms(1)]
  let ?es = "mutated ms es"
  have node: "apply_node crc (Suc n) ps i ms is_root marks =
    (if ?es = [] then Inr (ps, [], mark_existing es ms marks)
     else ebind (write_leaf_level crc ps ?es) (\<lambda>(ps, nodes). Inr (ps, nodes, mark_existing es ms marks)))"
    using p es assms(2) decode_leaf_read[OF p(3)] by (simp add: on_page_def merge_entries_mutated)
  show ?thesis
  proof (cases "?es = []")
    case True
    then show ?thesis using node level_of_refl[of crc ps 0 "[]"] by simp
  next
    case False
    have le: "ITEM_PAGES * length ?es \<le> ITEM_PAGES * (length es + length ms)"
      using length_mutated[of ms es] by (intro mult_le_mono2)
    have "\<forall>e \<in> set ?es. lo \<le> en_key e" using mutated_keys[of _ ms es] assms(3,4) by fastforce
    moreover have "length ps + ITEM_PAGES * length ?es < 2 ^ 64" using le assms(5) by linarith
    moreover have "ps \<noteq> []" using wf_node_bound[OF assms(1)] by auto
    ultimately obtain qs nodes where "write_leaf_level crc ps ?es = Inr (qs, nodes)"
      "level_of crc ps 0 lo ?es (ITEM_PAGES * length ?es) qs nodes"
      using write_leaf_level_ok[OF False] mutated_ok[of es ms] es assms(3) sorted_mutated[of es ms] by metis
    then show ?thesis using node False level_of_mono[OF _ le] by auto
  qed
qed

text \<open>
  An internal page up to the point where its children are merged: what remains is
  to write their level, unless the page is a root with a single child left.
\<close>

lemma apply_internal_ok:
  assumes f: "applies crc h c (\<lambda>ps ch ms marks. apply_node crc n ps ch ms False marks)"
    and node: "wf_node crc ps (Suc h) i es" "h < MAX_TREE_DEPTH" and ms: "sorted (map pm_key ms)"
      "\<forall>m \<in> set ms. prepared_ok m \<and> lo \<le> pm_key m" and lo: "\<forall>e \<in> set es. lo \<le> en_key e"
    and room: "length ps + (c + 2 * ITEM_PAGES) * (length es + length ms) < 2 ^ 64"
  obtains qs nodes where
    "apply_node crc (Suc n) ps i ms is_root marks =
       (if nodes = [] then Inr (qs, [], mark_existing es ms marks)
        else if is_root \<and> length nodes = 1 then Inr (qs, nodes, mark_existing es ms marks)
        else ebind (write_internal_level crc qs nodes) (\<lambda>(ps, nodes). Inr (ps, nodes, mark_existing es ms marks)))"
    "level_of crc ps h lo (mutated ms es) ((c + 2 * ITEM_PAGES) * (length es + length ms)) qs nodes"
proof -
  let ?N = "length es + length ms" and ?es = "mutated ms es" and ?marks = "mark_existing es ms marks"
  obtain p bs where p: "read_page crc ps i = Inr p" "p ! 5 = INTERNAL" "decode_internal crc ps p i = Inr (map fst bs)"
    and bs: "branches_ok (wf_node crc ps h) bs" "es = below bs" "bs \<noteq> []" "nr_min_key (fst (hd bs)) = en_key (hd es)"
    using wf_node_children[OF node] by metis
  have pages: "(c + 2 * ITEM_PAGES) * ?N = c * ?N + 2 * ITEM_PAGES * ?N" by (simp add: algebra_simps)
  have "lo \<le> nr_min_key (fst (hd bs))" using lo bs(4) wf_node_entries[OF node(1)] by simp
  then have mins: "\<forall>b \<in> set bs. lo \<le> nr_min_key (fst b)"
    using branches_ok_hd[of "wf_node crc ps h" "hd bs" "tl bs"] bs(1,3) by (auto intro: order_trans)
  have "length ps + c * (length (below bs) + length ms) < 2 ^ 64"
    using room unfolding pages bs(2)[symmetric] by linarith
  then obtain qs new where new: "apply_children (\<lambda>ps ch ms marks. apply_node crc n ps ch ms False marks) ps (map fst bs) ms marks =
      Inr (qs, new, ?marks)" "level_of crc ps h lo ?es (c * ?N) qs (map fst new)"
    using apply_children_ok[OF f bs(1,3) ms mins] bs(2) by metis
  obtain bs' where bs': "map fst bs' = map fst new" "branches_ok (wf_node crc qs h) bs'" "below bs' = ?es"
    "\<forall>b \<in> set bs'. lo \<le> nr_min_key (fst b)" and qs: "prefix ps qs" "length qs \<le> length ps + c * ?N"
    using new(2) by (auto simp: level_of_def)
  show ?thesis
  proof (cases "new = []")
    case True
    then have "apply_node crc (Suc n) ps i ms is_root marks = Inr (qs, [], ?marks)"
      using p new(1) by (simp add: on_page_def tag_consts)
    moreover have "level_of crc ps h lo ?es ((c + 2 * ITEM_PAGES) * ?N) qs []"
      using new(2) True level_of_mono[of crc ps h lo ?es "c * ?N" qs "[]"] by simp
    ultimately show ?thesis using that[of "[]" qs] by simp
  next
    case False
    have le: "2 * ITEM_PAGES * length (below bs') \<le> 2 * ITEM_PAGES * ?N"
      using length_mutated[of ms es] bs'(3) by (intro mult_le_mono2) simp
    have "length qs + 2 * ITEM_PAGES * length (below bs') < 2 ^ 64"
      using room qs(2) le unfolding pages by linarith
    moreover have "qs \<noteq> []" using qs(1) wf_node_bound[OF node(1)] by auto
    ultimately obtain rs nodes where w: "merge_underfull_children crc qs new = Inr (rs, nodes)"
      "level_of crc qs h lo (below bs') (2 * ITEM_PAGES * length (below bs')) rs nodes"
      using merge_underfull_children_ok[OF bs'(2) _ less_imp_le[OF node(2)] _ _ bs'(4), of new] bs'(1) by metis
    then obtain ds where ds: "map fst ds = nodes" "branches_ok (wf_node crc rs h) ds" "below ds = ?es"
      "\<forall>b \<in> set ds. lo \<le> nr_min_key (fst b)"
      and rs: "prefix qs rs" "length rs \<le> length qs + 2 * ITEM_PAGES * length (below bs')"
      using bs'(3) by (auto simp: level_of_def)
    have "nodes \<noteq> []" using below_eq_Nil[OF ds(2) bs'(2)] ds(1,3) bs'(1,3) False by auto
    moreover have "length rs \<le> length ps + (c * ?N + 2 * ITEM_PAGES * ?N)" using qs(2) rs(2) le by linarith
    then have "level_of crc ps h lo ?es ((c + 2 * ITEM_PAGES) * ?N) rs nodes"
      unfolding level_of_def pages using ds qs(1) rs(1) by (auto intro: prefix_order.trans)
    ultimately show ?thesis
      using that[of nodes rs] p new(1) w(1) False by (simp add: on_page_def tag_consts)
  qed
qed

text \<open>Writing the level above: a nonempty level of height \<open>h\<close> becomes one of height \<open>Suc h\<close>.\<close>

lemma write_level_above:
  assumes "level_of crc ps h lo es n qs nodes" "nodes \<noteq> []" "length es \<le> N" "length ps + n + ITEM_PAGES * N < 2 ^ 64"
  obtains rs nodes' where "write_internal_level crc qs nodes = Inr (rs, nodes')"
    "level_of crc ps (Suc h) lo es (n + ITEM_PAGES * N) rs nodes'"
proof -
  obtain bs where bs: "map fst bs = nodes" "branches_ok (wf_node crc qs h) bs" "below bs = es"
    "\<forall>b \<in> set bs. lo \<le> nr_min_key (fst b)" and qs: "prefix ps qs" "length qs \<le> length ps + n"
    using assms(1) by (auto simp: level_of_def)
  have le: "ITEM_PAGES * length bs \<le> ITEM_PAGES * N"
    using below_count[OF bs(2)] bs(3) assms(3) by (intro mult_le_mono2) simp
  have "length qs + ITEM_PAGES * length bs < 2 ^ 64" using le qs(2) assms(4) by linarith
  then obtain rs nodes' where w: "write_internal_level crc qs nodes = Inr (rs, nodes')"
    "level_of crc qs (Suc h) lo es (ITEM_PAGES * length bs) rs nodes'"
    using write_internal_level_ok[OF bs(2) _ _ bs(4)] bs(1,3) assms(2) by (metis map_is_Nil_conv)
  have rs: "prefix qs rs" "length rs \<le> length qs + ITEM_PAGES * length bs" using w(2) by (auto simp: level_of_def)
  have "length rs \<le> length ps + (n + ITEM_PAGES * N)" using rs(2) qs(2) le by linarith
  with rs(1) have "level_of crc ps (Suc h) lo es (n + ITEM_PAGES * N) rs nodes'"
    using w(2) qs(1) by (auto simp: level_of_def intro: prefix_order.trans)
  then show ?thesis using that w(1) by blast
qed

definition apply_pages :: "nat \<Rightarrow> nat" where
  "apply_pages h = (3 * h + 1) * ITEM_PAGES"

lemma applies_node:
  "h < n \<Longrightarrow> n \<le> MAX_TREE_DEPTH \<Longrightarrow>
     applies crc h (apply_pages h) (\<lambda>ps c ms marks. apply_node crc n ps c ms False marks)"
proof (induction h arbitrary: n)
  case 0
  then obtain m where "n = Suc m" by (cases n) auto
  then show ?case using apply_leaf_ok unfolding applies_def apply_pages_def by auto
next
  case (Suc h)
  then obtain m where m: "n = Suc m" "h < m" by (cases n) auto
  then have f: "applies crc h (apply_pages h) (\<lambda>ps c ms marks. apply_node crc m ps c ms False marks)"
    using Suc by simp
  show ?case unfolding applies_def
  proof (intro allI impI)
    fix ps i marks and es :: "entry list" and ms :: "prepared list" and lo :: bytes
    let ?N = "length es + length ms"
    assume node: "wf_node crc ps (Suc h) i es" and ms: "sorted (map pm_key ms)"
        "\<forall>m \<in> set ms. prepared_ok m \<and> lo \<le> pm_key m" and lo: "\<forall>e \<in> set es. lo \<le> en_key e"
      and room: "length ps + apply_pages (Suc h) * ?N < 2 ^ 64"
    have pages: "apply_pages (Suc h) * ?N = (apply_pages h + 2 * ITEM_PAGES) * ?N + ITEM_PAGES * ?N"
      by (simp add: apply_pages_def algebra_simps)
    have h: "h < MAX_TREE_DEPTH" using Suc.prems by simp
    have room': "length ps + (apply_pages h + 2 * ITEM_PAGES) * ?N < 2 ^ 64" using room unfolding pages by linarith
    obtain qs nodes where a: "apply_node crc n ps i ms False marks =
        (if nodes = [] then Inr (qs, [], mark_existing es ms marks)
         else if False \<and> length nodes = 1 then Inr (qs, nodes, mark_existing es ms marks)
         else ebind (write_internal_level crc qs nodes) (\<lambda>(ps, nodes). Inr (ps, nodes, mark_existing es ms marks)))"
      "level_of crc ps h lo (mutated ms es) ((apply_pages h + 2 * ITEM_PAGES) * ?N) qs nodes"
      unfolding m(1) by (rule apply_internal_ok[OF f node h ms lo room'])
    show "\<exists>qs nodes. apply_node crc n ps i ms False marks = Inr (qs, nodes, mark_existing es ms marks) \<and>
        level_of crc ps (Suc h) lo (mutated ms es) (apply_pages (Suc h) * ?N) qs nodes"
    proof (cases "nodes = []")
      case True
      with a show ?thesis unfolding pages by (auto simp: level_of_def branches_ok_def)
    next
      case False
      have "length ps + (apply_pages h + 2 * ITEM_PAGES) * ?N + ITEM_PAGES * ?N < 2 ^ 64"
        using room unfolding pages by linarith
      then obtain rs nodes' where "write_internal_level crc qs nodes = Inr (rs, nodes')"
        "level_of crc ps (Suc h) lo (mutated ms es) (apply_pages (Suc h) * ?N) rs nodes'"
        using write_level_above[OF a(2) False length_mutated] unfolding pages by blast
      then show ?thesis using a(1) False by auto
    qed
  qed
qed

text \<open>At the root, a single child left may take the root's place.\<close>

lemma apply_root_ok:
  assumes "wf_node crc ps h i es" "h < MAX_TREE_DEPTH" "sorted (map pm_key ms)" "\<forall>m \<in> set ms. prepared_ok m"
    "length ps + apply_pages h * (length es + length ms) < 2 ^ 64"
  obtains qs nodes h' where
    "apply_node crc MAX_TREE_DEPTH ps i ms True marks = Inr (qs, nodes, mark_existing es ms marks)"
    "level_of crc ps h' [] (mutated ms es) (apply_pages h * (length es + length ms)) qs nodes" "h' \<le> h"
proof -
  let ?N = "length es + length ms"
  obtain m where m: "MAX_TREE_DEPTH = Suc m" "h \<le> m" using assms(2) by (cases MAX_TREE_DEPTH) auto
  have ms: "\<forall>m \<in> set ms. prepared_ok m \<and> [] \<le> pm_key m" and lo: "\<forall>e \<in> set es. [] \<le> en_key e"
    using assms(4) by auto
  show ?thesis
  proof (cases h)
    case 0
    then show ?thesis
      using apply_leaf_ok[OF _ assms(3) ms lo, of crc ps i m True marks] assms(1,5) that m by (auto simp: apply_pages_def)
  next
    case (Suc k)
    have pages: "apply_pages h * ?N = (apply_pages k + 2 * ITEM_PAGES) * ?N + ITEM_PAGES * ?N"
      by (simp add: Suc apply_pages_def algebra_simps)
    have k: "k < m" "k < MAX_TREE_DEPTH" "m \<le> MAX_TREE_DEPTH" using Suc m by auto
    have node: "wf_node crc ps (Suc k) i es" using assms(1) Suc by simp
    have room: "length ps + (apply_pages k + 2 * ITEM_PAGES) * ?N < 2 ^ 64" using assms(5) unfolding pages by linarith
    obtain qs nodes where a: "apply_node crc MAX_TREE_DEPTH ps i ms True marks =
        (if nodes = [] then Inr (qs, [], mark_existing es ms marks)
         else if True \<and> length nodes = 1 then Inr (qs, nodes, mark_existing es ms marks)
         else ebind (write_internal_level crc qs nodes) (\<lambda>(ps, nodes). Inr (ps, nodes, mark_existing es ms marks)))"
      "level_of crc ps k [] (mutated ms es) ((apply_pages k + 2 * ITEM_PAGES) * ?N) qs nodes"
      unfolding m(1) by (rule apply_internal_ok[OF applies_node[OF k(1,3)] node k(2) assms(3) ms lo room])
    show ?thesis
    proof (cases "length nodes \<le> 1")
      case True
      moreover have "level_of crc ps k [] (mutated ms es) (apply_pages h * ?N) qs nodes"
        using level_of_mono[OF a(2)] unfolding pages by simp
      ultimately show ?thesis using that[of qs nodes k] a(1) Suc by (cases nodes) auto
    next
      case False
      have "length ps + (apply_pages k + 2 * ITEM_PAGES) * ?N + ITEM_PAGES * ?N < 2 ^ 64"
        using assms(5) unfolding pages by linarith
      moreover have ne: "nodes \<noteq> []" "length nodes \<noteq> 1" using False by auto
      ultimately obtain rs nodes' where w: "write_internal_level crc qs nodes = Inr (rs, nodes')"
        "level_of crc ps (Suc k) [] (mutated ms es) (apply_pages h * ?N) rs nodes'"
        using write_level_above[OF a(2) _ length_mutated] unfolding pages by blast
      have "apply_node crc MAX_TREE_DEPTH ps i ms True marks = Inr (rs, nodes', mark_existing es ms marks)"
        using a(1) w(1) ne by simp
      then show ?thesis by (rule that[OF _ w(2)]) (simp add: Suc)
    qed
  qed
qed

end
