(* ===== verification/TreeWrite.thy ===== *)
theory TreeWrite
  imports TreeBatch "HOL-Library.Multiset"
begin

text \<open>
  The batch writer of the page tree (\<open>prepare_batch\<close>, \<open>prepare_delete\<close> and
  \<open>publish\<close> of \<open>crates/vyrn-core/src/page_tree.rs\<close>).  Pages a failed mutation
  appended are discarded, so the model keeps the pages of before; the values it
  logged stay, unreferenced, as they do in the code.  Preparing a batch never
  fails on a well-formed tree with room for its pages and values; the tree it was
  prepared on reads as before, and the published result holds the rows of the
  batch applied in order.
\<close>

section \<open>Definitions\<close>

definition store_value ::
  "(bytes \<Rightarrow> u32) \<Rightarrow> value_log \<Rightarrow> bytes \<Rightarrow> u64 \<Rightarrow> vyrn_error + (entry_value \<times> value_log)" where
  "store_value crc l v revision =
     (if INLINE_LIMIT < length v
      then ebind (vl_append crc l v revision) (\<lambda>(r, l). Inr (External r, l))
      else Inr (Inline v, l))"

fun prepare_mutations ::
  "(bytes \<Rightarrow> u32) \<Rightarrow> value_log \<Rightarrow> nat \<Rightarrow> (bytes \<times> mutation) list \<Rightarrow> value_log \<times> (vyrn_error + prepared list)" where
  "prepare_mutations crc l index [] = (l, Inr [])"
| "prepare_mutations crc l index ((key, MutPut v revision) # ms) =
     (case store_value crc l v revision of
        Inl e \<Rightarrow> (l, Inl e)
      | Inr (stored, l) \<Rightarrow>
          let (l, rest) = prepare_mutations crc l (index + 1) ms
          in (l, ebind rest (\<lambda>ps.
                 Inr (\<lparr> pm_key = key, pm_value = Some (stored, revision), pm_index = index \<rparr> # ps))))"
| "prepare_mutations crc l index ((key, MutDelete) # ms) =
     (let (l, rest) = prepare_mutations crc l (index + 1) ms
      in (l, ebind rest (\<lambda>ps. Inr (\<lparr> pm_key = key, pm_value = None, pm_index = index \<rparr> # ps))))"

definition saturating_add_signed :: "u64 \<Rightarrow> int \<Rightarrow> u64" where
  "saturating_add_signed n d = word_of_int (max 0 (min (2 ^ 64 - 1) (uint n + d)))"

definition rewrite_tree ::
  "(bytes \<Rightarrow> u32) \<Rightarrow> page_store \<Rightarrow> u64 \<Rightarrow> prepared list \<Rightarrow> bool list
     \<Rightarrow> vyrn_error + (page_store \<times> node_ref list \<times> bool list)" where
  "rewrite_tree crc ps root prepared marks =
     ebind (if root = 0
            then let (es, marks) = merge_entries [] prepared marks
                 in if es = [] then Inr (ps, [], marks)
                    else ebind (write_leaf_level crc ps es) (\<lambda>(ps, nodes). Inr (ps, nodes, marks))
            else apply_node crc MAX_TREE_DEPTH ps root prepared True marks) (\<lambda>(ps, replacements, marks).
     ebind (grow_root crc ps replacements) (\<lambda>(ps, replacements). Inr (ps, replacements, marks)))"

definition root_of :: "node_ref list \<Rightarrow> u64" where
  "root_of replacements = (case replacements of [] \<Rightarrow> 0 | node # _ \<Rightarrow> nr_page_id node)"

definition prepare_batch ::
  "(bytes \<Rightarrow> u32) \<Rightarrow> page_tree \<Rightarrow> (bytes \<times> mutation) list \<Rightarrow> page_tree \<times> (vyrn_error + (u64 \<times> u64))" where
  "prepare_batch crc t ms =
     (if ms = [] then (t, Inr (pt_root t, pt_len t))
      else
        let (l, prepared) = prepare_mutations crc (pt_values t) 0 ms;
            t = t\<lparr> pt_values := l \<rparr>
        in case prepared of
             Inl e \<Rightarrow> (t, Inl e)
           | Inr prepared \<Rightarrow>
               let prepared = sort_key pm_key prepared
               in case rewrite_tree crc (pt_pages t) (pt_root t) prepared (replicate (length ms) False) of
                    Inl e \<Rightarrow> (t, Inl e)
                  | Inr (ps, replacements, marks) \<Rightarrow>
                      let root = root_of replacements;
                          len = (if root = 0 then 0
                                 else saturating_add_signed (pt_len t) (batch_delta prepared marks))
                      in (t\<lparr> pt_pages := ps \<rparr>, Inr (root, len)))"

definition publish :: "page_tree \<Rightarrow> u64 \<Rightarrow> u64 \<Rightarrow> page_tree" where
  "publish t root len = t\<lparr> pt_root := root, pt_len := len \<rparr>"

definition prepare_delete ::
  "(bytes \<Rightarrow> u32) \<Rightarrow> page_tree \<Rightarrow> bytes \<Rightarrow> page_tree \<times> (vyrn_error + (u64 \<times> u64) option)" where
  "prepare_delete crc t key =
     (if pt_root t = 0 then (t, Inr None)
      else case find_key crc t key of
             Inl e \<Rightarrow> (t, Inl e)
           | Inr None \<Rightarrow> (t, Inr None)
           | Inr (Some _) \<Rightarrow>
               (case rewrite_tree crc (pt_pages t) (pt_root t)
                       [\<lparr> pm_key = key, pm_value = None, pm_index = 0 \<rparr>] [True] of
                  Inl e \<Rightarrow> (t, Inl e)
                | Inr (ps, replacements, marks) \<Rightarrow>
                    (t\<lparr> pt_pages := ps \<rparr>, Inr (Some (root_of replacements, pt_len t - 1)))))"

section \<open>The order of the mutations\<close>

text \<open>Only the last mutation of a key counts, so a stable sort by key changes nothing.\<close>

lemma rget_fold_pm:
  "sorted_rows r \<Longrightarrow> rget (fold pm_apply ms r) k =
     (case filter (\<lambda>m. pm_key m = k) ms of [] \<Rightarrow> rget r k | xs \<Rightarrow> pm_value (last xs))"
proof (induction ms arbitrary: r)
  case (Cons m ms)
  have "sorted_rows (pm_apply m r)" using Cons.prems by (simp split: option.splits)
  moreover have "rget (pm_apply m r) k = (if pm_key m = k then pm_value m else rget r k)"
    using Cons.prems by (auto split: option.splits)
  ultimately show ?case using Cons.IH[of "pm_apply m r"] by (auto split: list.splits simp del: pm_apply.simps)
qed simp

lemma mutated_sort:
  assumes "sorted_entries es"
  shows "mutated (sort_key pm_key ms) es = mutated ms es"
proof -
  have r: "sorted_rows (entry_rows es)" using assms by (simp add: sorted_entries_def)
  have "sorted_rows (fold pm_apply ms (entry_rows es))" for ms
    using sorted_mutated[OF assms, of ms] by (simp add: sorted_entries_def)
  then have "fold pm_apply (sort_key pm_key ms) (entry_rows es) = fold pm_apply ms (entry_rows es)"
    by (intro rows_eqI) (simp_all add: rget_fold_pm[OF r] sort_key_stable)
  then show ?thesis by (simp add: mutated_def)
qed

section \<open>Entries and rows\<close>

definition value_of :: "(bytes \<Rightarrow> u32) \<Rightarrow> bytes \<Rightarrow> entry_value \<times> u64 \<Rightarrow> bytes \<times> u64 \<Rightarrow> bool" where
  "value_of crc f x y \<longleftrightarrow>
     snd y = snd x \<and> (case fst x of Inline v \<Rightarrow> fst y = v | External r \<Rightarrow> file_read crc f r = Inr (fst y))"

lemma resolves_rows:
  "list_all2 (resolves crc f) es rows \<longleftrightarrow> list_all2 (rel_prod (=) (value_of crc f)) (entry_rows es) rows"
proof -
  have "resolves crc f e row \<longleftrightarrow> rel_prod (=) (value_of crc f) (entry_row e) row" for e row
    by (cases row) (auto simp: resolves_def value_of_def entry_row_def split: entry_value.splits)
  then show ?thesis by (simp add: list_all2_conv_all_nth)
qed

lemma value_of_append: "value_of crc f x y \<Longrightarrow> value_of crc (f @ ext) x y"
  by (auto simp: value_of_def file_read_append split: entry_value.splits)

lemma rel_rput:
  "list_all2 (rel_prod (=) R) r s \<Longrightarrow> R x y \<Longrightarrow> list_all2 (rel_prod (=) R) (rput k x r) (rput k y s)"
  by (induction rule: list_all2_induct) auto

lemma rel_rdel:
  "list_all2 (rel_prod (=) R) r s \<Longrightarrow> list_all2 (rel_prod (=) R) (rdel k r) (rdel k s)"
  by (induction rule: list_all2_induct) auto

definition prepares :: "(bytes \<Rightarrow> u32) \<Rightarrow> bytes \<Rightarrow> prepared \<Rightarrow> bytes \<times> mutation \<Rightarrow> bool" where
  "prepares crc f p m \<longleftrightarrow> pm_key p = fst m \<and>
     (case (pm_value p, snd m) of
        (None, MutDelete) \<Rightarrow> True
      | (Some x, MutPut v revision) \<Rightarrow> value_of crc f x (v, revision)
      | _ \<Rightarrow> False)"

lemma prepares_append: "prepares crc f p m \<Longrightarrow> prepares crc (f @ ext) p m"
  by (auto simp: prepares_def value_of_append split: option.splits mutation.splits)

lemma prepares_fold:
  "list_all2 (prepares crc f) ps ms \<Longrightarrow> list_all2 (rel_prod (=) (value_of crc f)) r rows \<Longrightarrow>
     list_all2 (rel_prod (=) (value_of crc f)) (fold pm_apply ps r) (fold tv_mutate ms rows)"
proof (induction arbitrary: r rows rule: list_all2_induct)
  case (Cons p ps m ms)
  have "list_all2 (rel_prod (=) (value_of crc f)) (pm_apply p r) (tv_mutate m rows)"
    using Cons.hyps(1) Cons.prems
    by (cases m; cases "snd m"; cases "pm_value p") (auto simp: prepares_def rel_rput rel_rdel)
  with Cons.IH show ?case by simp
qed simp

lemma mutated_resolves:
  assumes "list_all2 (prepares crc f) ps ms" "list_all2 (resolves crc f) es rows"
  shows "list_all2 (resolves crc f) (mutated ps es) (tv_apply_batch ms rows)"
  using prepares_fold[OF assms(1), of "entry_rows es" rows] assms(2)
  by (simp add: resolves_rows tv_apply_batch_def)

section \<open>Preparing the mutations\<close>

fun mutation_bytes :: "bytes \<times> mutation \<Rightarrow> nat" where
  "mutation_bytes (key, MutPut v revision) = value_total_len (length v)"
| "mutation_bytes (key, MutDelete) = 0"

fun mutation_ok :: "bytes \<times> mutation \<Rightarrow> bool" where
  "mutation_ok (key, MutPut v revision) \<longleftrightarrow> key \<noteq> [] \<and> length key \<le> MAX_STORED_KEY_SIZE \<and> length v \<le> MAX_VALUE_SIZE"
| "mutation_ok (key, MutDelete) \<longleftrightarrow> True"

lemma store_value_ok:
  assumes "vl_ok crc l" "length v \<le> MAX_VALUE_SIZE" "length (vl_file l) + value_total_len (length v) < 2 ^ 64"
    "key \<noteq> []" "length key \<le> MAX_STORED_KEY_SIZE"
  obtains x l' ext where "store_value crc l v revision = Inr (x, l')" "vl_ok crc l'"
    "vl_file l' = vl_file l @ ext" "length ext \<le> value_total_len (length v)"
    "value_of crc (vl_file l') (x, revision) (v, revision)" "entry_ok (row_entry (key, x, revision))"
proof (cases "INLINE_LIMIT < length v")
  case True
  note len = value_len_u32[OF assms(2)]
  obtain r l' where a: "vl_append crc l v revision = Inr (r, l')"
    and r: "vr_len r = word_of_nat (length v)" "vr_revision r = revision"
    using len(2) by (auto simp: vl_append_def Let_def value_total_len_def)
  have appended: "vl_file l' = vl_file l @ value_record crc revision v"
    using a by (auto simp: vl_append_def Let_def split: if_splits)
  then have "vl_ok crc l'" "file_read crc (vl_file l') r = Inr v"
    using vl_append_props[OF assms(1) a assms(2)] assms(3) by simp_all
  then show ?thesis
    using that[of "External r" l' "value_record crc revision v"] a appended r len(1) assms(2,4,5) True
    by (simp add: store_value_def value_of_def entry_ok_def row_entry_def)
next
  case False
  then show ?thesis
    using that[of "Inline v" l "[]"] assms by (simp add: store_value_def value_of_def entry_ok_def row_entry_def)
qed

lemma prepare_mutations_ok:
  "vl_ok crc l \<Longrightarrow> \<forall>m \<in> set ms. mutation_ok m \<Longrightarrow> length (vl_file l) + sum_list (map mutation_bytes ms) < 2 ^ 64 \<Longrightarrow>
     \<exists>l' ps ext. prepare_mutations crc l index ms = (l', Inr ps) \<and> vl_ok crc l' \<and> vl_file l' = vl_file l @ ext \<and>
       list_all2 (prepares crc (vl_file l')) ps ms \<and> (\<forall>p \<in> set ps. prepared_ok p) \<and>
       map pm_index ps = [index..<index + length ms]"
proof (induction crc l index ms rule: prepare_mutations.induct)
  case (2 crc l index key v revision ms)
  obtain x l1 ext1 where one: "store_value crc l v revision = Inr (x, l1)" "vl_ok crc l1"
    "vl_file l1 = vl_file l @ ext1" "length ext1 \<le> value_total_len (length v)"
    "value_of crc (vl_file l1) (x, revision) (v, revision)" "entry_ok (row_entry (key, x, revision))"
    using store_value_ok[OF "2.prems"(1), of v key revision] "2.prems"(2,3) by auto
  then obtain l' ps ext where rest: "prepare_mutations crc l1 (index + 1) ms = (l', Inr ps)" "vl_ok crc l'"
    "vl_file l' = vl_file l1 @ ext" "list_all2 (prepares crc (vl_file l')) ps ms" "\<forall>p \<in> set ps. prepared_ok p"
    "map pm_index ps = [index + 1..<index + 1 + length ms]"
    using "2.IH"[OF one(1) refl] "2.prems"(2,3) by auto
  let ?p = "\<lparr> pm_key = key, pm_value = Some (x, revision), pm_index = index \<rparr>"
  have "prepares crc (vl_file l') ?p (key, MutPut v revision)"
    using one(5) rest(3) value_of_append by (simp add: prepares_def)
  then show ?case
    using one rest by (auto simp: prepared_ok_def upt_conv_Cons simp del: upt_Suc)
next
  case (3 crc l index key ms)
  then obtain l' ps ext where "prepare_mutations crc l (index + 1) ms = (l', Inr ps)" "vl_ok crc l'"
    "vl_file l' = vl_file l @ ext" "list_all2 (prepares crc (vl_file l')) ps ms" "\<forall>p \<in> set ps. prepared_ok p"
    "map pm_index ps = [index + 1..<index + 1 + length ms]" by auto
  moreover have "prepares crc (vl_file l') \<lparr> pm_key = key, pm_value = None, pm_index = index \<rparr> (key, MutDelete)"
    by (simp add: prepares_def)
  ultimately show ?case by (auto simp: prepared_ok_def upt_conv_Cons simp del: upt_Suc)
qed simp

section \<open>Rewriting the tree\<close>

lemma store_ok_root: "store_ok ps \<Longrightarrow> wf_node crc ps h i es \<Longrightarrow> i \<noteq> 0"
proof
  assume ps: "store_ok ps" "wf_node crc ps h i es" and 0: "i = 0"
  obtain p where p: "read_page crc ps i = Inr p" "p ! 5 = LEAF \<or> p ! 5 = INTERNAL"
    using ps(2) by (cases h) (auto simp: wf_node.simps leaf_page_def leaf_layout_def internal_page_def internal_layout_def)
  then have "p = hd ps" using 0 ps(1) by (auto simp: read_page_def Let_def store_ok_def hd_conv_nth ebind_Inr_iff split: if_splits)
  then show False using p(2) ps(1) by (auto simp: store_ok_def tag_consts)
qed

lemma store_ok_mono: "store_ok ps \<Longrightarrow> prefix ps qs \<Longrightarrow> length qs < 2 ^ 64 \<Longrightarrow> store_ok qs"
  by (auto simp: store_ok_def prefix_def)

text \<open>The height of a tree grows by at most the logarithm of what a batch leaves in it.\<close>

definition height_grows :: "nat \<Rightarrow> nat \<Rightarrow> nat \<Rightarrow> bool" where
  "height_grows h h' n \<longleftrightarrow> h' \<le> h \<or> 2 ^ (h' - Suc h) < n"

lemma grow_level:
  assumes "level_of crc ps h lo es n qs nodes" "length ps + n + 4 * ITEM_PAGES * length es < 2 ^ 64" "store_ok ps"
  obtains rs nodes' h' where "grow_root crc qs nodes = Inr (rs, nodes')" "prefix ps rs" "store_ok rs"
    "length rs \<le> length ps + n + 4 * ITEM_PAGES * length es"
    "if root_of nodes' = 0 then es = [] else wf_node crc rs h' (root_of nodes') es" "height_grows h h' (length es)"
proof -
  obtain bs where bs: "map fst bs = nodes" "branches_ok (wf_node crc qs h) bs" "below bs = es"
    and qs: "prefix ps qs" "length qs \<le> length ps + n"
    using assms(1) by (auto simp: level_of_def)
  show ?thesis
  proof (cases "bs = []")
    case True
    have "store_ok qs" using store_ok_mono[OF assms(3) qs(1)] qs(2) assms(2) by simp
    then show ?thesis
      using that[of qs "[]" h] bs qs True by (simp add: grow_root.simps[of crc qs] root_of_def height_grows_def)
  next
    case False
    have count: "length bs \<le> length es" using below_count[OF bs(2)] bs(3) by simp
    then have le: "4 * ITEM_PAGES * length bs \<le> 4 * ITEM_PAGES * length es" by simp
    have "length qs + 4 * ITEM_PAGES * length bs < 2 ^ 64" using qs(2) assms(2) le by linarith
    then obtain rs node h' where g: "grow_root crc qs nodes = Inr (rs, [node])" "prefix qs rs"
      "length rs \<le> length qs + 4 * ITEM_PAGES * length bs" "wf_node crc rs h' (nr_page_id node) es"
      "h' = h \<or> 2 ^ (h' - Suc h) < length bs"
      using grow_root_ok[OF bs(2) False] bs(1,3) by blast
    have len: "length rs \<le> length ps + n + 4 * ITEM_PAGES * length es" using g(3) qs(2) le by linarith
    have rs: "prefix ps rs" using qs(1) g(2) by (rule prefix_order.trans)
    then have "store_ok rs" using store_ok_mono[OF assms(3)] len assms(2) by simp
    then show ?thesis
      using that[OF g(1) rs _ len, of h'] g(4,5) store_ok_root[of rs crc h' "nr_page_id node" es] count
      by (auto simp: root_of_def height_grows_def)
  qed
qed

definition write_pages :: "nat \<Rightarrow> nat \<Rightarrow> nat" where
  "write_pages h n = (apply_pages h + 4 * ITEM_PAGES) * n"

lemma height_grows_mono: "height_grows h h' n \<Longrightarrow> h \<le> k \<Longrightarrow> n \<le> m \<Longrightarrow> height_grows k h' m"
proof -
  assume a: "height_grows h h' n" "h \<le> k" "n \<le> m"
  have "2 ^ (h' - Suc k) \<le> (2 :: nat) ^ (h' - Suc h)" using a(2) by (intro power_increasing) auto
  with a show ?thesis unfolding height_grows_def by linarith
qed

lemma rewrite_tree_ok:
  assumes ps: "store_ok ps" "if root = 0 then es = [] else wf_node crc ps h root es" and h: "h < MAX_TREE_DEPTH"
    and ms: "sorted (map pm_key ms)" "\<forall>m \<in> set ms. prepared_ok m"
    and room: "length ps + write_pages h (length es + length ms) < 2 ^ 64"
  obtains rs nodes h' where
    "rewrite_tree crc ps root ms marks = Inr (rs, nodes, mark_existing es ms marks)" "prefix ps rs" "store_ok rs"
    "if root_of nodes = 0 then mutated ms es = [] else wf_node crc rs h' (root_of nodes) (mutated ms es)"
    "height_grows h h' (length es + length ms)"
proof -
  let ?N = "length es + length ms" and ?es = "mutated ms es" and ?marks = "mark_existing es ms marks"
  have pages: "write_pages h ?N = apply_pages h * ?N + 4 * ITEM_PAGES * ?N"
    by (simp add: write_pages_def algebra_simps)
  have le: "4 * ITEM_PAGES * length ?es \<le> 4 * ITEM_PAGES * ?N"
    using length_mutated[of ms es] by (intro mult_le_mono2)
  obtain qs nodes k where one: "(if root = 0
      then let (es, marks) = merge_entries [] ms marks
           in if es = [] then Inr (ps, [], marks)
              else ebind (write_leaf_level crc ps es) (\<lambda>(ps, nodes). Inr (ps, nodes, marks))
      else apply_node crc MAX_TREE_DEPTH ps root ms True marks) = Inr (qs, nodes, ?marks)"
    "level_of crc ps k [] ?es (apply_pages h * ?N) qs nodes" "k \<le> h"
  proof (cases "root = 0")
    case True
    then have es: "es = []" using ps(2) by simp
    have m: "merge_entries [] ms marks = (?es, ?marks)" using merge_entries_mutated[of "[]" ms marks] ms(1) es by simp
    show ?thesis
    proof (cases "?es = []")
      case True
      then show ?thesis
        using that[of ps "[]" 0] m \<open>root = 0\<close> level_of_refl[of crc ps 0 "[]" "[]"] by simp
    next
      case False
      have item: "ITEM_PAGES * length ?es \<le> apply_pages h * ?N"
        using length_mutated[of ms es] unfolding apply_pages_def by (intro mult_le_mono) auto
      have ne: "ps \<noteq> []" using ps(1) by (auto simp: store_ok_def)
      have room': "length ps + ITEM_PAGES * length ?es < 2 ^ 64" using item room unfolding pages by linarith
      have ok: "\<forall>e \<in> set ?es. entry_ok e" "sorted_entries ?es"
        using mutated_ok[of es ms] sorted_mutated[of es ms] es ms(2) by simp_all
      obtain qs nodes where w: "write_leaf_level crc ps ?es = Inr (qs, nodes)"
        "level_of crc ps 0 [] ?es (ITEM_PAGES * length ?es) qs nodes"
        using write_leaf_level_ok[OF False ok ne room', of "[]" crc] by auto
      then show ?thesis using that[of qs nodes 0] m \<open>root = 0\<close> False level_of_mono[OF w(2) item] by simp
    qed
  next
    case False
    have "length ps + apply_pages h * ?N < 2 ^ 64" using room unfolding pages by linarith
    then show ?thesis
      using apply_root_ok[OF _ h ms, of crc ps root es marks] ps(2) False that by auto
  qed
  have "length ps + apply_pages h * ?N + 4 * ITEM_PAGES * length ?es < 2 ^ 64" using room le unfolding pages by linarith
  then obtain rs nodes' h' where g: "grow_root crc qs nodes = Inr (rs, nodes')" "prefix ps rs" "store_ok rs"
    "if root_of nodes' = 0 then ?es = [] else wf_node crc rs h' (root_of nodes') ?es" "height_grows k h' (length ?es)"
    using grow_level[OF one(2) _ ps(1)] by metis
  show ?thesis
  proof (rule that[OF _ g(2,3,4)])
    show "rewrite_tree crc ps root ms marks = Inr (rs, nodes', ?marks)"
      unfolding rewrite_tree_def one(1) by (simp add: g(1))
    show "height_grows h h' ?N" using height_grows_mono[OF g(5) one(3) length_mutated] .
  qed
qed

section \<open>A batch, prepared and published\<close>

lemma resolves_append:
  "list_all2 (resolves crc f) es rows \<Longrightarrow> list_all2 (resolves crc (f @ ext)) es rows"
  unfolding resolves_rows by (erule list_all2_mono) (auto simp: value_of_append elim: rel_prod.cases)

lemma tree_rep_publish:
  assumes "vl_ok crc (pt_values t)" "store_ok (pt_pages t)" "unat len = length es"
    "if root = 0 then es = [] else wf_node crc (pt_pages t) h root es"
    "list_all2 (resolves crc (vl_file (pt_values t))) es rows"
  shows "tree_rep crc (publish t root len) h rows"
  using assms unfolding tree_rep_def tree_entries_def publish_def
  by (intro conjI exI[of _ es]) simp_all

lemma tree_rep_extends:
  assumes "tree_rep crc t h rows" "prefix (pt_pages t) ps" "store_ok ps" "vl_ok crc l" "vl_file l = vl_file (pt_values t) @ ext"
  shows "tree_rep crc (t\<lparr> pt_values := l, pt_pages := ps \<rparr>) h rows"
  using assms wf_node_mono resolves_append unfolding tree_rep_def tree_entries_def
  by (auto split: if_splits)

lemma prepared_marks:
  assumes "map pm_index ps = [0..<n]" "p \<in> set (sort_key pm_key ps)"
  shows "mark_existing es (sort_key pm_key ps) (replicate n False) ! pm_index p \<longleftrightarrow> pm_key p \<in> en_key ` set es"
proof (rule mark_existing_nth)
  have "mset (map pm_index (sort_key pm_key ps)) = mset [0..<n]" using assms(1) by (metis mset_map mset_sort)
  then show "distinct (map pm_index (sort_key pm_key ps))" by (metis distinct_upt mset_eq_imp_distinct_iff)
  have "pm_index ` set ps = {0..<n}" using assms(1) by (metis atLeastLessThan_upt list.set_map)
  then show "\<forall>m \<in> set (sort_key pm_key ps). pm_index m < length (replicate n False)" by auto
qed (rule assms(2))

lemma saturating_add_signed_length:
  assumes "unat len = n" "int m = int n + d" "m < 2 ^ 64"
  shows "unat (saturating_add_signed len d) = m"
proof -
  have "uint len + d = int m" using assms(1,2) by (simp add: uint_nat)
  then show ?thesis
    using assms(3) by (simp add: saturating_add_signed_def unat_of_nat of_nat_diff)
qed

lemma write_pages_room: "n \<le> write_pages h n"
  by (simp add: write_pages_def apply_pages_def ITEM_PAGES_def)

lemma prepare_batch_ok:
  assumes rep: "tree_rep crc t h rows" "h < MAX_TREE_DEPTH" and ms: "\<forall>m \<in> set ms. mutation_ok m"
    and vals: "length (vl_file (pt_values t)) + sum_list (map mutation_bytes ms) < 2 ^ 64"
    and pages: "length (pt_pages t) + write_pages h (length rows + length ms) < 2 ^ 64"
  obtains t' root len h' where "prepare_batch crc t ms = (t', Inr (root, len))" "tree_rep crc t' h rows"
    "tree_rep crc (publish t' root len) h' (tv_apply_batch ms rows)" "height_grows h h' (length rows + length ms)"
    "pt_root t' = pt_root t" "pt_len t' = pt_len t"
proof (cases "ms = []")
  case True
  then show ?thesis
    using that[of t "pt_root t" "pt_len t" h] rep by (simp add: prepare_batch_def publish_def height_grows_def tv_apply_batch_def)
next
  case False
  obtain es where es: "tree_entries crc t h es" "list_all2 (resolves crc (vl_file (pt_values t))) es rows"
    and l: "vl_ok crc (pt_values t)" using rep(1) by (auto simp: tree_rep_def)
  have n: "length es = length rows" using es(2) by (rule list_all2_lengthD)
  obtain l' ps ext where p: "prepare_mutations crc (pt_values t) 0 ms = (l', Inr ps)" "vl_ok crc l'"
    "vl_file l' = vl_file (pt_values t) @ ext" "list_all2 (prepares crc (vl_file l')) ps ms"
    "\<forall>p \<in> set ps. prepared_ok p" "map pm_index ps = [0..<length ms]"
    using prepare_mutations_ok[OF l ms vals, of 0] by auto
  let ?ps = "sort_key pm_key ps"
  have len: "length ?ps = length ms" using list_all2_lengthD[OF p(4)] by simp
  have store: "store_ok (pt_pages t)" "if pt_root t = 0 then es = [] else wf_node crc (pt_pages t) h (pt_root t) es"
    "unat (pt_len t) = length es" using es(1) by (auto simp: tree_entries_def)
  have sorted: "sorted_entries es" using tree_rep_sorted[OF rep(1)] resolves_sorted[OF es(2)] by simp
  let ?marks = "mark_existing es ?ps (replicate (length ms) False)"
  have ok: "sorted (map pm_key ?ps)" "\<forall>p \<in> set ?ps. prepared_ok p"
    and room: "length (pt_pages t) + write_pages h (length es + length ?ps) < 2 ^ 64"
    using p(5) pages n len by simp_all
  obtain rs nodes h' where r:
    "rewrite_tree crc (pt_pages t) (pt_root t) ?ps (replicate (length ms) False) = Inr (rs, nodes, ?marks)"
    "prefix (pt_pages t) rs" "store_ok rs"
    "if root_of nodes = 0 then mutated ?ps es = [] else wf_node crc rs h' (root_of nodes) (mutated ?ps es)"
    "height_grows h h' (length es + length ?ps)"
    by (rule rewrite_tree_ok[OF store(1,2) rep(2) ok room])
  have eq: "mutated ?ps es = mutated ps es" using mutated_sort[OF sorted] .
  let ?t = "t\<lparr> pt_values := l', pt_pages := rs \<rparr>"
  let ?len = "if root_of nodes = 0 then 0 else saturating_add_signed (pt_len t) (batch_delta ?ps ?marks)"
  have batch: "prepare_batch crc t ms = (?t, Inr (root_of nodes, ?len))"
    using False p(1) r(1) by (simp add: prepare_batch_def Let_def)
  have "int (length (mutated ps es)) = int (length es) + batch_delta ?ps ?marks"
    using batch_delta_length[OF sorted, of ?ps ?marks] prepared_marks[OF p(6)] eq by simp
  moreover have "length (mutated ps es) < 2 ^ 64"
    using length_mutated[of ?ps es, unfolded eq] n len write_pages_room[of "length rows + length ms" h] pages by linarith
  ultimately have "unat ?len = length (mutated ps es)"
    using saturating_add_signed_length[OF store(3)] r(4) eq by auto
  moreover have "list_all2 (resolves crc (vl_file l')) (mutated ps es) (tv_apply_batch ms rows)"
    using mutated_resolves[OF p(4)] resolves_append[OF es(2)] p(3) by simp
  ultimately have "tree_rep crc (publish ?t (root_of nodes) ?len) h' (tv_apply_batch ms rows)"
    using p(2) r(3) r(4)[unfolded eq] by (intro tree_rep_publish) simp_all
  moreover have "tree_rep crc ?t h rows"
    using tree_rep_extends[OF rep(1) r(2,3) p(2,3)] by simp
  ultimately show ?thesis using that[OF batch] r(5) n len by simp
qed

lemma length_rdel: "rget r k = Some v \<Longrightarrow> Suc (length (rdel k r)) = length r"
  by (induction r) (auto split: if_splits)

lemma prepare_delete_ok:
  assumes rep: "tree_rep crc t h rows" "h < MAX_TREE_DEPTH"
    and pages: "length (pt_pages t) + write_pages h (length rows + 1) < 2 ^ 64"
  shows "rget rows key = None \<Longrightarrow> prepare_delete crc t key = (t, Inr None)"
    "rget rows key = Some x \<Longrightarrow> \<exists>t' root len h'. prepare_delete crc t key = (t', Inr (Some (root, len))) \<and>
       tree_rep crc t' h rows \<and> tree_rep crc (publish t' root len) h' (rdel key rows) \<and>
       height_grows h h' (length rows + 1)"
proof -
  obtain es where es: "tree_entries crc t h es" "list_all2 (resolves crc (vl_file (pt_values t))) es rows"
    and l: "vl_ok crc (pt_values t)" using rep(1) by (auto simp: tree_rep_def)
  have n: "length es = length rows" using es(2) by (rule list_all2_lengthD)
  have store: "store_ok (pt_pages t)" "if pt_root t = 0 then es = [] else wf_node crc (pt_pages t) h (pt_root t) es"
    "unat (pt_len t) = length es" using es(1) by (auto simp: tree_entries_def)
  have keys: "rget (entry_rows es) key = None \<longleftrightarrow> rget rows key = None"
    using rget_resolves[OF l es(2), of key] by (auto split: option.splits)
  have find: "find_key crc t key = Inr (rget (entry_rows es) key)" if "pt_root t \<noteq> 0"
    using find_key_read[OF _ rep(2)] store(2) that by simp
  show "prepare_delete crc t key = (t, Inr None)" if "rget rows key = None"
    using that keys find by (simp add: prepare_delete_def)
  show "\<exists>t' root len h'. prepare_delete crc t key = (t', Inr (Some (root, len))) \<and>
       tree_rep crc t' h rows \<and> tree_rep crc (publish t' root len) h' (rdel key rows) \<and>
       height_grows h h' (length rows + 1)" if some: "rget rows key = Some x"
  proof -
    have root: "pt_root t \<noteq> 0" using some es(2) store(2) by auto
    let ?m = "\<lparr> pm_key = key, pm_value = None, pm_index = 0 \<rparr>"
    have m: "sorted (map pm_key [?m])" "\<forall>p \<in> set [?m]. prepared_ok p"
      and room: "length (pt_pages t) + write_pages h (length es + length [?m]) < 2 ^ 64"
      using pages n by (simp_all add: prepared_ok_def)
    obtain rs nodes h' where r:
      "rewrite_tree crc (pt_pages t) (pt_root t) [?m] [True] = Inr (rs, nodes, mark_existing es [?m] [True])"
      "prefix (pt_pages t) rs" "store_ok rs"
      "if root_of nodes = 0 then mutated [?m] es = [] else wf_node crc rs h' (root_of nodes) (mutated [?m] es)"
      "height_grows h h' (length es + length [?m])"
      by (rule rewrite_tree_ok[OF store(1,2) rep(2) m room])
    let ?t = "t\<lparr> pt_pages := rs \<rparr>"
    have del: "prepare_delete crc t key = (?t, Inr (Some (root_of nodes, pt_len t - 1)))"
      using root find[OF root] keys some r(1) by (auto simp: prepare_delete_def split: option.splits)
    have res: "list_all2 (resolves crc (vl_file (pt_values t))) (mutated [?m] es) (rdel key rows)"
      using es(2) rel_rdel[of "value_of crc (vl_file (pt_values t))" "entry_rows es" rows key] by (simp add: resolves_rows)
    have "pt_len t \<noteq> 0" using store(3) n some by auto
    then have "unat (pt_len t - 1) = length (mutated [?m] es)"
      using store(3) n length_rdel[OF some] list_all2_lengthD[OF res] unat_minus_one[of "pt_len t"] by simp
    then have "tree_rep crc (publish ?t (root_of nodes) (pt_len t - 1)) h' (rdel key rows)"
      using l r(3,4) res by (intro tree_rep_publish) simp_all
    moreover have "tree_rep crc ?t h rows"
      using tree_rep_extends[OF rep(1) r(2,3) l, of "[]"] by (cases t) simp
    ultimately show ?thesis using del r(5) n by auto
  qed
qed

end
