(* ===== verification/TreeScan.thy ===== *)
theory TreeScan
  imports TreeRead
begin

text \<open>
  Range scans of the page tree (\<open>crates/vyrn-core/src/page_tree.rs\<close>): the
  materialising scan and the visitor scan, each with its walk of a leaf without a
  slot directory and its directly addressed walk of a leaf with one.  Spilled
  values are left out while a leaf is walked and filled in from one batched read of
  the value log.  Both scans are shown to produce the rows of the range, in key
  order, without the excluded prefix and up to the limit.
\<close>

section \<open>Descending into the children of a range\<close>

text \<open>
  \<open>descend\<close> is the closure of the caller: it takes the child and the state it
  accumulates, and says whether the scan is satisfied.
\<close>

fun scan_cells ::
  "(bytes \<Rightarrow> u32) \<Rightarrow> page_store \<Rightarrow> (u64 \<Rightarrow> 's \<Rightarrow> vyrn_error + ('s \<times> bool)) \<Rightarrow> page \<Rightarrow> u64
     \<Rightarrow> bytes option \<Rightarrow> bytes option \<Rightarrow> nat \<Rightarrow> nat \<Rightarrow> u64 \<Rightarrow> bytes option \<Rightarrow> 's \<Rightarrow> vyrn_error + 's" where
  "scan_cells crc ps descend p page_id start until 0 offset child_id child_min s =
     (if (case (until, child_min) of (Some e, Some m) \<Rightarrow> e \<le> m | _ \<Rightarrow> False) then Inr s
      else ebind (descend child_id s) (\<lambda>(s, _). Inr s))"
| "scan_cells crc ps descend p page_id start until (Suc n) offset child_id child_min s =
     ebind (internal_cell True crc ps p page_id offset) (\<lambda>(separator, next_child, next).
     if (case start of Some a \<Rightarrow> separator \<le> a | None \<Rightarrow> False) \<or>
        (case (until, child_min) of (Some e, Some m) \<Rightarrow> e \<le> m | _ \<Rightarrow> False)
     then scan_cells crc ps descend p page_id start until n next next_child (Some separator) s
     else ebind (descend child_id s) (\<lambda>(s, satisfied).
          if satisfied then Inr s
          else scan_cells crc ps descend p page_id start until n next next_child (Some separator) s))"

definition scan_children ::
  "(bytes \<Rightarrow> u32) \<Rightarrow> page_store \<Rightarrow> page \<Rightarrow> u64 \<Rightarrow> bytes option \<Rightarrow> bytes option
     \<Rightarrow> (u64 \<Rightarrow> 's \<Rightarrow> vyrn_error + ('s \<times> bool)) \<Rightarrow> 's \<Rightarrow> vyrn_error + 's" where
  "scan_children crc ps p page_id start until descend s =
     (let count = unat (read_u32 p 20); first_id = read_u64 p 24
      in if MAX_INTERNAL_CHILDREN \<le> count then Inl (internal_claims page_id count)
         else if first_id = page_id then Inl (own_child page_id)
         else scan_cells crc ps descend p page_id start until count HEADER_SIZE first_id None s)"

section \<open>Walking a leaf\<close>

text \<open>
  The two leaf walks both scans have: over the slots of the emitted segments, and
  over the cells of a page without a directory.  \<open>push\<close> is what the scan does with a
  row, \<open>count\<close> the rows it has; a walk stops when the limit is reached.
\<close>

definition segment_indices :: "(nat \<times> nat) \<times> (nat \<times> nat) \<Rightarrow> nat list" where
  "segment_indices = (\<lambda>((a, b), (c, d)). [a..<b] @ [c..<d])"

fun emit_slots ::
  "(bytes \<Rightarrow> entry_value \<Rightarrow> u64 \<Rightarrow> 'a \<Rightarrow> 'a) \<Rightarrow> ('a \<Rightarrow> nat) \<Rightarrow> (bytes \<Rightarrow> u32) \<Rightarrow> page_store \<Rightarrow> slots \<Rightarrow> u64
     \<Rightarrow> nat \<Rightarrow> nat list \<Rightarrow> 'a \<Rightarrow> vyrn_error + 'a" where
  "emit_slots push count crc ps sl page_id limit [] acc = Inr acc"
| "emit_slots push count crc ps sl page_id limit (index # indices) acc =
     ebind (slot_leaf_entry crc ps sl page_id index) (\<lambda>(key, v, revision).
     ebind v (\<lambda>v.
     let acc = push key v revision acc
     in if count acc = limit then Inr acc
        else emit_slots push count crc ps sl page_id limit indices acc))"

fun emit_walk ::
  "(bytes \<Rightarrow> entry_value \<Rightarrow> u64 \<Rightarrow> 'a \<Rightarrow> 'a) \<Rightarrow> ('a \<Rightarrow> nat) \<Rightarrow> (bytes \<Rightarrow> u32) \<Rightarrow> page_store \<Rightarrow> page \<Rightarrow> u64
     \<Rightarrow> bytes option \<Rightarrow> bytes option \<Rightarrow> nat \<Rightarrow> bytes option \<Rightarrow> nat \<Rightarrow> nat \<Rightarrow> 'a \<Rightarrow> vyrn_error + 'a" where
  "emit_walk push count crc ps p page_id start until limit excluded 0 offset acc = Inr acc"
| "emit_walk push count crc ps p page_id start until limit excluded (Suc n) offset acc =
     ebind (leaf_cell_key crc ps p page_id offset) (\<lambda>(key, behind).
     ebind (leaf_cell_value p page_id offset behind) (\<lambda>(v, next).
     if (case start of Some a \<Rightarrow> key < a | None \<Rightarrow> False)
     then emit_walk push count crc ps p page_id start until limit excluded n next acc
     else if (case until of Some e \<Rightarrow> e \<le> key | None \<Rightarrow> False) then Inr acc
     else if \<not> wanted excluded key
     then emit_walk push count crc ps p page_id start until limit excluded n next acc
     else let acc = push key v (read_u64 p (offset + 25)) acc
          in if count acc = limit then Inr acc
             else emit_walk push count crc ps p page_id start until limit excluded n next acc))"

definition emit_leaf ::
  "(bytes \<Rightarrow> entry_value \<Rightarrow> u64 \<Rightarrow> 'a \<Rightarrow> 'a) \<Rightarrow> ('a \<Rightarrow> nat) \<Rightarrow> (bytes \<Rightarrow> u32) \<Rightarrow> page_store \<Rightarrow> page \<Rightarrow> u64
     \<Rightarrow> bytes option \<Rightarrow> bytes option \<Rightarrow> nat \<Rightarrow> bytes option \<Rightarrow> 'a \<Rightarrow> vyrn_error + 'a" where
  "emit_leaf push count crc ps p page_id start until limit excluded acc =
     (let n = unat (read_u32 p 20)
      in if MAX_LEAF_ENTRIES < n then Inl (leaf_claims page_id n)
         else case page_slots p n of
                Some sl \<Rightarrow>
                  ebind (leaf_emit_segments crc ps sl page_id start until excluded) (\<lambda>segments.
                  emit_slots push count crc ps sl page_id limit (segment_indices segments) acc)
              | None \<Rightarrow> emit_walk push count crc ps p page_id start until limit excluded n HEADER_SIZE acc)"

text \<open>The descent both scans have, over the leaf walk and the count of the scan.\<close>

fun scan_tree ::
  "(page \<Rightarrow> u64 \<Rightarrow> 's \<Rightarrow> vyrn_error + 's) \<Rightarrow> ('s \<Rightarrow> nat) \<Rightarrow> (bytes \<Rightarrow> u32) \<Rightarrow> page_store
     \<Rightarrow> bytes option \<Rightarrow> bytes option \<Rightarrow> nat \<Rightarrow> nat \<Rightarrow> u64 \<Rightarrow> 's \<Rightarrow> vyrn_error + 's" where
  "scan_tree leaf count crc ps start until limit 0 page_id s = Inl (excessive_depth page_id)"
| "scan_tree leaf count crc ps start until limit (Suc n) page_id s =
     (if limit \<le> count s then Inr s
      else on_page crc ps page_id
             (\<lambda>p. leaf p page_id s)
             (\<lambda>p. scan_children crc ps p page_id start until
                    (\<lambda>child s. ebind (scan_tree leaf count crc ps start until limit n child s) (\<lambda>s.
                               Inr (s, limit \<le> count s))) s))"

section \<open>The materialising scan\<close>

type_synonym scan_row = "bytes \<times> bytes \<times> u64"

definition pt_read_many :: "(bytes \<Rightarrow> u32) \<Rightarrow> page_tree \<Rightarrow> value_ref list \<Rightarrow> vyrn_error + bytes list" where
  "pt_read_many crc t refs = fst (read_many crc (pt_values t) refs)"

text \<open>A row joins the result; a spilled value leaves a placeholder and is owed.\<close>

definition push_row ::
  "bytes \<Rightarrow> entry_value \<Rightarrow> u64 \<Rightarrow> scan_row list \<times> (nat \<times> value_ref) list
     \<Rightarrow> scan_row list \<times> (nat \<times> value_ref) list" where
  "push_row key v revision = (\<lambda>(rows, pending).
     case v of
       External r \<Rightarrow> (rows @ [(key, [], revision)], pending @ [(length rows, r)])
     | Inline b \<Rightarrow> (rows @ [(key, b, revision)], pending))"

definition settle_rows ::
  "(bytes \<Rightarrow> u32) \<Rightarrow> page_tree \<Rightarrow> scan_row list \<times> (nat \<times> value_ref) list \<Rightarrow> vyrn_error + scan_row list" where
  "settle_rows crc t = (\<lambda>(rows, pending).
     if pending = [] then Inr rows
     else ebind (pt_read_many crc t (map snd pending)) (\<lambda>vs.
          Inr (fold (\<lambda>((slot, _), v) rows. rows[slot := (fst (rows ! slot), v, snd (snd (rows ! slot)))])
                 (zip pending vs) rows)))"

definition scan_leaf ::
  "(bytes \<Rightarrow> u32) \<Rightarrow> page_tree \<Rightarrow> bytes option \<Rightarrow> bytes option \<Rightarrow> nat \<Rightarrow> bytes option
     \<Rightarrow> page \<Rightarrow> u64 \<Rightarrow> scan_row list \<Rightarrow> vyrn_error + scan_row list" where
  "scan_leaf crc t start until limit excluded p page_id rows =
     ebind (emit_leaf push_row (length \<circ> fst) crc (pt_pages t) p page_id start until limit excluded (rows, []))
       (settle_rows crc t)"

definition scan_node ::
  "(bytes \<Rightarrow> u32) \<Rightarrow> page_tree \<Rightarrow> bytes option \<Rightarrow> bytes option \<Rightarrow> nat \<Rightarrow> bytes option \<Rightarrow> nat \<Rightarrow> u64
     \<Rightarrow> scan_row list \<Rightarrow> vyrn_error + scan_row list" where
  "scan_node crc t start until limit excluded =
     scan_tree (scan_leaf crc t start until limit excluded) length crc (pt_pages t) start until limit"

definition scan_shared_with_revisions ::
  "(bytes \<Rightarrow> u32) \<Rightarrow> page_tree \<Rightarrow> bytes option \<Rightarrow> bytes option \<Rightarrow> nat \<Rightarrow> bytes option
     \<Rightarrow> vyrn_error + scan_row list" where
  "scan_shared_with_revisions crc t start until limit excluded =
     (if pt_root t \<noteq> 0 \<and> limit \<noteq> 0
      then scan_node crc t start until limit excluded MAX_TREE_DEPTH (pt_root t) []
      else Inr [])"

text \<open>The copying wrappers: owned rows, without a prefix to exclude, and without revisions.\<close>

definition scan_with_revisions_excluding_prefix ::
  "(bytes \<Rightarrow> u32) \<Rightarrow> page_tree \<Rightarrow> bytes option \<Rightarrow> bytes option \<Rightarrow> nat \<Rightarrow> bytes option
     \<Rightarrow> vyrn_error + scan_row list" where
  "scan_with_revisions_excluding_prefix crc t start until limit excluded =
     ebind (scan_shared_with_revisions crc t start until limit excluded) (\<lambda>rows.
     Inr (map (\<lambda>(key, v, revision). (key, v, revision)) rows))"

definition scan_with_revisions ::
  "(bytes \<Rightarrow> u32) \<Rightarrow> page_tree \<Rightarrow> bytes option \<Rightarrow> bytes option \<Rightarrow> nat \<Rightarrow> vyrn_error + scan_row list" where
  "scan_with_revisions crc t start until limit =
     scan_with_revisions_excluding_prefix crc t start until limit None"

definition scan_excluding_prefix ::
  "(bytes \<Rightarrow> u32) \<Rightarrow> page_tree \<Rightarrow> bytes option \<Rightarrow> bytes option \<Rightarrow> nat \<Rightarrow> bytes option
     \<Rightarrow> vyrn_error + (bytes \<times> bytes) list" where
  "scan_excluding_prefix crc t start until limit excluded =
     ebind (scan_with_revisions_excluding_prefix crc t start until limit excluded) (\<lambda>rows.
     Inr (map (\<lambda>(key, v, _). (key, v)) rows))"

section \<open>The visitor scan\<close>

text \<open>
  The state of a visit: the rows counted so far and the calls made to the visitor,
  in order.  From the first spilled value of a leaf on, its rows are deferred.
\<close>

type_synonym visit_state = "nat \<times> (bytes \<times> bytes) list"
type_synonym deferred = "(bytes \<times> entry_value) list option"

definition visit_row ::
  "bytes \<Rightarrow> entry_value \<Rightarrow> visit_state \<times> deferred \<Rightarrow> visit_state \<times> deferred" where
  "visit_row key v = (\<lambda>((emitted, visits), deferred).
     case (deferred, v) of
       (None, Inline b) \<Rightarrow> ((emitted + 1, visits @ [(key, b)]), None)
     | (None, External r) \<Rightarrow> ((emitted + 1, visits), Some [(key, External r)])
     | (Some owed, v) \<Rightarrow> ((emitted + 1, visits), Some (owed @ [(key, v)])))"

fun owed_refs :: "(bytes \<times> entry_value) list \<Rightarrow> value_ref list" where
  "owed_refs [] = []"
| "owed_refs ((key, External r) # owed) = r # owed_refs owed"
| "owed_refs ((key, Inline b) # owed) = owed_refs owed"

fun visit_owed :: "(bytes \<times> entry_value) list \<Rightarrow> bytes list \<Rightarrow> (bytes \<times> bytes) list" where
  "visit_owed [] vs = []"
| "visit_owed ((key, Inline b) # owed) vs = (key, b) # visit_owed owed vs"
| "visit_owed ((key, External r) # owed) vs = (key, hd vs) # visit_owed owed (tl vs)"

definition settle_visits ::
  "(bytes \<Rightarrow> u32) \<Rightarrow> page_tree \<Rightarrow> visit_state \<times> deferred \<Rightarrow> vyrn_error + visit_state" where
  "settle_visits crc t = (\<lambda>((emitted, visits), deferred).
     case deferred of
       None \<Rightarrow> Inr (emitted, visits)
     | Some owed \<Rightarrow> ebind (pt_read_many crc t (owed_refs owed)) (\<lambda>vs.
                   Inr (emitted, visits @ visit_owed owed vs)))"

definition visit_leaf ::
  "(bytes \<Rightarrow> u32) \<Rightarrow> page_tree \<Rightarrow> bytes option \<Rightarrow> bytes option \<Rightarrow> nat \<Rightarrow> bytes option
     \<Rightarrow> page \<Rightarrow> u64 \<Rightarrow> visit_state \<Rightarrow> vyrn_error + visit_state" where
  "visit_leaf crc t start until limit excluded p page_id s =
     ebind (emit_leaf (\<lambda>key v _. visit_row key v) (fst \<circ> fst) crc (pt_pages t) p page_id start until limit excluded
              (s, None))
       (settle_visits crc t)"

definition scan_visit_node ::
  "(bytes \<Rightarrow> u32) \<Rightarrow> page_tree \<Rightarrow> bytes option \<Rightarrow> bytes option \<Rightarrow> nat \<Rightarrow> bytes option \<Rightarrow> nat \<Rightarrow> u64
     \<Rightarrow> visit_state \<Rightarrow> vyrn_error + visit_state" where
  "scan_visit_node crc t start until limit excluded =
     scan_tree (visit_leaf crc t start until limit excluded) fst crc (pt_pages t) start until limit"

definition scan_visit ::
  "(bytes \<Rightarrow> u32) \<Rightarrow> page_tree \<Rightarrow> bytes option \<Rightarrow> bytes option \<Rightarrow> nat \<Rightarrow> bytes option
     \<Rightarrow> vyrn_error + (bytes \<times> bytes) list" where
  "scan_visit crc t start until limit excluded =
     (if pt_root t = 0 \<or> limit = 0 then Inr []
      else ebind (scan_visit_node crc t start until limit excluded MAX_TREE_DEPTH (pt_root t) (0, [])) (\<lambda>s.
           Inr (snd s)))"

section \<open>The rows of a range\<close>

abbreviation selected :: "bytes option \<Rightarrow> bytes option \<Rightarrow> bytes option \<Rightarrow> entry \<Rightarrow> bool" where
  "selected start until excluded e \<equiv> in_range start until (en_key e) \<and> wanted excluded (en_key e)"

subsection \<open>The slot segments of a range\<close>

text \<open>The two routines for the end of a prefix agree.\<close>

lemma prefix_successor_end: "prefix_successor p = prefix_end p"
proof (cases "prefix_end p")
  case None
  then have "\<forall>b \<in> set p. b = 255" by (metis in_set_replicate prefix_end_None)
  then show ?thesis using None by (simp add: prefix_successor_def rposition_None split: option.split)
next
  case (Some e)
  then obtain q b n where p: "p = q @ b # replicate n 255" "b \<noteq> 255" "e = q @ [b + 1]"
    by (rule prefix_end_Some)
  have "rposition (\<lambda>b :: byte. b \<noteq> 255) (replicate n 255) = None" by (simp add: rposition_None)
  then have "rposition (\<lambda>b. b \<noteq> 255) p = Some (length q)"
    using p(1,2) by (simp add: rposition_append)
  then show ?thesis using Some p by (simp add: prefix_successor_def nth_append)
qed

lemma starts_with_bounds:
  "starts_with k p \<longleftrightarrow> p \<le> k \<and> (case prefix_successor p of None \<Rightarrow> True | Some s \<Rightarrow> k < s)"
  using prefix_end_bound[of p _ k] prefix_end_unbounded[of p k]
  by (auto simp: prefix_successor_end split: option.split)

definition lower :: "entry list \<Rightarrow> bytes \<Rightarrow> nat" where
  "lower es target = length (takeWhile (\<lambda>e. en_key e < target) es)"

lemma lower_less:
  assumes "sorted_entries es" "i < length es"
  shows "en_key (es ! i) < target \<longleftrightarrow> i < lower es target"
proof
  assume "i < lower es target"
  then show "en_key (es ! i) < target"
    using nth_mem[of i "takeWhile (\<lambda>e. en_key e < target) es"] takeWhile_nth[of i "\<lambda>e. en_key e < target" es]
    by (auto simp: lower_def dest!: set_takeWhileD)
next
  assume key: "en_key (es ! i) < target"
  show "i < lower es target"
  proof (rule ccontr)
    assume "\<not> i < lower es target"
    then have j: "lower es target \<le> i" by simp
    then have "\<not> en_key (es ! lower es target) < target"
      using assms(2) nth_length_takeWhile[of "\<lambda>e. en_key e < target" es] by (simp add: lower_def)
    moreover have "en_key (es ! lower es target) \<le> en_key (es ! i)"
      using sorted_entries_nth[OF assms(1), of "lower es target" i] j assms(2) by (cases "lower es target = i") auto
    ultimately show False using key by simp
  qed
qed

lemma lower_le: "lower es target \<le> length es"
  by (simp add: lower_def length_takeWhile_le)

lemma filter_upt_gap:
  assumes "a \<le> b" "b \<le> c" "c \<le> d" "d \<le> n"
  shows "filter (\<lambda>i. a \<le> i \<and> i < d \<and> \<not> (b \<le> i \<and> i < c)) [0..<n] = [a..<b] @ [c..<d]"
proof (rule sorted_distinct_set_unique)
  show "sorted (filter (\<lambda>i. a \<le> i \<and> i < d \<and> \<not> (b \<le> i \<and> i < c)) [0..<n])"
    by (simp add: sorted_wrt_filter)
qed (use assms in \<open>auto simp: sorted_append\<close>)

lemma filter_by_index: "filter P es = map ((!) es) (filter (\<lambda>i. P (es ! i)) [0..<length es])"
proof -
  have "filter P es = filter P (map ((!) es) [0..<length es])" by (simp only: map_nth)
  then show ?thesis by (simp add: filter_map comp_def)
qed

lemma clamp_bounds: "lo \<le> hi \<Longrightarrow> lo \<le> clamp x lo hi \<and> clamp x lo hi \<le> hi"
  by (simp add: clamp_def)

lemma leaf_emit_segments_read:
  assumes "leaf_layout crc ps p es" "p ! 4 = PAGE_VERSION" "sorted_entries es"
  obtains segments where
    "leaf_emit_segments crc ps
       \<lparr> sl_page = p, sl_count = length es, sl_dir_start = PAGE_SIZE - length es * SLOT_SIZE \<rparr>
       page_id start until excluded = Inr segments"
    "map ((!) es) (segment_indices segments) = filter (selected start until excluded) es"
    "\<forall>i \<in> set (segment_indices segments). i < length es"
proof -
  let ?sl = "\<lparr> sl_page = p, sl_count = length es, sl_dir_start = PAGE_SIZE - length es * SLOT_SIZE \<rparr>"
  let ?n = "length es"
  have lb: "leaf_lower_bound crc ps ?sl page_id target = Inr (lower es target)" for target
    using leaf_lower_bound_read[OF assms] by (simp add: lower_def)
  define first where "first = (case start of Some a \<Rightarrow> lower es a | None \<Rightarrow> 0)"
  define final where "final = (case until of Some b \<Rightarrow> max (lower es b) first | None \<Rightarrow> ?n)"
  define skip where "skip = (case excluded of
      Some x \<Rightarrow> (clamp (lower es x) first final,
        clamp (case prefix_successor x of Some s \<Rightarrow> lower es s | None \<Rightarrow> ?n) first final)
    | None \<Rightarrow> (final, final))"
  let ?seg = "((first, fst skip), (snd skip, final))"
  have run: "leaf_emit_segments crc ps ?sl page_id start until excluded = Inr ?seg"
    by (auto simp: leaf_emit_segments_def lb first_def final_def skip_def split: option.split)
  have bounds: "first \<le> final" "final \<le> ?n"
    using lower_le[of es] by (auto simp: first_def final_def split: option.split)
  have mono: "lower es x \<le> (case prefix_successor x of Some s \<Rightarrow> lower es s | None \<Rightarrow> ?n)" for x
  proof (cases "prefix_successor x")
    case (Some s)
    then have "x < s" using starts_with_bounds[of x x] by simp
    then have "takeWhile (\<lambda>e. en_key e < x) es = takeWhile (\<lambda>e. en_key e < x) (takeWhile (\<lambda>e. en_key e < s) es)"
      by (induction es) (auto intro: less_trans)
    then show ?thesis using Some length_takeWhile_le unfolding lower_def by (metis option.simps(5))
  qed (simp add: lower_le)
  have clamp_mono: "clamp i first final \<le> clamp j first final" if "i \<le> j" for i j
    using that bounds by (auto simp: clamp_def)
  have skips: "first \<le> fst skip" "fst skip \<le> snd skip" "snd skip \<le> final"
    using bounds clamp_bounds[OF bounds(1)] clamp_mono[OF mono]
    by (auto simp: skip_def split: option.split)
  have lt: "en_key (es ! i) < target \<longleftrightarrow> i < lower es target"
    and ge: "target \<le> en_key (es ! i) \<longleftrightarrow> lower es target \<le> i" if "i < ?n" for i target
    using lower_less[OF assms(3) that, of target] by (simp, metis not_le)
  have range: "in_range start until (en_key (es ! i)) \<longleftrightarrow> first \<le> i \<and> i < final" if "i < ?n" for i
    using that by (cases start; cases until) (auto simp: in_range_def first_def final_def lt ge)
  have excl: "wanted excluded (en_key (es ! i)) \<longleftrightarrow> \<not> (fst skip \<le> i \<and> i < snd skip)"
    if "i < ?n" "first \<le> i" "i < final" for i
  proof (cases excluded)
    case (Some x)
    have "starts_with (en_key (es ! i)) x \<longleftrightarrow>
        lower es x \<le> i \<and> i < (case prefix_successor x of Some s \<Rightarrow> lower es s | None \<Rightarrow> ?n)"
      using that(1) by (auto simp: starts_with_bounds lt ge split: option.split)
    then show ?thesis using Some that by (auto simp: wanted_def skip_def clamp_def)
  qed (use that in \<open>simp add: wanted_def skip_def\<close>)
  have "filter (\<lambda>i. selected start until excluded (es ! i)) [0..<?n] =
      filter (\<lambda>i. first \<le> i \<and> i < final \<and> \<not> (fst skip \<le> i \<and> i < snd skip)) [0..<?n]"
    using range excl by (intro filter_cong) auto
  also have "\<dots> = segment_indices ?seg"
    using skips bounds by (subst filter_upt_gap) (simp_all add: segment_indices_def)
  finally have "map ((!) es) (segment_indices ?seg) = filter (selected start until excluded) es"
    by (simp add: filter_by_index[of "selected start until excluded" es])
  moreover have "\<forall>i \<in> set (segment_indices ?seg). i < ?n"
    using skips bounds by (auto simp: segment_indices_def)
  ultimately show ?thesis using that[OF run] by blast
qed

subsection \<open>Walking a leaf\<close>

text \<open>What a scan does with a row, as the walks need it: each row counts once.\<close>

locale row_collector =
  fixes push :: "bytes \<Rightarrow> entry_value \<Rightarrow> u64 \<Rightarrow> 'a \<Rightarrow> 'a"
    and count :: "'a \<Rightarrow> nat"
  assumes count_push: "count (push key v revision a) = Suc (count a)"
begin

definition after :: "'a \<Rightarrow> entry list \<Rightarrow> 'a" where
  "after a es = foldl (\<lambda>a e. push (en_key e) (en_value e) (en_revision e) a) a es"

lemma after_simps [simp]:
  "after a [] = a" "after a (e # es) = after (push (en_key e) (en_value e) (en_revision e) a) es"
  by (simp_all add: after_def)

lemma emit_slots_read:
  assumes "leaf_layout crc ps p es" "p ! 4 = PAGE_VERSION" "\<forall>i \<in> set indices. i < length es" "count a < limit"
  shows "emit_slots push count crc ps
      \<lparr> sl_page = p, sl_count = length es, sl_dir_start = PAGE_SIZE - length es * SLOT_SIZE \<rparr> page_id limit indices a =
    Inr (after a (take (limit - count a) (map ((!) es) indices)))"
  using assms(3,4)
proof (induction indices arbitrary: a)
  case (Cons i indices)
  let ?a = "push (en_key (es ! i)) (en_value (es ! i)) (en_revision (es ! i)) a"
  obtain k where k: "limit - count a = Suc k" "limit - count ?a = k"
    using Cons.prems(2) by (cases "limit - count a") (auto simp: count_push)
  have "emit_slots push count crc ps
      \<lparr> sl_page = p, sl_count = length es, sl_dir_start = PAGE_SIZE - length es * SLOT_SIZE \<rparr> page_id limit indices ?a =
      Inr (after ?a (take k (map ((!) es) indices)))" if "count ?a \<noteq> limit"
    using Cons.IH[of ?a] Cons.prems that k by (simp add: count_push)
  then show ?case
    using leaf_slot_reads(2)[OF assms(1,2), of i page_id] Cons.prems k
    by (cases "count ?a = limit") (auto simp: Let_def)
qed simp

lemma emit_walk_read:
  assumes "length p = PAGE_SIZE" "\<forall>e \<in> set es. entry_ok e" "sorted_entries es" "count a < limit"
    "\<And>i. i < length es \<Longrightarrow> leaf_cell_in crc ps p (off + span leaf_cell_size (take i es)) (es ! i)"
  shows "emit_walk push count crc ps p page_id start until limit excluded (length es) off a =
    Inr (after a (take (limit - count a) (filter (selected start until excluded) es)))"
  using assms
proof (induction es arbitrary: off a)
  case (Cons e es)
  have e: "leaf_cell_in crc ps p off e" "entry_ok e"
    using Cons.prems(2) Cons.prems(5)[of 0] by simp_all
  have cells: "leaf_cell_in crc ps p (off + leaf_cell_size e + span leaf_cell_size (take i es)) (es ! i)"
    if "i < length es" for i
    using Cons.prems(5)[of "Suc i"] that by (simp add: add.assoc)
  have IH: "emit_walk push count crc ps p page_id start until limit excluded (length es) (off + leaf_cell_size e) a =
      Inr (after a (take (limit - count a) (filter (selected start until excluded) es)))" if "count a < limit" for a
    using Cons.prems that cells by (intro Cons.IH) simp_all
  let ?a = "push (en_key e) (en_value e) (en_revision e) a"
  let ?past = "case until of Some b \<Rightarrow> b \<le> en_key e | None \<Rightarrow> False"
  have past: "filter (selected start until excluded) es = []" if ?past
    using that Cons.prems(3) by (auto simp: filter_empty_conv in_range_def split: option.splits)
  obtain k where k: "limit - count a = Suc k" "limit - count ?a = k"
    using Cons.prems(4) by (cases "limit - count a") (auto simp: count_push)
  let ?low = "case start of Some b \<Rightarrow> en_key e < b | None \<Rightarrow> False"
  have sel: "in_range start until (en_key e) \<longleftrightarrow> \<not> ?low \<and> \<not> ?past"
    by (auto simp: in_range_def split: option.split)
  have less: "count ?a \<noteq> limit \<Longrightarrow> count ?a < limit" using Cons.prems(4) by (simp add: count_push)
  show ?case
    using IH[OF Cons.prems(4)] IH[OF less] past k
    by (cases ?low; cases ?past; cases "wanted excluded (en_key e)"; cases "count ?a = limit")
      (simp_all add: leaf_cell_read[OF e Cons.prems(1)] Let_def sel)
qed simp

lemma emit_leaf_read:
  assumes "leaf_layout crc ps p es" "sorted_entries es" "count a < limit"
  shows "emit_leaf push count crc ps p page_id start until limit excluded a =
    Inr (after a (take (limit - count a) (filter (selected start until excluded) es)))"
proof (cases "p ! 4 = PAGE_VERSION")
  case True
  obtain segments where seg: "leaf_emit_segments crc ps
       \<lparr> sl_page = p, sl_count = length es, sl_dir_start = PAGE_SIZE - length es * SLOT_SIZE \<rparr>
       page_id start until excluded = Inr segments"
    "map ((!) es) (segment_indices segments) = filter (selected start until excluded) es"
    "\<forall>i \<in> set (segment_indices segments). i < length es"
    using leaf_emit_segments_read[OF assms(1) True assms(2)] .
  then show ?thesis
    using emit_slots_read[OF assms(1) True seg(3) assms(3), of page_id] assms(1) True
    by (simp add: emit_leaf_def page_slots_def leaf_layout_def Let_def)
next
  case False
  then show ?thesis
    using emit_walk_read[of p es a limit crc ps HEADER_SIZE page_id start until excluded] assms
    by (simp add: emit_leaf_def page_slots_def leaf_layout_def leaf_off_def Let_def)
qed

end

interpretation rows_collector: row_collector push_row "length \<circ> fst"
  by unfold_locales (auto simp: push_row_def split: entry_value.split)

interpretation visit_collector: row_collector "\<lambda>key v _. visit_row key v" "fst \<circ> fst"
  by unfold_locales (auto simp: visit_row_def split: entry_value.split option.split)

subsection \<open>Owed values\<close>

definition resolved :: "(bytes \<Rightarrow> u32) \<Rightarrow> page_tree \<Rightarrow> entry \<Rightarrow> scan_row" where
  "resolved crc t e = (en_key e, projr (read_value crc t (en_value e)), en_revision e)"

definition placeholder :: "entry \<Rightarrow> scan_row" where
  "placeholder e = (en_key e, (case en_value e of Inline b \<Rightarrow> b | External _ \<Rightarrow> []), en_revision e)"

fun owed_slots :: "nat \<Rightarrow> entry list \<Rightarrow> (nat \<times> value_ref) list" where
  "owed_slots k [] = []"
| "owed_slots k (e # es) =
     (case en_value e of External r \<Rightarrow> (k, r) # owed_slots (Suc k) es | Inline _ \<Rightarrow> owed_slots (Suc k) es)"

lemma push_row_simps:
  "push_row key (Inline b) revision (rows, pending) = (rows @ [(key, b, revision)], pending)"
  "push_row key (External r) revision (rows, pending) = (rows @ [(key, [], revision)], pending @ [(length rows, r)])"
  by (simp_all add: push_row_def)

lemma visit_row_simps:
  "visit_row key (Inline b) ((n, visits), None) = ((n + 1, visits @ [(key, b)]), None)"
  "visit_row key (External r) ((n, visits), None) = ((n + 1, visits), Some [(key, External r)])"
  "visit_row key v ((n, visits), Some owed) = ((n + 1, visits), Some (owed @ [(key, v)]))"
  by (simp_all add: visit_row_def)

lemma rows_after:
  "rows_collector.after (rows, pending) es = (rows @ map placeholder es, pending @ owed_slots (length rows) es)"
proof (induction es arbitrary: rows pending)
  case (Cons e es)
  then show ?case by (cases "en_value e") (simp_all add: push_row_simps placeholder_def[of e])
qed simp

text \<open>The batched read gives each owed value as reading it alone does.\<close>

definition ref_values :: "(bytes \<Rightarrow> u32) \<Rightarrow> page_tree \<Rightarrow> value_ref list \<Rightarrow> bytes list" where
  "ref_values crc t refs = map (\<lambda>r. projr (read_value crc t (External r))) refs"

lemma pt_read_many_read:
  assumes "vl_ok crc (pt_values t)" "\<forall>r \<in> set refs. \<exists>b. read_value crc t (External r) = Inr b"
  shows "pt_read_many crc t refs = Inr (ref_values crc t refs)"
proof -
  have "list_all2 (\<lambda>r v. file_read crc (vl_file (pt_values t)) r = Inr v) refs (ref_values crc t refs)"
    using assms(2) by (auto simp: list_all2_conv_all_nth ref_values_def read_value_file[OF assms(1)] dest!: nth_mem)
  then show ?thesis using read_many_file(1)[OF assms(1), of refs] by (simp add: pt_read_many_def)
qed

lemma owed_slots_fold:
  assumes "readable crc t es"
  shows "fold (\<lambda>((slot, _), v) rows. rows[slot := (fst (rows ! slot), v, snd (snd (rows ! slot)))])
      (zip (owed_slots (length pre) es) (ref_values crc t (map snd (owed_slots (length pre) es))))
      (pre @ map placeholder es) = pre @ map (resolved crc t) es"
  using assms
proof (induction es arbitrary: pre)
  case (Cons e es)
  note IH = Cons.IH[of "pre @ [resolved crc t e]"]
  show ?case
  proof (cases "en_value e")
    case (Inline b)
    then have "placeholder e = resolved crc t e" by (simp add: placeholder_def resolved_def read_value_def)
    then show ?thesis using IH Cons.prems Inline by simp
  next
    case (External r)
    then show ?thesis using IH Cons.prems
      by (simp add: placeholder_def resolved_def ref_values_def)
  qed
qed simp

lemma owed_slots_readable:
  "readable crc t es \<Longrightarrow> \<forall>r \<in> set (map snd (owed_slots k es)). \<exists>b. read_value crc t (External r) = Inr b"
proof (induction es arbitrary: k)
  case (Cons e es)
  then show ?case by (cases "en_value e") auto
qed simp

lemma settle_rows_read:
  assumes "vl_ok crc (pt_values t)" "readable crc t es"
  shows "settle_rows crc t (rows @ map placeholder es, owed_slots (length rows) es) =
    Inr (rows @ map (resolved crc t) es)"
  using pt_read_many_read[OF assms(1) owed_slots_readable[OF assms(2)], of "length rows"]
    owed_slots_fold[OF assms(2), of rows]
  by (auto simp: settle_rows_def)

abbreviation kv :: "scan_row \<Rightarrow> bytes \<times> bytes" where
  "kv row \<equiv> (fst row, fst (snd row))"

fun inline_prefix :: "entry list \<Rightarrow> entry list \<times> entry list" where
  "inline_prefix [] = ([], [])"
| "inline_prefix (e # es) =
     (case en_value e of
        Inline _ \<Rightarrow> let (a, b) = inline_prefix es in (e # a, b)
      | External _ \<Rightarrow> ([], e # es))"

lemma visits_owed:
  "visit_collector.after ((n, visits), Some owed) es =
     ((n + length es, visits), Some (owed @ map (\<lambda>e. (en_key e, en_value e)) es))"
proof (induction es arbitrary: n owed)
  case (Cons e es)
  then show ?case by (simp add: visit_row_simps)
qed simp

lemma visits_after:
  "visit_collector.after ((n, visits), None) es =
     (case inline_prefix es of (a, b) \<Rightarrow>
        ((n + length es, visits @ map (kv \<circ> placeholder) a),
         if b = [] then None else Some (map (\<lambda>e. (en_key e, en_value e)) b)))"
proof (induction es arbitrary: n visits)
  case (Cons e es)
  then show ?case
    by (cases "en_value e"; cases "inline_prefix es")
      (simp_all add: visit_row_simps visits_owed placeholder_def[of e])
qed simp

lemma inline_prefix_split: "inline_prefix es = (a, b) \<Longrightarrow> es = a @ b \<and> (\<forall>e \<in> set a. \<exists>v. en_value e = Inline v)"
proof (induction es arbitrary: a b)
  case (Cons e es)
  then show ?case by (cases "en_value e") (auto simp: Let_def split: prod.splits)
qed simp

lemma visit_owed_read:
  "readable crc t es \<Longrightarrow>
     visit_owed (map (\<lambda>e. (en_key e, en_value e)) es)
       (ref_values crc t (owed_refs (map (\<lambda>e. (en_key e, en_value e)) es))) = map (kv \<circ> resolved crc t) es"
proof (induction es)
  case (Cons e es)
  then show ?case by (cases "en_value e") (simp_all add: resolved_def read_value_def ref_values_def)
qed simp

lemma owed_refs_readable:
  "readable crc t es \<Longrightarrow>
     \<forall>r \<in> set (owed_refs (map (\<lambda>e. (en_key e, en_value e)) es)). \<exists>b. read_value crc t (External r) = Inr b"
proof (induction es)
  case (Cons e es)
  then show ?case by (cases "en_value e") auto
qed simp

lemma settle_visits_read:
  assumes "vl_ok crc (pt_values t)" "readable crc t es"
  shows "settle_visits crc t (visit_collector.after ((n, visits), None) es) =
    Inr (n + length es, visits @ map (kv \<circ> resolved crc t) es)"
proof -
  obtain a b where ab: "inline_prefix es = (a, b)" by fastforce
  note es = inline_prefix_split[OF ab]
  have a: "map (kv \<circ> placeholder) a = map (kv \<circ> resolved crc t) a"
    using es by (auto simp: placeholder_def resolved_def read_value_def)
  have b: "readable crc t b" using assms(2) es by auto
  show ?thesis
    using pt_read_many_read[OF assms(1) owed_refs_readable[OF b]] visit_owed_read[OF b] ab es a
    by (auto simp: visits_after settle_visits_def)
qed

section \<open>Scanning the tree\<close>

text \<open>
  A scan of the whole tree, from what its leaf walk does: the leaf adds the
  selected entries up to the limit.
\<close>

locale row_scan =
  fixes leaf :: "page \<Rightarrow> u64 \<Rightarrow> 's \<Rightarrow> vyrn_error + 's"
    and count :: "'s \<Rightarrow> nat"
    and emit :: "'s \<Rightarrow> entry list \<Rightarrow> 's"
    and ok :: "entry list \<Rightarrow> bool"
    and crc :: "bytes \<Rightarrow> u32" and ps :: page_store
    and start :: "bytes option" and until :: "bytes option" and limit :: nat and excluded :: "bytes option"
  assumes emit_Nil: "emit s [] = s"
    and emit_append: "emit (emit s es) fs = emit s (es @ fs)"
    and count_emit: "count (emit s es) = count s + length es"
    and ok_append: "ok (es @ fs) \<Longrightarrow> ok es \<and> ok fs"
    and leaf_read: "leaf_layout crc ps p es \<Longrightarrow> sorted_entries es \<Longrightarrow> ok es \<Longrightarrow> count s < limit \<Longrightarrow>
      leaf p page_id s = Inr (emit s (take (limit - count s) (filter (selected start until excluded) es)))"
begin

abbreviation pick :: "entry list \<Rightarrow> entry list" where
  "pick es \<equiv> filter (selected start until excluded) es"

definition emitted :: "'s \<Rightarrow> entry list \<Rightarrow> 's" where
  "emitted s es = emit s (take (limit - count s) (pick es))"

lemma emitted_append:
  "emitted (emitted s es) fs = emitted s (es @ fs)"
proof -
  have "min (length (pick es)) (limit - count s) + (limit - (count s + min (length (pick es)) (limit - count s))) =
      (if length (pick es) \<le> limit - count s then limit - count s else limit - count s)"
    by auto
  then show ?thesis
    by (auto simp: emitted_def emit_append count_emit take_append min_def)
qed

lemma emitted_none: "pick es = [] \<Longrightarrow> emitted s es = s"
  by (simp add: emitted_def emit_Nil)

lemma emitted_full: "limit \<le> count s \<Longrightarrow> emitted s es = s"
  by (simp add: emitted_def emit_Nil)

lemma pick_below: "start = Some a \<Longrightarrow> k \<le> a \<Longrightarrow> \<forall>e \<in> set es. en_key e < k \<Longrightarrow> pick es = []"
  by (auto simp: filter_empty_conv in_range_def)

lemma pick_above: "until = Some b \<Longrightarrow> b \<le> m \<Longrightarrow> \<forall>e \<in> set es. m \<le> en_key e \<Longrightarrow> pick es = []"
  by (auto simp: filter_empty_conv in_range_def)

lemma scan_cells_read:
  assumes "length p = PAGE_SIZE" "branches_ok sub ((c, es) # bs)"
    "\<And>i. i < length bs \<Longrightarrow> internal_cell_in crc ps p (off + span node_size (take i (map fst bs))) (fst (bs ! i))"
    "\<forall>b \<in> set bs. nr_page_id (fst b) \<noteq> page_id"
    "\<And>b s. b \<in> set ((c, es) # bs) \<Longrightarrow>
       descend (nr_page_id (fst b)) s = Inr (emitted s (snd b), limit \<le> count (emitted s (snd b)))"
    "\<forall>m. child_min = Some m \<longrightarrow> (\<forall>e \<in> set (es @ below bs). m \<le> en_key e)"
  shows "scan_cells crc ps descend p page_id start until (length bs) off (nr_page_id c) child_min s =
    Inr (emitted s (es @ below bs))"
  using assms(2-)
proof (induction bs arbitrary: off c es child_min s)
  case Nil
  have "pick es = []" if "case (until, child_min) of (Some e, Some m) \<Rightarrow> e \<le> m | _ \<Rightarrow> False"
    using that Nil.prems(5) pick_above[of _ _ es] by (auto split: option.splits)
  then show ?case using Nil.prems(4)[of "(c, es)" s] emitted_none[of es s] by auto
next
  case (Cons b bs)
  obtain d fs where b: "b = (d, fs)" by (cases b)
  have d: "internal_cell_in crc ps p off d" "separator_ok (nr_min_key d)" "nr_page_id d \<noteq> page_id"
    using Cons.prems(1,3) Cons.prems(2)[of 0] by (simp_all add: b branches_ok_def)
  have ok: "branches_ok sub ((d, fs) # bs)" using Cons.prems(1) by (auto simp: branches_ok_def b)
  have "internal_cell_in crc ps p (off + node_size d + span node_size (take i (map fst bs))) (fst (bs ! i))"
    if "i < length bs" for i
    using Cons.prems(2)[of "Suc i"] that by (simp add: add.assoc b)
  then have IH: "scan_cells crc ps descend p page_id start until (length bs) (off + node_size d) (nr_page_id d)
      (Some (nr_min_key d)) s = Inr (emitted s (fs @ below bs))" for s
    using Cons.prems(3,4) first_fence[OF ok] ok by (intro Cons.IH) (auto simp: b)
  have left: "\<forall>e \<in> set es. en_key e < nr_min_key d" using Cons.prems(1) by (auto simp: branches_ok_def b)
  let ?skip = "(case start of Some a \<Rightarrow> nr_min_key d \<le> a | None \<Rightarrow> False) \<or>
    (case (until, child_min) of (Some e, Some m) \<Rightarrow> e \<le> m | _ \<Rightarrow> False)"
  have "pick es = []" if ?skip
    using that left Cons.prems(5) pick_above[of _ _ es] pick_below[of _ "nr_min_key d" es]
    by (auto split: option.splits)
  then have skip: "emitted s es = s" if ?skip using that emitted_none by blast
  have full: "emitted (emitted s es) (fs @ below bs) = emitted s es" if "limit \<le> count (emitted s es)"
    using that by (rule emitted_full)
  show ?case
    using internal_cell_read[OF d(1,2) assms(1), of True page_id] d(3) IH skip full Cons.prems(4)[of "(c, es)" s]
      emitted_append[of s es "fs @ below bs"]
    by (auto simp: b)
qed

lemma scan_tree_read:
  "wf_node crc ps h i es \<Longrightarrow> h < n \<Longrightarrow> ok es \<Longrightarrow>
     scan_tree leaf count crc ps start until limit n i s = Inr (emitted s es)"
proof (induction h arbitrary: n i es s)
  case 0
  then obtain m p where "n = Suc m" "read_page crc ps i = Inr p" "leaf_layout crc ps p es"
    by (cases n) (auto simp: leaf_page_def)
  with 0 leaf_read[of p es s i] emitted_full[of s es] show ?case
    by (auto simp: on_page_leaf emitted_def)
next
  case (Suc h)
  obtain first cs bs p where p: "read_page crc ps i = Inr p" "internal_layout crc ps p (nr_page_id first) cs"
    and bs: "map fst bs = first # cs" "branches_ok (wf_node crc ps h) bs" "es = below bs"
    and small: "\<forall>b \<in> set bs. unat (nr_page_id (fst b)) < unat i"
    using wf_node_SucE[OF Suc.prems(1)] by metis
  obtain m where n: "n = Suc m" "h < m" using Suc.prems(2) by (cases n) auto
  obtain fs bs' where bs': "bs = (first, fs) # bs'" "cs = map fst bs'" using bs(1) by (cases bs) auto
  have oks: "ok (snd b)" if b: "b \<in> set bs" for b
  proof -
    obtain xs ys where "bs = xs @ b # ys" using split_list[OF b] by blast
    then have "below bs = below xs @ snd b @ below ys" by simp
    then show ?thesis using Suc.prems(3) bs(3) ok_append by metis
  qed
  have each: "scan_tree leaf count crc ps start until limit m (nr_page_id (fst b)) s = Inr (emitted s (snd b))"
    if "b \<in> set bs" for b s
    using that bs(2) oks n(2) by (intro Suc.IH) (auto simp: branches_ok_def)
  let ?d = "\<lambda>child s. ebind (scan_tree leaf count crc ps start until limit m child s) (\<lambda>s. Inr (s, limit \<le> count s))"
  have "scan_cells crc ps ?d p i start until (length bs') HEADER_SIZE (nr_page_id first) None s = Inr (emitted s (fs @ below bs'))"
    using p(2) bs(2) bs' each small
    by (intro scan_cells_read[where sub = "wf_node crc ps h"]) (auto simp: internal_layout_def node_off_def)
  moreover have "nr_page_id first \<noteq> i" using small bs' by auto
  ultimately show ?case
    using p n(1) bs(3) bs' emitted_full[of s es]
    by (simp add: on_page_internal scan_children_def) (simp add: internal_layout_def)
qed

end

lemma scan_leaf_read:
  assumes "vl_ok crc (pt_values t)" "leaf_layout crc (pt_pages t) p es" "sorted_entries es" "readable crc t es"
    "length rows < limit"
  shows "scan_leaf crc t start until limit excluded p page_id rows =
    Inr (rows @ map (resolved crc t) (take (limit - length rows) (filter (selected start until excluded) es)))"
proof -
  let ?es = "take (limit - length rows) (filter (selected start until excluded) es)"
  have "readable crc t ?es" using assms(4) by (auto simp: readable_def dest: in_set_takeD)
  then show ?thesis
    using rows_collector.emit_leaf_read[OF assms(2,3), of "(rows, [])" limit page_id start until excluded]
      assms(5) settle_rows_read[OF assms(1), of ?es rows]
    by (simp add: scan_leaf_def rows_after)
qed

interpretation scan_rows: row_scan "scan_leaf crc t start until limit excluded" length
    "\<lambda>rows es. rows @ map (resolved crc t) es" "\<lambda>es. vl_ok crc (pt_values t) \<and> readable crc t es"
    crc "pt_pages t" start until limit excluded
  for crc t start until limit excluded
  by unfold_locales (auto simp: scan_leaf_read)

lemma visit_leaf_read:
  fixes start until excluded :: "bytes option"
  assumes "vl_ok crc (pt_values t)" "leaf_layout crc (pt_pages t) p es" "sorted_entries es" "readable crc t es"
    "fst s < limit"
  defines "fs \<equiv> take (limit - fst s) (filter (selected start until excluded) es)"
  shows "visit_leaf crc t start until limit excluded p page_id s =
    Inr (fst s + length fs, snd s @ map (kv \<circ> resolved crc t) fs)"
proof -
  have "readable crc t fs" using assms(4) by (auto simp: fs_def readable_def dest: in_set_takeD)
  then show ?thesis
    using visit_collector.emit_leaf_read[OF assms(2,3), of "(s, None)" limit page_id start until excluded]
      assms(5) settle_visits_read[OF assms(1), of fs "fst s" "snd s"]
    by (simp add: visit_leaf_def fs_def)
qed

interpretation scan_visits: row_scan "visit_leaf crc t start until limit excluded" fst
    "\<lambda>s es. (fst s + length es, snd s @ map (kv \<circ> resolved crc t) es)"
    "\<lambda>es. vl_ok crc (pt_values t) \<and> readable crc t es"
    crc "pt_pages t" start until limit excluded
  for crc t start until limit excluded
  by unfold_locales (auto simp: visit_leaf_read)

lemma resolved_rows:
  assumes "vl_ok crc (pt_values t)"
  shows "list_all2 (resolves crc (vl_file (pt_values t))) es rows \<Longrightarrow> rows = map (resolved crc t) es"
proof (induction rule: list_all2_induct)
  case (Cons e es row rows)
  then show ?case
    using read_value_file[OF assms, of "en_value e"]
    by (cases row) (auto simp: resolves_def resolved_def split: entry_value.splits)
qed simp

lemma tv_scan_resolved:
  "tv_scan (map (resolved crc t) es) start until limit excluded =
     map (resolved crc t) (take limit (filter (selected start until excluded) es))"
  by (simp add: tv_scan_def tv_range_filter filter_map comp_def resolved_def take_map)

lemma scan_shared_read:
  assumes "tree_rep crc t h rows" "h < MAX_TREE_DEPTH"
  shows "scan_shared_with_revisions crc t start until limit excluded = Inr (tv_scan rows start until limit excluded)"
proof -
  obtain es where es: "tree_entries crc t h es" "list_all2 (resolves crc (vl_file (pt_values t))) es rows"
    and ok: "vl_ok crc (pt_values t)" using assms(1) by (auto simp: tree_rep_def)
  note rows = resolved_rows[OF ok es(2)] and rd = tree_entries_readable[OF ok es(2)]
  show ?thesis
  proof (cases "pt_root t = 0 \<or> limit = 0")
    case True
    then show ?thesis using es(1) by (auto simp: scan_shared_with_revisions_def tree_entries_def rows tv_scan_resolved)
  next
    case False
    then show ?thesis
      using scan_rows.scan_tree_read[of crc t h "pt_root t" es MAX_TREE_DEPTH start until limit excluded "[]"]
        es(1) assms(2) ok rd
      by (simp add: scan_shared_with_revisions_def scan_node_def tree_entries_def rows tv_scan_resolved
          scan_rows.emitted_def)
  qed
qed

lemma scan_visit_read:
  assumes "tree_rep crc t h rows" "h < MAX_TREE_DEPTH"
  shows "scan_visit crc t start until limit excluded = Inr (map kv (tv_scan rows start until limit excluded))"
proof -
  obtain es where es: "tree_entries crc t h es" "list_all2 (resolves crc (vl_file (pt_values t))) es rows"
    and ok: "vl_ok crc (pt_values t)" using assms(1) by (auto simp: tree_rep_def)
  note rows = resolved_rows[OF ok es(2)] and rd = tree_entries_readable[OF ok es(2)]
  show ?thesis
  proof (cases "pt_root t = 0 \<or> limit = 0")
    case True
    then show ?thesis using es(1) by (auto simp: scan_visit_def tree_entries_def rows tv_scan_resolved)
  next
    case False
    then show ?thesis
      using scan_visits.scan_tree_read[of crc t h "pt_root t" es MAX_TREE_DEPTH start until limit excluded "(0, [])"]
        es(1) assms(2) ok rd
      by (simp add: scan_visit_def scan_visit_node_def tree_entries_def rows tv_scan_resolved
          scan_visits.emitted_def)
  qed
qed

end
