(* ===== verification/PageTree.thy ===== *)
theory PageTree
  imports TreeWrite TreeScan
begin

text \<open>
  What the page tree promises its callers, in one place: every read computes its
  specification from the rows the tree represents, and every mutation leaves a
  tree that represents the mutated rows next to the tree it started from.
\<close>

section \<open>A small tree\<close>

definition empty_tree :: page_tree where
  "empty_tree = \<lparr> pt_pages = [new_page SUPER 0], pt_values = empty_log 64, pt_root = 0, pt_len = 0 \<rparr>"

lemma empty_tree_rep: "tree_rep crc empty_tree h []"
  by (simp add: tree_rep_def tree_entries_def empty_tree_def store_ok_def new_page_fields)

definition sample_batch :: "(bytes \<times> mutation) list" where
  "sample_batch = [([98], MutPut [2] 7), ([97], MutPut [1] 7), ([99], MutPut [3] 7), ([98], MutDelete)]"

lemma sample_batch_rows: "tv_apply_batch sample_batch [] = [([97], [1], 7), ([99], [3], 7)]"
  by (simp add: sample_batch_def tv_apply_batch_def)

lemma sample_batch_premises:
  "\<forall>m \<in> set sample_batch. mutation_ok m"
  "length (vl_file (pt_values empty_tree)) + sum_list (map mutation_bytes sample_batch) < 2 ^ 64"
  "length (pt_pages empty_tree) + write_pages 0 (length ([] :: tree_rows) + length sample_batch) < 2 ^ 64"
  by (simp_all add: sample_batch_def empty_tree_def empty_log_def value_total_len_def value_consts
      write_pages_def apply_pages_def ITEM_PAGES_def MAX_STORED_KEY_SIZE_def MAX_KEY_SIZE_def MAX_VALUE_SIZE_def)

lemma depth_positive [simp]: "0 < MAX_TREE_DEPTH"
  by (simp add: MAX_TREE_DEPTH_def)

text \<open>The tree the sample batch leaves, published: a single leaf of two rows.\<close>

definition sample_tree :: page_tree where
  "sample_tree =
     (case prepare_batch sample_crc empty_tree sample_batch of
        (t, Inr (root, len)) \<Rightarrow> publish t root len | (t, Inl e) \<Rightarrow> t)"

lemma sample_tree_rep:
  obtains h where "tree_rep sample_crc sample_tree h [([97], [1], 7), ([99], [3], 7)]" "h < MAX_TREE_DEPTH"
proof -
  obtain t root len h where batch: "prepare_batch sample_crc empty_tree sample_batch = (t, Inr (root, len))"
    and "tree_rep sample_crc (publish t root len) h (tv_apply_batch sample_batch [])"
    "height_grows 0 h (length ([] :: tree_rows) + length sample_batch)"
    using prepare_batch_ok[OF empty_tree_rep depth_positive sample_batch_premises] by metis
  moreover from this(3) have "h < MAX_TREE_DEPTH"
  proof (rule contrapos_pp)
    assume "\<not> h < MAX_TREE_DEPTH"
    then have "3 \<le> h - Suc 0" "h \<noteq> 0" by (auto simp: MAX_TREE_DEPTH_def)
    moreover from this(1) have "2 ^ 3 \<le> (2 :: nat) ^ (h - Suc 0)" by (rule power_increasing) simp
    ultimately show "\<not> height_grows 0 h (length ([] :: tree_rows) + length sample_batch)"
      by (simp add: height_grows_def sample_batch_def)
  qed
  ultimately show ?thesis using that by (simp add: sample_batch_rows sample_tree_def batch)
qed

section \<open>Reads\<close>

text \<open>
  C6: on a tree that represents rows, the point reads answer from the rows: the
  value and revision of the key, or nothing.
\<close>

theorem point_reads_rows:
  assumes "tree_rep crc t h rows" "h < MAX_TREE_DEPTH"
  shows "get_with_revision crc t key = Inr (rget rows key) \<and> pt_get crc t key = Inr (tv_get rows key) \<and>
    pt_revision crc t key = Inr (tv_revision rows key) \<and> get_shared crc t key = Inr (tv_get rows key)"
  using get_with_revision_read[OF assms, of key] get_shared_get[of crc t key]
  by (simp add: pt_get_def pt_revision_def tv_get_def tv_revision_def)

theorem point_reads_rows_witness:
  "get_with_revision sample_crc sample_tree [99] = Inr (Some ([3], 7)) \<and> pt_get sample_crc sample_tree [98] = Inr None"
proof -
  obtain h where t: "tree_rep sample_crc sample_tree h [([97], [1], 7), ([99], [3], 7)]" "h < MAX_TREE_DEPTH"
    using sample_tree_rep .
  show ?thesis
    using point_reads_rows[OF t, of "[99]"] point_reads_rows[OF t, of "[98]"]
    by (simp add: tv_get_def)
qed

text \<open>
  C8: the batched reads, which merge a sorted list of keys against the tree in one
  pass, answer each key as a point read would.
\<close>

theorem batched_reads_rows:
  assumes "tree_rep crc t h rows" "h < MAX_TREE_DEPTH" "sorted_wrt (<) keys"
  shows "get_many_with_revision crc t keys = Inr (tv_get_many_with_revision rows keys) \<and>
    get_many_revisions crc t keys = Inr (tv_get_many_revisions rows keys)"
proof -
  have "map_option ((\<lambda>(v, r). (case v of Some b \<Rightarrow> b | None \<Rightarrow> [], r)) \<circ> (\<lambda>(v, r). (Some v, r))) x = x"
    for x :: "(bytes \<times> u64) option" by (cases x) auto
  moreover have "map_option (snd \<circ> (\<lambda>(v, r). (None :: bytes option, r))) x = map_option snd x"
    for x :: "(bytes \<times> u64) option" by (cases x) auto
  ultimately show ?thesis
    using collect_root_read[OF assms, of True] collect_root_read[OF assms, of False]
    by (simp add: get_many_with_revision_def get_many_revisions_def tv_get_many_with_revision_def
        tv_get_many_revisions_def tv_revision_def option.map_comp)
qed

theorem batched_reads_rows_witness:
  "get_many_with_revision sample_crc sample_tree [[97], [98], [99]] = Inr [Some ([1], 7), None, Some ([3], 7)]"
proof -
  obtain h where t: "tree_rep sample_crc sample_tree h [([97], [1], 7), ([99], [3], 7)]" "h < MAX_TREE_DEPTH"
    using sample_tree_rep .
  show ?thesis
    using batched_reads_rows[OF t, of "[[97], [98], [99]]"]
    by (simp add: tv_get_many_with_revision_def)
qed

text \<open>
  C5: range scans and visits, over pages with a slot directory and without one,
  return the first rows of the range that the excluded prefix leaves, up to the
  limit, with spilled values read back from the value log.
\<close>

theorem scans_rows:
  assumes "tree_rep crc t h rows" "h < MAX_TREE_DEPTH"
  shows "scan_shared_with_revisions crc t start until limit excluded = Inr (tv_scan rows start until limit excluded) \<and>
    scan_visit crc t start until limit excluded = Inr (map kv (tv_scan rows start until limit excluded))"
  using scan_shared_read[OF assms] scan_visit_read[OF assms] by simp

theorem scans_rows_witness:
  "scan_visit sample_crc sample_tree (Some [98]) None 10 None = Inr [([99], [3])]"
proof -
  obtain h where t: "tree_rep sample_crc sample_tree h [([97], [1], 7), ([99], [3], 7)]" "h < MAX_TREE_DEPTH"
    using sample_tree_rep .
  show ?thesis
    using scans_rows[OF t, of "Some [98]" None 10 None]
    by (simp add: tv_scan_def tv_range_filter in_range_def wanted_def)
qed

section \<open>Mutations\<close>

text \<open>
  C2: preparing a batch succeeds on a tree with room for its pages and values.  The
  tree it was prepared on still represents the old rows, on the extended page
  store; the published root represents the rows with the mutations applied in
  order, with their number as its length; and the tree grows by at most the
  logarithm of its entries.
\<close>

theorem prepare_batch_refines:
  assumes "tree_rep crc t h rows" "h < MAX_TREE_DEPTH" "\<forall>m \<in> set ms. mutation_ok m"
    and "length (vl_file (pt_values t)) + sum_list (map mutation_bytes ms) < 2 ^ 64"
    and "length (pt_pages t) + write_pages h (length rows + length ms) < 2 ^ 64"
  shows "\<exists>t' root len h'. prepare_batch crc t ms = (t', Inr (root, len)) \<and>
    tree_rep crc (publish t' root len) h' (tv_apply_batch ms rows) \<and> tree_rep crc t' h rows \<and>
    pt_root t' = pt_root t \<and> height_grows h h' (length rows + length ms)"
  using prepare_batch_ok[OF assms] by metis

theorem prepare_batch_refines_witness:
  "\<exists>t' root len h'. prepare_batch sample_crc empty_tree sample_batch = (t', Inr (root, len)) \<and>
    tree_rep sample_crc (publish t' root len) h' [([97], [1], 7), ([99], [3], 7)]"
  using prepare_batch_refines[OF empty_tree_rep depth_positive sample_batch_premises, of sample_crc]
  by (auto simp: sample_batch_rows)

text \<open>
  C10: a single delete of an absent key leaves the tree untouched and reports it; of
  a present key it gives a root that represents the rows without it, and the old
  root keeps the old rows.
\<close>

theorem prepare_delete_exact:
  assumes "tree_rep crc t h rows" "h < MAX_TREE_DEPTH"
    and "length (pt_pages t) + write_pages h (length rows + 1) < 2 ^ 64"
  shows "if rget rows key = None then prepare_delete crc t key = (t, Inr None)
    else \<exists>t' root len h'. prepare_delete crc t key = (t', Inr (Some (root, len))) \<and>
      tree_rep crc t' h rows \<and> tree_rep crc (publish t' root len) h' (rdel key rows)"
proof (cases "rget rows key")
  case None
  then show ?thesis using prepare_delete_ok(1)[OF assms] by simp
next
  case (Some x)
  then show ?thesis using prepare_delete_ok(2)[OF assms Some] by auto
qed

theorem prepare_delete_exact_witness:
  "prepare_delete sample_crc empty_tree [97] = (empty_tree, Inr None)"
  using prepare_delete_exact[OF empty_tree_rep[of sample_crc 0] depth_positive, of "[97]"]
  by (simp add: empty_tree_def write_pages_def apply_pages_def ITEM_PAGES_def)

end
