(* ===== verification/TreePut.thy ===== *)
theory TreePut
  imports PageTree
begin

text \<open>
  A single put of the page tree (\<open>prepare_put\<close> of
  \<open>crates/vyrn-core/src/page_tree.rs\<close>).  A put rewrites the leaf of its key and then each page on the
  path to it, bottom up, and a root is written by \<open>write_internal\<close> alone, without
  the packer: the lemmas bound the pages a split leaves by three, so that this
  last page always fits.
\<close>

section \<open>Definitions\<close>

text \<open>
  \<open>binary_search_by\<close> on the entries of a leaf, which are in strict key order: the
  position of the key, or the one to insert it at.
\<close>

definition find_entry :: "entry list \<Rightarrow> bytes \<Rightarrow> nat \<times> bool" where
  "find_entry es key =
     (let position = length (takeWhile (\<lambda>e. en_key e < key) es)
      in (position, position < length es \<and> en_key (es ! position) = key))"

fun rewrite_path ::
  "(bytes \<Rightarrow> u32) \<Rightarrow> page_store \<Rightarrow> node_ref list \<Rightarrow> (u64 \<times> nat) list
     \<Rightarrow> vyrn_error + (page_store \<times> node_ref list)" where
  "rewrite_path crc ps replacements [] = Inr (ps, replacements)"
| "rewrite_path crc ps replacements ((parent_id, index) # path) =
     ebind (read_internal_children crc ps parent_id) (\<lambda>children.
     ebind (write_internal_level crc ps (take index children @ replacements @ drop (index + 1) children))
       (\<lambda>(ps, replacements). rewrite_path crc ps replacements path))"

definition put_root ::
  "(bytes \<Rightarrow> u32) \<Rightarrow> page_store \<Rightarrow> node_ref list \<Rightarrow> vyrn_error + (page_store \<times> u64)" where
  "put_root crc ps replacements =
     (if length replacements = 1 then Inr (ps, nr_page_id (hd replacements))
      else ebind (write_internal crc ps replacements) (\<lambda>(ps, node). Inr (ps, nr_page_id node)))"

definition put_entry_at ::
  "(bytes \<Rightarrow> u32) \<Rightarrow> page_store \<Rightarrow> u64 \<Rightarrow> entry \<Rightarrow> vyrn_error + (page_store \<times> u64 \<times> bool)" where
  "put_entry_at crc ps root e =
     ebind (find_leaf crc ps (en_key e) MAX_TREE_DEPTH root []) (\<lambda>(leaf_id, path).
     ebind (read_leaf crc ps leaf_id) (\<lambda>es.
     let (position, found) = find_entry es (en_key e);
         es = (if found then es[position := e] else take position es @ e # drop position es)
     in ebind (write_leaf_level crc ps es) (\<lambda>(ps, replacements).
        ebind (rewrite_path crc ps replacements path) (\<lambda>(ps, replacements).
        ebind (put_root crc ps replacements) (\<lambda>(ps, root). Inr (ps, root, found))))))"

definition prepare_put ::
  "(bytes \<Rightarrow> u32) \<Rightarrow> page_tree \<Rightarrow> bytes \<Rightarrow> bytes \<Rightarrow> u64 \<Rightarrow> page_tree \<times> (vyrn_error + (u64 \<times> u64))" where
  "prepare_put crc t key v revision =
     (case store_value crc (pt_values t) v revision of
        Inl e \<Rightarrow> (t, Inl e)
      | Inr (stored, l) \<Rightarrow>
          let new_entry = \<lparr> en_key = key, en_value = stored, en_revision = revision \<rparr>;
              t = t\<lparr> pt_values := l \<rparr>
          in if pt_root t = 0
             then (case write_leaf crc (pt_pages t) [new_entry] of
                     Inl e \<Rightarrow> (t, Inl e)
                   | Inr (ps, node) \<Rightarrow> (t\<lparr> pt_pages := ps \<rparr>, Inr (nr_page_id node, 1)))
             else (case put_entry_at crc (pt_pages t) (pt_root t) new_entry of
                     Inl e \<Rightarrow> (t, Inl e)
                   | Inr (ps, root, found) \<Rightarrow>
                       (t\<lparr> pt_pages := ps \<rparr>, Inr (root, pt_len t + (if found then 0 else 1)))))"

section \<open>How many pages a split leaves\<close>

declare wf_node.simps [simp del]

fun tight :: "('a list \<Rightarrow> nat) \<Rightarrow> nat \<Rightarrow> 'a list list \<Rightarrow> bool" where
  "tight f n (a # b # cs) \<longleftrightarrow> n < f a + f b \<and> tight f n (b # cs)"
| "tight f n cs \<longleftrightarrow> True"

lemma tight_count: "tight f n cs \<Longrightarrow> Suc n * (length cs div 2) \<le> sum_list (map f cs)"
proof (induction cs rule: induct_list012)
  case (3 a b cs)
  have "tight f n cs" using 3(3) by (cases cs) auto
  with 3 show ?case by auto
qed simp_all

lemma leaf_chunks_tight:
  "leaf_chunks used cur es = Inr chunks \<Longrightarrow> used = HEADER_SIZE + span leaf_cost cur \<Longrightarrow>
     tight (span leaf_cost) (PAGE_SIZE - HEADER_SIZE) chunks \<and> chunks \<noteq> [] \<and> span leaf_cost cur \<le> span leaf_cost (hd chunks)"
proof (induction used cur es arbitrary: chunks rule: leaf_chunks.induct)
  case (2 used cur e es)
  let ?size = "leaf_cell_size e + SLOT_SIZE"
  have size: "leaf_cost e = ?size" by (simp add: leaf_cost_def)
  have fits: "\<not> PAGE_SIZE - HEADER_SIZE < ?size" using "2.prems"(1) by (auto simp: Let_def split: if_splits)
  show ?case
  proof (cases "PAGE_SIZE < used + ?size \<and> cur \<noteq> []")
    case True
    then obtain rest where rest: "leaf_chunks (HEADER_SIZE + ?size) [e] es = Inr rest" "chunks = cur # rest"
      using "2.prems"(1) fits by (auto simp: Let_def ebind_Inr_iff split: if_splits)
    then have "tight (span leaf_cost) (PAGE_SIZE - HEADER_SIZE) rest" "rest \<noteq> []" "leaf_cost e \<le> span leaf_cost (hd rest)"
      using "2.IH"(1)[OF refl fits True rest(1)] size by auto
    moreover have "PAGE_SIZE - HEADER_SIZE < span leaf_cost cur + leaf_cost e" using True "2.prems"(2) size by (simp add: size_consts)
    ultimately show ?thesis using rest(2) by (cases rest) auto
  next
    case False
    then have "leaf_chunks (used + ?size) (cur @ [e]) es = Inr chunks"
      using "2.prems"(1) fits by (auto simp: Let_def split: if_splits)
    from "2.IH"(2)[OF refl fits False this] "2.prems"(2) size show ?thesis by auto
  qed
qed auto

lemma leaf_span: 
  assumes "wf_node crc ps 0 i es"
  shows "span leaf_cost es \<le> 4300"
proof -
  obtain p where p: "leaf_layout crc ps p es" using wf_node_leaf[OF assms] by metis
  obtain e fs where es: "es = fs @ [e]" using wf_node_entries[OF assms] by (cases es rule: rev_cases) auto
  have "leaf_cell_in crc ps p (leaf_off es (length fs)) (es ! length fs)" "length p = PAGE_SIZE" "length es \<le> MAX_LEAF_ENTRIES"
    using p es by (auto simp: leaf_layout_def)
  then have "span leaf_cell_size es \<le> 4056" "length es \<le> 122"
    using es by (simp_all add: leaf_cell_in_def leaf_off_def size_consts count_consts)
  then show ?thesis by (simp add: span_leaf_cost size_consts)
qed

lemma sum_span_chunks: "sum_list (map (span f) cs) = span f (concat cs)"
  by (induction cs) simp_all

lemma write_leaf_level_count:
  assumes "write_leaf_level crc ps es = Inr (qs, nodes)" "\<forall>e \<in> set es. entry_ok e" "es \<noteq> []" "span leaf_cost es \<le> 8112"
  shows "length nodes \<le> 3"
proof -
  obtain cs where cs: "leaf_chunks HEADER_SIZE [] es = Inr cs" "write_chunks (write_leaf crc) ps cs = Inr (qs, nodes)"
    using assms(1) by (auto simp: write_leaf_level_def ebind_Inr_iff)
  have "leaf_fits []" by (simp add: leaf_fits_def size_consts)
  then have "concat cs = es" using leaf_chunks_ok[of "[]" es HEADER_SIZE] assms(2,3) cs(1) by auto
  then have "Suc (PAGE_SIZE - HEADER_SIZE) * (length cs div 2) \<le> span leaf_cost es"
    using tight_count[of "span leaf_cost" "PAGE_SIZE - HEADER_SIZE" cs] leaf_chunks_tight[OF cs(1)] sum_span_chunks[of leaf_cost cs]
    by simp
  then have "4057 * (length cs div 2) \<le> 8112" using assms(4) by (simp add: size_consts)
  then have "length cs div 2 \<le> 1" by simp
  then show ?thesis using write_chunks_length[OF cs(2)] by simp
qed

text \<open>An internal page that is closed before the last one is more than three thousand bytes full.\<close>

lemma node_chunks_full:
  "cur \<noteq> [] \<Longrightarrow> used = HEADER_SIZE + 8 + span node_cost (tl cur) \<Longrightarrow>
     3002 * (length (node_chunks used cur cs) - 1) \<le> span node_cost (tl cur) + span node_cost cs"
proof (induction cs arbitrary: used cur)
  case (Cons c cs)
  let ?size = "internal_cell_size (nr_min_key c) + SLOT_SIZE"
  have size: "node_cost c = ?size" by (simp add: node_cost_def node_size_def)
  show ?case
  proof (cases "PAGE_SIZE < used + ?size")
    case True
    then have step: "node_chunks used cur (c # cs) = cur # node_chunks (HEADER_SIZE + 8) [c] cs"
      using Cons.prems(1) by (simp add: Let_def)
    have "3002 \<le> span node_cost (tl cur)"
      using True Cons.prems(2) size node_cost_bound[of c] by (simp add: size_consts)
    moreover have "3002 * (length (node_chunks (HEADER_SIZE + 8) [c] cs) - 1) \<le> span node_cost cs"
      using Cons.IH[of "[c]" "HEADER_SIZE + 8"] by simp
    moreover have "node_chunks (HEADER_SIZE + 8) [c] cs \<noteq> []"
      using node_chunks_ok[of "[c]" "HEADER_SIZE + 8" cs] by (simp add: internal_fits_def size_consts)
    ultimately show ?thesis unfolding step by (cases "node_chunks (HEADER_SIZE + 8) [c] cs") auto
  next
    case False
    then have step: "node_chunks used cur (c # cs) = node_chunks (used + ?size) (cur @ [c]) cs"
      using Cons.prems(1) by (simp add: Let_def)
    have "3002 * (length (node_chunks (used + ?size) (cur @ [c]) cs) - 1) \<le> span node_cost (tl (cur @ [c])) + span node_cost cs"
      using Cons.prems size by (intro Cons.IH) simp_all
    then show ?thesis unfolding step using Cons.prems(1) by simp
  qed
qed simp

lemma write_internal_level_count:
  assumes "write_internal_level crc ps cs = Inr (qs, nodes)" "cs \<noteq> []" "span node_cost (tl cs) \<le> 9005"
  shows "length nodes \<le> 3"
proof -
  obtain c cs' where cs: "cs = c # cs'" using assms(2) by (cases cs) auto
  have "write_chunks (write_internal crc) ps (node_chunks (HEADER_SIZE + 8) [c] cs') = Inr (qs, nodes)"
    using assms(1) cs by (simp add: write_internal_level_def)
  moreover have "3002 * (length (node_chunks (HEADER_SIZE + 8) [c] cs') - 1) \<le> 9005"
    using node_chunks_full[of "[c]" "HEADER_SIZE + 8" cs'] assms(3) cs by simp
  ultimately show ?thesis using write_chunks_length by fastforce
qed

lemma internal_span:
  assumes "internal_layout crc ps p first cs"
  shows "span node_cost cs \<le> 4442"
proof (cases cs rule: rev_cases)
  case (snoc ds c)
  have "internal_cell_in crc ps p (node_off cs (length ds)) (cs ! length ds)" "length p = PAGE_SIZE"
    "length cs < MAX_INTERNAL_CHILDREN"
    using assms snoc by (auto simp: internal_layout_def)
  then have "span node_size cs \<le> 4056" "length cs \<le> 193"
    using snoc by (simp_all add: internal_cell_in_def node_off_def size_consts count_consts)
  then show ?thesis by (simp add: span_node_cost size_consts)
qed simp

section \<open>The path to the leaf, and back\<close>

lemma wf_node_descend:
  assumes "wf_node crc ps (Suc h) i es" "h < MAX_TREE_DEPTH"
  obtains p as b ds where "read_page crc ps i = Inr p" "p ! 5 = INTERNAL"
    "child_for_key crc ps p i key = Inr (length as, nr_page_id (fst b))"
    "\<forall>qs. prefix ps qs \<longrightarrow> read_internal_children crc qs i = Inr (map fst (as @ b # ds))"
    "branches_ok (wf_node crc ps h) (as @ b # ds)" "es = below (as @ b # ds)"
    "\<forall>e \<in> set (below as). en_key e < key" "\<forall>d \<in> set ds. key < nr_min_key (fst d)"
    "nr_min_key (fst (hd (as @ b # ds))) = en_key (hd es)" "span node_cost (tl (map fst (as @ b # ds))) \<le> 4442"
    "\<forall>x \<in> set (as @ b # ds). unat (nr_page_id (fst x)) < unat i"
proof -
  obtain first cs bs p where p: "read_page crc ps i = Inr p"
    "internal_layout crc ps p (nr_page_id first) cs"
    and bs: "map fst bs = first # cs" "branches_ok (wf_node crc ps h) bs" "es = below bs"
    and small: "\<forall>b \<in> set bs. unat (nr_page_id (fst b)) < unat i"
    using wf_node_SucE[OF assms(1)] by metis
  have type: "p ! 5 = INTERNAL" using p(2) by (simp add: internal_layout_def)
  obtain fs bs' where bs': "bs = (first, fs) # bs'" using bs(1) by (cases bs) auto
  then have fs: "wf_node crc ps h (nr_page_id first) fs" using bs(2) by (auto simp: branches_ok_def)
  note fs' = wf_node_entries[OF fs]
  let ?first = "first\<lparr>nr_min_key := en_key (hd fs)\<rparr>"
  let ?bs = "(?first, fs) # bs'"
  have children: "read_internal_children crc qs i = Inr (map fst ?bs)" if qs: "prefix ps qs" for qs
  proof -
    have "internal_page crc qs i (nr_page_id first) cs"
      using internal_page_mono[OF _ qs] p by (auto simp: internal_page_def)
    then obtain q where q: "read_page crc qs i = Inr q" "internal_layout crc qs q (nr_page_id first) cs"
      by (auto simp: internal_page_def)
    have "node_ref_of crc qs (nr_page_id first) = Inr ?first"
      using node_ref_from_read[OF wf_node_mono[OF fs qs] assms(2)] by (simp add: node_ref_of_def)
    moreover have "decode_internal_cells crc qs q i (length cs) HEADER_SIZE = Inr cs"
      using q(2) by (intro decode_internal_cells_read) (auto simp: internal_layout_def node_off_def)
    ultimately show ?thesis
      using q bs(1) bs'
      by (simp add: read_internal_children_def require_type_def decode_internal_def internal_layout_def Let_def)
  qed
  have ok: "branches_ok (wf_node crc ps h) ?bs" using branches_ok_first bs(2) bs' fs' by blast
  have "\<forall>c \<in> set (map fst bs). nr_page_id c \<noteq> i" using small by auto
  then have child: "child_for_key crc ps p i key =
      Inr (child_index cs key, child_at (nr_page_id first) cs (child_index cs key))"
    using bs(1) fenced_nodes[OF bs(2)] p(2)
    by (intro child_for_key_read) (auto simp: sorted_nodes_def)
  have "map fst ?bs = ?first # cs" using bs(1) bs' by simp
  then obtain as b ds where split: "?bs = as @ b # ds" "length as = child_index cs key"
    "nr_page_id (fst b) = child_at (nr_page_id ?first) cs (child_index cs key)"
    "\<forall>e \<in> set (below as). en_key e < key" "\<forall>d \<in> set ds. key < nr_min_key (fst d)"
    by (rule child_split[OF ok])
  show ?thesis
  proof (rule that[OF p(1) type])
    show "child_for_key crc ps p i key = Inr (length as, nr_page_id (fst b))" using child split(2,3) by simp
    show "es = below (as @ b # ds)" using bs(3) bs' split(1) by (metis concat.simps(2) list.simps(9) snd_conv)
    show "nr_min_key (fst (hd (as @ b # ds))) = en_key (hd es)"
      unfolding split(1)[symmetric] using bs(3) bs' fs' by simp
    show "span node_cost (tl (map fst (as @ b # ds))) \<le> 4442"
      unfolding split(1)[symmetric] using internal_span[OF p(2)] bs(1) bs' by simp
    show "\<forall>x \<in> set (as @ b # ds). unat (nr_page_id (fst x)) < unat i"
      unfolding split(1)[symmetric] using small bs' by simp
  qed (use children ok split in simp_all)
qed

lemma ebind_assoc: "ebind (ebind x f) g = ebind x (\<lambda>y. ebind (f y) g)"
  by (cases x) simp_all

lemma rewrite_path_append:
  "rewrite_path crc ps nodes (path @ path') =
     ebind (rewrite_path crc ps nodes path) (\<lambda>(ps, nodes). rewrite_path crc ps nodes path')"
  by (induction path arbitrary: ps nodes) (auto simp: ebind_assoc split_def)

text \<open>The children of one internal page around the replacements of one of them.\<close>

lemma splice_level:
  assumes bs: "branches_ok (wf_node crc ps h) (as @ b # ds)" and new: "level_of crc ps h lo' fs n qs nodes"
    and lo: "\<forall>x \<in> set (as @ b # ds). lo \<le> nr_min_key (fst x)" "lo \<le> lo'"
    and left: "\<forall>e \<in> set (below as). en_key e < lo'"
    and right: "\<forall>e \<in> set fs. \<forall>d \<in> set ds. en_key e < nr_min_key (fst d)"
  shows "level_of crc ps h lo (below as @ fs @ below ds) n qs (map fst as @ nodes @ map fst ds)"
proof -
  have qs: "prefix ps qs" using new by (simp add: level_of_def)
  have parts: "branches_ok (wf_node crc ps h) as" "branches_ok (wf_node crc ps h) ds"
    "\<forall>e \<in> set (below as). \<forall>x \<in> set ds. en_key e < nr_min_key (fst x)"
    using bs branches_ok_append[of "wf_node crc ps h" as "b # ds"] branches_ok_Cons[of "wf_node crc ps h" b ds]
    by auto
  have one: "level_of crc ps h lo (below as @ fs) (0 + n) qs (map fst as @ nodes)"
    using lo by (intro level_of_append[OF level_of_refl[OF parts(1)] new left]) auto
  show ?thesis
  proof (cases "ds = []")
    case True
    then show ?thesis using one by simp
  next
    case False
    let ?k = "nr_min_key (fst (hd ds))"
    have ds: "branches_ok (wf_node crc qs h) ds" using branches_ok_mono[OF parts(2)] wf_node_mono qs by blast
    have "\<forall>d \<in> set ds. ?k \<le> nr_min_key (fst d)"
      using branches_ok_hd[of "wf_node crc ps h" "hd ds" "tl ds"] parts(2) False by (metis hd_Cons_tl)
    then have two: "level_of crc qs h ?k (below ds) 0 qs (map fst ds)" by (rule level_of_refl[OF ds])
    have "\<forall>e \<in> set (below as @ fs). en_key e < ?k" "lo \<le> ?k"
      using parts(3) right lo(1) False hd_in_set[OF False] by (auto simp del: set_concat)
    then show ?thesis using level_of_append[OF one two] by simp
  qed
qed

lemma span_concat_bound: "(\<And>x. f x \<le> n) \<Longrightarrow> span f xs \<le> n * length xs"
  by (induction xs) (simp_all add: add_mono)

text \<open>The put of one entry below a page of height \<open>h\<close>: at most \<open>path_pages\<close> pages, three of them left on top.\<close>

definition path_pages :: "nat \<Rightarrow> nat" where
  "path_pages h = Suc h * ITEM_PAGES"

definition put_of :: "entry \<Rightarrow> prepared" where
  "put_of e = \<lparr> pm_key = en_key e, pm_value = Some (en_value e, en_revision e), pm_index = 0 \<rparr>"

lemma put_of_ok: "prepared_ok (put_of e) \<longleftrightarrow> entry_ok e" "pm_key (put_of e) = en_key e"
  by (cases e, simp_all add: prepared_ok_def put_of_def row_entry_def)

lemma leaf_cost_half: "entry_ok e \<Longrightarrow> leaf_cost e \<le> 2083"
  using inline_len_limit[of e] by (simp add: leaf_cost_def leaf_cell_size_def size_consts entry_ok_def)

lemma put_nonempty: "sorted_entries es \<Longrightarrow> mutated [put_of e] es \<noteq> []"
proof
  assume "sorted_entries es" "mutated [put_of e] es = []"
  then have "rget (fold pm_apply [put_of e] (entry_rows es)) (en_key e) = None" by (simp add: mutated_def)
  then show False using \<open>sorted_entries es\<close> by (simp add: put_of_def sorted_entries_def)
qed

lemma span_put:
  "span f (map row_entry (rput k x r)) \<le> span f (map row_entry r) + f (row_entry (k, x))"
  by (induction k x r rule: rput.induct) auto

lemma put_leaf_ok:
  assumes "wf_node crc ps 0 i es" "entry_ok e" "lo \<le> en_key e" "\<forall>x \<in> set es. lo \<le> en_key x"
    "length ps + ITEM_PAGES * (length es + 1) < 2 ^ 64"
  obtains qs nodes where "write_leaf_level crc ps (mutated [put_of e] es) = Inr (qs, nodes)"
    "level_of crc ps 0 lo (mutated [put_of e] es) (ITEM_PAGES * (length es + 1)) qs nodes" "length nodes \<le> 3"
proof -
  let ?es = "mutated [put_of e] es"
  note es = wf_node_entries[OF assms(1)]
  have ok: "?es \<noteq> []" "\<forall>e \<in> set ?es. entry_ok e" "sorted_entries ?es" "ps \<noteq> []"
    using es put_nonempty[of es e] mutated_ok[of es "[put_of e]"] put_of_ok assms(2) wf_node_bound[OF assms(1)] by auto
  have le: "ITEM_PAGES * length ?es \<le> ITEM_PAGES * (length es + 1)"
    using length_mutated[of "[put_of e]" es] by (intro mult_le_mono2) simp
  have room: "length ps + ITEM_PAGES * length ?es < 2 ^ 64" using le assms(5) by linarith
  have lo: "\<forall>x \<in> set ?es. lo \<le> en_key x"
    using mutated_keys[of _ "[put_of e]" es] assms(3,4) put_of_ok(2)[of e] by fastforce
  obtain qs nodes where w: "write_leaf_level crc ps ?es = Inr (qs, nodes)"
    "level_of crc ps 0 lo ?es (ITEM_PAGES * length ?es) qs nodes"
    by (rule write_leaf_level_ok[OF ok room lo])
  have "span leaf_cost ?es \<le> span leaf_cost es + leaf_cost e"
    using span_put[of leaf_cost "en_key e" "(en_value e, en_revision e)" "entry_rows es"]
      row_entry_inverse(1)[of e, unfolded entry_row_def]
    by (simp add: mutated_def put_of_def comp_def)
  then have "span leaf_cost ?es \<le> 8112" using leaf_span[OF assms(1)] leaf_cost_half[OF assms(2)] by simp
  then show ?thesis
    using that[OF w(1) level_of_mono[OF w(2) le]] write_leaf_level_count[OF w(1) ok(2,1)] by simp
qed

lemma level_of_nonempty: "level_of crc ps h lo es n qs nodes \<Longrightarrow> es \<noteq> [] \<Longrightarrow> nodes \<noteq> []"
  by (auto simp: level_of_def)

lemma mutated_between:
  assumes "\<forall>x \<in> set as. en_key x < pm_key m" "\<forall>x \<in> set cs. pm_key m < en_key x"
  shows "mutated [m] (as @ bs @ cs) = as @ mutated [m] bs @ cs"
proof -
  have "\<forall>x \<in> set (entry_rows cs). \<forall>n \<in> set [m]. pm_key n < fst x" using assms(2) by simp
  then have "mutated [m] (bs @ cs) = mutated [m] bs @ cs"
    using fold_pm_before[of "entry_rows cs" "[m]" "entry_rows bs"]
    by (simp add: mutated_def comp_def del: fold.simps)
  moreover have "mutated [m] (as @ bs @ cs) = as @ mutated [m] (bs @ cs)" using assms(1) by (intro mutated_after) simp
  ultimately show ?thesis by simp
qed

lemma branches_above:
  assumes "branches_ok sub bs" "bs \<noteq> []" "lo \<le> nr_min_key (fst (hd bs))"
  shows "\<forall>x \<in> set bs. lo \<le> nr_min_key (fst x)"
  using assms branches_ok_hd[of sub "hd bs" "tl bs"] by (auto intro: order_trans)

text \<open>One level: the child of the key replaced, and its siblings packed again with the replacements.\<close>

lemma put_level_ok:
  assumes node: "wf_node crc ps (Suc h) i es" "h < MAX_TREE_DEPTH" and lo: "\<forall>x \<in> set es. lo \<le> en_key x" "lo \<le> en_key e"
    and N: "length es + 1 \<le> N" and room: "length ps + path_pages (Suc h) * N < 2 ^ 64"
    and child: "\<And>j fs lo'. wf_node crc ps h j fs \<Longrightarrow> lo' \<le> en_key e \<Longrightarrow> \<forall>x \<in> set fs. lo' \<le> en_key x \<Longrightarrow>
      length fs + 1 \<le> N \<Longrightarrow>
      \<exists>qs nodes. f j = Inr (qs, nodes) \<and> level_of crc ps h lo' (mutated [put_of e] fs) (path_pages h * N) qs nodes \<and>
        length nodes \<le> 3"
  obtains p j index qs nodes where "read_page crc ps i = Inr p" "p ! 5 = INTERNAL"
    "child_for_key crc ps p i (en_key e) = Inr (index, j)"
    "ebind (f j) (\<lambda>(ps, nodes). rewrite_path crc ps nodes [(i, index)]) = Inr (qs, nodes)"
    "level_of crc ps (Suc h) lo (mutated [put_of e] es) (path_pages (Suc h) * N) qs nodes" "length nodes \<le> 3"
proof -
  let ?key = "en_key e"
  obtain p as b ds where p: "read_page crc ps i = Inr p" "p ! 5 = INTERNAL"
    "child_for_key crc ps p i ?key = Inr (length as, nr_page_id (fst b))"
    and children: "\<forall>qs. prefix ps qs \<longrightarrow> read_internal_children crc qs i = Inr (map fst (as @ b # ds))"
    and bs: "branches_ok (wf_node crc ps h) (as @ b # ds)" "es = below (as @ b # ds)"
    and split: "\<forall>e \<in> set (below as). en_key e < ?key" "\<forall>d \<in> set ds. ?key < nr_min_key (fst d)"
    and first: "nr_min_key (fst (hd (as @ b # ds))) = en_key (hd es)" and span: "span node_cost (tl (map fst (as @ b # ds))) \<le> 4442"
    and "\<forall>x \<in> set (as @ b # ds). unat (nr_page_id (fst x)) < unat i"
    by (rule wf_node_descend[OF node, of "en_key e"])
  have b: "wf_node crc ps h (nr_page_id (fst b)) (snd b)" "\<forall>e \<in> set (snd b). nr_min_key (fst b) \<le> en_key e"
    using bs(1) fenced_min[of "as @ b # ds" b] by (auto simp: branches_ok_def)
  have seps: "\<forall>x \<in> set (as @ b # ds). lo \<le> nr_min_key (fst x)"
    using branches_above[OF bs(1)] first lo(1) wf_node_entries[OF node(1)] by simp
  define lo' where "lo' = (if as = [] then lo else min ?key (nr_min_key (fst b)))"
  have lo': "lo' \<le> ?key" "\<forall>x \<in> set (snd b). lo' \<le> en_key x" "lo \<le> lo'" "\<forall>e \<in> set (below as). en_key e < lo'"
    using lo split(1) seps b(2) bs by (auto simp: lo'_def min_le_iff_disj branches_ok_append intro: order_trans)
  obtain qs nodes where c: "f (nr_page_id (fst b)) = Inr (qs, nodes)"
    "level_of crc ps h lo' (mutated [put_of e] (snd b)) (path_pages h * N) qs nodes" "length nodes \<le> 3"
    using child[OF b(1) lo'(1,2)] bs(2) N by auto
  have above: "\<forall>x \<in> set (below ds). ?key < en_key x"
    using above_fence[of "wf_node crc ps h" ds] split(2) bs(1) by (simp add: branches_ok_append branches_ok_Cons[of _ b ds])
  let ?new = "map fst as @ nodes @ map fst ds"
  have "\<forall>x \<in> set (mutated [put_of e] (snd b)). \<forall>d \<in> set ds. en_key x < nr_min_key (fst d)"
  proof (intro ballI)
    fix x d assume x: "x \<in> set (mutated [put_of e] (snd b))" and d: "d \<in> set ds"
    have "\<forall>y \<in> set (snd b). en_key y < nr_min_key (fst d)" using bs(1) d by (auto simp: branches_ok_append branches_ok_Cons[of _ b ds])
    then show "en_key x < nr_min_key (fst d)" using mutated_keys[OF x] split(2) d put_of_ok(2)[of e] by auto
  qed
  then have "level_of crc ps h lo (below as @ mutated [put_of e] (snd b) @ below ds) (path_pages h * N) qs ?new"
    by (rule splice_level[OF bs(1) c(2) seps lo'(3,4)])
  moreover have "mutated [put_of e] es = below as @ mutated [put_of e] (snd b) @ below ds"
    using mutated_between[of "below as" "put_of e" "below ds" "snd b"] above bs(2) split(1) put_of_ok(2)[of e] by simp
  ultimately have level: "level_of crc ps h lo (mutated [put_of e] es) (path_pages h * N) qs ?new" by simp
  have len: "length (mutated [put_of e] es) \<le> N" using length_mutated[of "[put_of e]" es] N by simp
  have new: "?new \<noteq> []" using level_of_nonempty[OF level] put_nonempty[of es e] wf_node_entries[OF node(1)] by simp
  have pages: "path_pages h * N + ITEM_PAGES * N = path_pages (Suc h) * N"
    by (simp add: path_pages_def algebra_simps)
  have room': "length ps + path_pages h * N + ITEM_PAGES * N < 2 ^ 64" using room pages by linarith
  obtain rs nodes' where w: "write_internal_level crc qs ?new = Inr (rs, nodes')"
    "level_of crc ps (Suc h) lo (mutated [put_of e] es) (path_pages (Suc h) * N) rs nodes'"
    using write_level_above[OF level new len room'] unfolding pages .
  have "span node_cost (tl ?new) \<le> 9005"
    using span span_concat_bound[of node_cost 1047 nodes] span_concat_bound[of node_cost 1047 "tl nodes"] node_cost_bound c(3)
      level_of_nonempty[OF c(2)] put_nonempty[of "snd b" e] wf_node_entries[OF b(1)]
    by (cases as; cases nodes) simp_all
  then have "length nodes' \<le> 3" by (rule write_internal_level_count[OF w(1) new])
  moreover have "rewrite_path crc qs nodes [(i, length as)] = Inr (rs, nodes')"
    using children c(2) w(1) by (simp add: level_of_def)
  ultimately show ?thesis using that[OF p] c(1) w(2) by simp
qed

definition put_below :: "(bytes \<Rightarrow> u32) \<Rightarrow> page_store \<Rightarrow> entry \<Rightarrow> nat \<Rightarrow> u64 \<Rightarrow> vyrn_error + (page_store \<times> node_ref list)" where
  "put_below crc ps e n i =
     ebind (find_leaf crc ps (en_key e) n i []) (\<lambda>(leaf_id, path).
     ebind (read_leaf crc ps leaf_id) (\<lambda>es.
     ebind (write_leaf_level crc ps (mutated [put_of e] es)) (\<lambda>(ps, nodes). rewrite_path crc ps nodes path)))"

lemma find_leaf_path:
  "find_leaf crc ps key n i path = ebind (find_leaf crc ps key n i []) (\<lambda>(leaf_id, path'). Inr (leaf_id, path' @ path))"
proof (induction n arbitrary: i path)
  case (Suc n)
  have "find_leaf crc ps key n j ((i, k) # path) =
      ebind (find_leaf crc ps key n j [(i, k)]) (\<lambda>(leaf_id, path'). Inr (leaf_id, path' @ path))" for j k
    using Suc[of j "(i, k) # path"] Suc[of j "[(i, k)]"] by (simp add: ebind_assoc split_def)
  then show ?case by (cases "read_page crc ps i") (simp_all add: on_page_def ebind_assoc split_def)
qed simp

lemma put_below_step:
  assumes "read_page crc ps i = Inr p" "p ! 5 = INTERNAL" "child_for_key crc ps p i (en_key e) = Inr (index, j)"
  shows "put_below crc ps e (Suc n) i =
    ebind (put_below crc ps e n j) (\<lambda>(ps, nodes). rewrite_path crc ps nodes [(i, index)])"
proof -
  have "find_leaf crc ps (en_key e) (Suc n) i [] = find_leaf crc ps (en_key e) n j [(i, index)]"
    using assms by (simp add: on_page_def tag_consts)
  then show ?thesis
    using find_leaf_path[of crc ps "en_key e" n j "[(i, index)]"]
    by (simp add: put_below_def ebind_assoc split_def rewrite_path_append del: rewrite_path.simps)
qed

lemma put_below_ok:
  "wf_node crc ps h i es \<Longrightarrow> h < n \<Longrightarrow> n \<le> MAX_TREE_DEPTH \<Longrightarrow> entry_ok e \<Longrightarrow> lo \<le> en_key e \<Longrightarrow>
   \<forall>x \<in> set es. lo \<le> en_key x \<Longrightarrow> length es + 1 \<le> N \<Longrightarrow> length ps + path_pages h * N < 2 ^ 64 \<Longrightarrow>
   \<exists>qs nodes. put_below crc ps e n i = Inr (qs, nodes) \<and>
     level_of crc ps h lo (mutated [put_of e] es) (path_pages h * N) qs nodes \<and> length nodes \<le> 3"
proof (induction h arbitrary: n i es lo)
  case 0
  then obtain m where n: "n = Suc m" by (cases n) auto
  have le: "ITEM_PAGES * (length es + 1) \<le> path_pages 0 * N" using mult_le_mono2[OF "0.prems"(7)] by (simp add: path_pages_def)
  then have "length ps + ITEM_PAGES * (length es + 1) < 2 ^ 64" using "0.prems"(8) by linarith
  then obtain qs nodes where w: "write_leaf_level crc ps (mutated [put_of e] es) = Inr (qs, nodes)"
    "level_of crc ps 0 lo (mutated [put_of e] es) (ITEM_PAGES * (length es + 1)) qs nodes" "length nodes \<le> 3"
    using put_leaf_ok[OF "0.prems"(1,4,5,6)] by metis
  obtain p where "read_page crc ps i = Inr p" "p ! 5 = LEAF" using wf_node_leaf[OF "0.prems"(1)] by metis
  then have "put_below crc ps e n i = Inr (qs, nodes)"
    using w(1) read_leaf_read[OF "0.prems"(1)] by (simp add: put_below_def n on_page_def)
  then show ?case using level_of_mono[OF w(2) le] w(3) by blast
next
  case (Suc h)
  then obtain m where n: "n = Suc m" "h < m" by (cases n) auto
  have h: "h < MAX_TREE_DEPTH" using Suc.prems(2,3) by simp
  have "path_pages h * N \<le> path_pages (Suc h) * N" by (simp add: path_pages_def)
  then have "length ps + path_pages h * N < 2 ^ 64" using Suc.prems(8) by linarith
  then have child: "\<exists>qs nodes. put_below crc ps e m j = Inr (qs, nodes) \<and>
      level_of crc ps h lo' (mutated [put_of e] fs) (path_pages h * N) qs nodes \<and> length nodes \<le> 3"
    if "wf_node crc ps h j fs" "lo' \<le> en_key e" "\<forall>x \<in> set fs. lo' \<le> en_key x" "length fs + 1 \<le> N" for j fs lo'
    using Suc.IH[OF that(1) n(2) _ Suc.prems(4) that(2-4)] Suc.prems(3) n(1) by simp
  obtain p j index qs nodes where l: "read_page crc ps i = Inr p" "p ! 5 = INTERNAL"
    "child_for_key crc ps p i (en_key e) = Inr (index, j)"
    "ebind (put_below crc ps e m j) (\<lambda>(ps, nodes). rewrite_path crc ps nodes [(i, index)]) = Inr (qs, nodes)"
    "level_of crc ps (Suc h) lo (mutated [put_of e] es) (path_pages (Suc h) * N) qs nodes" "length nodes \<le> 3"
    by (rule put_level_ok[OF Suc.prems(1) h Suc.prems(6,5,7,8) child])
  then show ?case using put_below_step[OF l(1-3), of m] n(1) by auto
qed

lemma key_in_rows: "sorted_entries es \<Longrightarrow> key \<in> en_key ` set es \<longleftrightarrow> rget (entry_rows es) key \<noteq> None"
  by (auto simp: rget_map_of map_of_eq_None_iff image_iff)

lemma find_entry_put:
  assumes "sorted_entries es"
  shows "find_entry es (en_key e) = (position, found) \<Longrightarrow>
    (if found then es[position := e] else take position es @ e # drop position es) = mutated [put_of e] es \<and>
    (found \<longleftrightarrow> en_key e \<in> en_key ` set es)"
proof -
  let ?key = "en_key e"
  let ?before = "takeWhile (\<lambda>e. en_key e < ?key) es" and ?rest = "dropWhile (\<lambda>e. en_key e < ?key) es"
  note around = entries_around[OF assms, of ?key]
  have m: "mutated [put_of e] es = ?before @ [e] @ filter (\<lambda>e. en_key e \<noteq> ?key) ?rest"
    using mutated_step[OF assms, of "put_of e" "[]"] by (cases e) (simp add: put_of_def put_entry_def)
  assume f: "find_entry es ?key = (position, found)"
  then have pos: "position = length ?before" by (simp add: find_entry_def Let_def)
  have parts: "take position es = ?before" "drop position es = ?rest"
    unfolding pos by (rule takeWhile_eq_take[symmetric], rule dropWhile_eq_drop[symmetric])
  have "found \<longleftrightarrow> position < length es \<and> en_key (es ! position) = ?key"
    using f by (auto simp: find_entry_def Let_def)
  then have found: "found \<longleftrightarrow> drop position es \<noteq> [] \<and> en_key (hd (drop position es)) = ?key"
    by (auto simp: hd_drop_conv_nth)
  have "es[position := e] = take position es @ e # tl (drop position es)" if found
    using that found by (simp add: upd_conv_take_nth_drop tl_drop drop_Suc)
  moreover note m[folded parts] around(5,6)[folded parts]
  ultimately show ?thesis using found by (cases found) (auto simp del: drop_eq_Nil split: if_splits)
qed

lemma put_root_ok:
  assumes "level_of crc ps h lo es n qs nodes" "nodes \<noteq> []" "length nodes \<le> 3" "length ps + n + 3 * ITEM_PAGES < 2 ^ 64"
  obtains rs root h' where "put_root crc qs nodes = Inr (rs, root)" "prefix ps rs" "length rs \<le> length ps + n + 3 * ITEM_PAGES"
    "wf_node crc rs h' root es" "h' \<le> Suc h"
proof -
  obtain bs where bs: "map fst bs = nodes" "branches_ok (wf_node crc qs h) bs" "below bs = es"
    and qs: "prefix ps qs" "length qs \<le> length ps + n"
    using assms(1) by (auto simp: level_of_def)
  have len: "length bs \<le> 3" "bs \<noteq> []" using assms(2,3) bs(1) by auto
  show ?thesis
  proof (cases "length nodes = 1")
    case True
    then obtain b where "bs = [b]" using bs(1) by (cases bs) auto
    then have "put_root crc qs nodes = Inr (qs, nr_page_id (fst b))" "wf_node crc qs h (nr_page_id (fst b)) es"
      using bs True by (auto simp: put_root_def branches_ok_def)
    then show ?thesis using that[of qs _ h] qs by simp
  next
    case False
    have "span node_cost (map fst (tl bs)) \<le> 1047 * length (tl bs)"
      using span_concat_bound[of node_cost 1047 "map fst (tl bs)"] node_cost_bound by simp
    then have fits: "internal_fits (map fst (tl bs))" using len(1) by (simp add: internal_fits_def size_consts)
    have le: "ITEM_PAGES * length bs \<le> 3 * ITEM_PAGES" using len(1) by simp
    then have "length qs + ITEM_PAGES * length bs < 2 ^ 64" using qs(2) assms(4) by linarith
    then obtain rs node where w: "write_internal crc qs nodes = Inr (rs, node)" "prefix qs rs"
      "length rs \<le> length qs + ITEM_PAGES * length bs" "wf_node crc rs (Suc h) (nr_page_id node) es"
      using write_internal_node[OF bs(2) len(2) fits] bs(1,3) by auto
    have "length rs \<le> length ps + n + 3 * ITEM_PAGES" using w(3) qs(2) le by linarith
    then show ?thesis
      using that[of rs "nr_page_id node" "Suc h"] False w prefix_order.trans[OF qs(1) w(2)] by (simp add: put_root_def)
  qed
qed

definition put_pages :: "nat \<Rightarrow> nat \<Rightarrow> nat" where
  "put_pages h n = path_pages h * (n + 1) + 3 * ITEM_PAGES"

lemma put_entry_at_ok:
  assumes "wf_node crc ps h root es" "h < MAX_TREE_DEPTH" "entry_ok e" "length ps + put_pages h (length es) < 2 ^ 64"
  obtains rs root' h' where "put_entry_at crc ps root e = Inr (rs, root', en_key e \<in> en_key ` set es)" "prefix ps rs"
    "length rs \<le> length ps + put_pages h (length es)" "wf_node crc rs h' root' (mutated [put_of e] es)" "h' \<le> Suc h"
proof -
  let ?n = "path_pages h * (length es + 1)"
  have room: "length ps + ?n + 3 * ITEM_PAGES < 2 ^ 64" using assms(4) by (simp add: put_pages_def)
  obtain qs nodes where b: "put_below crc ps e MAX_TREE_DEPTH root = Inr (qs, nodes)"
    "level_of crc ps h [] (mutated [put_of e] es) ?n qs nodes" "length nodes \<le> 3"
    using put_below_ok[OF assms(1,2) order_refl assms(3), of "[]" "length es + 1"] room by auto
  have "nodes \<noteq> []" using level_of_nonempty[OF b(2)] put_nonempty[of es e] wf_node_entries[OF assms(1)] by simp
  then obtain rs root' h' where r: "put_root crc qs nodes = Inr (rs, root')" "prefix ps rs"
    "length rs \<le> length ps + ?n + 3 * ITEM_PAGES" "wf_node crc rs h' root' (mutated [put_of e] es)" "h' \<le> Suc h"
    using put_root_ok[OF b(2) _ b(3) room] by metis
  obtain leaf_id path fs where l: "find_leaf crc ps (en_key e) MAX_TREE_DEPTH root [] = Inr (leaf_id, path)"
    "wf_node crc ps 0 leaf_id fs" "rget (entry_rows es) (en_key e) = rget (entry_rows fs) (en_key e)"
    using find_leaf_read[OF assms(1,2), of "en_key e" "[]"] by auto
  obtain position found where f: "find_entry fs (en_key e) = (position, found)" by (cases "find_entry fs (en_key e)") auto
  have fs: "sorted_entries fs" "sorted_entries es" using wf_node_entries[OF l(2)] wf_node_entries[OF assms(1)] by auto
  have "found \<longleftrightarrow> en_key e \<in> en_key ` set es"
    using find_entry_put[OF fs(1) f] key_in_rows[OF fs(1)] key_in_rows[OF fs(2)] l(3) by auto
  moreover obtain ps1 nodes1 where w: "write_leaf_level crc ps (mutated [put_of e] fs) = Inr (ps1, nodes1)"
    "rewrite_path crc ps1 nodes1 path = Inr (qs, nodes)"
    using b(1) l(1) read_leaf_read[OF l(2)] by (auto simp: put_below_def ebind_Inr_iff)
  ultimately have "put_entry_at crc ps root e = Inr (rs, root', en_key e \<in> en_key ` set es)"
    unfolding put_entry_at_def using l(1) r(1) f find_entry_put[OF fs(1) f] read_leaf_read[OF l(2)]
    by (cases found) simp_all
  then show ?thesis using that r by (simp add: put_pages_def add.assoc)
qed

section \<open>A put, prepared and published\<close>

lemma length_rput: "length (rput k v r) = length r + (if k \<in> fst ` set r then 0 else 1)" if "sorted_rows r"
  using that by (induction k v r rule: rput.induct) (auto simp: sorted_rows_def)

lemma put_of_prepares:
  "value_of crc f (x, revision) (v, revision) \<Longrightarrow>
     list_all2 (prepares crc f) [put_of \<lparr> en_key = key, en_value = x, en_revision = revision \<rparr>] [(key, MutPut v revision)]"
  by (simp add: prepares_def put_of_def)

lemma put_pages_room:
  assumes "length ps + put_pages h n < 2 ^ 64"
  shows "n + 1 < 2 ^ 64"
proof -
  have "1 * (n + 1) \<le> path_pages h * (n + 1)" by (intro mult_le_mono1) (simp add: path_pages_def ITEM_PAGES_def)
  also have "\<dots> \<le> length ps + put_pages h n" by (simp add: put_pages_def)
  finally show ?thesis using assms by simp
qed

text \<open>The pages of a put: the leaf alone in an empty tree, or the path to the leaf.\<close>

lemma put_pages_ok:
  assumes ps: "store_ok ps" "if root = 0 then es = [] else wf_node crc ps h root es" and h: "h < MAX_TREE_DEPTH"
    and e: "entry_ok e" and room: "length ps + put_pages h (length es) < 2 ^ 64"
  obtains rs root' h' where "prefix ps rs" "store_ok rs" "wf_node crc rs h' root' (mutated [put_of e] es)" "h' \<le> Suc h"
    "if root = 0 then \<exists>node. write_leaf crc ps [e] = Inr (rs, node) \<and> root' = nr_page_id node
     else put_entry_at crc ps root e = Inr (rs, root', en_key e \<in> en_key ` set es)"
proof (cases "root = 0")
  case True
  have one: "leaf_fits [e]" "ps \<noteq> []" "length ps + ITEM_PAGES * length [e] < 2 ^ 64"
    using leaf_cost_half[OF e] ps(1) room by (auto simp: leaf_fits_def size_consts store_ok_def put_pages_def)
  obtain rs node where w: "write_leaf crc ps [e] = Inr (rs, node)" "prefix ps rs"
    "length rs \<le> length ps + ITEM_PAGES" "wf_node crc rs 0 (nr_page_id node) [e]"
    using write_leaf_node[of "[e]" ps crc] e one by auto
  moreover have "store_ok rs" using store_ok_mono[OF ps(1) w(2)] w(3) one(3) by simp
  moreover have "mutated [put_of e] es = [e]" using True ps(2) by (cases e) (simp add: mutated_def put_of_def row_entry_def)
  ultimately show ?thesis using that[of rs 0 "nr_page_id node"] True by simp
next
  case False
  then have root: "wf_node crc ps h root es" using ps(2) by simp
  obtain rs root' h' where r: "put_entry_at crc ps root e = Inr (rs, root', en_key e \<in> en_key ` set es)" "prefix ps rs"
    "length rs \<le> length ps + put_pages h (length es)" "wf_node crc rs h' root' (mutated [put_of e] es)" "h' \<le> Suc h"
    by (rule put_entry_at_ok[OF root h e room])
  moreover have "store_ok rs" using store_ok_mono[OF ps(1) r(2)] r(3) room by simp
  ultimately show ?thesis using that[of rs h' root'] False by simp
qed

lemma prepare_put_ok:
  assumes rep: "tree_rep crc t h rows" "h < MAX_TREE_DEPTH"
    and key: "key \<noteq> []" "length key \<le> MAX_STORED_KEY_SIZE" and v: "length v \<le> MAX_VALUE_SIZE"
    and vals: "length (vl_file (pt_values t)) + value_total_len (length v) < 2 ^ 64"
    and pages: "length (pt_pages t) + put_pages h (length rows) < 2 ^ 64"
  obtains t' root len h' where "prepare_put crc t key v revision = (t', Inr (root, len))" "tree_rep crc t' h rows"
    "tree_rep crc (publish t' root len) h' (rput key (v, revision) rows)" "h' \<le> Suc h"
    "pt_root t' = pt_root t" "pt_len t' = pt_len t"
proof -
  obtain es where es: "tree_entries crc t h es" "list_all2 (resolves crc (vl_file (pt_values t))) es rows"
    and l: "vl_ok crc (pt_values t)" using rep(1) by (auto simp: tree_rep_def)
  have n: "length es = length rows" using es(2) by (rule list_all2_lengthD)
  have store: "store_ok (pt_pages t)" "if pt_root t = 0 then es = [] else wf_node crc (pt_pages t) h (pt_root t) es"
    "unat (pt_len t) = length es" using es(1) by (auto simp: tree_entries_def)
  obtain x l' ext where s: "store_value crc (pt_values t) v revision = Inr (x, l')" "vl_ok crc l'"
    "vl_file l' = vl_file (pt_values t) @ ext" "value_of crc (vl_file l') (x, revision) (v, revision)"
    "entry_ok (row_entry (key, x, revision))"
    by (rule store_value_ok[OF l v vals key])
  let ?e = "\<lparr> en_key = key, en_value = x, en_revision = revision \<rparr>"
  have e: "entry_ok ?e" using s(5) by (simp add: row_entry_def)
  have room: "length (pt_pages t) + put_pages h (length es) < 2 ^ 64" using pages n by simp
  obtain rs root h' where r: "prefix (pt_pages t) rs" "store_ok rs" "wf_node crc rs h' root (mutated [put_of ?e] es)" "h' \<le> Suc h"
    "if pt_root t = 0 then \<exists>node. write_leaf crc (pt_pages t) [?e] = Inr (rs, node) \<and> root = nr_page_id node
     else put_entry_at crc (pt_pages t) (pt_root t) ?e = Inr (rs, root, key \<in> en_key ` set es)"
    by (rule put_pages_ok[OF store(1,2) rep(2) e room, unfolded entry.simps])
  let ?t = "t\<lparr> pt_values := l', pt_pages := rs \<rparr>" and ?found = "key \<in> en_key ` set es"
  let ?len = "pt_len t + (if ?found then 0 else 1)"
  have len0: "pt_root t = 0 \<Longrightarrow> pt_len t = 0" using store(2,3) by (auto simp: unat_eq_0)
  have put: "prepare_put crc t key v revision = (?t, Inr (root, ?len))"
    using s(1) r(5) len0 store(2) by (cases "pt_root t = 0") (auto simp: prepare_put_def)
  have rows: "list_all2 (resolves crc (vl_file l')) (mutated [put_of ?e] es) (rput key (v, revision) rows)"
    using mutated_resolves[OF put_of_prepares[OF s(4)]] resolves_append[OF es(2)] s(3) by (simp add: tv_apply_batch_def)
  have "fst ` set rows = en_key ` set es" using resolves_keys[OF es(2)] by (metis list.set_map)
  then have "length (rput key (v, revision) rows) = length es + (if ?found then 0 else 1)"
    using length_rput[OF tree_rep_sorted[OF rep(1)]] n by simp
  moreover have "length es + 1 < 2 ^ 64" using put_pages_room[OF room] .
  ultimately have "unat ?len = length (mutated [put_of ?e] es)"
    using list_all2_lengthD[OF rows] store(3) by (simp add: unat_word_ariths)
  then have "tree_rep crc (publish ?t root ?len) h' (rput key (v, revision) rows)"
    using s(2) r(2,3) rows store_ok_root[OF r(2,3)] by (intro tree_rep_publish) simp_all
  moreover have "tree_rep crc ?t h rows" using tree_rep_extends[OF rep(1) r(1,2) s(2,3)] .
  ultimately show ?thesis using that[OF put] r(4) by simp
qed

text \<open>
  C9: a single put gives a root that represents the rows with the key set to the
  value and revision, and the old root keeps the old rows: no page of it is
  overwritten.  The height grows by at most one.
\<close>

theorem prepare_put_exact:
  assumes "tree_rep crc t h rows" "h < MAX_TREE_DEPTH" "key \<noteq> []" "length key \<le> MAX_STORED_KEY_SIZE"
    and "length v \<le> MAX_VALUE_SIZE" "length (vl_file (pt_values t)) + value_total_len (length v) < 2 ^ 64"
    and "length (pt_pages t) + put_pages h (length rows) < 2 ^ 64"
  shows "\<exists>t' root len h'. prepare_put crc t key v revision = (t', Inr (root, len)) \<and> tree_rep crc t' h rows \<and>
    tree_rep crc (publish t' root len) h' (rput key (v, revision) rows) \<and> h' \<le> Suc h"
  by (rule prepare_put_ok[OF assms, of revision]) (intro exI conjI)

theorem prepare_put_exact_witness:
  "\<exists>t' root len h'. prepare_put sample_crc empty_tree [97] [1] 7 = (t', Inr (root, len)) \<and>
    tree_rep sample_crc t' 0 [] \<and> tree_rep sample_crc (publish t' root len) h' [([97], [1], 7)] \<and> h' \<le> Suc 0"
proof -
  have "length (vl_file (pt_values empty_tree)) + value_total_len (length [1 :: 8 word]) < 2 ^ 64"
    "length (pt_pages empty_tree) + put_pages 0 (length ([] :: tree_rows)) < 2 ^ 64"
    "length [97 :: 8 word] \<le> MAX_STORED_KEY_SIZE" "length [1 :: 8 word] \<le> MAX_VALUE_SIZE"
    by (simp_all add: empty_tree_def empty_log_def value_total_len_def value_consts put_pages_def path_pages_def
        ITEM_PAGES_def MAX_STORED_KEY_SIZE_def MAX_KEY_SIZE_def MAX_VALUE_SIZE_def)
  from prepare_put_exact[OF empty_tree_rep depth_positive not_Cons_self2 this(3,4,1,2), of sample_crc 7]
  show ?thesis by simp
qed

end
