(* ===== verification/TreeValidate.thy ===== *)
theory TreeValidate
  imports TreePut
begin

text \<open>
  The structural check of a page tree (\<open>validate\<close> and \<open>validate_node\<close> of
  \<open>crates/vyrn-core/src/page_tree.rs\<close>), which every open and every compaction
  runs before a tree is trusted.  It accepts every tree that represents rows: no
  page of such a tree is reached twice.  What it accepts is a tree whose leaves,
  when none is empty, hold strictly increasing keys, as many as the tree claims.
\<close>

section \<open>Definitions\<close>

fun leaf_in_order :: "bytes option \<Rightarrow> bytes option \<Rightarrow> bytes option \<Rightarrow> entry list \<Rightarrow> bool" where
  "leaf_in_order lo hi previous [] \<longleftrightarrow> True"
| "leaf_in_order lo hi previous (e # es) \<longleftrightarrow>
     (if (case previous of Some k \<Rightarrow> en_key e \<le> k | None \<Rightarrow> False)
         \<or> (case lo of Some k \<Rightarrow> en_key e < k | None \<Rightarrow> False)
         \<or> (case hi of Some k \<Rightarrow> k \<le> en_key e | None \<Rightarrow> False)
      then False
      else leaf_in_order lo hi (Some (en_key e)) es)"

fun validate_children ::
  "(u64 \<Rightarrow> bytes option \<Rightarrow> bytes option \<Rightarrow> u64 set \<Rightarrow> vyrn_error + (u64 \<times> u64 set)) \<Rightarrow> node_ref list
     \<Rightarrow> bytes option \<Rightarrow> bytes option \<Rightarrow> u64 set \<Rightarrow> vyrn_error + (u64 \<times> u64 set)" where
  "validate_children f [] lo hi visited = Inr (0, visited)"
| "validate_children f (child # cs) lo hi visited =
     (let separator = (case cs of [] \<Rightarrow> None | next_child # _ \<Rightarrow> Some (nr_min_key next_child));
          child_hi = (case separator of None \<Rightarrow> hi | Some k \<Rightarrow> Some k)
      in ebind (f (nr_page_id child) lo child_hi visited) (\<lambda>(n, visited).
         ebind (validate_children f cs separator hi visited) (\<lambda>(total, visited).
         Inr (n + total, visited))))"

fun validate_node ::
  "(bytes \<Rightarrow> u32) \<Rightarrow> page_store \<Rightarrow> nat \<Rightarrow> u64 \<Rightarrow> bytes option \<Rightarrow> bytes option \<Rightarrow> u64 set
     \<Rightarrow> vyrn_error + (u64 \<times> u64 set)" where
  "validate_node crc ps 0 page_id lo hi visited = Inl (excessive_depth page_id)"
| "validate_node crc ps (Suc n) page_id lo hi visited =
     (if page_id \<in> visited
      then Inl (CorruptPage page_id ''tree page is referenced more than once or cyclic'')
      else let visited = insert page_id visited
      in on_page crc ps page_id
           (\<lambda>p. ebind (decode_leaf crc ps p page_id) (\<lambda>es.
                if leaf_in_order lo hi None es then Inr (word_of_nat (length es), visited)
                else Inl (CorruptPage page_id ''leaf keys are not strictly ordered within bounds'')))
           (\<lambda>p. ebind (decode_internal crc ps p page_id) (\<lambda>children.
                if successively (<) (map nr_min_key (tl children))
                then validate_children (validate_node crc ps n) children lo hi visited
                else Inl (CorruptPage page_id ''internal separators are not strictly ordered''))))"

definition validate :: "(bytes \<Rightarrow> u32) \<Rightarrow> page_tree \<Rightarrow> vyrn_error + unit" where
  "validate crc t =
     ebind (if pt_root t = 0 then Inr 0
            else ebind (validate_node crc (pt_pages t) MAX_TREE_DEPTH (pt_root t) None None {}) (\<lambda>(n, _). Inr n))
       (\<lambda>count.
        if count \<noteq> pt_len t
        then Inl (CorruptPage (pt_root t) (''tree contains '' @ show_nat (unat count)
               @ '' entries but metadata reports '' @ show_nat (unat (pt_len t))))
        else Inr ())"

section \<open>What the check accepts\<close>

text \<open>The leaves a walk of the pages reaches, in order.\<close>

fun children_leaves :: "(u64 \<Rightarrow> vyrn_error + entry list list) \<Rightarrow> node_ref list \<Rightarrow> vyrn_error + entry list list" where
  "children_leaves f [] = Inr []"
| "children_leaves f (c # cs) =
     ebind (f (nr_page_id c)) (\<lambda>ls. ebind (children_leaves f cs) (\<lambda>ls'. Inr (ls @ ls')))"

fun node_leaves :: "(bytes \<Rightarrow> u32) \<Rightarrow> page_store \<Rightarrow> nat \<Rightarrow> u64 \<Rightarrow> vyrn_error + entry list list" where
  "node_leaves crc ps 0 page_id = Inl (excessive_depth page_id)"
| "node_leaves crc ps (Suc n) page_id =
     on_page crc ps page_id
       (\<lambda>p. ebind (decode_leaf crc ps p page_id) (\<lambda>es. Inr [es]))
       (\<lambda>p. ebind (decode_internal crc ps p page_id) (children_leaves (node_leaves crc ps n)))"

definition in_bounds :: "bytes option \<Rightarrow> bytes option \<Rightarrow> entry \<Rightarrow> bool" where
  "in_bounds lo hi e \<longleftrightarrow>
     (case lo of Some k \<Rightarrow> k \<le> en_key e | None \<Rightarrow> True) \<and>
     (case hi of Some k \<Rightarrow> en_key e < k | None \<Rightarrow> True)"

lemma leaf_in_order_iff:
  "leaf_in_order lo hi previous es \<longleftrightarrow>
     sorted_entries es \<and> (\<forall>e \<in> set es. in_bounds lo hi e \<and>
       (case previous of Some k \<Rightarrow> k < en_key e | None \<Rightarrow> True))"
proof (induction es arbitrary: previous)
  case (Cons e es)
  show ?case unfolding leaf_in_order.simps Cons.IH
    by (auto simp: in_bounds_def not_le not_less intro: less_trans split: option.splits)
qed simp

text \<open>An accepted subtree: its leaves counted and, when none is empty, in order within the bounds.\<close>

definition accepted :: "bytes option \<Rightarrow> bytes option \<Rightarrow> u64 \<Rightarrow> entry list list \<Rightarrow> bool" where
  "accepted lo hi n ls \<longleftrightarrow>
     n = word_of_nat (length (concat ls)) \<and> ls \<noteq> [] \<and>
     ([] \<notin> set ls \<longrightarrow> sorted_entries (concat ls) \<and> (\<forall>e \<in> set (concat ls). in_bounds lo hi e))"

lemma accepted_append:
  assumes "accepted lo (Some k) n ls" "accepted (Some k) hi m ls'"
  shows "accepted lo hi (n + m) (ls @ ls')"
proof -
  have "sorted_entries (concat (ls @ ls')) \<and> (\<forall>e \<in> set (concat (ls @ ls')). in_bounds lo hi e)"
    if "[] \<notin> set (ls @ ls')"
  proof -
    have l: "sorted_entries (concat ls)" "\<forall>e \<in> set (concat ls). in_bounds lo (Some k) e"
      and r: "sorted_entries (concat ls')" "\<forall>e \<in> set (concat ls'). in_bounds (Some k) hi e"
      using assms that by (auto simp: accepted_def)
    have "concat xs \<noteq> []" if "xs \<noteq> []" "[] \<notin> set xs" for xs :: "entry list list"
      using that by (cases xs) auto
    then have "concat ls \<noteq> []" "concat ls' \<noteq> []" using assms that unfolding accepted_def by auto
    then obtain a b where ab: "a \<in> set (concat ls)" "b \<in> set (concat ls')" by (meson hd_in_set)
    have "in_bounds lo hi e" if "e \<in> set (concat ls)" for e
      using l(2) r(2) that ab(2) by (fastforce simp: in_bounds_def split: option.splits)
    moreover have "in_bounds lo hi e" if "e \<in> set (concat ls')" for e
      using l(2) r(2) that ab(1) by (fastforce simp: in_bounds_def split: option.splits)
    moreover have "\<forall>x \<in> set (concat ls). \<forall>y \<in> set (concat ls'). en_key x < en_key y"
      using l(2) r(2) by (fastforce simp: in_bounds_def)
    ultimately show ?thesis using l(1) r(1) by (auto simp: sorted_entries_append)
  qed
  then show ?thesis using assms by (auto simp: accepted_def)
qed

lemma validate_children_step:
  "validate_children f (c # d # ds) lo hi visited =
     ebind (f (nr_page_id c) lo (Some (nr_min_key d)) visited) (\<lambda>(n, visited).
     ebind (validate_children f (d # ds) (Some (nr_min_key d)) hi visited) (\<lambda>(total, visited). Inr (n + total, visited)))"
  unfolding validate_children.simps(2)[of f c "d # ds"] by (simp only: list.case option.case Let_def)

lemma validate_children_accepted:
  assumes f: "\<And>i lo hi visited n visited'. f i lo hi visited = Inr (n, visited') \<Longrightarrow> \<exists>ls. g i = Inr ls \<and> accepted lo hi n ls"
  shows "validate_children f cs lo hi visited = Inr (n, visited') \<Longrightarrow> cs \<noteq> [] \<Longrightarrow>
    \<exists>ls. children_leaves g cs = Inr ls \<and> accepted lo hi n ls"
proof (induction cs arbitrary: lo visited n)
  case (Cons c cs)
  show ?case
  proof (cases "cs = []")
    case True
    then have "\<exists>v. f (nr_page_id c) lo hi visited = Inr (n, v)"
      using Cons.prems(1) by (auto simp: ebind_Inr_iff)
    then show ?thesis using f True by fastforce
  next
    case False
    then obtain d ds where ds: "cs = d # ds" by (cases cs) auto
    let ?k = "nr_min_key d"
    obtain a v b v' where v: "f (nr_page_id c) lo (Some ?k) visited = Inr (a, v)"
      "validate_children f cs (Some ?k) hi v = Inr (b, v')" "n = a + b" "v' = visited'"
      using Cons.prems(1) unfolding ds validate_children_step by (auto simp: ebind_Inr_iff simp del: validate_children.simps)
    obtain ls ls' where "g (nr_page_id c) = Inr ls" "accepted lo (Some ?k) a ls"
      "children_leaves g cs = Inr ls'" "accepted (Some ?k) hi b ls'"
      using f[OF v(1)] Cons.IH[OF v(2)[unfolded v(4)] False] by auto
    then show ?thesis using accepted_append[of lo ?k a ls hi b ls'] v(3) by simp
  qed
qed simp

lemma validate_node_accepted:
  "validate_node crc ps n i lo hi visited = Inr (m, visited') \<Longrightarrow>
     \<exists>ls. node_leaves crc ps n i = Inr ls \<and> accepted lo hi m ls"
proof (induction n arbitrary: i lo hi visited m visited')
  case (Suc n)
  then obtain p where p: "read_page crc ps i = Inr p"
    by (auto simp: on_page_def ebind_Inr_iff Let_def split: if_splits)
  consider "p ! 5 = LEAF" | "p ! 5 = INTERNAL" "p ! 5 \<noteq> LEAF"
    using Suc.prems p by (auto simp: on_page_def Let_def split: if_splits)
  then show ?case
  proof cases
    case 1
    then obtain es where "decode_leaf crc ps p i = Inr es" "leaf_in_order lo hi None es" "m = word_of_nat (length es)"
      using Suc.prems p by (auto simp: on_page_def ebind_Inr_iff Let_def split: if_splits)
    then show ?thesis using p 1 by (auto simp: on_page_def accepted_def leaf_in_order_iff)
  next
    case 2
    then obtain cs where cs: "decode_internal crc ps p i = Inr cs"
      "validate_children (validate_node crc ps n) cs lo hi (insert i visited) = Inr (m, visited')"
      using Suc.prems p by (auto simp: on_page_def ebind_Inr_iff Let_def split: if_splits)
    moreover have "cs \<noteq> []" using cs(1) by (auto simp: decode_internal_def Let_def ebind_Inr_iff split: if_splits)
    ultimately show ?thesis
      using validate_children_accepted[of "validate_node crc ps n" "node_leaves crc ps n"] Suc.IH p 2
      by (simp add: on_page_def)
  qed
qed simp

section \<open>Every tree that represents rows is accepted\<close>

lemma tag_distinct: "LEAF \<noteq> INTERNAL"
  by (simp add: tag_consts)

lemma wf_node_unique:
  "wf_node crc ps h i es \<Longrightarrow> wf_node crc ps h' i fs \<Longrightarrow> h < MAX_TREE_DEPTH \<Longrightarrow> h' < MAX_TREE_DEPTH \<Longrightarrow> es = fs"
proof (induction h arbitrary: i es h' fs)
  case 0
  show ?case
  proof (cases "h' = 0")
    case True
    then show ?thesis using read_leaf_read[OF "0.prems"(1)] read_leaf_read[of crc ps i fs] "0.prems"(2) by simp
  next
    case False
    then obtain k where "h' = Suc k" by (cases h') auto
    then show ?thesis using wf_node_leaf[OF "0.prems"(1)] wf_node_children[of crc ps k i fs] "0.prems"(2,4)
      by (metis Suc_lessD sum.inject(2) tag_distinct)
  qed
next
  case (Suc h)
  obtain p bs where p: "read_page crc ps i = Inr p" "p ! 5 = INTERNAL" "decode_internal crc ps p i = Inr (map fst bs)"
    "branches_ok (wf_node crc ps h) bs" "es = below bs"
    using wf_node_children[OF Suc.prems(1)] Suc.prems(3) by (metis Suc_lessD)
  have "h' \<noteq> 0" using wf_node_leaf[of crc ps i fs] Suc.prems(2) p(1,2) tag_distinct
    by (metis sum.inject(2))
  then obtain k where k: "h' = Suc k" by (cases h') auto
  then obtain q ds where q: "read_page crc ps i = Inr q" "decode_internal crc ps q i = Inr (map fst ds)"
    "branches_ok (wf_node crc ps k) ds" "fs = below ds"
    using wf_node_children[of crc ps k i fs] Suc.prems(2,4) by (metis Suc_lessD)
  have eq: "map fst bs = map fst ds" using p(1,3) q(1,2) by simp
  then have len: "length bs = length ds" by (rule map_eq_imp_length_eq)
  have "snd (bs ! j) = snd (ds ! j)" if j: "j < length bs" for j
  proof -
    have "wf_node crc ps h (nr_page_id (fst (bs ! j))) (snd (bs ! j))"
      "wf_node crc ps k (nr_page_id (fst (ds ! j))) (snd (ds ! j))"
      using p(4) q(3) j len by (auto simp: branches_ok_def)
    moreover have "fst (bs ! j) = fst (ds ! j)" using eq j len by (metis nth_map)
    ultimately show ?thesis using Suc.IH[of _ _ k] Suc.prems(3,4) k by simp
  qed
  then have "map snd bs = map snd ds" using len by (simp add: list_eq_iff_nth_eq)
  then show ?case using p(5) q(4) by simp
qed

text \<open>
  A set of visited pages that a subtree does not meet: each is above it or holds
  other entries.  Visiting the subtree adds pages that hold entries of it.
\<close>

definition fresh :: "(bytes \<Rightarrow> u32) \<Rightarrow> page_store \<Rightarrow> u64 set \<Rightarrow> u64 \<Rightarrow> entry list \<Rightarrow> bool" where
  "fresh crc ps visited i es \<longleftrightarrow>
     (\<forall>j \<in> visited. unat i < unat j \<or>
        (\<exists>h fs. h < MAX_TREE_DEPTH \<and> wf_node crc ps h j fs \<and> set fs \<inter> set es = {}))"

definition adds :: "(bytes \<Rightarrow> u32) \<Rightarrow> page_store \<Rightarrow> u64 set \<Rightarrow> u64 set \<Rightarrow> entry list \<Rightarrow> bool" where
  "adds crc ps visited visited' es \<longleftrightarrow>
     (\<forall>j \<in> visited'. j \<in> visited \<or>
        (\<exists>h fs. h < MAX_TREE_DEPTH \<and> wf_node crc ps h j fs \<and> set fs \<subseteq> set es))"

lemma fresh_empty: "fresh crc ps {} i es"
  by (simp add: fresh_def)

lemma bounds_open: "in_bounds None None e"
  by (simp add: in_bounds_def)

lemma fresh_self:
  assumes "fresh crc ps visited i es" "wf_node crc ps h i es" "h < MAX_TREE_DEPTH"
  shows "i \<notin> visited"
proof
  assume "i \<in> visited"
  then obtain k fs where "k < MAX_TREE_DEPTH" "wf_node crc ps k i fs" "set fs \<inter> set es = {}"
    using assms(1) by (auto simp: fresh_def)
  moreover from this(1,2) have "fs = es" by (intro wf_node_unique[OF _ assms(2) _ assms(3)])
  ultimately show False using wf_node_entries[OF assms(2)] by simp
qed

lemma fresh_adds:
  "adds crc ps visited visited' es \<Longrightarrow> fresh crc ps visited i fs \<Longrightarrow> set es \<inter> set fs = {} \<Longrightarrow> fresh crc ps visited' i fs"
  unfolding adds_def fresh_def by blast

lemma adds_insert:
  "adds crc ps (insert i visited) visited' es \<Longrightarrow> wf_node crc ps h i es \<Longrightarrow> h < MAX_TREE_DEPTH \<Longrightarrow>
     adds crc ps visited visited' es"
  unfolding adds_def by (metis insert_iff subset_refl)

lemma adds_trans:
  "adds crc ps visited v es \<Longrightarrow> adds crc ps v v' fs \<Longrightarrow> adds crc ps visited v' (es @ fs)"
  unfolding adds_def by fastforce

definition validates :: "(bytes \<Rightarrow> u32) \<Rightarrow> page_store \<Rightarrow>
    (u64 \<Rightarrow> bytes option \<Rightarrow> bytes option \<Rightarrow> u64 set \<Rightarrow> vyrn_error + (u64 \<times> u64 set)) \<Rightarrow> u64 \<Rightarrow> entry list \<Rightarrow> bool" where
  "validates crc ps f i es \<longleftrightarrow>
     (\<forall>lo hi visited. (\<forall>e \<in> set es. in_bounds lo hi e) \<longrightarrow> fresh crc ps visited i es \<longrightarrow>
        (\<exists>visited'. f i lo hi visited = Inr (word_of_nat (length es), visited') \<and> adds crc ps visited visited' es))"

lemma validates_children:
  assumes "bs \<noteq> []" "branches_ok (wf_node crc ps h) bs" "\<forall>b \<in> set bs. validates crc ps f (nr_page_id (fst b)) (snd b)"
    "\<forall>e \<in> set (below bs). in_bounds lo hi e" "\<forall>b \<in> set bs. fresh crc ps visited (nr_page_id (fst b)) (snd b)"
  shows "\<exists>visited'. validate_children f (map fst bs) lo hi visited = Inr (word_of_nat (length (below bs)), visited') \<and>
    adds crc ps visited visited' (below bs)"
  using assms
proof (induction bs arbitrary: lo visited)
  case (Cons b bs)
  note b = Cons.prems(3)[unfolded validates_def, rule_format, of b]
  show ?case
  proof (cases "bs = []")
    case True
    then show ?thesis using b[of lo hi visited] Cons.prems(4,5) by auto
  next
    case False
    then obtain d ds where ds: "bs = d # ds" by (cases bs) auto
    let ?k = "nr_min_key (fst d)"
    have fence: "\<forall>e \<in> set (snd b). en_key e < ?k" "branches_ok (wf_node crc ps h) bs"
      using Cons.prems(2) ds branches_ok_Cons[of "wf_node crc ps h" b bs] by auto
    then have above: "\<forall>e \<in> set (below bs). ?k \<le> en_key e"
      using first_fence[of "wf_node crc ps h" "fst d" "snd d" ds] ds by simp
    have apart: "set (snd b) \<inter> set (below bs) = {}" using fence(1) above by (meson disjoint_iff leD)
    obtain v where v: "f (nr_page_id (fst b)) lo (Some ?k) visited = Inr (word_of_nat (length (snd b)), v)"
      "adds crc ps visited v (snd b)"
      using b[of lo "Some ?k" visited] Cons.prems(4,5) fence(1) by (auto simp: in_bounds_def)
    have "\<forall>x \<in> set bs. fresh crc ps v (nr_page_id (fst x)) (snd x)"
    proof
      fix x assume x: "x \<in> set bs"
      then have "set (snd b) \<inter> set (snd x) = {}" using apart by auto
      then show "fresh crc ps v (nr_page_id (fst x)) (snd x)" using fresh_adds[OF v(2)] Cons.prems(5) x by simp
    qed
    then obtain v' where v': "validate_children f (map fst bs) (Some ?k) hi v = Inr (word_of_nat (length (below bs)), v')"
      "adds crc ps v v' (below bs)"
      using Cons.IH[OF False fence(2), of "Some ?k" v] Cons.prems(3,4) above by (auto simp: in_bounds_def)
    then have "validate_children f (map fst (b # bs)) lo hi visited = Inr (word_of_nat (length (below (b # bs))), v')"
      using v(1) ds validate_children_step[of f "fst b" "fst d" "map fst ds" lo hi visited]
      by (simp del: validate_children.simps)
    then show ?thesis using adds_trans[OF v(2) v'(2)] by auto
  qed
qed simp

lemma validates_node:
  "wf_node crc ps h i es \<Longrightarrow> h < n \<Longrightarrow> n \<le> MAX_TREE_DEPTH \<Longrightarrow> validates crc ps (validate_node crc ps n) i es"
proof (induction h arbitrary: n i es)
  case 0
  then obtain m where n: "n = Suc m" by (cases n) auto
  obtain p where p: "read_page crc ps i = Inr p" "p ! 5 = LEAF" "leaf_layout crc ps p es"
    by (rule wf_node_leaf[OF "0.prems"(1)])
  show ?case unfolding validates_def n
  proof (intro allI impI)
    fix lo hi visited assume a: "\<forall>e \<in> set es. in_bounds lo hi e" "fresh crc ps visited i es"
    have "i \<notin> visited" using fresh_self[OF a(2) "0.prems"(1)] by simp
    moreover have "leaf_in_order lo hi None es" using a(1) wf_node_entries[OF "0.prems"(1)] by (simp add: leaf_in_order_iff)
    moreover have "adds crc ps visited (insert i visited) es"
      using "0.prems"(1) depth_positive unfolding adds_def by blast
    ultimately show "\<exists>visited'. validate_node crc ps (Suc m) i lo hi visited = Inr (word_of_nat (length es), visited') \<and>
        adds crc ps visited visited' es"
      using p decode_leaf_read[OF p(3)] by (simp add: on_page_def Let_def)
  qed
next
  case (Suc h)
  then obtain m where n: "n = Suc m" "h < m" "m \<le> MAX_TREE_DEPTH" by (cases n) auto
  have h: "h < MAX_TREE_DEPTH" "Suc h < MAX_TREE_DEPTH" using Suc.prems(2,3) by simp_all
  obtain p as b ds where p: "read_page crc ps i = Inr p" "p ! 5 = INTERNAL"
    "read_internal_children crc ps i = Inr (map fst (as @ b # ds))"
    "branches_ok (wf_node crc ps h) (as @ b # ds)" "es = below (as @ b # ds)"
    "\<forall>x \<in> set (as @ b # ds). unat (nr_page_id (fst x)) < unat i"
    using wf_node_descend[OF Suc.prems(1) h(1), of "[]"] by (metis prefix_order.order_refl)
  define bs where "bs = as @ b # ds"
  note p = p[folded bs_def]
  have decode: "decode_internal crc ps p i = Inr (map fst bs)" using p(1-3) by (simp add: read_internal_children_def require_type_def)
  have "sorted_nodes (tl (map fst bs))" using fenced_nodes[OF p(4)] by (cases bs) (auto simp: sorted_nodes_def)
  then have seps: "successively (<) (map nr_min_key (tl (map fst bs)))"
    by (simp add: sorted_nodes_def successively_conv_sorted_wrt)
  show ?case unfolding validates_def n(1)
  proof (intro allI impI)
    fix lo hi visited assume a: "\<forall>e \<in> set es. in_bounds lo hi e" "fresh crc ps visited i es"
    let ?v = "insert i visited"
    have "\<forall>x \<in> set bs. validates crc ps (validate_node crc ps m) (nr_page_id (fst x)) (snd x)"
      using Suc.IH[OF _ n(2,3)] p(4) by (auto simp: branches_ok_def)
    moreover have "\<forall>x \<in> set bs. fresh crc ps ?v (nr_page_id (fst x)) (snd x)"
      using a(2) p(5,6) unfolding fresh_def by fastforce
    ultimately obtain v where v: "validate_children (validate_node crc ps m) (map fst bs) lo hi ?v = Inr (word_of_nat (length es), v)"
      "adds crc ps ?v v es"
      using validates_children[OF _ p(4), of "validate_node crc ps m" lo hi ?v] a(1) p(5) by (auto simp: bs_def)
    have "adds crc ps visited v es" using adds_insert[OF v(2) Suc.prems(1) h(2)] .
    then show "\<exists>visited'. validate_node crc ps (Suc m) i lo hi visited = Inr (word_of_nat (length es), visited') \<and>
        adds crc ps visited visited' es"
      using v(1) p(1,2) decode seps fresh_self[OF a(2) Suc.prems(1) h(2)] tag_distinct by (simp add: on_page_def Let_def)
  qed
qed

section \<open>The check of a tree\<close>

text \<open>
  C12: the check accepts every tree that represents rows.  Of any tree it accepts,
  a walk of the pages reaches leaves that together hold as many entries as the
  tree claims, and when no leaf is empty their keys strictly increase.
\<close>

theorem validate_exact:
  assumes "h < MAX_TREE_DEPTH"
  shows "(tree_rep crc t h rows \<longrightarrow> validate crc t = Inr ()) \<and>
    (validate crc t = Inr () \<and> pt_root t \<noteq> 0 \<longrightarrow>
       (\<exists>ls. node_leaves crc (pt_pages t) MAX_TREE_DEPTH (pt_root t) = Inr ls \<and>
          pt_len t = word_of_nat (length (concat ls)) \<and> ([] \<notin> set ls \<longrightarrow> sorted_entries (concat ls))))"
proof (intro conjI impI)
  assume "tree_rep crc t h rows"
  then obtain es where es: "if pt_root t = 0 then es = [] else wf_node crc (pt_pages t) h (pt_root t) es"
    "unat (pt_len t) = length es"
    by (auto simp: tree_rep_def tree_entries_def)
  have len: "word_of_nat (length es) = pt_len t" using es(2)[symmetric] by simp
  show "validate crc t = Inr ()"
  proof (cases "pt_root t = 0")
    case False
    then have "validates crc (pt_pages t) (validate_node crc (pt_pages t) MAX_TREE_DEPTH) (pt_root t) es"
      using validates_node[OF _ assms order_refl] es(1) by simp
    then obtain v where "validate_node crc (pt_pages t) MAX_TREE_DEPTH (pt_root t) None None {} = Inr (word_of_nat (length es), v)"
      unfolding validates_def by (metis (no_types, lifting) bounds_open fresh_empty)
    then show ?thesis using False len by (simp add: validate_def)
  qed (use es len in \<open>simp add: validate_def\<close>)
next
  assume a: "validate crc t = Inr () \<and> pt_root t \<noteq> 0"
  then obtain v where "validate_node crc (pt_pages t) MAX_TREE_DEPTH (pt_root t) None None {} = Inr (pt_len t, v)"
    by (auto simp: validate_def ebind_Inr_iff split: if_splits)
  from validate_node_accepted[OF this]
  show "\<exists>ls. node_leaves crc (pt_pages t) MAX_TREE_DEPTH (pt_root t) = Inr ls \<and>
      pt_len t = word_of_nat (length (concat ls)) \<and> ([] \<notin> set ls \<longrightarrow> sorted_entries (concat ls))"
    by (auto simp: accepted_def)
qed

theorem validate_exact_witness: "validate sample_crc sample_tree = Inr ()"
proof -
  obtain h where "tree_rep sample_crc sample_tree h [([97], [1], 7), ([99], [3], 7)]" "h < MAX_TREE_DEPTH"
    by (rule sample_tree_rep)
  then show ?thesis using validate_exact by blast
qed

end
