(* ===== verification/PageCache.thy ===== *)
theory PageCache
  imports PageFormat
begin

text \<open>
  The page file of the tree and its cache (\<open>PageCache\<close> and \<open>PageManager\<close> of
  \<open>crates/vyrn-core/src/page_tree.rs\<close>).  A manager is a file, a buffer of pages
  appended and not yet written, and a second-chance cache; the theories of the
  tree see it as a list of pages.  The lemmas justify that view: whatever is
  read, appended, flushed, cut off in the middle of a flush or discarded, a read
  answers from the list of pages, the cache stays within its capacity, and the
  sweep for a victim ends within its bound.  Counts of pages are naturals, at
  most the length of a file.
\<close>

section \<open>State\<close>

record cached_page =
  cp_page :: page
  cp_referenced :: bool

record page_cache =
  pc_pages :: "u64 \<rightharpoonup> cached_page"
  pc_clock :: "u64 list"
  pc_hand :: nat

record page_manager =
  pg_file :: bytes
  pg_page_count :: nat
  pg_flushed_count :: nat
  pg_pending :: bytes
  pg_cache :: page_cache
  pg_capacity :: nat
  pg_dirty :: bool

section \<open>The cache\<close>

definition replace_slot :: "u64 \<Rightarrow> cached_page \<Rightarrow> nat \<Rightarrow> page_cache \<Rightarrow> page_cache" where
  "replace_slot page_id e hand c =
     c\<lparr> pc_pages := ((pc_pages c)(pc_clock c ! hand := None))(page_id \<mapsto> e),
        pc_clock := (pc_clock c)[hand := page_id],
        pc_hand := hand + 1 \<rparr>"

fun sweep :: "nat \<Rightarrow> u64 \<Rightarrow> cached_page \<Rightarrow> page_cache \<Rightarrow> page_cache \<times> bool" where
  "sweep 0 page_id e c = (c, False)"
| "sweep (Suc n) page_id e c =
     (let hand = (if length (pc_clock c) \<le> pc_hand c then 0 else pc_hand c);
          candidate = pc_clock c ! hand
      in case pc_pages c candidate of
           Some cached \<Rightarrow>
             if cp_referenced cached
             then sweep n page_id e
                    (c\<lparr> pc_pages := (pc_pages c)(candidate \<mapsto> cached\<lparr> cp_referenced := False \<rparr>), pc_hand := hand + 1 \<rparr>)
             else (replace_slot page_id e hand c, True)
         | None \<Rightarrow> (replace_slot page_id e hand c, True))"

definition admit :: "u64 \<Rightarrow> page \<Rightarrow> bool \<Rightarrow> nat \<Rightarrow> page_cache \<Rightarrow> page_cache" where
  "admit page_id p referenced capacity c =
     (case pc_pages c page_id of
        Some existing \<Rightarrow>
          c\<lparr> pc_pages := (pc_pages c)(page_id \<mapsto>
               \<lparr> cp_page = p, cp_referenced = referenced \<or> cp_referenced existing \<rparr>) \<rparr>
      | None \<Rightarrow>
          let e = \<lparr> cp_page = p, cp_referenced = referenced \<rparr>
          in if length (pc_clock c) < capacity
             then c\<lparr> pc_pages := (pc_pages c)(page_id \<mapsto> e), pc_clock := pc_clock c @ [page_id] \<rparr>
             else let (c, placed) = sweep (length (pc_clock c) + 1) page_id e c
                  in if placed then c
                     else replace_slot page_id e (if length (pc_clock c) \<le> pc_hand c then 0 else pc_hand c) c)"

section \<open>The manager\<close>

definition empty_cache :: page_cache where
  "empty_cache = \<lparr> pc_pages = (\<lambda>_. None), pc_clock = [], pc_hand = 0 \<rparr>"

definition pg_read :: "(bytes \<Rightarrow> u32) \<Rightarrow> u64 \<Rightarrow> page_manager \<Rightarrow> page_manager \<times> (vyrn_error + page)" where
  "pg_read crc page_id m =
     (case pc_pages (pg_cache m) page_id of
        Some cached \<Rightarrow>
          (m\<lparr> pg_cache := (pg_cache m)\<lparr> pc_pages :=
                (pc_pages (pg_cache m))(page_id \<mapsto> cached\<lparr> cp_referenced := True \<rparr>) \<rparr> \<rparr>, Inr (cp_page cached))
      | None \<Rightarrow>
          if pg_page_count m \<le> unat page_id
          then (m, Inl (CorruptPage page_id ''page reference is out of bounds''))
          else let start = (if pg_flushed_count m \<le> unat page_id
                            then (unat page_id - pg_flushed_count m) * PAGE_SIZE else unat page_id * PAGE_SIZE);
                   source = (if pg_flushed_count m \<le> unat page_id then pg_pending m else pg_file m)
               in if length source < start + PAGE_SIZE then (m, Inl Io)
                  else let p = bslice source start PAGE_SIZE
                       in case validate_page crc p page_id of
                            Inl e \<Rightarrow> (m, Inl e)
                          | Inr _ \<Rightarrow> (m\<lparr> pg_cache := admit page_id p True (pg_capacity m) (pg_cache m) \<rparr>, Inr p))"

definition pg_append :: "(bytes \<Rightarrow> u32) \<Rightarrow> page \<Rightarrow> page_manager \<Rightarrow> page_manager \<times> u64" where
  "pg_append crc p m =
     (let page_id = word_of_nat (pg_page_count m);
          p = finalize_page crc (write_at p 8 (u64_to_be page_id))
      in (m\<lparr> pg_pending := pg_pending m @ p, pg_page_count := pg_page_count m + 1,
             pg_cache := admit page_id p False (pg_capacity m) (pg_cache m) \<rparr>, page_id))"

text \<open>A flush that is cut off has written some bytes of the buffer and reports an error.\<close>

definition flush_appends :: "nat option \<Rightarrow> page_manager \<Rightarrow> page_manager \<times> (vyrn_error + unit)" where
  "flush_appends short m =
     (if pg_pending m = [] then (m, Inr ())
      else case short of
             Some n \<Rightarrow>
               (m\<lparr> pg_file := write_at (pg_file m) (pg_flushed_count m * PAGE_SIZE) (take n (pg_pending m)) \<rparr>, Inl Io)
           | None \<Rightarrow>
               (m\<lparr> pg_file := write_at (pg_file m) (pg_flushed_count m * PAGE_SIZE) (pg_pending m),
                   pg_pending := [], pg_flushed_count := pg_page_count m, pg_dirty := True \<rparr>, Inr ()))"

definition discard_appends :: "page_manager \<Rightarrow> page_manager" where
  "discard_appends m =
     (if pg_pending m = [] then m
      else m\<lparr> pg_pending := [],
              pg_cache := (pg_cache m)\<lparr> pc_pages := (\<lambda>page_id.
                if pg_flushed_count m \<le> unat page_id \<and> unat page_id < pg_page_count m then None
                else pc_pages (pg_cache m) page_id) \<rparr>,
              pg_page_count := pg_flushed_count m \<rparr>)"

definition pg_sync :: "nat option \<Rightarrow> page_manager \<Rightarrow> page_manager \<times> (vyrn_error + unit)" where
  "pg_sync short m =
     (case flush_appends short m of
        (m, Inl e) \<Rightarrow> (m, Inl e)
      | (m, Inr _) \<Rightarrow> if \<not> pg_dirty m then (m, Inr ()) else (m\<lparr> pg_dirty := False \<rparr>, Inr ()))"

definition refresh_page_count :: "nat option \<Rightarrow> page_manager \<Rightarrow> page_manager \<times> (vyrn_error + unit)" where
  "refresh_page_count short m =
     (case flush_appends short m of
        (m, Inl e) \<Rightarrow> (m, Inl e)
      | (m, Inr _) \<Rightarrow>
          if length (pg_file m) mod PAGE_SIZE \<noteq> 0
          then (m, Inl (CorruptPage 0 ''page file length is not page-aligned''))
          else let count = length (pg_file m) div PAGE_SIZE
               in (m\<lparr> pg_page_count := count, pg_flushed_count := count \<rparr>, Inr ()))"

text \<open>Opening a file, an absent one being an empty one: the file after it and the manager.\<close>

definition pg_open :: "(bytes \<Rightarrow> u32) \<Rightarrow> nat \<Rightarrow> bytes \<Rightarrow> vyrn_error + page_manager" where
  "pg_open crc capacity f =
     (let f = (if f = [] then finalize_page crc (new_page SUPER 0) else f);
          f = (if length f mod PAGE_SIZE \<noteq> 0 then take (length f - length f mod PAGE_SIZE) f else f);
          page_count = length f div PAGE_SIZE;
          m = \<lparr> pg_file = f, pg_page_count = page_count, pg_flushed_count = page_count, pg_pending = [],
                pg_cache = empty_cache, pg_capacity = max capacity 1, pg_dirty = False \<rparr>
      in case pg_read crc 0 m of
           (m, Inl e) \<Rightarrow> Inl e
         | (m, Inr p) \<Rightarrow> ebind (require_type p 0 SUPER) (\<lambda>_. Inr m))"

section \<open>What the cache holds\<close>

definition holds :: "page_cache \<Rightarrow> u64 \<Rightarrow> page \<Rightarrow> bool" where
  "holds c i p \<longleftrightarrow> (\<exists>x. pc_pages c i = Some x \<and> cp_page x = p)"

definition cache_bounded :: "nat \<Rightarrow> page_cache \<Rightarrow> bool" where
  "cache_bounded capacity c \<longleftrightarrow> length (pc_clock c) \<le> capacity \<and> dom (pc_pages c) \<subseteq> set (pc_clock c)"

lemma bounded_card: "cache_bounded capacity c \<Longrightarrow> card (dom (pc_pages c)) \<le> capacity"
  unfolding cache_bounded_def
  by (meson List.finite_set card_length card_mono le_trans)

lemma replace_slot_holds:
  "holds (replace_slot i e hand c) j p \<Longrightarrow> holds c j p \<or> (j = i \<and> p = cp_page e)"
  by (auto simp: replace_slot_def holds_def split: if_splits)

lemma replace_slot_bounded:
  assumes "cache_bounded capacity c" "hand < length (pc_clock c)"
  shows "cache_bounded capacity (replace_slot i e hand c)"
proof -
  have "x \<in> set ((pc_clock c)[hand := i])" if "x \<in> set (pc_clock c)" "x \<noteq> pc_clock c ! hand" for x
    using that by (metis in_set_conv_nth length_list_update nth_list_update_neq)
  then show ?thesis using assms set_update_memI[OF assms(2), of i]
    by (auto simp: replace_slot_def cache_bounded_def dom_def split: if_splits)
qed

lemma sweep_holds:
  "holds (fst (sweep n i e c)) j p \<Longrightarrow> holds c j p \<or> (j = i \<and> p = cp_page e)"
proof (induction n i e c rule: sweep.induct)
  case (2 n i e c)
  let ?hand = "if length (pc_clock c) \<le> pc_hand c then 0 else pc_hand c"
  let ?candidate = "pc_clock c ! ?hand"
  show ?case
  proof (cases "\<exists>x. pc_pages c ?candidate = Some x \<and> cp_referenced x")
    case True
    then obtain x where x: "pc_pages c ?candidate = Some x" "cp_referenced x" by blast
    let ?c = "c\<lparr> pc_pages := (pc_pages c)(?candidate \<mapsto> x\<lparr> cp_referenced := False \<rparr>), pc_hand := ?hand + 1 \<rparr>"
    have "holds ?c j p \<or> (j = i \<and> p = cp_page e)" using 2(1)[OF refl refl x(1,2)] 2(2) x by (simp add: Let_def)
    then show ?thesis using x(1) by (auto simp: holds_def split: if_splits)
  next
    case False
    then have "fst (sweep (Suc n) i e c) = replace_slot i e ?hand c" by (auto simp: Let_def split: option.splits)
    then show ?thesis using 2(2) replace_slot_holds by metis
  qed
qed simp

text \<open>The sweep keeps the ring as long as it finds no victim, and finds one within a lap and a step.\<close>

definition referenced_slots :: "page_cache \<Rightarrow> u64 set" where
  "referenced_slots c = {i \<in> set (pc_clock c). \<exists>x. pc_pages c i = Some x \<and> cp_referenced x}"

lemma sweep_places:
  "pc_clock c \<noteq> [] \<Longrightarrow> card (referenced_slots c) < n \<Longrightarrow> snd (sweep n i e c)"
proof (induction n i e c rule: sweep.induct)
  case (2 n i e c)
  let ?hand = "if length (pc_clock c) \<le> pc_hand c then 0 else pc_hand c"
  let ?candidate = "pc_clock c ! ?hand"
  show ?case
  proof (cases "\<exists>x. pc_pages c ?candidate = Some x \<and> cp_referenced x")
    case True
    then obtain x where x: "pc_pages c ?candidate = Some x" "cp_referenced x" by blast
    let ?c = "c\<lparr> pc_pages := (pc_pages c)(?candidate \<mapsto> x\<lparr> cp_referenced := False \<rparr>), pc_hand := ?hand + 1 \<rparr>"
    have "?candidate \<in> referenced_slots c" using 2(2) x by (simp add: referenced_slots_def)
    moreover have "referenced_slots ?c = referenced_slots c - {?candidate}" by (auto simp: referenced_slots_def)
    moreover have "finite (referenced_slots c)" by (simp add: referenced_slots_def)
    ultimately have "card (referenced_slots ?c) < card (referenced_slots c)" by (simp only: card_Diff1_less)
    then have "card (referenced_slots ?c) < n" using 2(3) by linarith
    then show ?thesis using 2(1)[OF refl refl x(1,2)] 2(2) x by (simp add: Let_def)
  next
    case False
    then show ?thesis by (auto simp: Let_def split: option.splits)
  qed
qed simp

lemma sweep_bounded:
  "cache_bounded capacity c \<Longrightarrow> pc_clock c \<noteq> [] \<Longrightarrow> cache_bounded capacity (fst (sweep n i e c))"
proof (induction n i e c rule: sweep.induct)
  case (2 n i e c)
  let ?hand = "if length (pc_clock c) \<le> pc_hand c then 0 else pc_hand c"
  let ?candidate = "pc_clock c ! ?hand"
  have hand: "?hand < length (pc_clock c)" using 2(3) by simp
  show ?case
  proof (cases "\<exists>x. pc_pages c ?candidate = Some x \<and> cp_referenced x")
    case True
    then obtain x where x: "pc_pages c ?candidate = Some x" "cp_referenced x" by blast
    let ?c = "c\<lparr> pc_pages := (pc_pages c)(?candidate \<mapsto> x\<lparr> cp_referenced := False \<rparr>), pc_hand := ?hand + 1 \<rparr>"
    have "cache_bounded capacity ?c" using 2(2) hand by (auto simp: cache_bounded_def)
    then show ?thesis using 2(1)[OF refl refl x(1,2)] 2(3) x by (simp add: Let_def)
  next
    case False
    then have "fst (sweep (Suc n) i e c) = replace_slot i e ?hand c" by (auto simp: Let_def split: option.splits)
    then show ?thesis using replace_slot_bounded[OF 2(2) hand] by metis
  qed
qed simp

text \<open>The last resort behind the sweep is never needed.\<close>

lemma admit_full:
  assumes "pc_pages c i = None" "capacity \<le> length (pc_clock c)" "pc_clock c \<noteq> []"
  shows "admit i p referenced capacity c =
    fst (sweep (length (pc_clock c) + 1) i \<lparr> cp_page = p, cp_referenced = referenced \<rparr> c)"
proof -
  have "card (referenced_slots c) \<le> card (set (pc_clock c))"
    by (intro card_mono) (auto simp: referenced_slots_def)
  also have "\<dots> \<le> length (pc_clock c)" by (rule card_length)
  finally have "snd (sweep (length (pc_clock c) + 1) i \<lparr> cp_page = p, cp_referenced = referenced \<rparr> c)"
    using assms(3) by (intro sweep_places) simp_all
  then show ?thesis using assms(1,2) by (auto simp: admit_def Let_def split: prod.splits simp del: sweep.simps)
qed

lemma admit_holds:
  assumes "0 < capacity" "holds (admit i p referenced capacity c) j q"
  shows "holds c j q \<or> (j = i \<and> q = p)"
proof (cases "pc_pages c i = None \<and> capacity \<le> length (pc_clock c)")
  case True
  then have "pc_clock c \<noteq> []" using assms(1) by auto
  then have full: "admit i p referenced capacity c =
      fst (sweep (length (pc_clock c) + 1) i \<lparr> cp_page = p, cp_referenced = referenced \<rparr> c)"
    using True by (intro admit_full) simp_all
  show ?thesis using sweep_holds[OF assms(2)[unfolded full]] by simp
next
  case False
  then show ?thesis
    using assms(2) by (auto simp: admit_def holds_def Let_def split: option.splits if_splits)
qed

lemma admit_bounded:
  assumes "0 < capacity" "cache_bounded capacity c"
  shows "cache_bounded capacity (admit i p referenced capacity c)"
proof (cases "pc_pages c i = None \<and> capacity \<le> length (pc_clock c)")
  case True
  then have "pc_clock c \<noteq> []" using assms(1) by auto
  then show ?thesis
    using admit_full[of c i capacity p referenced] sweep_bounded[OF assms(2)] True by (simp del: sweep.simps)
next
  case False
  then show ?thesis
    using assms(2) by (auto simp: admit_def cache_bounded_def Let_def split: option.splits if_splits)
qed

section \<open>The pages of a file\<close>

definition pages_of :: "bytes \<Rightarrow> page_store" where
  "pages_of bs = map (\<lambda>i. bslice bs (i * PAGE_SIZE) PAGE_SIZE) [0..<length bs div PAGE_SIZE]"

lemma length_pages_of [simp]: "length (pages_of bs) = length bs div PAGE_SIZE"
  by (simp add: pages_of_def)

lemma pages_of_nth: "i < length bs div PAGE_SIZE \<Longrightarrow> pages_of bs ! i = bslice bs (i * PAGE_SIZE) PAGE_SIZE"
  by (simp add: pages_of_def)

lemma pages_of_Nil [simp]: "pages_of [] = []"
  by (simp add: pages_of_def)

lemma page_within: "i < n div PAGE_SIZE \<Longrightarrow> i * PAGE_SIZE + PAGE_SIZE \<le> n"
proof -
  assume "i < n div PAGE_SIZE"
  then have "Suc i * PAGE_SIZE \<le> (n div PAGE_SIZE) * PAGE_SIZE" by (intro mult_le_mono1) simp
  also have "\<dots> \<le> n" by simp
  finally show ?thesis by simp
qed

lemma pages_of_append:
  assumes "length xs = k * PAGE_SIZE"
  shows "pages_of (xs @ ys) = pages_of xs @ pages_of ys"
proof (rule nth_equalityI)
  have size: "0 < PAGE_SIZE" by (simp add: size_consts)
  show "length (pages_of (xs @ ys)) = length (pages_of xs @ pages_of ys)" using assms size by simp
  fix i assume "i < length (pages_of (xs @ ys))"
  then have i: "i < k + length ys div PAGE_SIZE" using assms size by simp
  show "pages_of (xs @ ys) ! i = (pages_of xs @ pages_of ys) ! i"
  proof (cases "i < k")
    case True
    then have "i * PAGE_SIZE + PAGE_SIZE \<le> length xs" using page_within[of i "length xs"] assms size by simp
    then show ?thesis using True i assms size by (simp add: pages_of_nth nth_append bslice_def)
  next
    case False
    then have "i * PAGE_SIZE = k * PAGE_SIZE + (i - k) * PAGE_SIZE" by (simp add: diff_mult_distrib)
    then show ?thesis using False i assms size by (simp add: pages_of_nth nth_append bslice_def)
  qed
qed

lemma pages_of_page: "length p = PAGE_SIZE \<Longrightarrow> pages_of p = [p]"
  by (simp add: pages_of_def bslice_def size_consts)

section \<open>The manager as a list of pages\<close>

definition store_of :: "page_manager \<Rightarrow> page_store" where
  "store_of m = pages_of (take (pg_flushed_count m * PAGE_SIZE) (pg_file m) @ pg_pending m)"

definition manager_ok :: "(bytes \<Rightarrow> u32) \<Rightarrow> page_manager \<Rightarrow> bool" where
  "manager_ok crc m \<longleftrightarrow>
     pg_flushed_count m \<le> pg_page_count m \<and> pg_page_count m < 2 ^ 64 \<and> 0 < pg_capacity m \<and>
     length (pg_pending m) = (pg_page_count m - pg_flushed_count m) * PAGE_SIZE \<and>
     pg_flushed_count m * PAGE_SIZE \<le> length (pg_file m) \<and>
     cache_bounded (pg_capacity m) (pg_cache m) \<and>
     (\<forall>i p. holds (pg_cache m) i p \<longrightarrow> read_page crc (store_of m) i = Inr p)"

lemma page_size_pos [simp]: "0 < PAGE_SIZE" "PAGE_SIZE \<noteq> 0"
  by (simp_all add: size_consts)

lemma store_of_parts:
  assumes "manager_ok crc m"
  shows "store_of m = pages_of (take (pg_flushed_count m * PAGE_SIZE) (pg_file m)) @ pages_of (pg_pending m)"
    "length (store_of m) = pg_page_count m"
    "length (pages_of (take (pg_flushed_count m * PAGE_SIZE) (pg_file m))) = pg_flushed_count m"
proof -
  have len: "length (take (pg_flushed_count m * PAGE_SIZE) (pg_file m)) = pg_flushed_count m * PAGE_SIZE"
    using assms by (simp add: manager_ok_def)
  show parts: "store_of m = pages_of (take (pg_flushed_count m * PAGE_SIZE) (pg_file m)) @ pages_of (pg_pending m)"
    unfolding store_of_def by (rule pages_of_append[OF len])
  show flushed: "length (pages_of (take (pg_flushed_count m * PAGE_SIZE) (pg_file m))) = pg_flushed_count m"
    unfolding length_pages_of len by (simp add: size_consts)
  have "length (pages_of (pg_pending m)) = pg_page_count m - pg_flushed_count m"
    using assms by (simp add: manager_ok_def)
  then show "length (store_of m) = pg_page_count m" using parts flushed assms by (simp add: manager_ok_def)
qed

text \<open>The bytes a miss reads are the page of the list.\<close>

lemma store_of_nth:
  assumes "manager_ok crc m" "i < pg_page_count m"
  shows "store_of m ! i =
    (if pg_flushed_count m \<le> i then bslice (pg_pending m) ((i - pg_flushed_count m) * PAGE_SIZE) PAGE_SIZE
     else bslice (pg_file m) (i * PAGE_SIZE) PAGE_SIZE)"
    "(if pg_flushed_count m \<le> i then (i - pg_flushed_count m) * PAGE_SIZE else i * PAGE_SIZE) + PAGE_SIZE \<le>
     length (if pg_flushed_count m \<le> i then pg_pending m else pg_file m)"
proof -
  let ?n = "pg_flushed_count m" and ?f = "take (pg_flushed_count m * PAGE_SIZE) (pg_file m)"
  note parts = store_of_parts[OF assms(1)]
  have pending: "length (pg_pending m) div PAGE_SIZE = pg_page_count m - ?n"
    using assms(1) by (simp add: manager_ok_def)
  have f: "length ?f = ?n * PAGE_SIZE" "?n * PAGE_SIZE \<le> length (pg_file m)" using assms(1) by (simp_all add: manager_ok_def)
  have in_file: "i * PAGE_SIZE + PAGE_SIZE \<le> ?n * PAGE_SIZE" if "i < ?n" using page_within[of i "?n * PAGE_SIZE"] that by simp
  have "bslice ?f (i * PAGE_SIZE) PAGE_SIZE = bslice (pg_file m) (i * PAGE_SIZE) PAGE_SIZE" if "i < ?n"
    using in_file[OF that] by (simp add: bslice_def min_def drop_take)
  then show "store_of m ! i =
      (if ?n \<le> i then bslice (pg_pending m) ((i - ?n) * PAGE_SIZE) PAGE_SIZE else bslice (pg_file m) (i * PAGE_SIZE) PAGE_SIZE)"
    using parts(1,3) assms(2) pending f by (auto simp: nth_append pages_of_nth)
  show "(if ?n \<le> i then (i - ?n) * PAGE_SIZE else i * PAGE_SIZE) + PAGE_SIZE \<le>
      length (if ?n \<le> i then pg_pending m else pg_file m)"
    using in_file f(2) page_within[of "i - ?n" "length (pg_pending m)"] pending assms(2) by auto
qed

lemma manager_ok_cache:
  assumes "manager_ok crc m" "cache_bounded (pg_capacity m) c"
    "\<And>i p. holds c i p \<Longrightarrow> holds (pg_cache m) i p \<or> read_page crc (store_of m) i = Inr p"
  shows "manager_ok crc (m\<lparr> pg_cache := c \<rparr>)" "store_of (m\<lparr> pg_cache := c \<rparr>) = store_of m"
proof -
  show same: "store_of (m\<lparr> pg_cache := c \<rparr>) = store_of m" by (simp add: store_of_def)
  show "manager_ok crc (m\<lparr> pg_cache := c \<rparr>)"
    using assms unfolding manager_ok_def same by auto
qed

lemma pg_read_correct:
  assumes "manager_ok crc m"
  shows "snd (pg_read crc i m) = read_page crc (store_of m) i" "manager_ok crc (fst (pg_read crc i m))"
    "store_of (fst (pg_read crc i m)) = store_of m"
proof -
  have ok: "cache_bounded (pg_capacity m) (pg_cache m)" "0 < pg_capacity m"
    "\<And>i p. holds (pg_cache m) i p \<Longrightarrow> read_page crc (store_of m) i = Inr p"
    using assms by (auto simp: manager_ok_def)
  have "snd (pg_read crc i m) = read_page crc (store_of m) i \<and> manager_ok crc (fst (pg_read crc i m)) \<and>
    store_of (fst (pg_read crc i m)) = store_of m"
  proof (cases "pc_pages (pg_cache m) i")
    case (Some x)
    let ?c = "(pg_cache m)\<lparr> pc_pages := (pc_pages (pg_cache m))(i \<mapsto> x\<lparr> cp_referenced := True \<rparr>) \<rparr>"
    have "cache_bounded (pg_capacity m) ?c" using ok(1) Some by (auto simp: cache_bounded_def)
    moreover have "holds (pg_cache m) j p" if "holds ?c j p" for j p
      using that Some by (auto simp: holds_def split: if_splits)
    moreover have "read_page crc (store_of m) i = Inr (cp_page x)" using ok(3)[of i "cp_page x"] Some by (simp add: holds_def)
    ultimately show ?thesis using manager_ok_cache[OF assms, of ?c] Some by (simp add: pg_read_def)
  next
    case None
    show ?thesis
    proof (cases "pg_page_count m \<le> unat i")
      case True
      then show ?thesis using None assms store_of_parts(2)[OF assms] by (simp add: pg_read_def read_page_def)
    next
      case False
      let ?p = "store_of m ! unat i"
      note at = store_of_nth[OF assms, of "unat i"]
      have bound: "unat i < length (store_of m)" using False store_of_parts(2)[OF assms] by simp
      have read: "pg_read crc i m = (case validate_page crc ?p i of Inl e \<Rightarrow> (m, Inl e)
          | Inr _ \<Rightarrow> (m\<lparr> pg_cache := admit i ?p True (pg_capacity m) (pg_cache m) \<rparr>, Inr ?p))"
        using None False at by (auto simp: pg_read_def Let_def not_less split: sum.splits)
      show ?thesis
      proof (cases "validate_page crc ?p i")
        case (Inl e)
        then show ?thesis using read assms bound by (simp add: read_page_def)
      next
        case (Inr u)
        then have r: "read_page crc (store_of m) i = Inr ?p" using bound by (simp add: read_page_def)
        let ?c = "admit i ?p True (pg_capacity m) (pg_cache m)"
        have "holds (pg_cache m) j q \<or> read_page crc (store_of m) j = Inr q" if "holds ?c j q" for j q
          using admit_holds[OF ok(2) that] r by blast
        then show ?thesis
          using manager_ok_cache[OF assms admit_bounded[OF ok(2,1)], of i ?p True] read r Inr by simp
      qed
    qed
  qed
  then show "snd (pg_read crc i m) = read_page crc (store_of m) i" "manager_ok crc (fst (pg_read crc i m))"
    "store_of (fst (pg_read crc i m)) = store_of m" by blast+
qed

lemma pg_append_correct:
  assumes "manager_ok crc m" "page_wf p" "pg_page_count m + 1 < 2 ^ 64"
  shows "manager_ok crc (fst (pg_append crc p m))"
    "(store_of (fst (pg_append crc p m)), snd (pg_append crc p m)) = append_page crc (store_of m) p"
proof -
  let ?id = "word_of_nat (pg_page_count m) :: u64"
  let ?p = "finalize_page crc (write_at p 8 (u64_to_be ?id))"
  let ?c = "admit ?id ?p False (pg_capacity m) (pg_cache m)"
  let ?m = "m\<lparr> pg_pending := pg_pending m @ ?p, pg_page_count := pg_page_count m + 1, pg_cache := ?c \<rparr>"
  have app: "pg_append crc p m = (?m, ?id)" by (simp add: pg_append_def Let_def)
  note parts = store_of_parts[OF assms(1)]
  have len: "length ?p = PAGE_SIZE" using assms(2) by (simp add: page_wf_def size_consts)
  have "length (take (pg_flushed_count m * PAGE_SIZE) (pg_file m) @ pg_pending m) = pg_page_count m * PAGE_SIZE"
    using assms(1) by (simp add: manager_ok_def diff_mult_distrib)
  from pages_of_append[OF this, of ?p] have store: "store_of ?m = store_of m @ [?p]"
    using pages_of_page[OF len] by (simp add: store_of_def)
  then show "(store_of (fst (pg_append crc p m)), snd (pg_append crc p m)) = append_page crc (store_of m) p"
    using parts(2) by (simp add: app append_page_def Let_def)
  have ok: "cache_bounded (pg_capacity m) (pg_cache m)" "0 < pg_capacity m"
    "\<And>i p. holds (pg_cache m) i p \<Longrightarrow> read_page crc (store_of m) i = Inr p"
    using assms(1) by (auto simp: manager_ok_def)
  have "read_page crc (store_of ?m) ?id = Inr ?p"
    using read_appended[OF assms(2), of "store_of m" crc] assms(3) parts(2) store by simp
  then have "read_page crc (store_of ?m) j = Inr q" if "holds ?c j q" for j q
    using admit_holds[OF ok(2) that] ok(3) read_page_mono[of crc "store_of m" j q "store_of ?m"] store by auto
  moreover have "length (pg_pending m @ ?p) = (pg_page_count m + 1 - pg_flushed_count m) * PAGE_SIZE"
    using assms(1) len by (simp add: manager_ok_def Suc_diff_le)
  ultimately show "manager_ok crc (fst (pg_append crc p m))"
    using assms(1,3) admit_bounded[OF ok(2,1), of ?id ?p False] unfolding app manager_ok_def by simp
qed

text \<open>A flush changes nothing of the list, whether it completes or is cut off.\<close>

lemma write_at_prefix: "n \<le> length f \<Longrightarrow> take n (write_at f n bs) = take n f"
  by (simp add: write_at_def)

lemma flush_appends_correct:
  assumes "manager_ok crc m"
  shows "manager_ok crc (fst (flush_appends short m))" "store_of (fst (flush_appends short m)) = store_of m"
    "snd (flush_appends short m) = Inr () \<Longrightarrow> pg_flushed_count (fst (flush_appends short m)) = pg_page_count m"
    "pg_page_count (fst (flush_appends short m)) = pg_page_count m"
proof -
  have m: "pg_flushed_count m * PAGE_SIZE \<le> length (pg_file m)" "pg_flushed_count m \<le> pg_page_count m"
    "length (pg_pending m) = (pg_page_count m - pg_flushed_count m) * PAGE_SIZE"
    using assms by (auto simp: manager_ok_def)
  have total: "pg_page_count m * PAGE_SIZE = pg_flushed_count m * PAGE_SIZE + length (pg_pending m)"
    using m(2,3) by (simp add: diff_mult_distrib)
  have "take (pg_page_count m * PAGE_SIZE) (write_at (pg_file m) (pg_flushed_count m * PAGE_SIZE) (pg_pending m)) =
      take (pg_flushed_count m * PAGE_SIZE) (pg_file m) @ pg_pending m"
    using m(1) unfolding total by (simp add: write_at_def min_def)
  then show store: "store_of (fst (flush_appends short m)) = store_of m"
    using m(1) by (auto simp: flush_appends_def store_of_def write_at_prefix split: option.splits)
  have "length (write_at (pg_file m) (pg_flushed_count m * PAGE_SIZE) (pg_pending m)) \<ge> pg_page_count m * PAGE_SIZE"
    "length (write_at (pg_file m) (pg_flushed_count m * PAGE_SIZE) (take n (pg_pending m))) \<ge> pg_flushed_count m * PAGE_SIZE" for n
    using m(1) unfolding total by (simp_all add: write_at_def)
  then show "manager_ok crc (fst (flush_appends short m))"
    using assms unfolding manager_ok_def store by (auto simp: flush_appends_def split: option.splits)
  show "snd (flush_appends short m) = Inr () \<Longrightarrow> pg_flushed_count (fst (flush_appends short m)) = pg_page_count m"
    using m by (auto simp: flush_appends_def split: option.splits if_splits)
  show "pg_page_count (fst (flush_appends short m)) = pg_page_count m"
    by (simp add: flush_appends_def split: option.splits)
qed

lemma read_page_take:
  "read_page crc ps i = Inr p \<Longrightarrow> unat i < n \<Longrightarrow> read_page crc (take n ps) i = Inr p"
  by (auto simp: read_page_def Let_def split: if_splits)

lemma discard_appends_correct:
  assumes "manager_ok crc m"
  shows "manager_ok crc (discard_appends m)" "store_of (discard_appends m) = take (pg_flushed_count m) (store_of m)"
    "pg_flushed_count (discard_appends m) = pg_flushed_count m"
proof -
  note parts = store_of_parts[OF assms]
  show store: "store_of (discard_appends m) = take (pg_flushed_count m) (store_of m)"
  proof (cases "pg_pending m = []")
    case True
    then show ?thesis using parts assms by (simp add: discard_appends_def manager_ok_def)
  next
    case False
    then have "store_of (discard_appends m) = pages_of (take (pg_flushed_count m * PAGE_SIZE) (pg_file m))"
      by (simp add: discard_appends_def store_of_def)
    then show ?thesis using parts(1,3) by simp
  qed
  have read: "holds (pg_cache m) i p \<Longrightarrow> read_page crc (store_of m) i = Inr p" for i p
    using assms by (simp add: manager_ok_def)
  have "read_page crc (take (pg_flushed_count m) (store_of m)) i = Inr p" if "holds (pg_cache (discard_appends m)) i p" for i p
  proof -
    have h: "holds (pg_cache m) i p" "pg_pending m \<noteq> [] \<Longrightarrow> unat i < pg_flushed_count m \<or> pg_page_count m \<le> unat i"
      using that by (auto simp: discard_appends_def holds_def split: if_splits)
    have "unat i < pg_page_count m" using read[OF h(1)] parts(2) by (auto simp: read_page_def split: if_splits)
    moreover have "pg_pending m = [] \<Longrightarrow> pg_flushed_count m = pg_page_count m" using assms by (auto simp: manager_ok_def)
    ultimately have "unat i < pg_flushed_count m" using h(2) by fastforce
    then show ?thesis using read_page_take[OF read[OF h(1)]] by simp
  qed
  then show "manager_ok crc (discard_appends m)"
    using assms unfolding manager_ok_def store
    by (auto simp: discard_appends_def cache_bounded_def dom_def split: if_splits)
  show "pg_flushed_count (discard_appends m) = pg_flushed_count m" by (simp add: discard_appends_def)
qed

lemma prefix_pages_of: "prefix (pages_of (take (n * PAGE_SIZE) f)) (pages_of f)" if "n * PAGE_SIZE \<le> length f"
proof -
  have "length (take (n * PAGE_SIZE) f) = n * PAGE_SIZE" using that by simp
  from pages_of_append[OF this, of "drop (n * PAGE_SIZE) f"] show ?thesis by (metis append_take_drop_id prefixI)
qed

text \<open>A refresh takes the pages another writer has added to the file.\<close>

lemma refresh_page_count_correct:
  assumes "manager_ok crc m" "snd (refresh_page_count None m) = Inr ()" "length (pg_file (fst (flush_appends None m))) < 2 ^ 64"
  shows "manager_ok crc (fst (refresh_page_count None m))"
    "store_of (fst (refresh_page_count None m)) = pages_of (pg_file (fst (flush_appends None m)))"
    "prefix (store_of m) (store_of (fst (refresh_page_count None m)))"
proof -
  obtain f where f: "flush_appends None m = (f, Inr ())" by (cases "pg_pending m = []") (auto simp: flush_appends_def)
  note ok = flush_appends_correct[OF assms(1), of None, unfolded f fst_conv snd_conv]
  let ?n = "length (pg_file f) div PAGE_SIZE"
  have aligned: "?n * PAGE_SIZE = length (pg_file f)"
    using assms(2) f by (auto simp: refresh_page_count_def Let_def split: if_splits)
  have r: "fst (refresh_page_count None m) = f\<lparr> pg_page_count := ?n, pg_flushed_count := ?n \<rparr>"
    using assms(2) f by (auto simp: refresh_page_count_def Let_def split: if_splits)
  have pending: "pg_pending f = []" using f by (auto simp: flush_appends_def split: if_splits)
  have store: "store_of (fst (refresh_page_count None m)) = pages_of (pg_file f)"
    using r pending aligned by (simp add: store_of_def)
  then show "store_of (fst (refresh_page_count None m)) = pages_of (pg_file (fst (flush_appends None m)))" using f by simp
  have "store_of m = pages_of (take (pg_flushed_count f * PAGE_SIZE) (pg_file f))"
    using ok(2) pending by (simp add: store_of_def)
  moreover have "pg_flushed_count f * PAGE_SIZE \<le> length (pg_file f)" using ok(1) by (simp add: manager_ok_def)
  ultimately show prefix: "prefix (store_of m) (store_of (fst (refresh_page_count None m)))"
    using prefix_pages_of store by simp
  have "?n < 2 ^ 64" using assms(3)[unfolded f fst_conv] by (rule le_less_trans[OF div_le_dividend])
  moreover have "read_page crc (store_of (fst (refresh_page_count None m))) i = Inr p" if "holds (pg_cache f) i p" for i p
    using ok(1,2) that read_page_mono[OF _ prefix] by (simp add: manager_ok_def)
  ultimately show "manager_ok crc (fst (refresh_page_count None m))"
    using ok(1) pending aligned unfolding manager_ok_def r by simp
qed

text \<open>Opening drops the fragment of a page at the end of the file.\<close>

lemma pg_open_correct:
  assumes "pg_open crc capacity f = Inr m" "length f < 2 ^ 64" "f \<noteq> []"
  shows "manager_ok crc m" "store_of m = pages_of f" "pg_flushed_count m = length f div PAGE_SIZE"
proof -
  let ?f = "if length f mod PAGE_SIZE \<noteq> 0 then take (length f - length f mod PAGE_SIZE) f else f"
  let ?n = "length f div PAGE_SIZE"
  have cut: "?f = take (?n * PAGE_SIZE) f" by (auto simp: minus_mod_eq_div_mult[symmetric])
  have len: "length ?f = ?n * PAGE_SIZE" unfolding cut length_take by (rule min_absorb2) (rule div_times_less_eq_dividend)
  then have count: "length ?f div PAGE_SIZE = ?n" by simp
  define m0 where "m0 = \<lparr> pg_file = ?f, pg_page_count = ?n, pg_flushed_count = ?n, pg_pending = [],
      pg_cache = empty_cache, pg_capacity = max capacity 1, pg_dirty = False \<rparr>"
  have "?n < 2 ^ 64" using assms(2) div_le_dividend[of "length f" PAGE_SIZE] by linarith
  then have ok: "manager_ok crc m0"
    using len by (simp add: manager_ok_def m0_def cache_bounded_def empty_cache_def holds_def)
  have m: "m = fst (pg_read crc 0 m0)"
    using assms(1,3) count unfolding pg_open_def Let_def m0_def
    by (auto simp: ebind_Inr_iff split: prod.splits sum.splits)
  show "manager_ok crc m" unfolding m by (rule pg_read_correct(2)[OF ok])
  have "store_of m0 = pages_of (take (?n * PAGE_SIZE) f)" using cut by (simp add: store_of_def m0_def)
  moreover have "pages_of f = pages_of (take (?n * PAGE_SIZE) f)"
  proof -
    have "prefix (pages_of (take (?n * PAGE_SIZE) f)) (pages_of f)" by (rule prefix_pages_of) simp
    moreover have "length (pages_of (take (?n * PAGE_SIZE) f)) = length (pages_of f)" using len unfolding cut by simp
    ultimately show ?thesis unfolding prefix_def by (metis append_eq_append_conv append_Nil2)
  qed
  ultimately show "store_of m = pages_of f" using pg_read_correct(3)[OF ok, of 0] m by simp
  show "pg_flushed_count m = ?n" unfolding m
    by (simp add: pg_read_def m0_def empty_cache_def Let_def split: sum.splits)
qed

section \<open>Runs\<close>

datatype page_op = OpRead u64 | OpAppend page | OpFlush "nat option" | OpSync "nat option" | OpDiscard
datatype page_out = PageOut "vyrn_error + page" | IdOut u64 | UnitOut "vyrn_error + unit"

fun manager_step :: "(bytes \<Rightarrow> u32) \<Rightarrow> page_op \<Rightarrow> page_manager \<Rightarrow> page_manager \<times> page_out" where
  "manager_step crc (OpRead i) m = (case pg_read crc i m of (m, r) \<Rightarrow> (m, PageOut r))"
| "manager_step crc (OpAppend p) m = (case pg_append crc p m of (m, i) \<Rightarrow> (m, IdOut i))"
| "manager_step crc (OpFlush short) m = (case flush_appends short m of (m, r) \<Rightarrow> (m, UnitOut r))"
| "manager_step crc (OpSync short) m = (case pg_sync short m of (m, r) \<Rightarrow> (m, UnitOut r))"
| "manager_step crc OpDiscard m = (discard_appends m, UnitOut (Inr ()))"

text \<open>The plain list of pages, with the number of pages that a failed mutation leaves.\<close>

definition store_flush :: "nat option \<Rightarrow> page_store \<times> nat \<Rightarrow> (page_store \<times> nat) \<times> page_out" where
  "store_flush short s =
     (if snd s = length (fst s) then (s, UnitOut (Inr ()))
      else case short of Some _ \<Rightarrow> (s, UnitOut (Inl Io)) | None \<Rightarrow> ((fst s, length (fst s)), UnitOut (Inr ())))"

fun store_step :: "(bytes \<Rightarrow> u32) \<Rightarrow> page_op \<Rightarrow> page_store \<times> nat \<Rightarrow> (page_store \<times> nat) \<times> page_out" where
  "store_step crc (OpRead i) s = (s, PageOut (read_page crc (fst s) i))"
| "store_step crc (OpAppend p) s = (case append_page crc (fst s) p of (ps, i) \<Rightarrow> ((ps, snd s), IdOut i))"
| "store_step crc (OpFlush short) s = store_flush short s"
| "store_step crc (OpSync short) s = store_flush short s"
| "store_step crc OpDiscard s = ((take (snd s) (fst s), snd s), UnitOut (Inr ()))"

fun run_steps :: "('op \<Rightarrow> 's \<Rightarrow> 's \<times> 'out) \<Rightarrow> 'op list \<Rightarrow> 's \<Rightarrow> 's \<times> 'out list" where
  "run_steps f [] s = (s, [])"
| "run_steps f (x # xs) s = (case f x s of (s, out) \<Rightarrow> case run_steps f xs s of (s, outs) \<Rightarrow> (s, out # outs))"

text \<open>
  A simulation of one step lifts to runs.  \<open>ok n\<close> is an invariant that leaves room
  for \<open>n\<close> more steps.
\<close>

locale step_simulation =
  fixes step :: "'op \<Rightarrow> 's \<Rightarrow> 's \<times> 'out" and spec :: "'op \<Rightarrow> 'a \<Rightarrow> 'a \<times> 'out"
    and seen :: "'s \<Rightarrow> 'a" and ok :: "nat \<Rightarrow> 's \<Rightarrow> bool" and allowed :: "'op \<Rightarrow> bool"
  assumes step_ok: "ok (Suc n) s \<Longrightarrow> allowed op \<Longrightarrow> ok n (fst (step op s))"
    and step_seen: "ok (Suc n) s \<Longrightarrow> allowed op \<Longrightarrow> spec op (seen s) = (seen (fst (step op s)), snd (step op s))"
begin

lemma run_seen:
  "ok (length ops + n) s \<Longrightarrow> \<forall>op \<in> set ops. allowed op \<Longrightarrow>
     ok n (fst (run_steps step ops s)) \<and>
     run_steps spec ops (seen s) = (seen (fst (run_steps step ops s)), snd (run_steps step ops s))"
proof (induction ops arbitrary: s)
  case (Cons op ops)
  then have "ok (length ops + n) (fst (step op s))"
    "spec op (seen s) = (seen (fst (step op s)), snd (step op s))"
    using step_ok[of "length ops + n" s op] step_seen[of "length ops + n" s op] by simp_all
  with Cons show ?case by (simp add: split_def)
qed simp

end

definition view :: "page_manager \<Rightarrow> page_store \<times> nat" where
  "view m = (store_of m, pg_flushed_count m)"

lemma flush_view:
  assumes "manager_ok crc m"
  shows "view (fst (flush_appends short m)) = fst (store_flush short (view m))"
    "UnitOut (snd (flush_appends short m)) = snd (store_flush short (view m))"
proof -
  have "pg_pending m = [] \<longleftrightarrow> pg_flushed_count m = pg_page_count m" using assms by (auto simp: manager_ok_def)
  then show "view (fst (flush_appends short m)) = fst (store_flush short (view m))"
    "UnitOut (snd (flush_appends short m)) = snd (store_flush short (view m))"
    using flush_appends_correct(2)[OF assms, of short] store_of_parts(2)[OF assms]
    by (auto simp: view_def store_flush_def flush_appends_def split: option.splits if_splits)
qed

lemma sync_flush:
  "snd (pg_sync short m) = snd (flush_appends short m)"
  "\<exists>d. fst (pg_sync short m) = (fst (flush_appends short m))\<lparr> pg_dirty := d \<rparr>"
proof -
  obtain f r where f: "flush_appends short m = (f, r)" by (cases "flush_appends short m")
  then show "snd (pg_sync short m) = snd (flush_appends short m)" by (cases r) (simp_all add: pg_sync_def)
  have "fst (pg_sync short m) = f\<lparr> pg_dirty := (if r = Inr () then False else pg_dirty f) \<rparr>"
    using f by (cases r) (simp_all add: pg_sync_def)
  then show "\<exists>d. fst (pg_sync short m) = (fst (flush_appends short m))\<lparr> pg_dirty := d \<rparr>" unfolding f fst_conv by (rule exI)
qed

lemma dirty_view: "view (m\<lparr> pg_dirty := d \<rparr>) = view m" "manager_ok crc (m\<lparr> pg_dirty := d \<rparr>) = manager_ok crc m"
  by (simp_all add: view_def store_of_def manager_ok_def)

lemma manager_step_view:
  assumes "manager_ok crc m" "\<And>p. op = OpAppend p \<Longrightarrow> page_wf p" "pg_page_count m + 1 < 2 ^ 64"
  shows "manager_ok crc (fst (manager_step crc op m))"
    "(view (fst (manager_step crc op m)), snd (manager_step crc op m)) = store_step crc op (view m)"
    "pg_page_count (fst (manager_step crc op m)) \<le> pg_page_count m + 1"
proof -
  have count: "length (store_of m) = pg_page_count m" if "manager_ok crc m" for m using store_of_parts(2)[OF that] .
  have ok: "manager_ok crc (fst (manager_step crc op m)) \<and>
    (view (fst (manager_step crc op m)), snd (manager_step crc op m)) = store_step crc op (view m)"
  proof (cases op)
    case (OpRead i)
    obtain m' r where r: "pg_read crc i m = (m', r)" by (cases "pg_read crc i m")
    have "pg_flushed_count m' = pg_flushed_count m"
      using r by (auto simp: pg_read_def Let_def split: option.splits if_splits sum.splits)
    then show ?thesis using OpRead pg_read_correct[OF assms(1), of i] r by (simp add: view_def)
  next
    case (OpAppend p)
    then show ?thesis using pg_append_correct[OF assms(1) assms(2)[OF OpAppend] assms(3)]
      by (auto simp: view_def split_def pg_append_def Let_def prod_eq_iff)
  next
    case (OpFlush short)
    then show ?thesis using flush_appends_correct(1)[OF assms(1), of short] flush_view[OF assms(1), of short]
      by (simp add: split_def prod_eq_iff)
  next
    case (OpSync short)
    obtain d where "fst (pg_sync short m) = (fst (flush_appends short m))\<lparr> pg_dirty := d \<rparr>" using sync_flush(2) by blast
    then show ?thesis using OpSync flush_appends_correct(1)[OF assms(1), of short] flush_view[OF assms(1), of short]
      by (simp add: split_def prod_eq_iff sync_flush(1) dirty_view)
  next
    case OpDiscard
    then show ?thesis using discard_appends_correct[OF assms(1)] by (simp add: view_def)
  qed
  then show "manager_ok crc (fst (manager_step crc op m))"
    "(view (fst (manager_step crc op m)), snd (manager_step crc op m)) = store_step crc op (view m)" by blast+
  have "length (fst (fst (store_step crc op (view m)))) \<le> length (store_of m) + 1"
    by (cases op) (auto simp: view_def append_page_def store_flush_def Let_def split: option.splits)
  moreover have "fst (fst (store_step crc op (view m))) = store_of (fst (manager_step crc op m))"
    using ok by (metis fst_conv view_def)
  ultimately show "pg_page_count (fst (manager_step crc op m)) \<le> pg_page_count m + 1"
    using count[OF assms(1)] count ok by fastforce
qed

lemma manager_step_capacity: "pg_capacity (fst (manager_step crc op m)) = pg_capacity m"
  by (cases op) (simp_all add: pg_read_def pg_append_def flush_appends_def pg_sync_def discard_appends_def Let_def
      split: option.splits sum.splits)

definition roomy :: "(bytes \<Rightarrow> u32) \<Rightarrow> nat \<Rightarrow> nat \<Rightarrow> page_manager \<Rightarrow> bool" where
  "roomy crc capacity n m \<longleftrightarrow> manager_ok crc m \<and> pg_page_count m + n < 2 ^ 64 \<and> pg_capacity m = capacity"

fun page_op_ok :: "page_op \<Rightarrow> bool" where
  "page_op_ok (OpAppend p) \<longleftrightarrow> page_wf p"
| "page_op_ok op \<longleftrightarrow> True"

interpretation managed: step_simulation "manager_step crc" "store_step crc" view "roomy crc capacity" page_op_ok
  for crc capacity
proof unfold_locales
  fix n m op assume a: "roomy crc capacity (Suc n) m" "page_op_ok op"
  have m: "manager_ok crc m" "pg_page_count m + 1 < 2 ^ 64" "\<And>p. op = OpAppend p \<Longrightarrow> page_wf p"
    using a by (auto simp: roomy_def)
  note step = manager_step_view[OF m(1) m(3) m(2), of op, simplified]
  show "roomy crc capacity n (fst (manager_step crc op m))"
    using step(1,3) manager_step_capacity[of crc op m] a(1) by (simp add: roomy_def)
  show "store_step crc op (view m) = (view (fst (manager_step crc op m)), snd (manager_step crc op m))"
    using step(2) by simp
qed

text \<open>
  C11: over every sequence of reads, appends, flushes, syncs and discards, with a flush
  cut off after any number of bytes, the manager answers as the plain list of its
  pages does, and its cache never holds more pages than its capacity.
\<close>

theorem page_manager_refines:
  assumes "manager_ok crc m" "\<forall>op \<in> set ops. page_op_ok op" "pg_page_count m + length ops < 2 ^ 64"
  shows "run_steps (store_step crc) ops (view m) =
      (view (fst (run_steps (manager_step crc) ops m)), snd (run_steps (manager_step crc) ops m)) \<and>
    card (dom (pc_pages (pg_cache (fst (run_steps (manager_step crc) ops m))))) \<le> pg_capacity m"
proof -
  have "roomy crc (pg_capacity m) (length ops + 0) m" using assms(1,3) by (simp add: roomy_def)
  from managed.run_seen[OF this assms(2)] show ?thesis
    using bounded_card by (auto simp: roomy_def manager_ok_def)
qed

definition fresh_manager :: page_manager where
  "fresh_manager = \<lparr> pg_file = [], pg_page_count = 0, pg_flushed_count = 0, pg_pending = [],
     pg_cache = empty_cache, pg_capacity = 1, pg_dirty = False \<rparr>"

theorem page_manager_refines_witness:
  "snd (run_steps (manager_step sample_crc)
      [OpAppend (new_page SUPER 0), OpFlush (Some 7), OpDiscard, OpRead 0] fresh_manager) =
    [IdOut 0, UnitOut (Inl Io), UnitOut (Inr ()),
     PageOut (Inl (CorruptPage 0 ''page reference is out of bounds''))]"
proof -
  let ?ops = "[OpAppend (new_page SUPER 0), OpFlush (Some 7), OpDiscard, OpRead 0]"
  have "manager_ok sample_crc fresh_manager" "view fresh_manager = ([], 0)"
    by (simp_all add: fresh_manager_def manager_ok_def view_def store_of_def cache_bounded_def empty_cache_def holds_def)
  moreover have "run_steps (store_step sample_crc) ?ops ([], 0) =
      (([], 0), [IdOut 0, UnitOut (Inl Io), UnitOut (Inr ()),
       PageOut (Inl (CorruptPage 0 ''page reference is out of bounds''))])"
    by (simp add: append_page_def Let_def store_flush_def read_page_def)
  ultimately show ?thesis
    using page_manager_refines[of sample_crc fresh_manager ?ops] by (simp add: fresh_manager_def)
qed

end
