(* ===== verification/Spec2Isabelle.thy ===== *)
theory Spec2Isabelle
  imports Protocol DocumentKeys FeedEngine WalWriter Election RowCache TreeValidate PageCache
begin

text \<open>
  Vyrn is a durable key-value and document database in Rust.  The engine
  (\<open>src/crates/vyrn-core\<close>) keeps the current rows in a copy-on-write tree of 4 KiB
  pages, large values in an append-only value log, the versions that open
  snapshots read in a history, and every commit in a write-ahead log from which
  the rest is rebuilt.  The server (\<open>src/crates/vyrn-server\<close>) ships the log to
  replicas, waits for a quorum, and elects a new primary when the old one is
  gone.  Clients speak a binary protocol (\<open>src/crates/vyrn-protocol\<close>).

  \<^bold>\<open>How the model is written.\<close>  Byte strings are lists of 8-bit words; u16, u32 and
  u64 are words of their width, and lengths (\<open>usize\<close>) are natural numbers.  Where
  the code relies on an addition not wrapping, the file or page count it counts
  is bounded by a hypothesis of the theorem.  A fallible operation returns
  \<open>error + 'a\<close>, with \<open>Inl\<close> for every error return.  State is a record that is
  passed and returned.  CRC32 is a parameter of the definitions, and no theorem
  assumes anything of it.  Mutexes guard single operations, so an operation is one
  atomic step; interleavings are sequences of such steps.

  \<^bold>\<open>The theories.\<close>
  \<^item> \<open>Prelude\<close>: byte strings, big-endian integers, readers, self-delimiting codes
    (the locales \<open>prefix_code\<close>, \<open>canonical_code\<close> and \<open>pair_code\<close>), result values.
  \<^item> \<open>Keyspace\<close>, \<open>DocumentKeys\<close> (\<open>lib.rs\<close>, \<open>document.rs\<close>): error values, limits,
    reserved prefixes, key codes.  The key families are disjoint, and the range
    scans the engine issues select exactly the keys meant.
  \<^item> \<open>Protocol\<close> (\<open>vyrn-protocol/src/lib.rs\<close>): all messages, encoder and decoder,
    with the round trip and the canonical form of what the decoder accepts.
  \<^item> \<open>OrderedMap\<close>, \<open>TreeView\<close>: sorted rows, what a \<open>BTreeMap\<close> and the page tree
    show their callers; the locale \<open>ordered_store\<close> is the interface.
  \<^item> \<open>ChangeLog\<close>, \<open>ChangeFeed\<close>, \<open>FeedEngine\<close> (\<open>change_log.rs\<close>, \<open>lib.rs\<close>): cursors,
    change batches, the durable feed with its readers, and its trimming on a tree
    with a write-back buffer, where the retention floor is shown to move back.
  \<^item> \<open>ValueLog\<close>, \<open>ValueRuns\<close> (\<open>value_log.rs\<close>): record framing, appends, reads
    through the second-chance cache, coalesced batch reads, recovery of a torn tail.
  \<^item> \<open>Mvcc\<close> (\<open>mvcc.rs\<close>): histories, reads at a revision, collection, compaction
    and the state file, over the interface \<open>value_store\<close>.
  \<^item> \<open>WalRecord\<close>, \<open>Replay\<close>, \<open>WalWriter\<close> (\<open>lib.rs\<close>, \<open>wal.rs\<close>): record and segment
    formats, the replay of a segment with its torn-tail policy, and the writer with
    its zeroed runway, its rotation from one segment file to the next and its group
    flush of the current one.
  \<^item> \<open>ReplicationLog\<close>, \<open>ReplicationQuorum\<close> (\<open>replication.rs\<close> of the core and of the
    server): the rules of a replica for incoming records, the archive reader, the
    replica table and the quorum wait.
  \<^item> \<open>Failover\<close>, \<open>Election\<close> (\<open>epoch.rs\<close>, \<open>failover.rs\<close>, \<open>stream.rs\<close>, \<open>replica.rs\<close>,
    \<open>main.rs\<close>): a member's failover state, and the cluster as a transition system
    whose steps are the handlers of the server, with frames in flight and the two
    ends of a stream closing independently.  At most one candidate wins an epoch,
    and its log reaches every write acknowledged by registrations of different
    members; the runs in which acknowledged writes are lost are exhibited.
  \<^item> \<open>RowCache\<close> (\<open>row_cache.rs\<close>, \<open>fast_hash.rs\<close>): the cache of hot rows, shown to
    be invisible to readers, and its eviction loop, shown to end.
  \<^item> \<open>Overlay\<close>, \<open>ReadEngine\<close> (\<open>overlay.rs\<close>, \<open>lib.rs\<close>): the write-back buffer, the
    merged reads over it and the tree, its flush, and the read handles that follow
    the writer.
  \<^item> \<open>PageFormat\<close>, \<open>PageCells\<close>, \<open>PageLayout\<close>, \<open>InternalLayout\<close> (\<open>page_tree.rs\<close>): pages,
    blobs, cells, slot directories; every reader of a page answers from what the
    writers laid out, by binary search and by the sequential walk alike.
  \<^item> \<open>TreeNodes\<close>, \<open>TreeRead\<close>, \<open>TreeScan\<close> (\<open>page_tree.rs\<close>): subtrees, point reads,
    batched reads, range scans and visits, each shown to compute what \<open>TreeView\<close>
    specifies from the rows the tree holds.
  \<^item> \<open>TreeLevels\<close>, \<open>TreeMutations\<close>, \<open>TreeMerge\<close>, \<open>TreeBatch\<close>, \<open>TreeWrite\<close>, \<open>PageTree\<close>
    (\<open>page_tree.rs\<close>): packing of levels, the merge of sorted mutations into leaves,
    the merge of underfull siblings, the recursive rewrite, growth of the root,
    prepared batches and deletes, publication.  \<open>PageTree\<close> states the refinement: a
    prepared batch represents the rows the batch leaves, and the old root still
    represents the old rows.
  \<^item> \<open>TreePut\<close> (\<open>page_tree.rs\<close>): the single put, which rewrites one path; a split
    leaves at most three pages, so the page above it always fits.
  \<^item> \<open>TreeValidate\<close> (\<open>page_tree.rs\<close>): the structural check of a tree, with what it
    accepts and that it accepts every tree the writers leave.
  \<^item> \<open>PageCache\<close> (\<open>page_tree.rs\<close>): the page file, its append buffer and its cache.
    The manager refines the list of pages the other theories read and append to,
    through the simulation interface \<open>step_simulation\<close>.

  \<^bold>\<open>Bounds and fuel.\<close>  The descents of the page tree carry the depth bound
  \<open>MAX_TREE_DEPTH\<close> of the code, as fuel that counts down from it; a tree lower than
  the bound never meets it.  The theorems on writes assume that the page ids do
  not run out: \<open>write_pages\<close> (batches and deletes) and \<open>put_pages\<close> (puts) bound the
  pages one write appends, \<open>ITEM_PAGES\<close> being the most one packed item can cost with
  the blob pages of its key, and the number of pages with that bound added stays
  below 2^64.  Under it the writes are shown to succeed.  All other loops are total functions with their own
  termination proofs.

  \<^bold>\<open>Not modelled.\<close>  Files are byte strings whose writes succeed, except that a flush
  of the page file may stop after any number of bytes and a flush of the log may
  fail; other failing system calls, the page file's fsync errors, directories and renames are not modelled.  JSON documents
  (serde_json), TLS, Argon2, tokio's scheduler and sockets are third-party code.
  Opening a data directory, checkpoints, backups, export, salvage and the archive
  of old segments compose the modelled formats with file copies, renames and lock
  files, and are left out, as are the engine's batch application (apart from internal
  keys), snapshots and secondary indexes above the tree, \<open>compact_to\<close>, and the server's sessions, limits
  and authentication.  The HTTP gateway, the Rust client, the command-line tools, logging, metrics and
  the TypeScript SDK are input and output around the parts above.
\<close>

end
